(* ===== verification/Prelude.thy ===== *)
theory Prelude
  imports "HOL-Library.Word"
begin

text \<open>
  Shared vocabulary of the development: the machine integer types of an LP64 build, big-endian
  byte strings, writes into a byte buffer, and the two contracts the components rely on, a parser
  that only consumes a prefix of its input and a codec whose decoder undoes its encoder whatever
  follows in the input.
\<close>

unbundle bit_operations_syntax

type_synonym u8 = "8 word"
type_synonym u16 = "16 word"
type_synonym u32 = "32 word"
type_synonym u64 = "64 word"

named_theorems parser_simps \<open>how a reader acts on an input it accepts\<close>
named_theorems buffer_simps \<open>lengths, prefixes and bytes of an updated buffer\<close>

section \<open>Machine words\<close>

lemma unat_u8_less [simp]: "unat (b :: u8) < 256"
  using unsigned_less [of b] by simp

lemma unat_u8_le [simp]: "unat (b :: u8) \<le> 255"
  using unat_u8_less [of b] by linarith

lemma unat_of_nat_u8: "unat (of_nat n :: u8) = n mod 256"
  by (simp add: unat_of_nat)

lemma unat_of_nat_u64_small: "n < 2 ^ 64 \<Longrightarrow> unat (of_nat n :: u64) = n"
  by (simp add: unat_of_nat)

lemma unat_u64_less [simp]: "unat (w :: u64) < 18446744073709551616"
  using unsigned_less [of w] by simp

lemma unat_u64_add:
  "unat (a + b :: u64) =
     (if unat a + unat b < 2 ^ 64 then unat a + unat b else unat a + unat b - 2 ^ 64)"
proof -
  have "unat a + unat b < 36893488147419103232"
    using unat_u64_less [of a] unat_u64_less [of b] by linarith
  then show ?thesis by (auto simp: unat_word_ariths le_mod_geq)
qed

lemma u64_add_overflow: "a + b < (a :: u64) \<longleftrightarrow> 2 ^ 64 \<le> unat a + unat b"
proof -
  have "unat a + unat b - 2 ^ 64 < unat a" if "2 ^ 64 \<le> unat a + unat b"
    using that unat_u64_less [of b] by (auto simp del: unat_u64_less)
  then show ?thesis by (auto simp: word_less_nat_alt unat_u64_add)
qed

lemma bits_above: "unat w < 2 ^ k \<Longrightarrow> k \<le> n \<Longrightarrow> \<not> bit (w :: 'a::len word) n"
proof -
  assume "unat w < 2 ^ k" and "k \<le> n"
  then have "take_bit k w = w"
    by (intro word_unat_eq_iff [THEN iffD2]) (simp add: unsigned_take_bit_eq take_bit_nat_eq_self)
  with \<open>k \<le> n\<close> show ?thesis by (metis bit_take_bit_iff not_le)
qed

lemma word_or_push_bit_add:
  fixes a b :: "'a::len word"
  assumes "unat b < 2 ^ n"
  shows "push_bit n a OR b = push_bit n a + b"
proof -
  have "\<not> bit b k" if "n \<le> k" for k
    using assms that by (rule bits_above)
  then have "push_bit n a AND b = 0"
    by (auto intro!: bit_word_eqI simp: bit_simps)
  then show ?thesis by (simp add: disjunctive_add_eq_or)
qed

lemma and_push_bit_1: "x AND push_bit n 1 = (if bit x n then push_bit n 1 else (0 :: 'a::len word))"
  by (auto intro!: bit_word_eqI simp: bit_simps)

lemma u8_and_80: "b AND 0x80 = (if bit b 7 then 0x80 else (0 :: u8))"
  using and_push_bit_1 [of b 7] by simp

lemma u8_split_80: "b = (b AND 0x7f) OR (if b AND 0x80 \<noteq> 0 then 0x80 else (0 :: u8))"
proof -
  have "(0x7f OR 0x80 :: u8) = -1" by simp
  then have "b = b AND (0x7f OR 0x80)" by (simp only: and.right_neutral)
  also have "\<dots> = (b AND 0x7f) OR (b AND 0x80)" by (rule bit.conj_disj_distrib)
  also have "\<dots> = (b AND 0x7f) OR (if b AND 0x80 \<noteq> 0 then 0x80 else 0)" by (simp add: u8_and_80)
  finally show ?thesis .
qed

lemma unat_ucast_small:
  fixes w :: "'a::len word"
  assumes "unat w < 2 ^ LENGTH('b::len)"
  shows "unat (ucast w :: 'b word) = unat w"
  using assms by (simp add: unsigned_ucast_eq unsigned_take_bit_eq take_bit_nat_eq_self)

lemma unat_ucast_u8_u64 [simp]: "unat (ucast (b :: u8) :: u64) = unat b"
  by (simp add: unsigned_ucast_eq take_bit_nat_eq_self less_trans [OF unat_u8_less])

lemma unat_ucast_u8_u32 [simp]: "unat (ucast (b :: u8) :: u32) = unat b"
  by (simp add: unsigned_ucast_eq take_bit_nat_eq_self less_trans [OF unat_u8_less])

lemma ucast_u8_of_nat: "(ucast (b :: u8) :: u64) = of_nat (unat b)"
  by (simp add: unsigned_ucast_eq)

lemma unat_times_8: "8 * unat n < 2 ^ 64 \<Longrightarrow> unat (n * 8 :: u64) = 8 * unat n"
  by (subst unat_mult_lem [THEN iffD1]) (auto simp: mult.commute)

lemma div_8_times_8: "(n * 8 :: u64) div 8 = n \<longleftrightarrow> 8 * unat n < 2 ^ 64"
proof
  assume "(n * 8) div 8 = n"
  then have "unat n = unat (n * 8) div 8" using unat_div [of "n * 8" 8] by simp
  then have "8 * unat n \<le> unat (n * 8)" by simp
  also have "\<dots> < 2 ^ 64" by simp
  finally show "8 * unat n < 2 ^ 64" .
next
  assume "8 * unat n < 2 ^ 64"
  then show "(n * 8) div 8 = n"
    by (intro word_unat_eq_iff [THEN iffD2]) (simp only: unat_div unat_times_8, simp)
qed

section \<open>Big-endian byte strings\<close>

definition be_nat :: "u8 list \<Rightarrow> nat" where
  "be_nat bs = foldl (\<lambda>n b. 256 * n + unat b) 0 bs"

fun be_bytes :: "nat \<Rightarrow> nat \<Rightarrow> u8 list" where
  "be_bytes 0 v = []"
| "be_bytes (Suc n) v = be_bytes n (v div 256) @ [of_nat v]"

lemma be_nat_Nil [simp]: "be_nat [] = 0"
  by (simp add: be_nat_def)

lemma be_nat_snoc [simp]: "be_nat (bs @ [b]) = 256 * be_nat bs + unat b"
  by (simp add: be_nat_def)

lemma be_nat_single [simp]: "be_nat [b] = unat b"
  by (simp add: be_nat_def)

lemma length_be_bytes [simp]: "length (be_bytes n v) = n"
  by (induction n v rule: be_bytes.induct) auto

lemma be_nat_less: "be_nat bs < 256 ^ length bs"
proof (induction bs rule: rev_induct)
  case (snoc b bs)
  then have "be_nat bs + 1 \<le> 256 ^ length bs" by simp
  then have "256 * (be_nat bs + 1) \<le> 256 * 256 ^ length bs" by (rule mult_le_mono2)
  moreover have "256 * be_nat bs + unat b < 256 * (be_nat bs + 1)" by simp
  ultimately have "256 * be_nat bs + unat b < 256 * 256 ^ length bs" by (rule less_le_trans [rotated])
  then show ?case by simp
qed simp

lemma be_nat_be_bytes: "be_nat (be_bytes n v) = v mod 256 ^ n"
proof (induction n v rule: be_bytes.induct)
  case (2 n v)
  have "v mod (256 * 256 ^ n) = 256 * (v div 256 mod 256 ^ n) + v mod 256"
    by (rule mod_mult2_eq)
  with 2 show ?case by (simp add: unat_of_nat_u8)
qed simp

lemma be_nat_be_bytes_small [simp]: "v < 256 ^ n \<Longrightarrow> be_nat (be_bytes n v) = v"
  by (simp add: be_nat_be_bytes)

lemma be_bytes_be_nat [simp]: "be_bytes (length bs) (be_nat bs) = bs"
proof (induction bs rule: rev_induct)
  case (snoc b bs)
  have "(256 * be_nat bs + unat b) div 256 = be_nat bs" by simp
  moreover have "(of_nat (256 * be_nat bs + unat b) :: u8) = b"
    by (rule word_unat_eq_iff [THEN iffD2]) (simp only: unat_of_nat_u8, simp)
  ultimately show ?case using snoc by simp
qed simp

lemma be_bytes_eq_iff:
  "length bs = n \<Longrightarrow> be_bytes n v = bs \<longleftrightarrow> be_nat bs = v mod 256 ^ n"
  by (metis be_bytes_be_nat be_nat_be_bytes length_be_bytes)

lemma be_nat_append: "be_nat (xs @ ys) = be_nat xs * 256 ^ length ys + be_nat ys"
proof (induction ys rule: rev_induct)
  case (snoc y ys)
  have "be_nat (xs @ ys @ [y]) = 256 * be_nat (xs @ ys) + unat y"
    using be_nat_snoc [of "xs @ ys" y] by simp
  with snoc show ?case by (simp add: algebra_simps)
qed simp

lemma be_nat_Cons: "be_nat (b # bs) = unat b * 256 ^ length bs + be_nat bs"
  using be_nat_append [of "[b]" bs] by simp

text \<open>The accumulation loop the C code uses, on 64-bit words.\<close>

definition shift_in :: "u64 \<Rightarrow> u8 \<Rightarrow> u64" where
  "shift_in r b = push_bit 8 r OR ucast b"

lemma shift_in_add: "shift_in r b = 256 * r + ucast b"
proof -
  have "unat (ucast b :: u64) < 2 ^ 8" by simp
  then have "shift_in r b = push_bit 8 r + ucast b"
    unfolding shift_in_def by (rule word_or_push_bit_add)
  then show ?thesis by (simp add: push_bit_eq_mult)
qed

lemma foldl_shift_in: "foldl shift_in 0 bs = of_nat (be_nat bs)"
proof (induction bs rule: rev_induct)
  case (snoc b bs)
  have "foldl shift_in 0 (bs @ [b]) = 256 * of_nat (be_nat bs) + of_nat (unat b)"
    by (simp only: foldl_append foldl.simps snoc shift_in_add ucast_u8_of_nat)
  then show ?case by (simp only: be_nat_snoc of_nat_add of_nat_mult of_nat_numeral)
qed simp

lemma unat_foldl_shift_in:
  assumes "length bs \<le> 8"
  shows "unat (foldl shift_in 0 bs) = be_nat bs"
proof -
  have "be_nat bs < 256 ^ length bs" by (rule be_nat_less)
  also have "\<dots> \<le> 256 ^ 8" using assms by (intro power_increasing) auto
  finally have "be_nat bs < 2 ^ 64" by simp
  then show ?thesis by (simp add: foldl_shift_in unat_of_nat_u64_small)
qed

section \<open>Writes into a byte buffer\<close>

definition write_at :: "nat \<Rightarrow> 'a list \<Rightarrow> 'a list \<Rightarrow> 'a list" where
  "write_at off bs buf = take off buf @ bs @ drop (off + length bs) buf"

lemma length_write_at [buffer_simps]:
  "off + length bs \<le> length buf \<Longrightarrow> length (write_at off bs buf) = length buf"
  by (simp add: write_at_def)

lemma take_write_at_before [buffer_simps]:
  "n \<le> off \<Longrightarrow> off \<le> length buf \<Longrightarrow> take n (write_at off bs buf) = take n buf"
  by (simp add: write_at_def min_def)

lemma take_write_at_end [buffer_simps]:
  "off \<le> length buf \<Longrightarrow> take (off + length bs) (write_at off bs buf) = take off buf @ bs"
  by (simp add: write_at_def)

lemma write_at_Nil [simp]: "write_at off [] buf = buf"
  by (simp add: write_at_def)

lemma drop_write_at [buffer_simps]:
  "off + length bs \<le> length buf \<Longrightarrow>
     drop (off + length bs) (write_at off bs buf) = drop (off + length bs) buf"
  by (simp add: write_at_def)

lemma nth_write_at:
  "off + length bs \<le> length buf \<Longrightarrow> j < length buf \<Longrightarrow>
     write_at off bs buf ! j = (if off \<le> j \<and> j < off + length bs then bs ! (j - off) else buf ! j)"
  by (auto simp: write_at_def nth_append min_def)

section \<open>Contracts\<close>

text \<open>
  A reader maps the unread input to a result (\<open>None\<close> is the C return value 0) and the input it
  leaves. Whatever it answers, what it leaves is a suffix of what it was given.
\<close>

type_synonym 'a reader = "u8 list \<Rightarrow> 'a option \<times> u8 list"

definition rreturn :: "'a \<Rightarrow> 'a reader" where
  "rreturn x s = (Some x, s)"

definition rfail :: "'a reader" where
  "rfail s = (None, s)"

definition rbind :: "'a reader \<Rightarrow> ('a \<Rightarrow> 'b reader) \<Rightarrow> 'b reader" where
  "rbind f g s = (case f s of (None, s') \<Rightarrow> (None, s') | (Some x, s') \<Rightarrow> g x s')"

text \<open>\<open>rbind f g\<close> is the C idiom \<open>if (!f(cbs, &x)) return 0;\<close> followed by \<open>g\<close>.\<close>

lemma rreturn_apply [simp]: "rreturn x s = (Some x, s)"
  by (simp add: rreturn_def)

lemma rfail_apply [simp]: "rfail s = (None, s)"
  by (simp add: rfail_def)

lemma rbind_Some [parser_simps]: "f s = (Some x, s') \<Longrightarrow> rbind f g s = g x s'"
  by (simp add: rbind_def)

lemma rbind_None [parser_simps]: "f s = (None, s') \<Longrightarrow> rbind f g s = (None, s')"
  by (simp add: rbind_def)

lemma rbind_SomeE:
  assumes "rbind f g s = (Some y, t)"
  obtains x s' where "f s = (Some x, s')" and "g x s' = (Some y, t)"
  using assms by (auto simp: rbind_def split: prod.splits option.splits)

locale suffix_reader =
  fixes rd :: "u8 list \<Rightarrow> 'a option \<times> u8 list"
  assumes suffix_law: "\<exists>pre. s = pre @ snd (rd s)"
begin

lemma length_le: "length (snd (rd s)) \<le> length s"
  by (metis suffix_law le_add2 length_append)

lemma suffix_is_drop: "snd (rd s) = drop (length s - length (snd (rd s))) s"
proof -
  obtain pre where pre: "s = pre @ snd (rd s)" using suffix_law by blast
  have "length s = length pre + length (snd (rd s))" by (metis pre length_append)
  then have "drop (length s - length (snd (rd s))) (pre @ snd (rd s)) = snd (rd s)" by simp
  with pre show ?thesis by simp
qed

end

lemma suffix_rreturn [intro!]: "suffix_reader (rreturn x)"
  by unfold_locales simp

lemma suffix_rfail [intro!]: "suffix_reader rfail"
  by unfold_locales simp

lemma suffix_rbind [intro]:
  assumes f: "suffix_reader f" and g: "\<And>x. suffix_reader (g x)"
  shows "suffix_reader (rbind f g)"
proof
  fix s
  obtain pre where pre: "s = pre @ snd (f s)"
    using suffix_reader.suffix_law [OF f] by blast
  show "\<exists>pre. s = pre @ snd (rbind f g s)"
  proof (cases "fst (f s)")
    case None
    with pre show ?thesis by (auto simp: rbind_def split: prod.splits option.splits)
  next
    case (Some x)
    obtain pre' where "snd (f s) = pre' @ snd (g x (snd (f s)))"
      using suffix_reader.suffix_law [OF g] by blast
    with Some have "s = (pre @ pre') @ snd (rbind f g s)"
      by (subst pre) (auto simp: rbind_def split: prod.splits option.splits)
    then show ?thesis by blast
  qed
qed

lemma suffix_If [intro]:
  "suffix_reader f \<Longrightarrow> suffix_reader g \<Longrightarrow> suffix_reader (if b then f else g)"
  by simp

text \<open>An atomic reader leaves its input alone when it fails.\<close>

locale atomic_reader = suffix_reader +
  assumes atomic_law: "fst (rd s) = None \<Longrightarrow> snd (rd s) = s"

text \<open>
  A codec: on valid values the decoder undoes the encoder and leaves exactly what follows. The
  consequences are proved once: the encoding is injective and prefix free, and a repeated decoder
  undoes the concatenation of encodings.
\<close>

fun read_list :: "'a reader \<Rightarrow> nat \<Rightarrow> 'a list reader" where
  "read_list rd 0 s = (Some [], s)"
| "read_list rd (Suc n) s =
     (case rd s of
        (None, s') \<Rightarrow> (None, s')
      | (Some x, s') \<Rightarrow>
          (case read_list rd n s' of
             (None, s'') \<Rightarrow> (None, s'')
           | (Some xs, s'') \<Rightarrow> (Some (x # xs), s'')))"

locale codec =
  fixes enc :: "'a \<Rightarrow> u8 list"
    and dec :: "u8 list \<Rightarrow> 'a option \<times> u8 list"
    and valid :: "'a \<Rightarrow> bool"
  assumes roundtrip: "valid x \<Longrightarrow> dec (enc x @ rest) = (Some x, rest)"
begin

lemma prefix_free:
  assumes "valid x" and "valid y" and "enc x @ r = enc y @ r'"
  shows "x = y \<and> r = r'"
proof -
  have "(Some x, r) = dec (enc x @ r)" using assms(1) by (simp only: roundtrip)
  also have "\<dots> = dec (enc y @ r')" by (simp only: assms(3))
  also have "\<dots> = (Some y, r')" using assms(2) by (simp only: roundtrip)
  finally show ?thesis by simp
qed

lemma enc_inj: "valid x \<Longrightarrow> valid y \<Longrightarrow> enc x = enc y \<Longrightarrow> x = y"
  by (rule prefix_free [of x y "[]" "[]", THEN conjunct1]) auto

lemma roundtrip_list:
  "\<forall>x \<in> set xs. valid x \<Longrightarrow>
     read_list dec (length xs) (concat (map enc xs) @ rest) = (Some xs, rest)"
  by (induction xs) (auto simp: roundtrip)

lemma roundtrip_end: "valid x \<Longrightarrow> dec (enc x) = (Some x, [])"
  using roundtrip [of x "[]"] by simp

end

end
