(* ===== verification/Mem.thy ===== *)
theory Mem
  imports Prelude
begin

text \<open>
  crypto/mem.c: the allocator wrapper with its size prefix, constant-time comparison, the FNV-1a
  hash and the bounded string functions. A heap block is the list of its bytes; the system
  allocator is a parameter, which says for every request size whether it is served and what the
  fresh bytes happen to be. Freeing has no functional effect and is not represented.
\<close>

section \<open>Allocation\<close>

type_synonym heap_oracle = "u64 \<Rightarrow> (nat \<Rightarrow> u8) option"

record allocator =
  OPENSSL_memory_alloc :: "heap_oracle option"
  sys_malloc :: heap_oracle

definition OPENSSL_MALLOC_PREFIX :: u64 where
  "OPENSSL_MALLOC_PREFIX = 8"

definition OPENSSL_malloc :: "allocator \<Rightarrow> u64 \<Rightarrow> u8 list option" where
  "OPENSSL_malloc al sz =
     (case OPENSSL_memory_alloc al of
        Some hook \<Rightarrow>
          (case hook sz of None \<Rightarrow> None | Some g \<Rightarrow> Some (map g [0..<unat sz]))
      | None \<Rightarrow>
          if sz + OPENSSL_MALLOC_PREFIX < sz then None
          else
            (case sys_malloc al (sz + OPENSSL_MALLOC_PREFIX) of
               None \<Rightarrow> None
             | Some g \<Rightarrow>
                 Some (map (\<lambda>i. g (i + unat OPENSSL_MALLOC_PREFIX)) [0..<unat sz])))"

text \<open>The recorded size of a live block is the length of the list.\<close>

definition OPENSSL_realloc :: "allocator \<Rightarrow> u8 list option \<Rightarrow> u64 \<Rightarrow> u8 list option" where
  "OPENSSL_realloc al orig new_size =
     (case orig of
        None \<Rightarrow> OPENSSL_malloc al new_size
      | Some old \<Rightarrow>
          (case OPENSSL_malloc al new_size of
             None \<Rightarrow> None
           | Some ret \<Rightarrow>
               (let old_size = of_nat (length old) :: u64;
                    to_copy = (if old_size < new_size then old_size else new_size)
                in Some (write_at 0 (take (unat to_copy) old) ret))))"

lemma OPENSSL_malloc_length:
  "OPENSSL_malloc al n = Some blk \<Longrightarrow> length blk = unat n"
  by (auto simp: OPENSSL_malloc_def split: option.splits if_splits)

lemma OPENSSL_malloc_overflow:
  "OPENSSL_memory_alloc al = None \<Longrightarrow> unat n + 8 \<ge> 2 ^ 64 \<Longrightarrow> OPENSSL_malloc al n = None"
  by (simp add: OPENSSL_malloc_def OPENSSL_MALLOC_PREFIX_def u64_add_overflow)

lemma OPENSSL_realloc_length:
  assumes "OPENSSL_realloc al orig n = Some blk"
  shows "length blk = unat n"
proof (cases orig)
  case None
  with assms show ?thesis by (simp add: OPENSSL_realloc_def OPENSSL_malloc_length)
next
  case (Some old)
  with assms obtain ret k where ret: "OPENSSL_malloc al n = Some ret"
    and blk: "blk = write_at 0 (take k old) ret" and k: "k \<le> unat n"
    by (auto simp: OPENSSL_realloc_def Let_def word_less_nat_alt split: option.splits if_splits)
  from ret have "length ret = unat n" by (rule OPENSSL_malloc_length)
  with k have "length (write_at 0 (take k old) ret) = length ret"
    by (intro length_write_at) simp
  with blk \<open>length ret = unat n\<close> show ?thesis by simp
qed

text \<open>Growing a block keeps every byte it had.\<close>

lemma OPENSSL_realloc_keeps:
  assumes "OPENSSL_realloc al (Some old) n = Some blk" and "length old \<le> unat n"
  shows "take (length old) blk = old"
proof -
  from assms(1) obtain ret where ret: "OPENSSL_malloc al n = Some ret"
    and blk: "blk = write_at 0
      (take (unat (if (of_nat (length old) :: u64) < n then of_nat (length old) else n)) old) ret"
    by (auto simp: OPENSSL_realloc_def Let_def split: option.splits)
  have small: "length old < 2 ^ 64"
    using assms(2) unat_u64_less [of n] by (simp del: unat_u64_less)
  have "take (unat (if (of_nat (length old) :: u64) < n then of_nat (length old) else n)) old = old"
    using assms(2) small
    by (simp add: word_less_nat_alt unat_of_nat_u64_small not_less)
  with blk have "blk = write_at 0 old ret" by simp
  then show ?thesis by (simp add: write_at_def)
qed

definition OPENSSL_memdup :: "allocator \<Rightarrow> u8 list \<Rightarrow> u8 list option" where
  "OPENSSL_memdup al data =
     (if length data = 0 then None
      else (case OPENSSL_malloc al (of_nat (length data)) of
              None \<Rightarrow> None
            | Some ret \<Rightarrow> Some (write_at 0 data ret)))"

lemma OPENSSL_memdup_Some:
  assumes "OPENSSL_memdup al data = Some ret" and "length data < 2 ^ 64"
  shows "ret = data"
proof -
  from assms(1) obtain blk where "OPENSSL_malloc al (of_nat (length data)) = Some blk"
    and ret: "ret = write_at 0 data blk"
    by (auto simp: OPENSSL_memdup_def split: option.splits if_splits)
  then have "length blk = length data"
    using assms(2) OPENSSL_malloc_length unat_of_nat_u64_small by metis
  with ret show ?thesis by (simp add: write_at_def)
qed

text \<open>An allocator that serves every request with zeros.\<close>

definition zero_alloc :: allocator where
  "zero_alloc = \<lparr>OPENSSL_memory_alloc = None, sys_malloc = (\<lambda>_. Some (\<lambda>_. 0))\<rparr>"

lemma zero_alloc_malloc: "unat n < 2 ^ 63 \<Longrightarrow> OPENSSL_malloc zero_alloc n \<noteq> None"
  by (simp add: OPENSSL_malloc_def zero_alloc_def u64_add_overflow OPENSSL_MALLOC_PREFIX_def)

section \<open>Comparison and hashing\<close>

fun memcmp :: "u8 list \<Rightarrow> u8 list \<Rightarrow> nat \<Rightarrow> int" where
  "memcmp (a # as) (b # bs) (Suc n) = (if a = b then memcmp as bs n else int (unat a) - int (unat b))"
| "memcmp _ _ _ = 0"

definition OPENSSL_memcmp :: "u8 list \<Rightarrow> u8 list \<Rightarrow> nat \<Rightarrow> int" where
  "OPENSSL_memcmp s1 s2 n = (if n = 0 then 0 else memcmp s1 s2 n)"

lemma memcmp_eq_0: "length a = length b \<Longrightarrow> memcmp a b (length a) = 0 \<longleftrightarrow> a = b"
proof (induction a arbitrary: b)
  case (Cons x a)
  then show ?case by (cases b) (auto simp: word_uint_eq_iff)
qed simp

lemma OPENSSL_memcmp_eq_0: "length a = length b \<Longrightarrow> OPENSSL_memcmp a b (length a) = 0 \<longleftrightarrow> a = b"
  by (metis OPENSSL_memcmp_def length_0_conv memcmp_eq_0)

definition CRYPTO_memcmp :: "u8 list \<Rightarrow> u8 list \<Rightarrow> nat \<Rightarrow> u8" where
  "CRYPTO_memcmp a b len = fold (\<lambda>i x. x OR (a ! i XOR b ! i)) [0..<len] 0"

lemma word_or_eq_0_iff: "(a OR b = 0) \<longleftrightarrow> a = 0 \<and> b = (0 :: 'a::len word)"
  by (auto simp: bit_eq_iff bit_simps)

lemma word_xor_eq_0_iff: "(a XOR b = 0) \<longleftrightarrow> a = (b :: 'a::len word)"
  by (auto simp: bit_eq_iff bit_simps)

lemma CRYPTO_memcmp_acc:
  "fold (\<lambda>i x. x OR (a ! i XOR b ! i)) is acc = (0 :: u8) \<longleftrightarrow> acc = 0 \<and> (\<forall>i \<in> set is. a ! i = b ! i)"
  by (induction "is" arbitrary: acc) (auto simp: word_or_eq_0_iff word_xor_eq_0_iff)

lemma CRYPTO_memcmp_eq_0:
  assumes "n \<le> length a" and "n \<le> length b"
  shows "CRYPTO_memcmp a b n = 0 \<longleftrightarrow> take n a = take n b"
  using assms by (auto simp: CRYPTO_memcmp_def CRYPTO_memcmp_acc list_eq_iff_nth_eq)

definition OPENSSL_hash32 :: "u8 list \<Rightarrow> u32" where
  "OPENSSL_hash32 bs = foldl (\<lambda>h b. (h XOR ucast b) * 16777619) 2166136261 bs"

section \<open>C strings\<close>

text \<open>
  A \<open>char *\<close> is the list of bytes from the pointer to the end of its object; the string is what
  precedes the first NUL. \<open>strlen\<close> and \<open>strcmp\<close> are libc's.
\<close>

definition cstr :: "u8 list \<Rightarrow> u8 list" where
  "cstr s = takeWhile (\<lambda>b. b \<noteq> 0) s"

definition strlen :: "u8 list \<Rightarrow> nat" where
  "strlen s = length (cstr s)"

definition OPENSSL_strhash :: "u8 list \<Rightarrow> u32" where
  "OPENSSL_strhash s = OPENSSL_hash32 (take (strlen s) s)"

lemma cstr_simps [simp]:
  "cstr [] = []" "cstr (b # s) = (if b = 0 then [] else b # cstr s)"
  by (simp_all add: cstr_def)

lemma strlen_simps [simp]:
  "strlen [] = 0" "strlen (b # s) = (if b = 0 then 0 else Suc (strlen s))"
  by (simp_all add: strlen_def)

lemma take_strlen [simp]: "take (strlen s) s = cstr s"
  by (induction s) auto

fun strnlen_from :: "u8 list \<Rightarrow> nat \<Rightarrow> nat \<Rightarrow> nat" where
  "strnlen_from s 0 i = i"
| "strnlen_from s (Suc left) i = (if s ! i = 0 then i else strnlen_from s left (Suc i))"

definition OPENSSL_strnlen :: "u8 list \<Rightarrow> nat \<Rightarrow> nat" where
  "OPENSSL_strnlen s len = strnlen_from s len 0"

lemma strnlen_from_eq:
  "i + left \<le> length s \<Longrightarrow> strnlen_from s left i = i + strlen (take left (drop i s))"
proof (induction left arbitrary: i)
  case (Suc left)
  then have "drop i s = s ! i # drop (Suc i) s" by (intro Cons_nth_drop_Suc [symmetric]) simp
  with Suc show ?case by simp
qed simp

lemma OPENSSL_strnlen_eq: "n \<le> length s \<Longrightarrow> OPENSSL_strnlen s n = strlen (take n s)"
  by (simp add: OPENSSL_strnlen_def strnlen_from_eq)

definition OPENSSL_strdup :: "allocator \<Rightarrow> u8 list option \<Rightarrow> u8 list option" where
  "OPENSSL_strdup al s =
     (case s of
        None \<Rightarrow> None
      | Some s \<Rightarrow>
          (let len = strlen s + 1
           in (case OPENSSL_malloc al (of_nat len) of
                 None \<Rightarrow> None
               | Some ret \<Rightarrow> Some (write_at 0 (take len s) ret))))"

definition OPENSSL_strndup :: "allocator \<Rightarrow> u8 list \<Rightarrow> u64 \<Rightarrow> u8 list option" where
  "OPENSSL_strndup al str sz =
     (let sz = (of_nat (OPENSSL_strnlen str (unat sz)) :: u64);
          alloc_size = sz + 1
      in if alloc_size < sz then None
         else (case OPENSSL_malloc al alloc_size of
                 None \<Rightarrow> None
               | Some ret \<Rightarrow>
                   Some ((write_at 0 (take (unat sz) str) ret)[unat sz := 0])))"

text \<open>Characters compare as signed bytes, after folding ASCII upper case; \<open>None\<close> is a read past
  the end of an unterminated string.\<close>

definition OPENSSL_tolower :: "int \<Rightarrow> int" where
  "OPENSSL_tolower c = (if 65 \<le> c \<and> c \<le> 90 then c + (97 - 65) else c)"

fun OPENSSL_strcasecmp :: "u8 list \<Rightarrow> u8 list \<Rightarrow> int option" where
  "OPENSSL_strcasecmp (a # as) (b # bs) =
     (let aa = OPENSSL_tolower (sint a); bb = OPENSSL_tolower (sint b)
      in if aa < bb then Some (-1)
         else if aa > bb then Some 1
         else if aa = 0 then Some 0
         else OPENSSL_strcasecmp as bs)"
| "OPENSSL_strcasecmp _ _ = None"

fun OPENSSL_strncasecmp :: "u8 list \<Rightarrow> u8 list \<Rightarrow> nat \<Rightarrow> int option" where
  "OPENSSL_strncasecmp _ _ 0 = Some 0"
| "OPENSSL_strncasecmp (a # as) (b # bs) (Suc n) =
     (let aa = OPENSSL_tolower (sint a); bb = OPENSSL_tolower (sint b)
      in if aa < bb then Some (-1)
         else if aa > bb then Some 1
         else if aa = 0 then Some 0
         else OPENSSL_strncasecmp as bs n)"
| "OPENSSL_strncasecmp _ _ (Suc n) = None"

fun strlcpy_loop :: "u8 list \<Rightarrow> nat \<Rightarrow> u8 list \<Rightarrow> nat \<Rightarrow> u8 list \<times> nat \<times> u8 list \<times> nat" where
  "strlcpy_loop dst l src dst_size =
     (if dst_size > 1 \<and> src \<noteq> [] \<and> hd src \<noteq> 0
      then strlcpy_loop (dst[l := hd src]) (l + 1) (tl src) (dst_size - 1)
      else (dst, l, src, dst_size))"

declare strlcpy_loop.simps [simp del]

definition OPENSSL_strlcpy :: "u8 list \<Rightarrow> u8 list \<Rightarrow> nat \<Rightarrow> u8 list \<times> nat" where
  "OPENSSL_strlcpy dst src dst_size =
     (let (dst, l, src, dst_size) = strlcpy_loop dst 0 src dst_size
      in (if dst_size \<noteq> 0 then dst[l := 0] else dst, l + strlen src))"

fun strlcat_skip :: "u8 list \<Rightarrow> nat \<Rightarrow> nat \<Rightarrow> nat \<times> nat" where
  "strlcat_skip dst l 0 = (l, 0)"
| "strlcat_skip dst l (Suc n) = (if dst ! l \<noteq> 0 then strlcat_skip dst (l + 1) n else (l, Suc n))"

definition OPENSSL_strlcat :: "u8 list \<Rightarrow> u8 list \<Rightarrow> nat \<Rightarrow> u8 list \<times> nat" where
  "OPENSSL_strlcat dst src dst_size =
     (let (l, n) = strlcat_skip dst 0 dst_size;
          (tail, r) = OPENSSL_strlcpy (drop l dst) src n
      in (take l dst @ tail, l + r))"

lemma strlcpy_loop_eq:
  "l + n \<le> length dst \<Longrightarrow>
   strlcpy_loop dst l src n =
     (let k = min (n - 1) (strlen src)
      in (write_at l (take k src) dst, l + k, drop k src, n - k))"
proof (induction n arbitrary: dst l src)
  case 0
  then show ?case by (subst strlcpy_loop.simps) simp
next
  case (Suc n)
  show ?case
  proof (cases "n > 0 \<and> src \<noteq> [] \<and> hd src \<noteq> 0")
    case True
    then obtain b bs where src: "src = b # bs" and b: "b \<noteq> 0" by (cases src) auto
    have "l < length dst" using Suc.prems by simp
    then have wr: "write_at (Suc l) xs (dst[l := b]) = write_at l (b # xs) dst" for xs
      by (simp add: write_at_def take_Suc_conv_app_nth take_update_swap
          upd_conv_take_nth_drop add.commute)
    have mn: "min n (Suc (strlen bs)) = Suc (min (n - 1) (strlen bs))" using True by (cases n) auto
    have "strlcpy_loop dst l src (Suc n) = strlcpy_loop (dst[l := b]) (l + 1) bs n"
      using True src by (subst strlcpy_loop.simps) simp
    also have "\<dots> = (let k = min (n - 1) (strlen bs)
        in (write_at (l + 1) (take k bs) (dst[l := b]), l + 1 + k, drop k bs, n - k))"
      by (rule Suc.IH) (use Suc.prems in simp)
    finally show ?thesis using b by (simp add: src Let_def wr mn)
  next
    case False
    then have "min n (strlen src) = 0" by (cases src) auto
    with False show ?thesis by (subst strlcpy_loop.simps) (auto simp: Let_def)
  qed
qed

lemma OPENSSL_strlcpy_eq:
  assumes "0 < n" and "n \<le> length dst"
  shows "OPENSSL_strlcpy dst src n =
           (write_at 0 (take (n - 1) (cstr src) @ [0]) dst, strlen src)"
proof -
  define k where "k = min (n - Suc 0) (strlen src)"
  have "strlen (drop j src) = strlen src - j" if "j \<le> strlen src" for j
    using that by (induction src arbitrary: j) (auto split: if_splits nat.splits simp: drop_Cons)
  then have len: "k + strlen (drop k src) = strlen src" by (simp add: k_def)
  have tk: "take (n - Suc 0) (cstr src) = take k src"
    by (simp add: k_def flip: take_strlen)
  have kl: "k \<le> length src" unfolding k_def
    by (metis min.coboundedI2 length_takeWhile_le strlen_def cstr_def)
  have "k < n" using assms(1) by (simp add: k_def)
  moreover have "(write_at 0 (take k src) dst)[k := 0] = write_at 0 (take k src @ [0]) dst"
    using kl \<open>k < n\<close> assms(2)
    by (simp add: write_at_def list_update_append min_absorb2 Suc_diff_le
        flip: Cons_nth_drop_Suc)
  ultimately show ?thesis
    using assms len by (simp add: OPENSSL_strlcpy_def strlcpy_loop_eq Let_def tk k_def [symmetric])
qed

end
