(* ===== verification/Cbs.thy ===== *)
theory Cbs
  imports Mem
begin

text \<open>
  crypto/bytestring/cbs.c: the readers. A \<open>CBS\<close>, a pointer and a length, is the list of the
  bytes it still covers; \<open>CBS_len\<close> is the length of the list. A reader that can fail returns
  \<open>None\<close> for the C result 0, together with the state it leaves the \<open>CBS\<close> in, which on
  some failures is not the state it found. Lengths passed in are unsigned and stay natural
  numbers; lengths the code computes are 64-bit words. Out parameters are results, and are not
  represented where a call fails.
\<close>

type_synonym cbs = "u8 list"

section \<open>Byte and integer readers\<close>

definition CBS_init :: "u8 list \<Rightarrow> nat \<Rightarrow> cbs" where
  "CBS_init data len = take len data"

definition cbs_get :: "nat \<Rightarrow> cbs reader" where
  "cbs_get n cbs = (if length cbs < n then (None, cbs) else (Some (take n cbs), drop n cbs))"

definition CBS_skip :: "nat \<Rightarrow> unit reader" where
  "CBS_skip len = rbind (cbs_get len) (\<lambda>_. rreturn ())"

definition CBS_data :: "cbs \<Rightarrow> u8 list" where
  "CBS_data cbs = cbs"

definition CBS_len :: "cbs \<Rightarrow> nat" where
  "CBS_len cbs = length cbs"

text \<open>\<open>CBS_stow\<close> yields its return value, \<open>*out_ptr\<close> and \<open>*out_len\<close>.\<close>

definition CBS_stow :: "allocator \<Rightarrow> cbs \<Rightarrow> bool \<times> u8 list option \<times> nat" where
  "CBS_stow al cbs =
     (if length cbs = 0 then (True, None, 0)
      else (case OPENSSL_memdup al cbs of
              None \<Rightarrow> (False, None, 0)
            | Some p \<Rightarrow> (True, Some p, length cbs)))"

definition CBS_strdup :: "allocator \<Rightarrow> cbs \<Rightarrow> u8 list option" where
  "CBS_strdup al cbs = OPENSSL_strndup al cbs (of_nat (length cbs))"

fun memchr :: "u8 list \<Rightarrow> u8 \<Rightarrow> nat option" where
  "memchr [] c = None"
| "memchr (b # bs) c = (if b = c then Some 0 else map_option Suc (memchr bs c))"

definition CBS_contains_zero_byte :: "cbs \<Rightarrow> bool" where
  "CBS_contains_zero_byte cbs \<longleftrightarrow> memchr cbs 0 \<noteq> None"

definition CBS_mem_equal :: "cbs \<Rightarrow> u8 list \<Rightarrow> nat \<Rightarrow> bool" where
  "CBS_mem_equal cbs data len =
     (if len \<noteq> length cbs then False else CRYPTO_memcmp cbs data len = 0)"

definition cbs_get_u :: "nat \<Rightarrow> u64 reader" where
  "cbs_get_u len = rbind (cbs_get len) (\<lambda>data. rreturn (foldl shift_in 0 data))"

definition CBS_get_u8 :: "u8 reader" where
  "CBS_get_u8 = rbind (cbs_get 1) (\<lambda>v. rreturn (v ! 0))"

definition CBS_get_u16 :: "u16 reader" where
  "CBS_get_u16 = rbind (cbs_get_u 2) (\<lambda>v. rreturn (ucast v))"

definition CRYPTO_bswap2 :: "u16 \<Rightarrow> u16" where
  "CRYPTO_bswap2 x = drop_bit 8 x OR push_bit 8 x"

definition CRYPTO_bswap4 :: "u32 \<Rightarrow> u32" where
  "CRYPTO_bswap4 x =
     (let x = drop_bit 16 x OR push_bit 16 x
      in drop_bit 8 (x AND 0xff00ff00) OR push_bit 8 (x AND 0x00ff00ff))"

definition CRYPTO_bswap8 :: "u64 \<Rightarrow> u64" where
  "CRYPTO_bswap8 x =
     ucast (CRYPTO_bswap4 (ucast (drop_bit 32 x))) OR push_bit 32 (ucast (CRYPTO_bswap4 (ucast x)))"

definition CBS_get_u16le :: "u16 reader" where
  "CBS_get_u16le = rbind CBS_get_u16 (\<lambda>v. rreturn (CRYPTO_bswap2 v))"

definition CBS_get_u24 :: "u32 reader" where
  "CBS_get_u24 = rbind (cbs_get_u 3) (\<lambda>v. rreturn (ucast v))"

definition CBS_get_u32 :: "u32 reader" where
  "CBS_get_u32 = rbind (cbs_get_u 4) (\<lambda>v. rreturn (ucast v))"

definition CBS_get_u32le :: "u32 reader" where
  "CBS_get_u32le = rbind CBS_get_u32 (\<lambda>v. rreturn (CRYPTO_bswap4 v))"

definition CBS_get_u64 :: "u64 reader" where
  "CBS_get_u64 = cbs_get_u 8"

definition CBS_get_u64le :: "u64 reader" where
  "CBS_get_u64le = rbind (cbs_get_u 8) (\<lambda>v. rreturn (CRYPTO_bswap8 v))"

definition CBS_get_last_u8 :: "u8 reader" where
  "CBS_get_last_u8 cbs =
     (if length cbs = 0 then (None, cbs)
      else (Some (cbs ! (length cbs - 1)), take (length cbs - 1) cbs))"

definition CBS_get_bytes :: "nat \<Rightarrow> cbs reader" where
  "CBS_get_bytes len = rbind (cbs_get len) (\<lambda>v. rreturn (CBS_init v len))"

definition CBS_copy_bytes :: "u8 list \<Rightarrow> nat \<Rightarrow> u8 list reader" where
  "CBS_copy_bytes out len = rbind (cbs_get len) (\<lambda>v. rreturn (write_at 0 v out))"

definition cbs_get_length_prefixed :: "nat \<Rightarrow> cbs reader" where
  "cbs_get_length_prefixed len_len =
     rbind (cbs_get_u len_len) (\<lambda>len. CBS_get_bytes (unat len))"

definition CBS_get_u8_length_prefixed :: "cbs reader" where
  "CBS_get_u8_length_prefixed = cbs_get_length_prefixed 1"

definition CBS_get_u16_length_prefixed :: "cbs reader" where
  "CBS_get_u16_length_prefixed = cbs_get_length_prefixed 2"

definition CBS_get_u24_length_prefixed :: "cbs reader" where
  "CBS_get_u24_length_prefixed = cbs_get_length_prefixed 3"

definition CBS_get_until_first :: "u8 \<Rightarrow> cbs reader" where
  "CBS_get_until_first c cbs =
     (case memchr cbs c of
        None \<Rightarrow> (None, cbs)
      | Some split \<Rightarrow> CBS_get_bytes split cbs)"

section \<open>ASN.1 elements\<close>

definition CBS_ASN1_TAG_SHIFT :: nat where
  "CBS_ASN1_TAG_SHIFT = 24"

definition CBS_ASN1_CONSTRUCTED :: u32 where
  "CBS_ASN1_CONSTRUCTED = push_bit CBS_ASN1_TAG_SHIFT 0x20"

definition CBS_ASN1_TAG_NUMBER_MASK :: u32 where
  "CBS_ASN1_TAG_NUMBER_MASK = push_bit (5 + CBS_ASN1_TAG_SHIFT) 1 - 1"

definition CBS_ASN1_BOOLEAN :: u32 where "CBS_ASN1_BOOLEAN = 0x1"
definition CBS_ASN1_INTEGER :: u32 where "CBS_ASN1_INTEGER = 0x2"
definition CBS_ASN1_OCTETSTRING :: u32 where "CBS_ASN1_OCTETSTRING = 0x4"

text \<open>The loop of \<open>parse_base128_integer\<close>; each round reads one byte.\<close>

fun parse_base128_loop :: "u64 \<Rightarrow> u64 reader" where
  "parse_base128_loop v [] = (None, [])"
| "parse_base128_loop v (b # cbs) =
     (if drop_bit (64 - 7) v \<noteq> 0 then (None, cbs)
      else if v = 0 \<and> b = 0x80 then (None, cbs)
      else
        (let v = push_bit 7 v OR ucast (b AND 0x7f)
         in if b AND 0x80 \<noteq> 0 then parse_base128_loop v cbs else (Some v, cbs)))"

definition parse_base128_integer :: "u64 reader" where
  "parse_base128_integer = parse_base128_loop 0"

definition parse_asn1_tag :: "u32 reader" where
  "parse_asn1_tag = rbind CBS_get_u8 (\<lambda>tag_byte.
     let tag = push_bit CBS_ASN1_TAG_SHIFT (ucast tag_byte AND 0xe0 :: u32);
         tag_number = ucast (tag_byte AND 0x1f) :: u32
     in if tag_number = 0x1f
        then rbind parse_base128_integer (\<lambda>v.
               if v > ucast CBS_ASN1_TAG_NUMBER_MASK \<or> v < 0x1f then rfail
               else rreturn (tag OR ucast v))
        else rreturn (tag OR tag_number))"

text \<open>What the element readers report beside the return value.\<close>

record asn1_element =
  el_out :: cbs
  el_tag :: u32
  el_header_len :: u64
  el_ber_found :: bool

definition cbs_finish_element :: "cbs \<Rightarrow> u32 \<Rightarrow> u64 \<Rightarrow> u64 \<Rightarrow> bool \<Rightarrow> asn1_element option \<times> cbs" where
  "cbs_finish_element cbs tag len header_len ber_found =
     rbind (CBS_get_bytes (unat len))
       (\<lambda>out. rreturn \<lparr>el_out = out, el_tag = tag, el_header_len = header_len,
                       el_ber_found = ber_found\<rparr>) cbs"

definition cbs_get_any_asn1_element :: "bool \<Rightarrow> asn1_element reader" where
  "cbs_get_any_asn1_element ber_ok cbs =
     (case parse_asn1_tag cbs of
        (None, _) \<Rightarrow> (None, cbs)
      | (Some tag, header) \<Rightarrow>
     (case CBS_get_u8 header of
        (None, _) \<Rightarrow> (None, cbs)
      | (Some length_byte, header) \<Rightarrow>
     (let header_len = of_nat (CBS_len cbs - CBS_len header) :: u64
      in if length_byte AND 0x80 = 0
         then cbs_finish_element cbs tag (ucast length_byte + header_len) header_len False
         else
           (let num_bytes = ucast (length_byte AND 0x7f) :: u64
            in if ber_ok \<and> tag AND CBS_ASN1_CONSTRUCTED \<noteq> 0 \<and> num_bytes = 0
               then cbs_finish_element cbs tag header_len header_len True
               else if num_bytes = 0 \<or> num_bytes > 4 then (None, cbs)
               else
                 (case cbs_get_u (unat num_bytes) header of
                    (None, _) \<Rightarrow> (None, cbs)
                  | (Some len64, _) \<Rightarrow>
                      (let ber_found =
                         (len64 < 128 \<or> drop_bit ((unat num_bytes - 1) * 8) len64 = 0)
                       in if ber_found \<and> \<not> ber_ok then (None, cbs)
                          else if len64 + header_len + num_bytes < len64 then (None, cbs)
                          else cbs_finish_element cbs tag (len64 + (header_len + num_bytes))
                                 (header_len + num_bytes) ber_found))))))"

definition CBS_get_any_asn1_element :: "asn1_element reader" where
  "CBS_get_any_asn1_element = cbs_get_any_asn1_element False"

definition CBS_get_any_ber_asn1_element :: "asn1_element reader" where
  "CBS_get_any_ber_asn1_element = cbs_get_any_asn1_element True"

definition CBS_get_any_asn1 :: "(cbs \<times> u32) reader" where
  "CBS_get_any_asn1 = rbind CBS_get_any_asn1_element (\<lambda>e.
     case CBS_skip (unat (el_header_len e)) (el_out e) of
       (None, _) \<Rightarrow> rfail
     | (Some _, out) \<Rightarrow> rreturn (out, el_tag e))"

definition cbs_get_asn1 :: "u32 \<Rightarrow> bool \<Rightarrow> cbs reader" where
  "cbs_get_asn1 tag_value skip_header = rbind CBS_get_any_asn1_element (\<lambda>e.
     if el_tag e \<noteq> tag_value then rfail
     else if skip_header
     then (case CBS_skip (unat (el_header_len e)) (el_out e) of
             (None, _) \<Rightarrow> rfail
           | (Some _, out) \<Rightarrow> rreturn out)
     else rreturn (el_out e))"

definition CBS_get_asn1 :: "u32 \<Rightarrow> cbs reader" where
  "CBS_get_asn1 tag_value = cbs_get_asn1 tag_value True"

definition CBS_get_asn1_element :: "u32 \<Rightarrow> cbs reader" where
  "CBS_get_asn1_element tag_value = cbs_get_asn1 tag_value False"

definition CBS_peek_asn1_tag :: "cbs \<Rightarrow> u32 \<Rightarrow> bool" where
  "CBS_peek_asn1_tag cbs tag_value =
     (if CBS_len cbs < 1 then False else fst (parse_asn1_tag cbs) = Some tag_value)"

section \<open>Integers, booleans and optional fields\<close>

text \<open>\<open>None\<close> for an invalid INTEGER, otherwise \<open>*out_is_negative\<close>.\<close>

definition CBS_is_valid_asn1_integer :: "cbs \<Rightarrow> bool option" where
  "CBS_is_valid_asn1_integer cbs =
     (case CBS_get_u8 cbs of
        (None, _) \<Rightarrow> None
      | (Some first_byte, copy) \<Rightarrow>
          (let is_negative = (first_byte AND 0x80 \<noteq> 0)
           in (case CBS_get_u8 copy of
                 (None, _) \<Rightarrow> Some is_negative
               | (Some second_byte, _) \<Rightarrow>
                   if first_byte = 0x00 \<and> second_byte AND 0x80 = 0 \<or>
                      first_byte = 0xff \<and> second_byte AND 0x80 \<noteq> 0
                   then None
                   else Some is_negative)))"

definition CBS_is_unsigned_asn1_integer :: "cbs \<Rightarrow> bool" where
  "CBS_is_unsigned_asn1_integer cbs =
     (case CBS_is_valid_asn1_integer cbs of None \<Rightarrow> False | Some is_negative \<Rightarrow> \<not> is_negative)"

fun asn1_uint64_loop :: "u64 \<Rightarrow> u8 list \<Rightarrow> u64 option" where
  "asn1_uint64_loop out [] = Some out"
| "asn1_uint64_loop out (b # data) =
     (if drop_bit 56 out \<noteq> 0 then None else asn1_uint64_loop (shift_in out b) data)"

definition CBS_get_asn1_uint64 :: "u64 reader" where
  "CBS_get_asn1_uint64 = rbind (CBS_get_asn1 CBS_ASN1_INTEGER) (\<lambda>bytes.
     if \<not> CBS_is_unsigned_asn1_integer bytes then rfail
     else (case asn1_uint64_loop 0 (CBS_data bytes) of
             None \<Rightarrow> rfail
           | Some out \<Rightarrow> rreturn out))"

text \<open>The bytes of the union, least significant first, and the word they are read as.\<close>

definition int64_union :: "u8 list \<Rightarrow> bool \<Rightarrow> u8 list" where
  "int64_union data is_negative =
     fold (\<lambda>i u. u[i := data ! (length data - i - 1)]) [0..<length data]
       (replicate 8 (if is_negative then 0xff else 0))"

definition word64_of_le :: "u8 list \<Rightarrow> u64" where
  "word64_of_le u = foldr (\<lambda>b r. shift_in r b) u 0"

definition CBS_get_asn1_int64 :: "u64 reader" where
  "CBS_get_asn1_int64 = rbind (CBS_get_asn1 CBS_ASN1_INTEGER) (\<lambda>bytes.
     case CBS_is_valid_asn1_integer bytes of
       None \<Rightarrow> rfail
     | Some is_negative \<Rightarrow>
         if CBS_len bytes > 8 then rfail
         else rreturn (word64_of_le (int64_union (CBS_data bytes) is_negative)))"

definition CBS_get_asn1_bool :: "bool reader" where
  "CBS_get_asn1_bool = rbind (CBS_get_asn1 CBS_ASN1_BOOLEAN) (\<lambda>bytes.
     if CBS_len bytes \<noteq> 1 then rfail
     else (let value = CBS_data bytes ! 0
           in if value \<noteq> 0 \<and> value \<noteq> 0xff then rfail else rreturn (value \<noteq> 0)))"

text \<open>\<open>Some\<close> contents when the element is present, \<open>None\<close> inside when it is not.\<close>

definition CBS_get_optional_asn1 :: "u32 \<Rightarrow> cbs option reader" where
  "CBS_get_optional_asn1 tag cbs =
     (if CBS_peek_asn1_tag cbs tag
      then rbind (CBS_get_asn1 tag) (\<lambda>out. rreturn (Some out)) cbs
      else (Some None, cbs))"

definition CBS_get_optional_asn1_octet_string :: "u32 \<Rightarrow> (cbs \<times> bool) reader" where
  "CBS_get_optional_asn1_octet_string tag = rbind (CBS_get_optional_asn1 tag) (\<lambda>present.
     case present of
       Some child \<Rightarrow>
         (case CBS_get_asn1 CBS_ASN1_OCTETSTRING child of
            (None, _) \<Rightarrow> rfail
          | (Some out, child) \<Rightarrow>
              if CBS_len child \<noteq> 0 then rfail else rreturn (out, True))
     | None \<Rightarrow> rreturn (CBS_init [] 0, False))"

definition CBS_get_optional_asn1_uint64 :: "u32 \<Rightarrow> u64 \<Rightarrow> u64 reader" where
  "CBS_get_optional_asn1_uint64 tag default_value = rbind (CBS_get_optional_asn1 tag) (\<lambda>present.
     case present of
       Some child \<Rightarrow>
         (case CBS_get_asn1_uint64 child of
            (None, _) \<Rightarrow> rfail
          | (Some out, child) \<Rightarrow> if CBS_len child \<noteq> 0 then rfail else rreturn out)
     | None \<Rightarrow> rreturn default_value)"

definition CBS_get_optional_asn1_bool :: "u32 \<Rightarrow> int \<Rightarrow> int reader" where
  "CBS_get_optional_asn1_bool tag default_value = rbind (CBS_get_optional_asn1 tag) (\<lambda>present.
     case present of
       Some child \<Rightarrow>
         (case CBS_get_asn1 CBS_ASN1_BOOLEAN child of
            (None, _) \<Rightarrow> rfail
          | (Some child2, child) \<Rightarrow>
              if CBS_len child2 \<noteq> 1 \<or> CBS_len child \<noteq> 0 then rfail
              else (let boolean = CBS_data child2 ! 0
                    in if boolean = 0 then rreturn 0
                       else if boolean = 0xff then rreturn 1
                       else rfail))
     | None \<Rightarrow> rreturn default_value)"

section \<open>Bit strings\<close>

definition CBS_is_valid_asn1_bitstring :: "cbs \<Rightarrow> bool" where
  "CBS_is_valid_asn1_bitstring cbs =
     (case CBS_get_u8 cbs of
        (None, _) \<Rightarrow> False
      | (Some num_unused_bits, in') \<Rightarrow>
          if num_unused_bits > 7 then False
          else if num_unused_bits = 0 then True
          else (case CBS_get_last_u8 in' of
                  (None, _) \<Rightarrow> False
                | (Some last_byte, _) \<Rightarrow>
                    (ucast last_byte :: u32) AND (push_bit (unat num_unused_bits) 1 - 1) = 0))"

definition CBS_asn1_bitstring_has_bit :: "cbs \<Rightarrow> u32 \<Rightarrow> bool" where
  "CBS_asn1_bitstring_has_bit cbs bit' =
     (if \<not> CBS_is_valid_asn1_bitstring cbs then False
      else (let byte_num = drop_bit 3 bit' + 1;
                bit_num = 7 - (bit' AND 7)
            in unat byte_num < CBS_len cbs \<and>
               (ucast (CBS_data cbs ! unat byte_num) :: u32) AND push_bit (unat bit_num) 1 \<noteq> 0))"

section \<open>What the readers leave behind\<close>

lemma cbs_get_Some [parser_simps]: "n \<le> length cbs \<Longrightarrow> cbs_get n cbs = (Some (take n cbs), drop n cbs)"
  by (simp add: cbs_get_def)

lemma cbs_get_None [parser_simps]: "length cbs < n \<Longrightarrow> cbs_get n cbs = (None, cbs)"
  by (simp add: cbs_get_def)

lemma cbs_get_append [parser_simps]: "length xs = n \<Longrightarrow> cbs_get n (xs @ ys) = (Some xs, ys)"
  by (simp add: cbs_get_def)

interpretation get: atomic_reader "cbs_get n" for n
proof
  fix s
  show "\<exists>pre. s = pre @ snd (cbs_get n s)"
    by (rule exI [where x = "if length s < n then [] else take n s"]) (simp add: cbs_get_def)
  show "snd (cbs_get n s) = s" if "fst (cbs_get n s) = None"
    using that by (simp add: cbs_get_def split: if_splits)
qed

lemma atomic_then_return:
  assumes "atomic_reader f"
  shows "atomic_reader (rbind f (\<lambda>x. rreturn (g x)))"
proof -
  have law: "t = s" if "f s = (None, t)" for s t
    using atomic_reader.atomic_law [OF assms, of s] that by simp
  have "suffix_reader f" using assms by (simp add: atomic_reader_def)
  then have "suffix_reader (rbind f (\<lambda>x. rreturn (g x)))" by (intro suffix_rbind suffix_rreturn)
  then show ?thesis
    by (auto simp: atomic_reader_def atomic_reader_axioms_def rbind_def law
        split: prod.splits option.splits)
qed

lemma atomic_is_suffix: "atomic_reader f \<Longrightarrow> suffix_reader f"
  by (simp add: atomic_reader_def)

lemma atomic_cbs_get [intro!]: "atomic_reader (cbs_get n)"
  by (rule get.atomic_reader_axioms)

lemma atomic_get_u [intro!]: "atomic_reader (cbs_get_u n)"
  unfolding cbs_get_u_def by (intro atomic_then_return atomic_cbs_get)

lemma atomic_get_u8 [intro!]: "atomic_reader CBS_get_u8"
  unfolding CBS_get_u8_def by (intro atomic_then_return atomic_cbs_get)

lemma atomic_get_bytes [intro!]: "atomic_reader (CBS_get_bytes n)"
  unfolding CBS_get_bytes_def by (intro atomic_then_return atomic_cbs_get)

interpretation u8: atomic_reader CBS_get_u8 by (rule atomic_get_u8)

interpretation u16: atomic_reader CBS_get_u16
  unfolding CBS_get_u16_def by (intro atomic_then_return atomic_get_u)

interpretation u24: atomic_reader CBS_get_u24
  unfolding CBS_get_u24_def by (intro atomic_then_return atomic_get_u)

interpretation u32: atomic_reader CBS_get_u32
  unfolding CBS_get_u32_def by (intro atomic_then_return atomic_get_u)

interpretation u64: atomic_reader CBS_get_u64
  unfolding CBS_get_u64_def by (rule atomic_get_u)

interpretation bytes: atomic_reader "CBS_get_bytes n" for n
  by (rule atomic_get_bytes)

lemma suffix_get_u8 [intro!]: "suffix_reader CBS_get_u8"
  by (rule u8.suffix_reader_axioms)

lemma suffix_get_bytes [intro!]: "suffix_reader (CBS_get_bytes n)"
  by (rule bytes.suffix_reader_axioms)

interpretation length_prefixed: suffix_reader "cbs_get_length_prefixed n" for n
  unfolding cbs_get_length_prefixed_def
  by (intro suffix_rbind suffix_get_bytes atomic_is_suffix atomic_get_u)

lemma suffix_base128_loop: "suffix_reader (parse_base128_loop v)"
proof
  fix s show "\<exists>pre. s = pre @ snd (parse_base128_loop v s)"
  proof (induction v s rule: parse_base128_loop.induct)
    case (2 v b cbs)
    show ?case
    proof (cases "drop_bit (64 - 7) v \<noteq> 0 \<or> v = 0 \<and> b = 0x80 \<or> b AND 0x80 = 0")
      case True
      then have "snd (parse_base128_loop v (b # cbs)) = cbs" by (auto simp: Let_def)
      then show ?thesis by (intro exI [of _ "[b]"]) simp
    next
      case False
      with 2 obtain pre where
        "cbs = pre @ snd (parse_base128_loop (push_bit 7 v OR ucast (b AND 0x7f)) cbs)"
        by blast
      with False show ?thesis by (intro exI [of _ "b # pre"]) (auto simp: Let_def)
    qed
  qed simp
qed

lemma suffix_base128 [intro!]: "suffix_reader parse_base128_integer"
  unfolding parse_base128_integer_def by (rule suffix_base128_loop)

interpretation tag: suffix_reader parse_asn1_tag
  unfolding parse_asn1_tag_def Let_def
  by (intro suffix_rbind suffix_get_u8 suffix_If suffix_base128 suffix_rfail suffix_rreturn)

lemma get_bytes_eq [parser_simps]:
  "CBS_get_bytes n cbs = (if length cbs < n then (None, cbs) else (Some (take n cbs), drop n cbs))"
  by (simp add: CBS_get_bytes_def rbind_def cbs_get_def CBS_init_def)

lemma get_u8_Cons [parser_simps, simp]: "CBS_get_u8 (b # s) = (Some b, s)"
  by (simp add: CBS_get_u8_def parser_simps)

lemma get_u8_Nil [parser_simps, simp]: "CBS_get_u8 [] = (None, [])"
  by (simp add: CBS_get_u8_def parser_simps)

lemma get_u_append [parser_simps]:
  "length bs = n \<Longrightarrow> cbs_get_u n (bs @ s) = (Some (of_nat (be_nat bs)), s)"
  by (simp add: cbs_get_u_def parser_simps foldl_shift_in)

lemma get_u_None [parser_simps]: "length s < n \<Longrightarrow> cbs_get_u n s = (None, s)"
  by (simp add: cbs_get_u_def parser_simps)

lemma get_u_SomeE:
  assumes "cbs_get_u n s = (Some v, t)"
  obtains bs where "s = bs @ t" and "length bs = n" and "v = of_nat (be_nat bs)"
proof -
  have le: "n \<le> length s" using assms get_u_None [of s n] by (cases "length s < n") auto
  then have "length (take n s) = n" by simp
  from get_u_append [OF this, of "drop n s"] assms
  have "t = drop n s" and "v = of_nat (be_nat (take n s))" by simp_all
  then show thesis using le by (intro that [of "take n s"]) auto
qed

lemma finish_element_eq:
  "cbs_finish_element cbs tag len hl bf =
     (if length cbs < unat len then (None, cbs)
      else (Some \<lparr>el_out = take (unat len) cbs, el_tag = tag, el_header_len = hl,
                  el_ber_found = bf\<rparr>, drop (unat len) cbs))"
  by (simp add: cbs_finish_element_def rbind_def get_bytes_eq)

text \<open>Whatever the answer, the element is a prefix of the input, and a refused input is kept.\<close>

lemma element_cases:
  obtains (fail) "cbs_get_any_asn1_element ber s = (None, s)"
  | (elem) n e where "n \<le> length s" and "el_out e = take n s"
      and "cbs_get_any_asn1_element ber s = (Some e, drop n s)"
proof -
  define r where "r = cbs_get_any_asn1_element ber s"
  have "r = (None, s) \<or> (\<exists>tag len hl bf. r = cbs_finish_element s tag len hl bf)"
    unfolding r_def cbs_get_any_asn1_element_def Let_def
    by (simp split: prod.split option.split) blast
  then consider "r = (None, s)" | tag len hl bf where "r = cbs_finish_element s tag len hl bf"
    by blast
  then show thesis
  proof cases
    case 1 then show thesis using fail by (simp add: r_def)
  next
    case 2
    show thesis
    proof (cases "length s < unat len")
      case True with 2 show thesis using fail by (simp add: r_def finish_element_eq)
    next
      case False with 2 show thesis
        by (intro elem [of "unat len"]) (auto simp: r_def finish_element_eq)
    qed
  qed
qed

interpretation element: atomic_reader "cbs_get_any_asn1_element ber" for ber
proof
  fix s
  show "\<exists>pre. s = pre @ snd (cbs_get_any_asn1_element ber s)"
    by (cases ber s rule: element_cases) (simp, metis append_take_drop_id snd_conv)
  show "snd (cbs_get_any_asn1_element ber s) = s" if "fst (cbs_get_any_asn1_element ber s) = None"
    using that by (cases ber s rule: element_cases) auto
qed

end
