(* ===== verification/Der.thy ===== *)
theory Der
  imports Cbs
begin

text \<open>
  The DER encoding that crypto/bytestring reads and writes, stated abstractly: identifier octets,
  length octets, base-128 integers. The readers of \<open>Cbs\<close> are shown to invert it and to
  accept nothing else, so that an accepted element is the canonical encoding of what it yields.
\<close>

section \<open>Base-128 integers\<close>

fun base128_bytes :: "nat \<Rightarrow> u64 \<Rightarrow> u8 list" where
  "base128_bytes 0 v = []"
| "base128_bytes (Suc i) v =
     (ucast (drop_bit (7 * i) v AND 0x7f) OR (if i \<noteq> 0 then 0x80 else 0)) # base128_bytes i v"

function base128_count :: "u64 \<Rightarrow> nat" where
  "base128_count v = (if v = 0 then 0 else Suc (base128_count (drop_bit 7 v)))"
  by pat_completeness auto
termination
  by (relation "measure unat") (auto simp: drop_bit_eq_div unat_div unat_gt_0)

declare base128_count.simps [simp del]

definition base128_len :: "u64 \<Rightarrow> nat" where
  "base128_len v = (if base128_count v = 0 then 1 else base128_count v)"

definition base128_enc :: "u64 \<Rightarrow> u8 list" where
  "base128_enc v = base128_bytes (base128_len v) v"

text \<open>\<open>minimal_len k v\<close>: \<open>k\<close> septets hold \<open>v\<close> and no fewer do (zero takes one).\<close>

definition minimal_len :: "nat \<Rightarrow> u64 \<Rightarrow> bool" where
  "minimal_len k v \<longleftrightarrow> drop_bit (7 * k) v = 0 \<and> 0 < k \<and> (k = 1 \<or> drop_bit (7 * (k - 1)) v \<noteq> 0)"

lemma base128_count_bounds:
  "drop_bit (7 * base128_count v) v = 0 \<and>
   (0 < base128_count v \<longrightarrow> drop_bit (7 * (base128_count v - 1)) v \<noteq> 0)"
proof (induction v rule: base128_count.induct)
  case (1 v)
  show ?case
  proof (cases "v = 0")
    case True
    then show ?thesis by (simp add: base128_count.simps)
  next
    case False
    define c where "c = base128_count (drop_bit 7 v)"
    have c: "base128_count v = Suc c" using False by (simp add: c_def base128_count.simps [of v])
    have IH: "drop_bit (7 * c) (drop_bit 7 v) = 0"
        "0 < c \<longrightarrow> drop_bit (7 * (c - 1)) (drop_bit 7 v) \<noteq> 0"
      using "1" [OF False] by (simp_all add: c_def)
    have "drop_bit (7 * c) v \<noteq> 0"
    proof (cases c)
      case 0 with False show ?thesis by simp
    next
      case (Suc d)
      then have "drop_bit (7 * d) (drop_bit 7 v) \<noteq> 0" using IH(2) by simp
      then show ?thesis using Suc by (simp add: add.commute)
    qed
    moreover have "drop_bit (7 * Suc c) v = 0" using IH(1) by (simp add: add.commute)
    ultimately show ?thesis by (simp add: c)
  qed
qed

lemma base128_count_0 [simp]: "base128_count v = 0 \<longleftrightarrow> v = 0"
  by (simp add: base128_count.simps [of v])

lemma base128_count_pos [simp]: "0 < base128_count v \<longleftrightarrow> v \<noteq> 0"
  using base128_count_0 [of v] by linarith

lemma minimal_base128_len: "minimal_len (base128_len v) v"
  using base128_count_bounds [of v] by (auto simp: minimal_len_def base128_len_def)

lemma drop_bit_mono_0:
  "drop_bit m (v :: u64) = 0 \<Longrightarrow> m \<le> n \<Longrightarrow> drop_bit n v = 0"
  by (metis drop_bit_drop_bit drop_bit_of_0 le_add_diff_inverse2)

lemma minimal_len_unique:
  assumes "minimal_len j v" and "minimal_len k v"
  shows "j = k"
proof -
  have "\<not> j' < k'" if "minimal_len j' v" and "minimal_len k' v" for j' k'
  proof
    assume "j' < k'"
    then have "7 * j' \<le> 7 * (k' - 1)" by simp
    with that(1) have "drop_bit (7 * (k' - 1)) v = 0"
      by (auto simp: minimal_len_def intro: drop_bit_mono_0)
    with that \<open>j' < k'\<close> show False by (auto simp: minimal_len_def)
  qed
  from this [OF assms] this [OF assms(2,1)] show ?thesis by simp
qed

lemma base128_step:
  "push_bit 7 (drop_bit (7 * Suc i) (v :: u64)) OR ucast ((ucast (drop_bit (7 * i) v AND 0x7f) OR t) AND 0x7f :: u8)
     = drop_bit (7 * i) v" if "t = 0 \<or> t = 0x80"
proof -
  have m: "(0x7f :: u64) = mask 7" "(0x7f :: u8) = mask 7" by (simp_all add: mask_eq_exp_minus_1)
  have "t AND 0x7f = 0" using that by auto
  then have "((x OR t) AND 0x7f :: u8) = x AND 0x7f" for x
    by (simp add: bit.conj_disj_distrib2)
  moreover have "(ucast (drop_bit (7 * i) v AND 0x7f) AND 0x7f :: u8) = ucast (drop_bit (7 * i) v AND 0x7f)"
    unfolding m by (rule bit_word_eqI) (auto simp: bit_simps)
  ultimately have "((ucast (drop_bit (7 * i) v AND 0x7f) OR t) AND 0x7f :: u8) =
      ucast (drop_bit (7 * i) v AND 0x7f)" by simp
  moreover have "push_bit 7 (drop_bit (7 * Suc i) v) OR
      ucast (ucast (drop_bit (7 * i) v AND 0x7f) :: u8) = drop_bit (7 * i) v"
    unfolding m
  proof (rule bit_word_eqI)
    fix n assume "n < LENGTH(64)"
    then show "bit (push_bit 7 (drop_bit (7 * Suc i) v) OR
        ucast (ucast (drop_bit (7 * i) v AND mask 7) :: u8)) n = bit (drop_bit (7 * i) v) n"
      by (cases "n < 7") (auto simp: bit_simps)
  qed
  ultimately show ?thesis by simp
qed


definition base128_byte :: "nat \<Rightarrow> u64 \<Rightarrow> u8" where
  "base128_byte i v = ucast (drop_bit (7 * i) v AND 0x7f) OR (if i \<noteq> 0 then 0x80 else 0)"

lemma base128_top: "base128_byte i v AND 0x80 \<noteq> 0 \<longleftrightarrow> i \<noteq> 0"
proof -
  have "(ucast (drop_bit (7 * i) v AND 0x7f) :: u8) AND 0x80 = 0"
    by (simp add: unsigned_and_eq and.assoc)
  then show ?thesis by (simp add: base128_byte_def bit.conj_disj_distrib2)
qed

lemma base128_bytes_Suc: "base128_bytes (Suc i) v = base128_byte i v # base128_bytes i v"
  by (simp add: base128_byte_def)

lemma base128_low:
  "push_bit 7 (drop_bit (7 * Suc i) v) OR ucast (base128_byte i v AND 0x7f) = drop_bit (7 * i) v"
  unfolding base128_byte_def by (rule base128_step) simp

declare base128_bytes.simps(2) [simp del]

lemma parse_base128_bytes:
  assumes "i = 0 \<or> drop_bit (7 * i) v \<noteq> 0"
  shows "parse_base128_loop (drop_bit (7 * Suc i) v) (base128_bytes (Suc i) v @ rest) = (Some v, rest)"
  using assms
proof (induction i)
  case 0
  have "base128_byte 0 v \<noteq> 0x80" using base128_top [of 0 v] by auto
  moreover have "drop_bit (64 - 7) (drop_bit (7 * Suc 0) v) = 0"
    by (rule bit_word_eqI) (auto simp: bit_simps dest: bit_imp_le_length)
  ultimately show ?case
    using base128_low [of 0 v] base128_top [of 0 v]
    by (simp add: base128_bytes_Suc Let_def del: drop_bit_drop_bit)
next
  case (Suc i)
  let ?acc = "drop_bit (7 * Suc (Suc i)) v" and ?b = "base128_byte (Suc i) v"
  have nz: "drop_bit (7 * Suc i) v \<noteq> 0" using Suc.prems by simp
  then have "drop_bit (7 * i) v \<noteq> 0" using drop_bit_mono_0 [of "7 * i" v "7 * Suc i"] by auto
  then have IH: "parse_base128_loop (drop_bit (7 * Suc i) v) (base128_bytes (Suc i) v @ rest) = (Some v, rest)"
    by (intro Suc.IH) simp
  have small: "drop_bit (64 - 7) ?acc = 0"
    by (rule bit_word_eqI) (auto simp: bit_simps dest: bit_imp_le_length)
  have low: "push_bit 7 ?acc OR ucast (?b AND 0x7f) = drop_bit (7 * Suc i) v"
    by (rule base128_low)
  then have min: "\<not> (?acc = 0 \<and> ?b = 0x80)" using nz by (auto simp del: drop_bit_drop_bit)
  have "base128_bytes (Suc (Suc i)) v @ rest = ?b # (base128_bytes (Suc i) v @ rest)"
    by (simp add: base128_bytes_Suc)
  moreover have "?b AND 0x80 \<noteq> 0" by (simp add: base128_top)
  ultimately show ?case
    using IH by (simp only: parse_base128_loop.simps small min low Let_def if_False if_True simp_thms)
qed

text \<open>What the loop accepts is the encoding of what it returns, continued from the accumulator.\<close>

lemma base128_shift:
  assumes "drop_bit (64 - 7) acc = 0" and "(v :: u64) = push_bit 7 acc OR ucast (b AND 0x7f :: u8)"
  shows "drop_bit 7 v = acc" and "(ucast (v AND 0x7f) :: u8) = b AND 0x7f"
proof -
  have m: "(0x7f :: u64) = mask 7" "(0x7f :: u8) = mask 7" by (simp_all add: mask_eq_exp_minus_1)
  have top: "\<not> bit acc n" if "57 \<le> n" for n
  proof -
    have "bit (drop_bit (64 - 7) acc) (n - 57) = bit acc n" using that by (simp add: bit_simps)
    with assms(1) show ?thesis by simp
  qed
  show "drop_bit 7 v = acc"
  proof (rule bit_word_eqI)
    fix n assume "n < LENGTH(64)"
    then show "bit (drop_bit 7 v) n = bit acc n"
      using top [of n] by (cases "57 \<le> n") (auto simp: assms(2) m bit_simps dest: bit_imp_le_length)
  qed
  show "(ucast (v AND 0x7f) :: u8) = b AND 0x7f"
    unfolding m assms(2) by (rule bit_word_eqI) (auto simp: bit_simps)
qed

lemma parse_base128_canonical:
  "parse_base128_loop acc s = (Some v, t) \<Longrightarrow>
     \<exists>i. s = base128_bytes (Suc i) v @ t \<and> acc = drop_bit (7 * Suc i) v \<and>
         (acc = 0 \<longrightarrow> i = 0 \<or> drop_bit (7 * i) v \<noteq> 0)"
proof (induction acc s rule: parse_base128_loop.induct)
  case (2 acc b cbs)
  define v' where "v' = push_bit 7 acc OR ucast (b AND 0x7f)"
  have small: "drop_bit (64 - 7) acc = 0" and min: "\<not> (acc = 0 \<and> b = 0x80)"
    using "2.prems" by (auto split: if_splits)
  note shift = base128_shift [OF small v'_def]
  show ?case
  proof (cases "b AND 0x80 = 0")
    case True
    with "2.prems" small min have v: "v = v'" and t: "t = cbs"
      by (auto simp: Let_def v'_def)
    have "b = base128_byte 0 v"
      using shift(2) True u8_split_80 [of b] by (simp add: base128_byte_def v)
    then show ?thesis
      using shift(1) by (intro exI [of _ 0]) (simp add: base128_bytes_Suc t v)
  next
    case False
    with "2.prems" small min have "parse_base128_loop v' cbs = (Some v, t)"
      by (auto simp: Let_def v'_def)
    with "2.IH" small min False obtain i where cbs: "cbs = base128_bytes (Suc i) v @ t"
      and v': "v' = drop_bit (7 * Suc i) v"
      unfolding v'_def by blast
    have "b = (b AND 0x7f) OR 0x80" using False u8_split_80 [of b] by simp
    then have b: "b = base128_byte (Suc i) v"
      using shift(2) by (simp only: base128_byte_def v' [symmetric]) simp
    have "drop_bit (7 * Suc i) v \<noteq> 0" if "acc = 0"
    proof
      assume "drop_bit (7 * Suc i) v = 0"
      then have "b AND 0x7f = 0" using shift(2) v' by simp
      then show False using min that \<open>b = (b AND 0x7f) OR 0x80\<close> by simp
    qed
    moreover have "acc = drop_bit (7 * Suc (Suc i)) v" using shift(1) v' by (simp add: add.commute)
    ultimately show ?thesis
      by (intro exI [of _ "Suc i"]) (simp add: cbs b base128_bytes_Suc [of "Suc i"])
  qed
qed simp

lemma parse_base128_enc [parser_simps]:
  "parse_base128_integer (base128_enc v @ rest) = (Some v, rest)"
proof -
  obtain i where i: "base128_len v = Suc i"
    using minimal_base128_len [of v] by (cases "base128_len v") (auto simp: minimal_len_def)
  with minimal_base128_len [of v] have "drop_bit (7 * Suc i) v = 0" "i = 0 \<or> drop_bit (7 * i) v \<noteq> 0"
    by (auto simp: minimal_len_def)
  then show ?thesis
    using parse_base128_bytes [of i v rest] by (simp add: parse_base128_integer_def base128_enc_def i)
qed

interpretation base128: codec base128_enc parse_base128_integer "\<lambda>_. True"
  by unfold_locales (rule parse_base128_enc)

lemma parse_base128_SomeE:
  assumes "parse_base128_integer s = (Some v, t)"
  shows "s = base128_enc v @ t"
proof -
  from assms obtain i where s: "s = base128_bytes (Suc i) v @ t"
    and "drop_bit (7 * Suc i) v = 0" and "i = 0 \<or> drop_bit (7 * i) v \<noteq> 0"
    unfolding parse_base128_integer_def by (metis parse_base128_canonical)
  then have "minimal_len (Suc i) v" by (auto simp: minimal_len_def)
  then have "Suc i = base128_len v" by (rule minimal_len_unique) (rule minimal_base128_len)
  with s show ?thesis by (simp add: base128_enc_def)
qed


lemma length_base128_bytes [simp]: "length (base128_bytes k v) = k"
  by (induction k) (auto simp: base128_bytes_Suc)

lemma length_base128_enc: "length (base128_enc v) = base128_len v"
  by (simp add: base128_enc_def)

lemma base128_len_le: "base128_len v \<le> 10"
proof (rule ccontr)
  assume "\<not> base128_len v \<le> 10"
  then have "64 \<le> 7 * (base128_len v - 1)" by simp
  then have "drop_bit (7 * (base128_len v - 1)) v = 0"
    by (intro bit_word_eqI) (auto simp: bit_simps dest: bit_imp_le_length)
  with minimal_base128_len [of v] \<open>\<not> base128_len v \<le> 10\<close> show False
    by (auto simp: minimal_len_def)
qed

section \<open>Identifier octets\<close>

definition der_tag :: "u32 \<Rightarrow> u8 list" where
  "der_tag tag =
     (let tag_bits = ucast (drop_bit CBS_ASN1_TAG_SHIFT tag AND 0xe0) :: u8;
          tag_number = tag AND CBS_ASN1_TAG_NUMBER_MASK
      in if tag_number \<ge> 0x1f
         then (tag_bits OR 0x1f) # base128_enc (ucast tag_number)
         else [tag_bits OR ucast tag_number])"

lemma tag_mask: "CBS_ASN1_TAG_NUMBER_MASK = mask 29"
  by (simp add: CBS_ASN1_TAG_NUMBER_MASK_def CBS_ASN1_TAG_SHIFT_def mask_eq_exp_minus_1)

lemma tag_masks:
  "(0xe0 :: u32) = push_bit 5 (mask 3)" "(0xe0 :: u8) = push_bit 5 (mask 3)"
  "(0x1f :: u32) = mask 5" "(0x1f :: u8) = mask 5"
  by (simp_all add: mask_eq_exp_minus_1)

lemma tag_reassemble:
  fixes tag num :: u32 and low :: u8
  assumes "num = tag AND mask 29" and "\<And>n. 5 \<le> n \<Longrightarrow> \<not> bit low n"
  shows "push_bit 24 (ucast ((ucast (drop_bit 24 tag AND 0xe0) OR low) :: u8) AND 0xe0) OR num = tag"
  unfolding tag_masks assms(1)
proof (rule bit_word_eqI)
  fix n assume "n < LENGTH(32)"
  then show "bit (push_bit 24 (ucast (ucast (drop_bit 24 tag AND push_bit 5 (mask 3)) OR low) AND
      push_bit 5 (mask 3)) OR tag AND mask 29) n = bit tag n"
    using assms(2) [of "n - 24"] by (cases "n < 29") (auto simp: bit_simps)
qed

lemma low_tag_bits: "(ucast (drop_bit 24 tag AND 0xe0) OR low) AND 0x1f = low AND (0x1f :: u8)"
  for tag :: u32
  unfolding tag_masks by (rule bit_word_eqI) (auto simp: bit_simps)

lemma mask5_bits: "\<not> bit (0x1f :: u8) n" if "5 \<le> n"
  using that unfolding tag_masks by (simp add: bit_simps)

lemma ucast_small_bits:
  fixes num :: u32
  assumes "num < 0x1f" and "5 \<le> n"
  shows "\<not> bit (ucast num :: u8) n"
proof -
  have "unat num < 2 ^ 5" using assms(1) by (simp add: word_less_nat_alt)
  from bits_above [OF this assms(2)] show ?thesis by (simp add: bit_simps)
qed

lemma unat_ucast_u32_u64 [simp]: "unat (ucast (w :: u32) :: u64) = unat w"
  using unsigned_less [where 'a = nat and w = w]
  by (simp add: unsigned_ucast_eq take_bit_nat_eq_self)

lemma mask29_le: "num = tag AND mask 29 \<Longrightarrow> (ucast (num :: u32) :: u64) \<le> ucast (mask 29 :: u32)"
proof -
  assume "num = tag AND mask 29"
  then have "num \<le> mask 29" by (simp add: word_and_le1)
  then show ?thesis by (simp add: word_le_nat_alt)
qed

lemma parse_asn1_tag_der [parser_simps]: "parse_asn1_tag (der_tag tag @ rest) = (Some tag, rest)"
proof -
  define num where "num = tag AND mask 29"
  define tb :: u8 where "tb = ucast (drop_bit 24 tag AND 0xe0)"
  have le: "\<not> (ucast num :: u64) > ucast (mask 29 :: u32)"
    using mask29_le [OF num_def] by (simp add: not_less)
  show ?thesis
  proof (cases "num \<ge> 0x1f")
    case True
    have enc: "der_tag tag = (tb OR 0x1f) # base128_enc (ucast num)"
      using True by (simp add: der_tag_def tag_mask CBS_ASN1_TAG_SHIFT_def num_def tb_def Let_def)
    have low: "(tb OR 0x1f) AND 0x1f = 0x1f" unfolding tb_def low_tag_bits by simp
    have "\<not> (ucast num :: u64) < 0x1f" using True by (simp add: word_less_nat_alt word_le_nat_alt)
    moreover have "push_bit 24 (ucast (tb OR 0x1f) AND 0xe0) OR num = tag"
      unfolding tb_def by (rule tag_reassemble [OF num_def mask5_bits])
    moreover have "(ucast (ucast num :: u64) :: u32) = num"
      by (rule bit_word_eqI) (simp add: bit_simps)
    ultimately show ?thesis
      using le by (simp add: parse_asn1_tag_def enc rbind_def parse_base128_enc low tag_mask
          CBS_ASN1_TAG_SHIFT_def Let_def)
  next
    case False
    then have small: "num < 0x1f" by simp
    have enc: "der_tag tag = [tb OR ucast num]"
      using False by (simp add: der_tag_def tag_mask CBS_ASN1_TAG_SHIFT_def num_def tb_def Let_def)
    have nb: "\<not> bit (ucast num :: u8) n" if "5 \<le> n" for n by (rule ucast_small_bits [OF small that])
    have "(ucast num AND 0x1f :: u8) = ucast num"
      unfolding tag_masks
    proof (rule bit_word_eqI)
      fix n show "bit (ucast num AND mask 5 :: u8) n = bit (ucast num :: u8) n"
        using nb [of n] by (cases "5 \<le> n") (auto simp: bit_simps)
    qed
    then have low: "(tb OR ucast num) AND 0x1f = (ucast num :: u8)"
      by (simp only: tb_def low_tag_bits)
    have num: "(ucast (ucast num :: u8) :: u32) = num"
    proof -
      have "unat num < 256" using small by (simp add: word_less_nat_alt)
      then show ?thesis
        by (intro word_unat_eq_iff [THEN iffD2]) (simp add: unat_ucast_small)
    qed
    have "push_bit 24 (ucast (tb OR ucast num) AND 0xe0) OR num = tag"
      unfolding tb_def by (rule tag_reassemble [OF num_def nb])
    then show ?thesis
      using small by (auto simp: parse_asn1_tag_def enc rbind_def low num CBS_ASN1_TAG_SHIFT_def Let_def)
  qed
qed


lemma tag_split:
  fixes tb :: u8 and num :: u32
  assumes tag: "tag = push_bit 24 (ucast tb AND 0xe0) OR num" and num: "\<And>n. 29 \<le> n \<Longrightarrow> \<not> bit num n"
  shows "tag AND mask 29 = num" and "(ucast (drop_bit 24 tag AND 0xe0) :: u8) = tb AND 0xe0"
proof -
  show "tag AND mask 29 = num"
    unfolding tag tag_masks
  proof (rule bit_word_eqI)
    fix n show "bit ((push_bit 24 (ucast tb AND push_bit 5 (mask 3)) OR num) AND mask 29) n = bit num n"
      using num [of n] by (cases "29 \<le> n") (auto simp: bit_simps)
  qed
  show "(ucast (drop_bit 24 tag AND 0xe0) :: u8) = tb AND 0xe0"
    unfolding tag tag_masks
  proof (rule bit_word_eqI)
    fix n assume "n < LENGTH(8)"
    then show "bit (ucast (drop_bit 24 (push_bit 24 (ucast tb AND push_bit 5 (mask 3)) OR num) AND
        push_bit 5 (mask 3)) :: u8) n = bit (tb AND push_bit 5 (mask 3)) n"
      using num [of "24 + n"] by (cases "5 \<le> n") (auto simp: bit_simps)
  qed
qed

lemma tag_byte_split: "tb = (tb AND 0xe0) OR (tb AND 0x1f)" for tb :: u8
proof -
  have "(0xe0 OR 0x1f :: u8) = -1" by simp
  then have "tb = tb AND (0xe0 OR 0x1f)" by (simp only: and.right_neutral)
  then show ?thesis by (simp only: bit.conj_disj_distrib)
qed


lemma parse_asn1_tag_SomeE:
  assumes "parse_asn1_tag s = (Some tag, t)"
  shows "s = der_tag tag @ t"
proof -
  from assms obtain tb s' where s: "s = tb # s'"
    by (cases s) (auto simp: parse_asn1_tag_def rbind_def)
  let ?hi = "push_bit 24 (ucast tb AND 0xe0) :: u32"
  show ?thesis
  proof (cases "tb AND 0x1f = 0x1f")
    case True
    with assms obtain v where v: "parse_base128_integer s' = (Some v, t)"
      and rng: "\<not> v > ucast (mask 29 :: u32)" "\<not> v < 0x1f" and tag: "tag = ?hi OR ucast v"
      by (auto simp: parse_asn1_tag_def rbind_def s Let_def tag_mask CBS_ASN1_TAG_SHIFT_def
          split: prod.splits option.splits if_splits)
    have "unat v \<le> unat (mask 29 :: u32)" using rng(1) by (simp add: not_less word_le_nat_alt)
    then have le: "unat v < 2 ^ 29" by (simp add: mask_eq_exp_minus_1)
    then have uv: "unat (ucast v :: u32) = unat v"
      by (intro unat_ucast_small) simp
    with le have "unat (ucast v :: u32) < 2 ^ 29" by simp
    note split = tag_split [OF tag bits_above [OF this]]
    have "(ucast (ucast v :: u32) :: u64) = v" by (rule word_unat_eq_iff [THEN iffD2]) (simp add: uv)
    moreover have "(ucast v :: u32) \<ge> 0x1f" using rng(2) uv by (simp add: word_le_nat_alt word_less_nat_alt)
    moreover have "tb AND 0xe0 OR 0x1f = tb" using tag_byte_split [of tb] True by simp
    ultimately have "der_tag tag = tb # base128_enc v"
      by (simp add: der_tag_def tag_mask CBS_ASN1_TAG_SHIFT_def split Let_def)
    with parse_base128_SomeE [OF v] show ?thesis by (simp add: s)
  next
    case False
    have "unat (tb AND 0x1f) \<le> 0x1f" using word_and_le1 [of tb "0x1f"] by (simp add: word_le_nat_alt)
    moreover have "unat (tb AND 0x1f) \<noteq> 0x1f" using False by (simp add: word_unat_eq_iff)
    ultimately have small: "unat (tb AND 0x1f) < 0x1f" by simp
    have uc: "unat (ucast (tb AND 0x1f) :: u32) = unat (tb AND 0x1f)"
      using small by (intro unat_ucast_small) simp
    then have lt: "(ucast (tb AND 0x1f) :: u32) < 0x1f" using small by (simp add: word_less_nat_alt)
    with assms have tag: "tag = ?hi OR ucast (tb AND 0x1f)" and t: "t = s'"
      by (auto simp: parse_asn1_tag_def rbind_def s Let_def CBS_ASN1_TAG_SHIFT_def split: if_splits)
    have "unat (ucast (tb AND 0x1f) :: u32) < 2 ^ 29" using uc small by simp
    note split = tag_split [OF tag bits_above [OF this]]
    have "(ucast (ucast (tb AND 0x1f) :: u32) :: u8) = tb AND 0x1f"
      by (rule bit_word_eqI) (simp add: bit_simps)
    then have "der_tag tag = [tb]"
      using lt tag_byte_split [of tb, symmetric] by (simp add: not_le [symmetric] der_tag_def tag_mask CBS_ASN1_TAG_SHIFT_def split Let_def)
    then show ?thesis by (simp add: s t)
  qed
qed


interpretation der_tag: codec der_tag parse_asn1_tag "\<lambda>_. True"
  by unfold_locales (rule parse_asn1_tag_der)

lemma length_der_tag: "0 < length (der_tag tag) \<and> length (der_tag tag) \<le> 11"
  using base128_len_le [of "ucast (tag AND CBS_ASN1_TAG_NUMBER_MASK)"]
  by (simp add: der_tag_def Let_def length_base128_enc)

section \<open>Length octets and elements\<close>

definition len_octets :: "nat \<Rightarrow> nat" where
  "len_octets n = (if n \<le> 0xff then 1 else if n \<le> 0xffff then 2 else if n \<le> 0xffffff then 3 else 4)"

definition der_len :: "nat \<Rightarrow> u8 list" where
  "der_len n =
     (if n \<le> 0x7f then [of_nat n]
      else (0x80 OR of_nat (len_octets n)) # be_bytes (len_octets n) n)"

definition der_header :: "u32 \<Rightarrow> nat \<Rightarrow> u8 list" where
  "der_header tag n = der_tag tag @ der_len n"

definition der_element :: "u32 \<Rightarrow> u8 list \<Rightarrow> u8 list" where
  "der_element tag contents = der_header tag (length contents) @ contents"

lemma len_octets_range: "1 \<le> len_octets n \<and> len_octets n \<le> 4"
  by (simp add: len_octets_def)

lemma len_octets_bounds:
  "0x7f < n \<Longrightarrow> n < 2 ^ 32 \<Longrightarrow> n < 256 ^ len_octets n \<and> 256 ^ (len_octets n - 1) \<le> n"
  by (simp add: len_octets_def)

lemma len_octets_eq:
  assumes "0 < k" and "k \<le> 4" and "n < 256 ^ k" and "256 ^ (k - 1) \<le> n"
  shows "len_octets n = k"
proof -
  consider "k = 1" | "k = 2" | "k = 3" | "k = 4" using assms(1,2) by linarith
  then show ?thesis using assms(3,4) by cases (simp_all add: len_octets_def)
qed

lemma len_octet_byte:
  assumes "1 \<le> k" and "k \<le> (4 :: nat)"
  shows "(0x80 OR of_nat k) AND 0x80 \<noteq> (0 :: u8)"
    and "unat (ucast ((0x80 OR of_nat k) AND 0x7f :: u8) :: u64) = k"
proof -
  consider "k = 1" | "k = 2" | "k = 3" | "k = 4" using assms by linarith
  then show "(0x80 OR of_nat k) AND 0x80 \<noteq> (0 :: u8)"
    and "unat (ucast ((0x80 OR of_nat k) AND 0x7f :: u8) :: u64) = k"
    by (cases; simp)+
qed

lemma length_der_len: "0 < length (der_len n) \<and> length (der_len n) \<le> 5"
  using len_octets_range [of n] by (simp add: der_len_def)

lemma length_der_header: "0 < length (der_header tag n) \<and> length (der_header tag n) \<le> 16"
  using length_der_tag [of tag] length_der_len [of n] by (simp add: der_header_def)

lemma shifted_len_0: "n < 2 ^ 64 \<Longrightarrow> drop_bit j (of_nat n :: u64) = 0 \<longleftrightarrow> n < 2 ^ j"
  by (simp add: word_unat_eq_iff unat_drop_bit_eq unat_of_nat_u64_small drop_bit_nat_def
      div_eq_0_iff)

lemma pow256: "(256 :: nat) ^ j = 2 ^ (j * 8)"
proof -
  have "(2 :: nat) ^ (8 * j) = (2 ^ 8) ^ j" by (rule power_mult)
  then show ?thesis by (simp add: mult.commute)
qed

lemma get_element_short:
  assumes "parse_asn1_tag s = (Some tag, b # h)" and "b AND 0x80 = 0"
  shows "cbs_get_any_asn1_element ber s =
           cbs_finish_element s tag (ucast b + of_nat (length s - length h))
             (of_nat (length s - length h)) False"
  by (simp add: cbs_get_any_asn1_element_def assms CBS_len_def Let_def)

lemma get_element_long:
  assumes "parse_asn1_tag s = (Some tag, b # bs @ h)" and "b AND 0x80 \<noteq> 0"
    and "unat (ucast (b AND 0x7f) :: u64) = k" and "0 < k" and "k \<le> 4" and "length bs = k"
    and "128 \<le> be_nat bs" and "256 ^ (k - 1) \<le> be_nat bs" and "length s - length h \<le> 64"
  shows "cbs_get_any_asn1_element ber s =
           cbs_finish_element s tag (of_nat (be_nat bs + (length s - length h)))
             (of_nat (length s - length h)) False"
proof -
  let ?nb = "ucast (b AND 0x7f) :: u64"
  let ?hl = "length s - length (bs @ h)"
  have nb: "?nb = of_nat k" using assms(3,5) by (simp add: word_unat_eq_iff unat_of_nat_u64_small)
  have "be_nat bs < 256 ^ length bs" by (rule be_nat_less)
  also have "\<dots> \<le> 256 ^ 4" using assms(5,6) by (intro power_increasing) auto
  finally have lt: "be_nat bs < 2 ^ 32" by simp
  obtain pre where "s = pre @ b # bs @ h" using tag.suffix_law [of s] assms(1) by auto
  then have lens: "length s - length h = ?hl + k"
    using assms(6) by auto
  define n where "n = be_nat bs"
  have "n + ?hl + k < 2 ^ 64" using lt lens assms(9) by (simp add: n_def)
  then have sum: "unat (of_nat n + of_nat ?hl + of_nat k :: u64) = n + ?hl + k"
    by (simp only: unat_of_nat_u64_small flip: of_nat_add)
  have no_overflow: "\<not> of_nat n + of_nat ?hl + of_nat k < (of_nat n :: u64)"
    unfolding word_less_nat_alt sum using lt by (simp add: unat_of_nat_u64_small n_def)
  have long: "\<not> (of_nat n :: u64) < 128" and minimal: "drop_bit ((k - 1) * 8) (of_nat n :: u64) \<noteq> 0"
  proof -
    show "\<not> (of_nat n :: u64) < 128"
      using lt assms(7) by (simp add: word_less_nat_alt unat_of_nat_u64_small n_def)
    show "drop_bit ((k - 1) * 8) (of_nat n :: u64) \<noteq> 0"
      using lt assms(8) by (simp add: shifted_len_0 n_def pow256 [of "k - 1", simplified])
  qed
  have range: "(of_nat k :: u64) \<noteq> 0" "\<not> (of_nat k :: u64) > 4" "unat (of_nat k :: u64) = k"
    using assms(4,5) by (auto simp: word_unat_eq_iff word_less_nat_alt unat_of_nat_u64_small)
  have get: "cbs_get_u k (bs @ h) = (Some (of_nat n), h)"
    unfolding n_def by (rule get_u_append [OF assms(6)])
  show ?thesis
    using assms(2) no_overflow long minimal range
    by (simp add: cbs_get_any_asn1_element_def assms(1) CBS_len_def Let_def nb get lens
        add.assoc flip: n_def)
qed


lemma get_element_der [parser_simps]:
  assumes "length c < 2 ^ 32"
  shows "cbs_get_any_asn1_element ber (der_element tag c @ rest) =
           (Some \<lparr>el_out = der_element tag c, el_tag = tag,
                   el_header_len = of_nat (length (der_header tag (length c))),
                   el_ber_found = False\<rparr>, rest)"
proof -
  let ?s = "der_element tag c @ rest" and ?n = "length c"
  let ?H = "length (der_header tag ?n)"
  have H: "?H \<le> 16" using length_der_header by blast
  have total: "unat (of_nat (?n + ?H) :: u64) = ?n + ?H"
    using H assms by (intro unat_of_nat_u64_small) simp
  have tag: "parse_asn1_tag ?s = (Some tag, der_len ?n @ c @ rest)"
    by (simp add: der_element_def der_header_def parse_asn1_tag_der)
  have "cbs_get_any_asn1_element ber ?s =
      cbs_finish_element ?s tag (of_nat (?n + ?H)) (of_nat ?H) False"
  proof (cases "?n \<le> 0x7f")
    case True
    have short: "der_len ?n = [of_nat ?n]" using True by (simp add: der_len_def)
    have un: "unat (of_nat ?n :: u8) = ?n" using True by (simp add: unat_of_nat_u8)
    then have "of_nat ?n AND (0x80 :: u8) = 0"
      using True bits_above [of "of_nat ?n :: u8" 7 7] un by (simp add: u8_and_80)
    moreover have "(ucast (of_nat ?n :: u8) :: u64) = of_nat ?n"
      using True by (simp add: word_unat_eq_iff un unat_of_nat_u64_small)
    moreover have "length ?s - length (c @ rest) = ?H"
      by (simp add: der_element_def)
    ultimately show ?thesis
      using get_element_short [OF tag [unfolded short append.simps]] by simp
  next
    case False
    let ?k = "len_octets ?n"
    have bounds: "?n < 256 ^ ?k" "256 ^ (?k - 1) \<le> ?n"
      using len_octets_bounds [of ?n] False assms by auto
    have k: "1 \<le> ?k" "?k \<le> 4" using len_octets_range by auto
    have be: "be_nat (be_bytes ?k ?n) = ?n" using bounds(1) by simp
    have long: "der_len ?n = (0x80 OR of_nat ?k) # be_bytes ?k ?n" using False by (simp add: der_len_def)
    have hl: "length ?s - length (c @ rest) = ?H" by (simp add: der_element_def)
    have "cbs_get_any_asn1_element ber ?s = cbs_finish_element ?s tag
        (of_nat (be_nat (be_bytes ?k ?n) + (length ?s - length (c @ rest))))
        (of_nat (length ?s - length (c @ rest))) False"
      by (rule get_element_long [where b = "0x80 OR of_nat ?k" and k = ?k])
         (use tag long k be bounds(2) False H hl len_octet_byte [OF k] in auto)
    then show ?thesis by (simp only: be hl)
  qed
  moreover have "length (der_element tag c) = ?n + ?H" by (simp add: der_element_def)
  ultimately show ?thesis by (simp only: finish_element_eq total) simp
qed


lemma der_len_short: "b AND 0x80 = 0 \<Longrightarrow> der_len (unat b) = [b]" for b :: u8
proof -
  assume "b AND 0x80 = 0"
  then have "b = b AND 0x7f" using u8_split_80 [of b] by simp
  then have "b \<le> 0x7f" using word_and_le1 [of b "0x7f"] by metis
  then show ?thesis by (simp add: der_len_def word_le_nat_alt)
qed

lemma der_len_long:
  assumes "b AND 0x80 \<noteq> (0 :: u8)" and "unat (b AND 0x7f) = length bs" and "0 < length bs"
    and "length bs \<le> 4" and "128 \<le> be_nat bs" and "256 ^ (length bs - 1) \<le> be_nat bs"
  shows "der_len (be_nat bs) = b # bs"
proof -
  have k: "len_octets (be_nat bs) = length bs"
    using assms be_nat_less by (intro len_octets_eq) auto
  have "b AND 0x7f = of_nat (length bs)" by (simp flip: assms(2))
  then have "b = 0x80 OR of_nat (length bs)"
    using u8_split_80 [of b, symmetric] assms(1) by (simp add: or.commute)
  then show ?thesis using assms(5) by (simp add: der_len_def k)
qed

lemma finish_element_SomeD:
  "cbs_finish_element s tag len hl bf = (Some e, t) \<Longrightarrow> unat len \<le> length s \<and> t = drop (unat len) s"
  by (auto simp: finish_element_eq split: if_splits)

lemma get_element_canonical:
  assumes "CBS_get_any_asn1_element s = (Some e, t)"
  obtains tag c where "s = der_element tag c @ t" and "length c < 2 ^ 32"
    and "e = \<lparr>el_out = der_element tag c, el_tag = tag,
              el_header_len = of_nat (length (der_header tag (length c))), el_ber_found = False\<rparr>"
proof -
  have ass: "cbs_get_any_asn1_element False s = (Some e, t)"
    using assms by (simp add: CBS_get_any_asn1_element_def)
  then obtain tag h where tag: "parse_asn1_tag s = (Some tag, h)"
    by (auto simp: cbs_get_any_asn1_element_def split: prod.splits option.splits)
  with ass obtain b h' where h: "h = b # h'"
    by (cases h) (auto simp: cbs_get_any_asn1_element_def)
  have s: "s = der_tag tag @ b # h'" using parse_asn1_tag_SomeE [OF tag] h by simp
  have hd: "length s - length h' = length (der_tag tag) + 1" by (simp add: s)
  have "length (der_tag tag) \<le> 11" using length_der_tag by blast
  then have small: "n < 2 ^ 33 \<Longrightarrow> n + (length (der_tag tag) + 1) < 2 ^ 64" for n by simp
  obtain c where c: "s = der_element tag c @ t" "length c < 2 ^ 32"
  proof (cases "b AND 0x80 = 0")
    case True
    let ?len = "ucast b + of_nat (length (der_tag tag) + 1) :: u64"
    have "unat b < 2 ^ 33" by (rule less_trans [OF unat_u8_less]) simp
    moreover have "?len = of_nat (unat b + (length (der_tag tag) + 1))"
      by (simp only: ucast_u8_of_nat of_nat_add)
    ultimately have len: "unat ?len = unat b + (length (der_tag tag) + 1)"
      using small by (simp only: unat_of_nat_u64_small)
    have "cbs_finish_element s tag ?len (of_nat (length (der_tag tag) + 1)) False = (Some e, t)"
      using ass get_element_short [OF tag [unfolded h] True, of False] by (simp only: hd)
    from finish_element_SomeD [OF this, unfolded len]
    have "unat b \<le> length h'" and t: "t = drop (unat b) h'" by (simp_all add: s)
    then have lc: "length (take (unat b) h') = unat b" by simp
    then have "s = der_element tag (take (unat b) h') @ t"
      by (simp only: s t der_element_def der_header_def der_len_short [OF True]) simp
    moreover have "length (take (unat b) h') < 2 ^ 32"
      unfolding lc by (rule less_trans [OF unat_u8_less]) simp
    ultimately show thesis by (rule that)
  next
    case False
    let ?nb = "ucast (b AND 0x7f) :: u64"
    from ass False have nb: "?nb \<noteq> 0" "\<not> ?nb > 4"
      by (auto simp: cbs_get_any_asn1_element_def tag h Let_def split: if_splits)
    from ass False nb obtain len64 h'' where get: "cbs_get_u (unat ?nb) h' = (Some len64, h'')"
      by (auto simp: cbs_get_any_asn1_element_def tag h Let_def split: prod.splits option.splits)
    with ass False nb have min: "\<not> len64 < 128" "drop_bit ((unat ?nb - 1) * 8) len64 \<noteq> 0"
      by (auto simp: cbs_get_any_asn1_element_def tag h Let_def split: if_splits)
    obtain bs where bs: "h' = bs @ h''" "length bs = unat ?nb" "len64 = of_nat (be_nat bs)"
      using get by (rule get_u_SomeE)
    define k where "k = length bs"
    have k: "unat ?nb = k" "0 < k" "k \<le> 4"
      using bs(2) nb by (auto simp: k_def word_less_nat_alt word_unat_eq_iff not_less
          simp del: unat_ucast_u8_u64)
    have "be_nat bs < 256 ^ k" unfolding k_def by (rule be_nat_less)
    also have "\<dots> \<le> 256 ^ 4" using k by (intro power_increasing) auto
    finally have lt: "be_nat bs < 2 ^ 32" by simp
    then have len64: "unat len64 = be_nat bs" using bs(3) by (simp add: unat_of_nat_u64_small)
    have long: "128 \<le> be_nat bs" using min(1) by (simp add: word_less_nat_alt len64)
    have minimal: "256 ^ (k - 1) \<le> be_nat bs"
      using min(2) lt by (simp add: pow256 k(1) bs(3) shifted_len_0 del: unat_ucast_u8_u64)
    let ?L = "length (der_tag tag) + 1 + k"
    have hl: "length s - length h'' = ?L" by (simp add: s bs(1) k_def)
    have L: "?L \<le> 64" using \<open>length (der_tag tag) \<le> 11\<close> k by simp
    have "cbs_finish_element s tag (of_nat (be_nat bs + ?L)) (of_nat ?L) False = (Some e, t)"
      using ass get_element_long [OF tag [unfolded h bs(1)] False k(1) k(2) k(3)
          k_def [symmetric] long minimal, of False] L
      by (simp only: hl)
    moreover have "unat (of_nat (be_nat bs + ?L) :: u64) = be_nat bs + ?L"
      using lt L by (intro unat_of_nat_u64_small) simp
    ultimately have "be_nat bs + ?L \<le> length s" and t: "t = drop (be_nat bs + ?L) s"
      using finish_element_SomeD by metis+
    then have le: "be_nat bs \<le> length h''" by (simp add: s bs(1) k_def)
    have "der_len (be_nat bs) = b # bs"
      using False k long minimal by (intro der_len_long) (simp_all add: k_def)
    then have "s = der_element tag (take (be_nat bs) h'') @ t"
      using le by (simp add: s t bs(1) der_element_def der_header_def k_def)
    moreover have "length (take (be_nat bs) h'') < 2 ^ 32" using lt le by simp
    ultimately show thesis by (rule that)
  qed
  with get_element_der [OF c(2), of False tag t] ass that show thesis by auto
qed


lemma skip_header:
  "CBS_skip (unat (of_nat (length (der_header tag (length c))) :: u64)) (der_element tag c) = (Some (), c)"
proof -
  have "length (der_header tag (length c)) \<le> 16" using length_der_header by blast
  then have "unat (of_nat (length (der_header tag (length c))) :: u64) = length (der_header tag (length c))"
    by (intro unat_of_nat_u64_small) simp
  then show ?thesis by (simp add: CBS_skip_def rbind_def der_element_def cbs_get_append)
qed

lemma get_any_asn1_der [parser_simps]:
  "length c < 2 ^ 32 \<Longrightarrow> CBS_get_any_asn1 (der_element tag c @ rest) = (Some (c, tag), rest)"
  by (simp add: CBS_get_any_asn1_def CBS_get_any_asn1_element_def rbind_def get_element_der skip_header)

lemma get_asn1_der [parser_simps]:
  "length c < 2 ^ 32 \<Longrightarrow>
     CBS_get_asn1 tag' (der_element tag c @ rest) = (if tag = tag' then Some c else None, rest)"
  by (simp add: CBS_get_asn1_def cbs_get_asn1_def CBS_get_any_asn1_element_def rbind_def
      get_element_der skip_header)

lemma get_asn1_SomeE:
  assumes "CBS_get_asn1 tag s = (Some c, t)"
  shows "s = der_element tag c @ t \<and> length c < 2 ^ 32"
proof -
  from assms obtain e t' where e: "CBS_get_any_asn1_element s = (Some e, t')"
    by (auto simp: CBS_get_asn1_def cbs_get_asn1_def elim: rbind_SomeE)
  obtain tag' c' where s: "s = der_element tag' c' @ t'" and c': "length c' < 2 ^ 32"
    using e by (rule get_element_canonical)
  with assms have "tag' = tag" "c' = c" "t' = t"
    by (auto simp: s get_asn1_der split: if_splits)
  with s c' show ?thesis by simp
qed

interpretation der_element: codec "\<lambda>(c, tag). der_element tag c" CBS_get_any_asn1
  "\<lambda>(c, tag). length c < 2 ^ 32"
  by unfold_locales (auto simp: get_any_asn1_der)

lemma suffix_get_asn1 [intro!]: "suffix_reader (cbs_get_asn1 tag skip)"
  unfolding cbs_get_asn1_def CBS_get_any_asn1_element_def
  by (intro suffix_rbind suffix_If)
     (auto intro!: element.suffix_reader_axioms suffix_rfail suffix_rreturn split: prod.split option.split)

section \<open>Integer contents\<close>

lemma shift_in_of_nat: "shift_in (of_nat m) b = of_nat (256 * m + unat b)"
  by (simp only: shift_in_add ucast_u8_of_nat of_nat_add of_nat_mult of_nat_numeral)

lemma asn1_uint64_loop_of_nat:
  assumes "m < 2 ^ 64"
  shows "asn1_uint64_loop (of_nat m) bs =
           (if m * 256 ^ length bs + be_nat bs < 2 ^ 64
            then Some (of_nat (m * 256 ^ length bs + be_nat bs)) else None)"
  using assms
proof (induction bs arbitrary: m)
  case (Cons b bs)
  have eq: "(256 * m + unat b) * 256 ^ length bs + be_nat bs
      = m * 256 ^ length (b # bs) + be_nat (b # bs)"
    by (simp add: be_nat_Cons algebra_simps)
  show ?case
  proof (cases "m < 2 ^ 56")
    case True
    then have "256 * m + unat b < 256 * m + 256" "256 * m + 256 \<le> 2 ^ 64"
      using unat_u8_less [of b] by (simp_all del: unat_u8_less)
    then have lt: "256 * m + unat b < 2 ^ 64" by linarith
    have "drop_bit 56 (of_nat m :: u64) = 0" using True Cons.prems by (simp add: shifted_len_0)
    then have "asn1_uint64_loop (of_nat m) (b # bs) = asn1_uint64_loop (of_nat (256 * m + unat b)) bs"
      by (simp add: shift_in_of_nat)
    also note Cons.IH [OF lt]
    finally show ?thesis by (simp only: eq)
  next
    case False
    then have "drop_bit 56 (of_nat m :: u64) \<noteq> 0" using Cons.prems by (simp add: shifted_len_0)
    moreover have "2 ^ 64 \<le> m * 256 ^ length (b # bs)"
    proof -
      have "(2 :: nat) ^ 64 \<le> 2 ^ 56 * 256 ^ length (b # bs)" by simp
      also have "\<dots> \<le> m * 256 ^ length (b # bs)" using False by (intro mult_le_mono1) simp
      finally show ?thesis .
    qed
    ultimately show ?thesis by (simp del: power_Suc list.size)
  qed
qed simp

text \<open>An INTEGER is read as its value, whatever its length, and refused exactly when too large.\<close>

lemma asn1_uint64_loop_value:
  "asn1_uint64_loop 0 bs = (if be_nat bs < 2 ^ 64 then Some (of_nat (be_nat bs)) else None)"
  using asn1_uint64_loop_of_nat [of 0 bs] by simp

lemma get_asn1_uint64_der:
  assumes "length c < 2 ^ 32"
  shows "CBS_get_asn1_uint64 (der_element CBS_ASN1_INTEGER c @ rest) =
           (if CBS_is_unsigned_asn1_integer c \<and> be_nat c < 2 ^ 64
            then Some (of_nat (be_nat c)) else None, rest)"
  using assms by (simp add: CBS_get_asn1_uint64_def rbind_def get_asn1_der CBS_data_def asn1_uint64_loop_value)

end
