(* ===== verification/Cbb.thy ===== *)
theory Cbb
  imports Der
begin

text \<open>
  crypto/bytestring/cbb.c: the builder. All the \<open>CBB\<close>s of one message share one growable
  buffer and form a chain, each with at most one open child whose length prefix is still pending.
  The state is that buffer and the list of open children from the root down, and a \<open>CBB *\<close> is
  its depth in the chain: 0 for the root, \<open>d + 1\<close> for the child opened on depth \<open>d\<close>. A
  depth beyond the chain is a child whose \<open>base\<close> has been reset to NULL.

  The buffer's bytes are all \<open>cap\<close> bytes of the block, of which the first \<open>len\<close> are valid.
\<close>

section \<open>The shared buffer\<close>

record cbb_buffer_st =
  bb_buf :: "u8 list"
  bb_len :: u64
  bb_cap :: u64
  bb_can_resize :: bool
  bb_error :: bool

record cbb_child =
  ch_offset :: u64
  ch_pending_len_len :: u8
  ch_pending_is_asn1 :: bool

record cbb_st =
  cbb_base :: "cbb_buffer_st option"
  cbb_children :: "cbb_child list"

definition CBB_zero :: cbb_st where
  "CBB_zero = \<lparr>cbb_base = None, cbb_children = []\<rparr>"

definition cbb_init :: "allocator \<Rightarrow> cbb_st \<Rightarrow> u8 list \<Rightarrow> u64 \<Rightarrow> cbb_st option" where
  "cbb_init al cbb buf cap =
     (case OPENSSL_malloc al 32 of
        None \<Rightarrow> None
      | Some _ \<Rightarrow> Some (cbb\<lparr>cbb_base := Some \<lparr>bb_buf = buf, bb_len = 0, bb_cap = cap,
                            bb_can_resize = True, bb_error = False\<rparr>\<rparr>))"

text \<open>Two allocations, each with its own answer: the buffer (\<open>al\<close>), then the base
  (\<open>al'\<close>). An unallocated zero-sized buffer has no bytes.\<close>

definition CBB_init :: "allocator \<Rightarrow> allocator \<Rightarrow> u64 \<Rightarrow> cbb_st option" where
  "CBB_init al al' initial_capacity =
     (let cbb = CBB_zero; buf = OPENSSL_malloc al initial_capacity
      in if initial_capacity > 0 \<and> buf = None then None
         else cbb_init al' cbb (case buf of None \<Rightarrow> [] | Some b \<Rightarrow> b) initial_capacity)"

definition CBB_init_fixed :: "allocator \<Rightarrow> u8 list \<Rightarrow> u64 \<Rightarrow> cbb_st option" where
  "CBB_init_fixed al' buf len =
     (case cbb_init al' CBB_zero buf len of
        None \<Rightarrow> None
      | Some cbb \<Rightarrow>
          Some (cbb\<lparr>cbb_base := map_option (\<lambda>b. b\<lparr>bb_can_resize := False\<rparr>) (cbb_base cbb)\<rparr>))"

definition CBB_cleanup :: "cbb_st \<Rightarrow> cbb_st" where
  "CBB_cleanup cbb = cbb\<lparr>cbb_base := None\<rparr>"

definition cbb_buffer_reserve :: "allocator \<Rightarrow> cbb_buffer_st \<Rightarrow> u64 \<Rightarrow> bool \<times> cbb_buffer_st" where
  "cbb_buffer_reserve al base len =
     (let newlen = bb_len base + len; err = (False, base\<lparr>bb_error := True\<rparr>)
      in if newlen < bb_len base then err
         else if newlen > bb_cap base then
           (let newcap = bb_cap base * 2
            in if \<not> bb_can_resize base then err
               else
                 (let newcap =
                    (if newcap < bb_cap base \<or> newcap < newlen then newlen else newcap)
                  in (case OPENSSL_realloc al (Some (bb_buf base)) newcap of
                        None \<Rightarrow> err
                      | Some newbuf \<Rightarrow>
                          (True, base\<lparr>bb_buf := newbuf, bb_cap := newcap\<rparr>))))
         else (True, base))"

text \<open>The out pointer of these two is the position \<open>bb_len base\<close> before the call.\<close>

definition cbb_buffer_add :: "allocator \<Rightarrow> cbb_buffer_st \<Rightarrow> u64 \<Rightarrow> bool \<times> cbb_buffer_st" where
  "cbb_buffer_add al base len =
     (case cbb_buffer_reserve al base len of
        (False, base) \<Rightarrow> (False, base)
      | (True, base) \<Rightarrow> (True, base\<lparr>bb_len := bb_len base + len\<rparr>))"

text \<open>The big-endian store loop, from the last byte to the first; it returns what is left of
  the value.\<close>

fun store_be_loop :: "nat \<Rightarrow> nat \<Rightarrow> u64 \<Rightarrow> u8 list \<Rightarrow> u8 list \<times> u64" where
  "store_be_loop 0 off v buf = (buf, v)"
| "store_be_loop (Suc i) off v buf = store_be_loop i off (drop_bit 8 v) (buf[off + i := ucast v])"

definition cbb_buffer_add_u ::
    "allocator \<Rightarrow> cbb_buffer_st \<Rightarrow> u64 \<Rightarrow> nat \<Rightarrow> bool \<times> cbb_buffer_st" where
  "cbb_buffer_add_u al base v len_len =
     (if len_len = 0 then (True, base)
      else
        (case cbb_buffer_add al base (of_nat len_len) of
           (False, base') \<Rightarrow> (False, base')
         | (True, base') \<Rightarrow>
             (let (buf, v) = store_be_loop len_len (unat (bb_len base)) v (bb_buf base');
                  base' = base'\<lparr>bb_buf := buf\<rparr>
              in if v \<noteq> 0 then (False, base'\<lparr>bb_error := True\<rparr>) else (True, base'))))"

section \<open>Flushing pending length prefixes\<close>

text \<open>The ASN.1 case: choose the form, make room, write the initial length byte. It yields the
  buffer, the child and what is left to write of the length, or \<open>None\<close> for \<open>goto err\<close>
  with the buffer as it then is.\<close>

definition cbb_flush_asn1 ::
    "allocator \<Rightarrow> cbb_buffer_st \<Rightarrow> cbb_child \<Rightarrow> u64 \<Rightarrow> u64 \<Rightarrow>
       cbb_buffer_st \<times> (cbb_child \<times> u64) option" where
  "cbb_flush_asn1 al base child child_start len =
     (if len > 0xfffffffe then (base, None)
      else
        (let (len_len, initial_length_byte, len') =
               (if len > 0xffffff then (5 :: u8, 0x80 OR 4 :: u8, len)
                else if len > 0xffff then (4, 0x80 OR 3, len)
                else if len > 0xff then (3, 0x80 OR 2, len)
                else if len > 0x7f then (2, 0x80 OR 1, len)
                else (1, ucast len, 0));
             moved =
               (if len_len \<noteq> 1
                then
                  (let extra_bytes = ucast len_len - 1 :: u64
                   in (case cbb_buffer_add al base extra_bytes of
                         (False, base) \<Rightarrow> (False, base)
                       | (True, base) \<Rightarrow>
                           (True, base\<lparr>bb_buf := write_at (unat (child_start + extra_bytes))
                              (take (unat len') (drop (unat child_start) (bb_buf base)))
                              (bb_buf base)\<rparr>)))
                else (True, base))
         in (case moved of
               (False, base) \<Rightarrow> (base, None)
             | (True, base) \<Rightarrow>
                 (base\<lparr>bb_buf := (bb_buf base)[unat (ch_offset child) := initial_length_byte]\<rparr>,
                  Some (child\<lparr>ch_offset := ch_offset child + 1,
                              ch_pending_len_len := len_len - 1\<rparr>, len')))))"

text \<open>\<open>cbb_flush al base cs\<close> is \<open>CBB_flush\<close> on the \<open>CBB\<close> whose open descendants are
  \<open>cs\<close>; it returns the descendants still attached.\<close>

fun cbb_flush ::
    "allocator \<Rightarrow> cbb_buffer_st \<Rightarrow> cbb_child list \<Rightarrow> bool \<times> cbb_buffer_st \<times> cbb_child list" where
  "cbb_flush al base [] = (if bb_error base then (False, base, []) else (True, base, []))"
| "cbb_flush al base (child # cs) =
     (if bb_error base then (False, base, child # cs)
      else if ch_pending_len_len child = 0 then (True, base, child # cs)
      else
        (let child_start = ch_offset child + ucast (ch_pending_len_len child);
             (ok, base, cs) = cbb_flush al base cs
         in if \<not> ok \<or> child_start < ch_offset child \<or> bb_len base < child_start
            then (False, base\<lparr>bb_error := True\<rparr>, child # cs)
            else
              (let len = bb_len base - child_start;
                   (base, prefix) =
                     (if ch_pending_is_asn1 child
                      then cbb_flush_asn1 al base child child_start len
                      else (base, Some (child, len)))
               in (case prefix of
                     None \<Rightarrow> (False, base\<lparr>bb_error := True\<rparr>, child # cs)
                   | Some (child, len) \<Rightarrow>
                       (let (buf, len) = store_be_loop (unat (ch_pending_len_len child))
                              (unat (ch_offset child)) len (bb_buf base);
                            base = base\<lparr>bb_buf := buf\<rparr>
                        in if len \<noteq> 0
                           then (False, base\<lparr>bb_error := True\<rparr>, child # cs)
                           else (True, base, []))))))"

section \<open>Operations\<close>

type_synonym cbb_op = "cbb_st \<Rightarrow> bool \<times> cbb_st"

text \<open>\<open>if (!f(cbb) || !g(cbb)) return 0;\<close> and an operation on the shared buffer.\<close>

definition cbb_then :: "cbb_op \<Rightarrow> cbb_op \<Rightarrow> cbb_op" where
  "cbb_then f g S = (case f S of (False, S') \<Rightarrow> (False, S') | (True, S') \<Rightarrow> g S')"

definition cbb_skip :: cbb_op where
  "cbb_skip S = (True, S)"

definition cbb_fail :: cbb_op where
  "cbb_fail S = (False, S)"

definition on_base :: "(cbb_buffer_st \<Rightarrow> bool \<times> cbb_buffer_st) \<Rightarrow> cbb_op" where
  "on_base f S =
     (case cbb_base S of
        None \<Rightarrow> (False, S)
      | Some b \<Rightarrow> (case f b of (ok, b') \<Rightarrow> (ok, S\<lparr>cbb_base := Some b'\<rparr>)))"

definition CBB_flush :: "allocator \<Rightarrow> nat \<Rightarrow> cbb_op" where
  "CBB_flush al d S =
     (case cbb_base S of
        None \<Rightarrow> (False, S)
      | Some base \<Rightarrow>
          if d > length (cbb_children S) then (False, S)
          else
            (let (ok, base, cs) = cbb_flush al base (drop d (cbb_children S))
             in (ok, S\<lparr>cbb_base := Some base, cbb_children := take d (cbb_children S) @ cs\<rparr>)))"

text \<open>\<open>have_out\<close> says whether both out pointers were given; the result is the bytes handed
  over.\<close>

definition CBB_finish :: "allocator \<Rightarrow> nat \<Rightarrow> bool \<Rightarrow> cbb_st \<Rightarrow> u8 list option \<times> cbb_st" where
  "CBB_finish al d have_out S =
     (if d \<noteq> 0 then (None, S)
      else
        (case CBB_flush al d S of
           (False, S) \<Rightarrow> (None, S)
         | (True, S) \<Rightarrow>
             (case cbb_base S of
                None \<Rightarrow> (None, S)
              | Some base \<Rightarrow>
                  if bb_can_resize base \<and> \<not> have_out then (None, S)
                  else (Some (take (unat (bb_len base)) (bb_buf base)),
                        CBB_cleanup (S\<lparr>cbb_base := Some (base\<lparr>bb_buf := []\<rparr>)\<rparr>)))))"

definition cbb_contents_start :: "nat \<Rightarrow> cbb_st \<Rightarrow> u64" where
  "cbb_contents_start d S =
     (if d = 0 then 0
      else (let c = cbb_children S ! (d - 1) in ch_offset c + ucast (ch_pending_len_len c)))"

definition CBB_len :: "nat \<Rightarrow> cbb_st \<Rightarrow> u64" where
  "CBB_len d S =
     (case cbb_base S of None \<Rightarrow> 0 | Some base \<Rightarrow> bb_len base - cbb_contents_start d S)"

text \<open>The bytes \<open>CBB_data\<close> points at, up to \<open>CBB_len\<close>.\<close>

definition CBB_data :: "nat \<Rightarrow> cbb_st \<Rightarrow> u8 list" where
  "CBB_data d S =
     (case cbb_base S of
        None \<Rightarrow> []
      | Some base \<Rightarrow>
          take (unat (CBB_len d S)) (drop (unat (cbb_contents_start d S)) (bb_buf base)))"

definition cbb_attach :: "nat \<Rightarrow> u64 \<Rightarrow> u8 \<Rightarrow> bool \<Rightarrow> cbb_op" where
  "cbb_attach d offset len_len is_asn1 S =
     (True, S\<lparr>cbb_children := take d (cbb_children S) @
               [\<lparr>ch_offset = offset, ch_pending_len_len = len_len, ch_pending_is_asn1 = is_asn1\<rparr>]\<rparr>)"

definition cbb_base_len :: "cbb_st \<Rightarrow> u64" where
  "cbb_base_len S = (case cbb_base S of None \<Rightarrow> 0 | Some base \<Rightarrow> bb_len base)"

definition cbb_add_length_prefixed :: "allocator \<Rightarrow> nat \<Rightarrow> u8 \<Rightarrow> cbb_op" where
  "cbb_add_length_prefixed al d len_len = cbb_then (CBB_flush al d) (\<lambda>S.
     let offset = cbb_base_len S
     in cbb_then
          (on_base (\<lambda>base.
             case cbb_buffer_add al base (ucast len_len) of
               (False, base) \<Rightarrow> (False, base)
             | (True, base) \<Rightarrow>
                 (True, base\<lparr>bb_buf :=
                    write_at (unat offset) (replicate (unat len_len) 0) (bb_buf base)\<rparr>)))
          (cbb_attach d offset len_len False) S)"

definition CBB_add_u8_length_prefixed :: "allocator \<Rightarrow> nat \<Rightarrow> cbb_op" where
  "CBB_add_u8_length_prefixed al d = cbb_add_length_prefixed al d 1"

definition CBB_add_u16_length_prefixed :: "allocator \<Rightarrow> nat \<Rightarrow> cbb_op" where
  "CBB_add_u16_length_prefixed al d = cbb_add_length_prefixed al d 2"

definition CBB_add_u24_length_prefixed :: "allocator \<Rightarrow> nat \<Rightarrow> cbb_op" where
  "CBB_add_u24_length_prefixed al d = cbb_add_length_prefixed al d 3"

definition CBB_add_bytes :: "allocator \<Rightarrow> nat \<Rightarrow> u8 list \<Rightarrow> cbb_op" where
  "CBB_add_bytes al d data = cbb_then (CBB_flush al d) (on_base (\<lambda>base.
     case cbb_buffer_add al base (of_nat (length data)) of
       (False, base') \<Rightarrow> (False, base')
     | (True, base') \<Rightarrow>
         (True, base'\<lparr>bb_buf := write_at (unat (bb_len base)) data (bb_buf base')\<rparr>)))"

definition CBB_add_space :: "allocator \<Rightarrow> nat \<Rightarrow> u64 \<Rightarrow> cbb_op" where
  "CBB_add_space al d len =
     cbb_then (CBB_flush al d) (on_base (\<lambda>base. cbb_buffer_add al base len))"

definition CBB_add_zeros :: "allocator \<Rightarrow> nat \<Rightarrow> u64 \<Rightarrow> cbb_op" where
  "CBB_add_zeros al d len = cbb_then (CBB_add_space al d len) (on_base (\<lambda>base.
     (True, base\<lparr>bb_buf := write_at (unat (bb_len base - len)) (replicate (unat len) 0)
                             (bb_buf base)\<rparr>)))"

definition CBB_reserve :: "allocator \<Rightarrow> nat \<Rightarrow> u64 \<Rightarrow> cbb_op" where
  "CBB_reserve al d len =
     cbb_then (CBB_flush al d) (on_base (\<lambda>base. cbb_buffer_reserve al base len))"

definition CBB_did_write :: "nat \<Rightarrow> u64 \<Rightarrow> cbb_op" where
  "CBB_did_write d len S = on_base (\<lambda>base.
     let newlen = bb_len base + len
     in if length (cbb_children S) > d \<or> newlen < bb_len base \<or> newlen > bb_cap base
        then (False, base)
        else (True, base\<lparr>bb_len := newlen\<rparr>)) S"

definition CBB_add_u8 :: "allocator \<Rightarrow> nat \<Rightarrow> u8 \<Rightarrow> cbb_op" where
  "CBB_add_u8 al d value =
     cbb_then (CBB_flush al d) (on_base (\<lambda>base. cbb_buffer_add_u al base (ucast value) 1))"

definition CBB_add_u16 :: "allocator \<Rightarrow> nat \<Rightarrow> u16 \<Rightarrow> cbb_op" where
  "CBB_add_u16 al d value =
     cbb_then (CBB_flush al d) (on_base (\<lambda>base. cbb_buffer_add_u al base (ucast value) 2))"

definition CBB_add_u16le :: "allocator \<Rightarrow> nat \<Rightarrow> u16 \<Rightarrow> cbb_op" where
  "CBB_add_u16le al d value = CBB_add_u16 al d (CRYPTO_bswap2 value)"

definition CBB_add_u24 :: "allocator \<Rightarrow> nat \<Rightarrow> u32 \<Rightarrow> cbb_op" where
  "CBB_add_u24 al d value =
     cbb_then (CBB_flush al d) (on_base (\<lambda>base. cbb_buffer_add_u al base (ucast value) 3))"

definition CBB_add_u32 :: "allocator \<Rightarrow> nat \<Rightarrow> u32 \<Rightarrow> cbb_op" where
  "CBB_add_u32 al d value =
     cbb_then (CBB_flush al d) (on_base (\<lambda>base. cbb_buffer_add_u al base (ucast value) 4))"

definition CBB_add_u32le :: "allocator \<Rightarrow> nat \<Rightarrow> u32 \<Rightarrow> cbb_op" where
  "CBB_add_u32le al d value = CBB_add_u32 al d (CRYPTO_bswap4 value)"

definition CBB_add_u64 :: "allocator \<Rightarrow> nat \<Rightarrow> u64 \<Rightarrow> cbb_op" where
  "CBB_add_u64 al d value =
     cbb_then (CBB_flush al d) (on_base (\<lambda>base. cbb_buffer_add_u al base value 8))"

definition CBB_add_u64le :: "allocator \<Rightarrow> nat \<Rightarrow> u64 \<Rightarrow> cbb_op" where
  "CBB_add_u64le al d value = CBB_add_u64 al d (CRYPTO_bswap8 value)"

text \<open>Only the direct child is detached in the C code; a grandchild left open by the caller is
  treated as detached with it.\<close>

definition CBB_discard_child :: "nat \<Rightarrow> cbb_st \<Rightarrow> cbb_st" where
  "CBB_discard_child d S =
     (if length (cbb_children S) \<le> d then S
      else S\<lparr>cbb_base := map_option
               (\<lambda>base. base\<lparr>bb_len := ch_offset (cbb_children S ! d)\<rparr>) (cbb_base S),
             cbb_children := take d (cbb_children S)\<rparr>)"

fun add_base128_loop :: "allocator \<Rightarrow> nat \<Rightarrow> u64 \<Rightarrow> nat \<Rightarrow> cbb_op" where
  "add_base128_loop al d v 0 = cbb_skip"
| "add_base128_loop al d v (Suc i) =
     (let byte = ucast (drop_bit (7 * i) v AND 0x7f) :: u8;
          byte = (if i \<noteq> 0 then byte OR 0x80 else byte)
      in cbb_then (CBB_add_u8 al d byte) (add_base128_loop al d v i))"

definition add_base128_integer :: "allocator \<Rightarrow> nat \<Rightarrow> u64 \<Rightarrow> cbb_op" where
  "add_base128_integer al d v =
     (let len_len = base128_count v;
          len_len = (if len_len = 0 then 1 else len_len)
      in add_base128_loop al d v len_len)"

definition CBB_add_asn1 :: "allocator \<Rightarrow> nat \<Rightarrow> u32 \<Rightarrow> cbb_op" where
  "CBB_add_asn1 al d tag = cbb_then (CBB_flush al d)
     (let tag_bits = ucast (drop_bit CBS_ASN1_TAG_SHIFT tag AND 0xe0) :: u8;
          tag_number = tag AND CBS_ASN1_TAG_NUMBER_MASK
      in cbb_then
           (if tag_number \<ge> 0x1f
            then cbb_then (CBB_add_u8 al d (tag_bits OR 0x1f))
                          (add_base128_integer al d (ucast tag_number))
            else CBB_add_u8 al d (tag_bits OR ucast tag_number))
           (\<lambda>S. let offset = cbb_base_len S
                in cbb_then (CBB_add_u8 al d 0) (cbb_attach d offset 1 True) S))"

end
