(* ===== verification/Cbb_Spec.thy ===== *)
theory Cbb_Spec
  imports Cbb
begin

text \<open>
  What the builder promises. Abstractly a chain of open \<open>CBB\<close>s is a list of frames, each the
  contents written so far behind a prefix of some kind; flushing closes the inner frames, replacing
  each by its encoded length followed by its contents, provided the length fits the prefix. The
  buffer and the offsets of \<open>Cbb\<close> are shown to implement this.
\<close>

section \<open>Frames\<close>

datatype pfx = Root | Fixed nat | Asn1

type_synonym frame = "pfx \<times> u8 list"

fun pend :: "pfx \<Rightarrow> nat" where
  "pend Root = 0"
| "pend (Fixed n) = n"
| "pend Asn1 = 1"

fun wf_pfx :: "pfx \<Rightarrow> bool" where
  "wf_pfx Root = False"
| "wf_pfx (Fixed n) = (1 \<le> n \<and> n \<le> 7)"
| "wf_pfx Asn1 = True"

fun fits :: "pfx \<Rightarrow> nat \<Rightarrow> bool" where
  "fits Root n = False"
| "fits (Fixed k) n = (n < 256 ^ k)"
| "fits Asn1 n = (n \<le> 0xfffffffe)"

fun enc_prefix :: "pfx \<Rightarrow> nat \<Rightarrow> u8 list" where
  "enc_prefix Root n = []"
| "enc_prefix (Fixed k) n = be_bytes k n"
| "enc_prefix Asn1 n = der_len n"

text \<open>What a list of open children becomes when it is flushed; \<open>None\<close> if a length does not fit.\<close>

fun collapse :: "frame list \<Rightarrow> u8 list option" where
  "collapse [] = Some []"
| "collapse ((k, c) # fs) =
     (case collapse fs of
        None \<Rightarrow> None
      | Some s \<Rightarrow>
          (let body = c @ s
           in if fits k (length body) then Some (enc_prefix k (length body) @ body) else None))"

definition lay :: "frame \<Rightarrow> u8 list" where
  "lay f = replicate (pend (fst f)) 0 @ snd f"

definition layout :: "frame list \<Rightarrow> u8 list" where
  "layout fs = concat (map lay fs)"

fun chain :: "nat \<Rightarrow> frame list \<Rightarrow> cbb_child list" where
  "chain p [] = []"
| "chain p ((k, c) # fs) =
     \<lparr>ch_offset = of_nat p, ch_pending_len_len = of_nat (pend k),
      ch_pending_is_asn1 = (k = Asn1)\<rparr> # chain (p + pend k + length c) fs"

lemma layout_simps [simp]:
  "layout [] = []" "layout (f # fs) = lay f @ layout fs" "layout (fs @ gs) = layout fs @ layout gs"
  by (simp_all add: layout_def)

lemma length_lay [simp]: "length (lay (k, c)) = pend k + length c"
  by (simp add: lay_def)

lemma length_chain [simp]: "length (chain p fs) = length fs"
  by (induction p fs rule: chain.induct) auto

lemma chain_append: "chain p (fs @ gs) = chain p fs @ chain (p + length (layout fs)) gs"
  by (induction p fs rule: chain.induct) (auto simp: add.assoc)

section \<open>The buffer\<close>

definition buf_ok :: "cbb_buffer_st \<Rightarrow> bool" where
  "buf_ok b \<longleftrightarrow> length (bb_buf b) = unat (bb_cap b) \<and> bb_len b \<le> bb_cap b \<and> \<not> bb_error b"

definition valid_bytes :: "cbb_buffer_st \<Rightarrow> u8 list" where
  "valid_bytes b = take (unat (bb_len b)) (bb_buf b)"

lemma length_valid_bytes [simp]: "buf_ok b \<Longrightarrow> length (valid_bytes b) = unat (bb_len b)"
  by (simp add: buf_ok_def valid_bytes_def word_le_nat_alt)

lemma reserve_ok:
  assumes "cbb_buffer_reserve al b n = (True, b')" and "buf_ok b"
  shows "buf_ok b' \<and> bb_len b' = bb_len b \<and> valid_bytes b' = valid_bytes b \<and>
         unat (bb_len b) + unat n \<le> unat (bb_cap b')"
proof -
  have no: "\<not> bb_len b + n < bb_len b" using assms(1) by (auto simp: cbb_buffer_reserve_def Let_def)
  then have sum: "unat (bb_len b + n) = unat (bb_len b) + unat n"
    by (simp add: u64_add_overflow unat_u64_add)
  show ?thesis
  proof (cases "bb_len b + n > bb_cap b")
    case False
    with assms no sum show ?thesis
      by (auto simp: cbb_buffer_reserve_def Let_def word_less_nat_alt)
  next
    case True
    with assms(1) no obtain newcap blk where newcap: "bb_len b + n \<le> newcap"
      and blk: "OPENSSL_realloc al (Some (bb_buf b)) newcap = Some blk"
      and b': "b' = b\<lparr>bb_buf := blk, bb_cap := newcap\<rparr>"
      by (auto simp: cbb_buffer_reserve_def Let_def not_less split: if_splits option.splits)
    have "unat (bb_cap b) < unat (bb_len b) + unat n" using True by (simp add: word_less_nat_alt sum)
    moreover have le: "unat (bb_len b) + unat n \<le> unat newcap" using newcap by (simp add: word_le_nat_alt sum)
    ultimately have grow: "length (bb_buf b) \<le> unat newcap" using assms(2) by (simp add: buf_ok_def)
    have lb: "unat (bb_len b) \<le> length (bb_buf b)" using assms(2) by (simp add: buf_ok_def word_le_nat_alt)
    have "take (unat (bb_len b)) blk = take (unat (bb_len b)) (take (length (bb_buf b)) blk)"
      using lb by (simp add: min_def)
    then have keep: "take (unat (bb_len b)) blk = take (unat (bb_len b)) (bb_buf b)"
      using OPENSSL_realloc_keeps [OF blk grow] by simp
    have "length blk = unat newcap" using blk by (rule OPENSSL_realloc_length)
    then show ?thesis
      using b' assms(2) keep le grow lb by (simp add: buf_ok_def valid_bytes_def word_le_nat_alt)
  qed
qed

lemma reserve_error:
  "cbb_buffer_reserve al b n = (False, b') \<Longrightarrow> bb_error b'"
  by (auto simp: cbb_buffer_reserve_def Let_def split: if_splits option.splits)

lemma buffer_add_ok:
  assumes "cbb_buffer_add al b n = (True, b')" and "buf_ok b"
  obtains junk where "buf_ok b'" and "valid_bytes b' = valid_bytes b @ junk" and "length junk = unat n"
    and "unat (bb_len b') = unat (bb_len b) + unat n"
proof -
  obtain b1 where r: "cbb_buffer_reserve al b n = (True, b1)" and b': "b' = b1\<lparr>bb_len := bb_len b1 + n\<rparr>"
    using assms(1) by (auto simp: cbb_buffer_add_def split: prod.splits bool.splits)
  note b1 = reserve_ok [OF r assms(2)]
  have "unat (bb_len b) + unat n < 2 ^ 64"
    using b1 unat_u64_less [of "bb_cap b1"] by (simp del: unat_u64_less)
  then have len: "unat (bb_len b + n) = unat (bb_len b) + unat n" by (simp add: unat_u64_add)
  have ok: "buf_ok b'" using b1 by (simp add: buf_ok_def b' word_le_nat_alt len)
  have "valid_bytes b' = valid_bytes b @ take (unat n) (drop (unat (bb_len b)) (bb_buf b1))"
    using b1 by (auto simp: valid_bytes_def b' len take_add)
  moreover have "length (take (unat n) (drop (unat (bb_len b)) (bb_buf b1))) = unat n"
    using b1 by (auto simp: buf_ok_def min_def)
  moreover have "unat (bb_len b') = unat (bb_len b) + unat n" using b1 len by (auto simp: b')
  ultimately show thesis using that ok by blast
qed

lemma buffer_add_error:
  "cbb_buffer_add al b n = (False, b') \<Longrightarrow> bb_error b'"
  by (auto simp: cbb_buffer_add_def dest: reserve_error split: prod.splits bool.splits)

lemma write_at_snoc:
  "off + length xs < length buf \<Longrightarrow>
     write_at off (xs @ [y]) buf = write_at off xs (buf[off + length xs := y])"
  by (simp add: write_at_def drop_update_swap take_update_swap upd_conv_take_nth_drop
      Cons_nth_drop_Suc [symmetric] add.commute)

lemma store_be_loop_eq:
  "off + n \<le> length buf \<Longrightarrow>
     store_be_loop n off v buf = (write_at off (be_bytes n (unat v)) buf, drop_bit (8 * n) v)"
proof (induction n arbitrary: v buf)
  case (Suc n)
  have "unat (drop_bit 8 v) = unat v div 256" by (simp add: unat_drop_bit_eq drop_bit_nat_def)
  moreover have "(of_nat (unat v) :: u8) = ucast v" by simp
  ultimately show ?case
    using Suc by (simp add: write_at_snoc add.commute)
qed simp


section \<open>Flushing implements collapsing\<close>

lemma chain_offset:
  assumes "buf_ok b" and "valid_bytes b = P @ lay (k, c)" and "wf_pfx k"
  shows "unat (of_nat (length P) :: u64) = length P"
    and "unat (of_nat (length P) + ucast (of_nat (pend k) :: u8) :: u64) = length P + pend k"
    and "unat (bb_len b) = length P + pend k + length c"
proof -
  have "length (valid_bytes b) = length P + pend k + length c" by (simp add: assms(2))
  then show len: "unat (bb_len b) = length P + pend k + length c" using assms(1) by simp
  have lt: "length P + pend k + length c < 2 ^ 64"
    using unat_u64_less [of "bb_len b"] unfolding len by simp
  then show "unat (of_nat (length P) :: u64) = length P" by (simp add: unat_of_nat_u64_small)
  have "pend k < 256" using assms(3) by (cases k) auto
  then have "(ucast (of_nat (pend k) :: u8) :: u64) = of_nat (pend k)"
    by (simp add: word_unat_eq_iff unat_of_nat_u8 unat_of_nat_u64_small)
  then have "(of_nat (length P) + ucast (of_nat (pend k) :: u8) :: u64) = of_nat (length P + pend k)"
    by simp
  then show "unat (of_nat (length P) + ucast (of_nat (pend k) :: u8) :: u64) = length P + pend k"
    using lt by (simp only: unat_of_nat_u64_small)
qed

text \<open>Writing \<open>bs\<close> over a placeholder of the same length inside the valid bytes.\<close>

lemma write_placeholder:
  assumes "buf_ok b" and "valid_bytes b = P @ X @ R" and "length bs = length X"
    and "b' = b\<lparr>bb_buf := write_at (length P) bs (bb_buf b)\<rparr>"
  shows "buf_ok b'" and "valid_bytes b' = P @ bs @ R"
proof -
  obtain D where split: "bb_buf b = P @ X @ R @ D"
    using assms(2) by (metis append.assoc append_take_drop_id valid_bytes_def)
  have len: "unat (bb_len b) = length P + length X + length R"
    using length_valid_bytes [OF assms(1)] by (simp add: assms(2))
  have wr: "write_at (length P) bs (bb_buf b) = P @ bs @ R @ D"
    using assms(3) by (simp add: write_at_def split)
  have "length (write_at (length P) bs (bb_buf b)) = length (bb_buf b)"
    unfolding wr by (simp add: split assms(3))
  then show "buf_ok b'" using assms(1) by (simp add: buf_ok_def assms(4))
  show "valid_bytes b' = P @ bs @ R"
    using assms(3) by (simp add: valid_bytes_def assms(4) wr len)
qed

text \<open>The fixed-width and the ASN.1 prefix.\<close>

lemma drop_bit_eq_0_pow256:
  "n < 2 ^ 64 \<Longrightarrow> drop_bit (8 * k) (of_nat n :: u64) = 0 \<longleftrightarrow> n < 256 ^ k"
  by (simp add: shifted_len_0 pow256 mult.commute)

lemma asn1_short:
  assumes "n \<le> 0x7f"
  shows "cbb_flush_asn1 al b child start (of_nat n) =
           (b\<lparr>bb_buf := (bb_buf b)[unat (ch_offset child) := of_nat n]\<rparr>,
            Some (child\<lparr>ch_offset := ch_offset child + 1, ch_pending_len_len := 0\<rparr>, 0))"
proof -
  have u: "unat (of_nat n :: u64) = n" using assms by (intro unat_of_nat_u64_small) simp
  then have "\<not> (of_nat n :: u64) > m" if "127 \<le> unat m" for m
    using assms that by (simp add: word_less_nat_alt)
  moreover have "(ucast (of_nat n :: u64) :: u8) = of_nat n"
    by (simp add: word_unat_eq_iff unsigned_ucast_eq unat_of_nat_u8 u take_bit_eq_mod)
  ultimately show ?thesis by (simp add: cbb_flush_asn1_def Let_def)
qed

lemma asn1_long:
  assumes "0x7f < n" and "n \<le> 0xfffffffe" and k: "k = len_octets n"
  shows "cbb_flush_asn1 al b child start (of_nat n) =
     (case cbb_buffer_add al b (of_nat k) of
        (False, b) \<Rightarrow> (b, None)
      | (True, b) \<Rightarrow>
          (b\<lparr>bb_buf := (write_at (unat (start + of_nat k)) (take n (drop (unat start) (bb_buf b)))
                          (bb_buf b))[unat (ch_offset child) := 0x80 OR of_nat k]\<rparr>,
           Some (child\<lparr>ch_offset := ch_offset child + 1, ch_pending_len_len := of_nat k\<rparr>, of_nat n)))"
proof -
  have u: "unat (of_nat n :: u64) = n" using assms by (intro unat_of_nat_u64_small) simp
  have gt: "(of_nat n :: u64) > m \<longleftrightarrow> unat m < n" for m by (simp add: word_less_nat_alt u)
  show ?thesis
    using assms
    by (auto simp: cbb_flush_asn1_def Let_def gt u len_octets_def split: prod.split bool.split)
qed

lemma flush_asn1_ok:
  assumes b: "buf_ok b" and vb: "valid_bytes b = P @ [z] @ c"
    and child: "ch_offset child = of_nat (length P)"
    and r: "cbb_flush_asn1 al b child (of_nat (length P + 1)) (of_nat (length c)) = (b1, Some (child', rest))"
    and st: "store_be_loop (unat (ch_pending_len_len child')) (unat (ch_offset child')) rest (bb_buf b1) = (buf', rest')"
    and lc: "length c < 2 ^ 64"
  shows "fits Asn1 (length c)" and "rest' = 0" and "buf_ok (b1\<lparr>bb_buf := buf'\<rparr>)"
    and "valid_bytes (b1\<lparr>bb_buf := buf'\<rparr>) = P @ der_len (length c) @ c"
proof -
  let ?n = "length c"
  have u: "unat (of_nat ?n :: u64) = ?n" using lc by (rule unat_of_nat_u64_small)
  show fit: "fits Asn1 ?n"
  proof (rule ccontr)
    assume "\<not> fits Asn1 ?n"
    then have "(of_nat ?n :: u64) > 0xfffffffe" by (simp add: word_less_nat_alt u)
    with r show False by (simp add: cbb_flush_asn1_def)
  qed
  have lenb: "unat (bb_len b) = length P + 1 + ?n" using length_valid_bytes [OF b] by (simp add: vb)
  then have lt: "length P + 1 + ?n < 2 ^ 64" using unat_u64_less [of "bb_len b"] by simp
  then have off: "unat (of_nat (length P) :: u64) = length P" "unat (of_nat (length P) + 1 :: u64) = length P + 1"
    using unat_of_nat_u64_small [of "length P + 1"] by (simp_all add: unat_of_nat_u64_small add.commute)
  have "rest' = 0 \<and> buf_ok (b1\<lparr>bb_buf := buf'\<rparr>) \<and> valid_bytes (b1\<lparr>bb_buf := buf'\<rparr>) = P @ der_len ?n @ c"
  proof (cases "?n \<le> 0x7f")
    case True
    from r st have "rest' = 0" and buf': "buf' = (bb_buf b)[length P := of_nat ?n]" and b1: "b1 = b\<lparr>bb_buf := buf'\<rparr>"
      by (auto simp: asn1_short [OF True] child off)
    have "length P < length (bb_buf b)" using b lenb by (simp add: buf_ok_def word_le_nat_alt)
    then have "buf' = write_at (length P) [of_nat ?n] (bb_buf b)"
      by (simp add: buf' write_at_def upd_conv_take_nth_drop)
    then have "buf_ok b1 \<and> valid_bytes b1 = P @ [of_nat ?n] @ c"
      using write_placeholder [OF b vb, of "[of_nat ?n]" b1] b1 by simp
    then show ?thesis using \<open>rest' = 0\<close> True by (simp add: b1 der_len_def)
  next
    case False
    let ?k = "len_octets ?n"
    have k: "1 \<le> ?k" "?k \<le> 4" using len_octets_range by auto
    have fits: "?n < 256 ^ ?k" using len_octets_bounds [of ?n] False fit by simp
    have uk: "unat (of_nat ?k :: u64) = ?k" "unat (of_nat ?k :: u8) = ?k"
      using k by (simp_all add: unat_of_nat_u64_small unat_of_nat_u8)
    obtain b2 where add: "cbb_buffer_add al b (of_nat ?k) = (True, b2)"
      and b1: "b1 = b2\<lparr>bb_buf := (write_at (unat (of_nat (length P + 1) + of_nat ?k :: u64))
          (take ?n (drop (unat (of_nat (length P + 1) :: u64)) (bb_buf b2))) (bb_buf b2))
          [length P := 0x80 OR of_nat ?k]\<rparr>"
      and child': "child' = child\<lparr>ch_offset := ch_offset child + 1, ch_pending_len_len := of_nat ?k\<rparr>"
      and rest: "rest = of_nat ?n"
      using r False fit by (auto simp: asn1_long child off simp del: of_nat_add split: prod.splits bool.splits)
    obtain junk where b2: "buf_ok b2" "valid_bytes b2 = (P @ [z] @ c) @ junk" "length junk = ?k"
      "unat (bb_len b2) = length P + 1 + ?n + ?k"
      using buffer_add_ok [OF add b] uk lenb vb by metis
    obtain D where buf2: "bb_buf b2 = P @ [z] @ c @ junk @ D"
      using b2(2) by (metis append.assoc append_take_drop_id valid_bytes_def)
    have "length P + 1 + ?k < 2 ^ 64"
      using b2(4) unat_u64_less [of "bb_len b2"] by simp
    then have start: "unat (of_nat (length P + 1) :: u64) = length P + 1"
      "unat (of_nat (length P + 1) + of_nat ?k :: u64) = length P + 1 + ?k"
      by (simp_all only: unat_of_nat_u64_small flip: of_nat_add)
    let ?hole = "take ?k (c @ junk)" and ?z = "0x80 OR of_nat ?k :: u8"
    have hole: "length ?hole = ?k" using b2(3) by simp
    have "write_at (length P + 1 + ?k) c (bb_buf b2) = P @ [z] @ ?hole @ c @ D"
      using b2(3) by (simp add: write_at_def buf2)
    then have buf1: "bb_buf b1 = P @ [?z] @ ?hole @ c @ D"
      unfolding b1 start by (simp add: buf2)
    have b1': "b1 = b2\<lparr>bb_buf := bb_buf b1\<rparr>" by (simp add: b1)
    have "buf_ok b1"
      using b2(1,3) hole by (subst b1') (auto simp: buf_ok_def buf2 buf1)
    have vb1: "valid_bytes b1 = (P @ [?z]) @ ?hole @ c"
      using b2(3,4) hole by (subst b1') (simp add: valid_bytes_def buf1)
    have "store_be_loop ?k (length P + 1) (of_nat ?n) (bb_buf b1) = (buf', rest')"
      using st by (simp add: child' rest uk child off)
    then have buf': "buf' = write_at (length P + 1) (be_bytes ?k ?n) (bb_buf b1)"
      and rest': "rest' = drop_bit (8 * ?k) (of_nat ?n)"
      using store_be_loop_eq [of "length P + 1" ?k "bb_buf b1" "of_nat ?n"] hole u by (auto simp: buf1)
    have "rest' = 0" using rest' fits lc by (simp add: drop_bit_eq_0_pow256)
    moreover have "buf_ok (b1\<lparr>bb_buf := buf'\<rparr>)" "valid_bytes (b1\<lparr>bb_buf := buf'\<rparr>) = (P @ [?z]) @ be_bytes ?k ?n @ c"
      using write_placeholder [OF \<open>buf_ok b1\<close> vb1, of "be_bytes ?k ?n" "b1\<lparr>bb_buf := buf'\<rparr>"] hole
      by (simp_all add: buf')
    ultimately show ?thesis using False by (simp add: der_len_def)
  qed
  then show "rest' = 0" "buf_ok (b1\<lparr>bb_buf := buf'\<rparr>)"
    "valid_bytes (b1\<lparr>bb_buf := buf'\<rparr>) = P @ der_len (length c) @ c" by blast+
qed


lemma fixed_prefix_ok:
  assumes "buf_ok b" and "valid_bytes b = P @ lay (Fixed k, c)" and "1 \<le> k" and "k \<le> 7"
    and "store_be_loop k (length P) (of_nat (length c)) (bb_buf b) = (buf', rest)"
  shows "rest = 0 \<longleftrightarrow> fits (Fixed k) (length c)" and "buf_ok (b\<lparr>bb_buf := buf'\<rparr>)"
    and "rest = 0 \<Longrightarrow> valid_bytes (b\<lparr>bb_buf := buf'\<rparr>) = P @ be_bytes k (length c) @ c"
proof -
  have len: "unat (bb_len b) = length P + k + length c"
    using length_valid_bytes [OF assms(1)] by (simp add: assms(2) lay_def)
  then have lc: "length c < 2 ^ 64" and P: "length P + k \<le> length (bb_buf b)"
    using unat_u64_less [of "bb_len b"] assms(1) by (auto simp: buf_ok_def word_le_nat_alt simp del: unat_u64_less)
  have u: "unat (of_nat (length c) :: u64) = length c" using lc by (rule unat_of_nat_u64_small)
  have st: "buf' = write_at (length P) (be_bytes k (length c)) (bb_buf b)"
    "rest = drop_bit (8 * k) (of_nat (length c))"
    using store_be_loop_eq [OF P, of "of_nat (length c)"] assms(5) u by simp_all
  show "rest = 0 \<longleftrightarrow> fits (Fixed k) (length c)" using lc by (simp add: st(2) drop_bit_eq_0_pow256)
  have "valid_bytes b = P @ replicate k 0 @ c" by (simp add: assms(2) lay_def)
  note w = write_placeholder [OF assms(1) this, of "be_bytes k (length c)" "b\<lparr>bb_buf := buf'\<rparr>"]
  show "buf_ok (b\<lparr>bb_buf := buf'\<rparr>)" using w by (simp add: st(1))
  show "valid_bytes (b\<lparr>bb_buf := buf'\<rparr>) = P @ be_bytes k (length c) @ c" using w by (simp add: st(1))
qed

definition wf_frames :: "frame list \<Rightarrow> bool" where
  "wf_frames fs \<longleftrightarrow> (\<forall>f \<in> set fs. wf_pfx (fst f))"

lemma wf_frames_simps [simp]:
  "wf_frames []" "wf_frames (f # fs) \<longleftrightarrow> wf_pfx (fst f) \<and> wf_frames fs"
  "wf_frames (fs @ gs) \<longleftrightarrow> wf_frames fs \<and> wf_frames gs"
  by (auto simp: wf_frames_def)

lemma pend_pos: "wf_pfx k \<Longrightarrow> (of_nat (pend k) :: u8) \<noteq> 0 \<and> unat (of_nat (pend k) :: u8) = pend k"
  by (cases k) (auto simp: word_unat_eq_iff unat_of_nat_u8)

definition cbb_write_prefix :: "cbb_child list \<Rightarrow> cbb_buffer_st \<Rightarrow> cbb_child \<Rightarrow> u64 \<Rightarrow>
    bool \<times> cbb_buffer_st \<times> cbb_child list" where
  "cbb_write_prefix cs base child len =
     (let (buf, len) = store_be_loop (unat (ch_pending_len_len child))
                         (unat (ch_offset child)) len (bb_buf base);
          base = base\<lparr>bb_buf := buf\<rparr>
      in if len \<noteq> 0 then (False, base\<lparr>bb_error := True\<rparr>, child # cs) else (True, base, []))"

lemma cbb_flush_Cons:
  assumes "\<not> bb_error b" and "ch_pending_len_len child \<noteq> 0"
    and "cbb_flush al b cs = (True, b1, cs1)"
    and "start = ch_offset child + ucast (ch_pending_len_len child)"
    and "\<not> start < ch_offset child" and "start \<le> bb_len b1"
  shows "cbb_flush al b (child # cs) =
     (if ch_pending_is_asn1 child
      then (case cbb_flush_asn1 al b1 child start (bb_len b1 - start) of
              (b2, None) \<Rightarrow> (False, b2\<lparr>bb_error := True\<rparr>, child # cs1)
            | (b2, Some (child', len)) \<Rightarrow> cbb_write_prefix cs1 b2 child' len)
      else cbb_write_prefix cs1 b1 child (bb_len b1 - start))"
  using assms by (auto simp: Let_def not_less cbb_write_prefix_def split: prod.split option.split)

lemma cbb_write_prefix_True:
  assumes "cbb_write_prefix cs base child len = (True, b', cs')"
  obtains buf where "store_be_loop (unat (ch_pending_len_len child)) (unat (ch_offset child)) len
      (bb_buf base) = (buf, 0)" and "b' = base\<lparr>bb_buf := buf\<rparr>" and "cs' = []"
  using assms by (auto simp: cbb_write_prefix_def Let_def split: prod.splits if_splits)

abbreviation child_at :: "nat \<Rightarrow> pfx \<Rightarrow> cbb_child" where
  "child_at p k \<equiv> \<lparr>ch_offset = of_nat p, ch_pending_len_len = of_nat (pend k),
      ch_pending_is_asn1 = (k = Asn1)\<rparr>"

text \<open>Flushing the innermost of the open children once its own children are closed.\<close>

lemma cbb_flush_step:
  assumes nerr: "\<not> bb_error b" and rec: "cbb_flush al b (chain (length (P @ lay (k, c))) fs) = (True, b1, cs1)"
    and b1: "buf_ok b1" "valid_bytes b1 = P @ lay (k, body)" and wf: "wf_pfx k"
  shows "cbb_flush al b (chain (length P) ((k, c) # fs)) =
     (if k = Asn1
      then (case cbb_flush_asn1 al b1 (child_at (length P) k) (of_nat (length P + 1)) (of_nat (length body)) of
              (b2, None) \<Rightarrow> (False, b2\<lparr>bb_error := True\<rparr>, child_at (length P) k # cs1)
            | (b2, Some (child', len)) \<Rightarrow> cbb_write_prefix cs1 b2 child' len)
      else cbb_write_prefix cs1 b1 (child_at (length P) k) (of_nat (length body)))"
proof -
  let ?start = "of_nat (length P) + ucast (of_nat (pend k) :: u8) :: u64"
  note off = chain_offset [OF b1 wf]
  have le: "?start \<le> bb_len b1" using off by (simp add: word_le_nat_alt)
  have lt: "length body < 2 ^ 64" using off(3) unat_u64_less [of "bb_len b1"] by simp
  have len: "bb_len b1 - ?start = of_nat (length body)"
    by (simp only: word_unat_eq_iff unat_sub [OF le] unat_of_nat_u64_small [OF lt] off)
  have nle: "\<not> ?start < ch_offset (child_at (length P) k)"
    using off(1,2) by (simp add: word_less_nat_alt)
  have pend: "ch_pending_len_len (child_at (length P) k) \<noteq> 0" using pend_pos [OF wf] by simp
  have start: "?start = ch_offset (child_at (length P) k) + ucast (ch_pending_len_len (child_at (length P) k))"
    by simp
  have chain: "chain (length P) ((k, c) # fs) = child_at (length P) k # chain (length (P @ lay (k, c))) fs"
    by (simp add: add.assoc)
  have asn1: "k = Asn1 \<Longrightarrow> ?start = of_nat (length P + 1)" by simp
  show ?thesis
  proof (cases "k = Asn1")
    case True
    show ?thesis
      using cbb_flush_Cons [OF nerr pend rec start nle le, unfolded len, unfolded asn1 [OF True], folded chain] True
      by (simp only: cbb_child.select_convs if_True simp_thms)
  next
    case False
    show ?thesis
      using cbb_flush_Cons [OF nerr pend rec start nle le, unfolded len, folded chain] False
      by (simp only: cbb_child.select_convs if_False simp_thms)
  qed
qed

lemma cbb_flush_rec:
  assumes "cbb_flush al b (chain (length P) ((k, c) # fs)) = (True, b', cs')" and "buf_ok b" and "wf_pfx k"
  obtains b1 cs1 where "cbb_flush al b (chain (length (P @ lay (k, c))) fs) = (True, b1, cs1)"
proof -
  obtain ok b1 cs1 where rec: "cbb_flush al b (chain (length (P @ lay (k, c))) fs) = (ok, b1, cs1)"
    by (metis prod_cases3)
  have ok
    using assms(1,2) rec pend_pos [OF assms(3)]
    by (auto simp: Let_def buf_ok_def add.assoc split: if_splits)
  with rec that show thesis by simp
qed

lemma cbb_flush_ok:
  assumes "cbb_flush al b (chain (length P) fs) = (True, b', cs')" and "buf_ok b"
    and "valid_bytes b = P @ layout fs" and "wf_frames fs"
  shows "\<exists>s. collapse fs = Some s \<and> cs' = [] \<and> buf_ok b' \<and> valid_bytes b' = P @ s"
  using assms
proof (induction fs arbitrary: P b' cs')
  case Nil
  then show ?case by (auto split: if_splits)
next
  case (Cons f fs)
  obtain k c where f: "f = (k, c)" by (cases f)
  let ?child = "child_at (length P) k"
  have wf: "wf_pfx k" "wf_frames fs" using Cons.prems(4) by (simp_all add: f)
  have nerr: "\<not> bb_error b" using Cons.prems(2) by (simp add: buf_ok_def)
  obtain b1 cs1 where rec: "cbb_flush al b (chain (length (P @ lay (k, c))) fs) = (True, b1, cs1)"
    by (rule cbb_flush_rec [OF Cons.prems(1) [unfolded f] Cons.prems(2) wf(1)])
  from Cons.IH [OF rec Cons.prems(2) _ wf(2)] Cons.prems(3) obtain s
    where s: "collapse fs = Some s" "buf_ok b1" "valid_bytes b1 = P @ lay (k, c @ s)"
    by (auto simp: f lay_def)
  let ?body = "c @ s"
  have lt: "length ?body < 2 ^ 64"
    using chain_offset(3) [OF s(2,3) wf(1)] unat_u64_less [of "bb_len b1"] by simp
  note flush = cbb_flush_step [OF nerr rec s(2,3) wf(1), folded f, unfolded Cons.prems(1)]
  show ?case
  proof (cases "k = Asn1")
    case True
    obtain b2 child' rest where asn1: "cbb_flush_asn1 al b1 ?child (of_nat (length P + 1))
        (of_nat (length ?body)) = (b2, Some (child', rest))"
      and wr: "cbb_write_prefix cs1 b2 child' rest = (True, b', cs')"
      using flush True by (auto split: prod.splits option.splits)
    have vb: "valid_bytes b1 = P @ [0] @ ?body" using s(3) True by (simp add: lay_def)
    obtain buf' where loop: "store_be_loop (unat (ch_pending_len_len child'))
        (unat (ch_offset child')) rest (bb_buf b2) = (buf', 0)"
      and b': "b' = b2\<lparr>bb_buf := buf'\<rparr>" and cs': "cs' = []"
      using wr by (rule cbb_write_prefix_True)
    note closed = flush_asn1_ok [OF s(2) vb _ asn1 loop lt]
    show ?thesis using closed True s(1) by (simp add: f b' cs')
  next
    case False
    then obtain n where n: "k = Fixed n" "1 \<le> n" "n \<le> 7" using wf(1) by (cases k) auto
    have wr: "cbb_write_prefix cs1 b1 ?child (of_nat (length ?body)) = (True, b', cs')"
      using flush False by simp
    obtain buf' where loop: "store_be_loop (unat (of_nat (pend k) :: u8))
        (unat (of_nat (length P) :: u64)) (of_nat (length ?body)) (bb_buf b1) = (buf', 0)"
      and b': "b' = b1\<lparr>bb_buf := buf'\<rparr>" and cs': "cs' = []"
      using wr by (rule cbb_write_prefix_True) simp
    then have "store_be_loop n (length P) (of_nat (length ?body)) (bb_buf b1) = (buf', 0)"
      using pend_pos [OF wf(1)] chain_offset(1) [OF s(2,3) wf(1)] n(1) by simp
    from fixed_prefix_ok [OF s(2) _ n(2,3) this] s(1,3) n(1) show ?thesis
      by (simp add: f b' cs')
  qed
qed

section \<open>Flushing succeeds when the lengths fit and memory is available\<close>

definition serves :: "allocator \<Rightarrow> bool" where
  "serves al \<longleftrightarrow> (\<forall>n. unat n \<le> 2 ^ 62 \<longrightarrow> OPENSSL_malloc al n \<noteq> None)"

definition growable :: "allocator \<Rightarrow> cbb_buffer_st \<Rightarrow> bool" where
  "growable al b \<longleftrightarrow> serves al \<and> bb_can_resize b \<and> buf_ok b"

lemma reserve_can_resize:
  "bb_can_resize (snd (cbb_buffer_reserve al b n)) = bb_can_resize b"
  by (auto simp: cbb_buffer_reserve_def Let_def split: option.splits)

lemma reserve_total:
  assumes g: "growable al b" and room: "unat (bb_len b) + unat n \<le> 2 ^ 61"
  obtains b' where "cbb_buffer_reserve al b n = (True, b')" and "growable al b'"
proof -
  have sum: "unat (bb_len b + n) = unat (bb_len b) + unat n" using room by (simp add: unat_u64_add)
  then have no: "\<not> bb_len b + n < bb_len b" by (simp add: word_less_nat_alt)
  define newcap where "newcap = (if bb_cap b * 2 < bb_cap b \<or> bb_cap b * 2 < bb_len b + n
      then bb_len b + n else bb_cap b * 2)"
  have "\<exists>b'. cbb_buffer_reserve al b n = (True, b')"
  proof (cases "bb_len b + n > bb_cap b")
    case True
    then have "unat (bb_cap b) < 2 ^ 61" using room by (simp add: word_less_nat_alt sum)
    then have "unat (bb_cap b * 2) = 2 * unat (bb_cap b)" by (simp add: unat_word_ariths)
    then have "unat newcap \<le> 2 ^ 62" using \<open>unat (bb_cap b) < 2 ^ 61\<close> room
      by (simp add: newcap_def sum)
    then obtain blk where "OPENSSL_malloc al newcap = Some blk"
      using g by (auto simp: growable_def serves_def)
    then have "OPENSSL_realloc al (Some (bb_buf b)) newcap \<noteq> None"
      by (simp add: OPENSSL_realloc_def Let_def)
    then show ?thesis using True no g
      by (auto simp: cbb_buffer_reserve_def growable_def Let_def newcap_def [symmetric])
  qed (simp add: cbb_buffer_reserve_def no)
  then obtain b' where r: "cbb_buffer_reserve al b n = (True, b')" by blast
  have "growable al b'"
    using g reserve_ok [OF r] reserve_can_resize [of al b n] by (simp add: growable_def r)
  with r show thesis by (rule that)
qed

lemma add_total:
  assumes g: "growable al b" and room: "unat (bb_len b) + unat n \<le> 2 ^ 61"
  obtains b' where "cbb_buffer_add al b n = (True, b')" and "growable al b'"
proof -
  obtain b1 where r: "cbb_buffer_reserve al b n = (True, b1)" and g1: "growable al b1"
    using reserve_total [OF assms] .
  let ?b' = "b1\<lparr>bb_len := bb_len b1 + n\<rparr>"
  have a: "cbb_buffer_add al b n = (True, ?b')" by (simp add: cbb_buffer_add_def r)
  have "buf_ok ?b'" using buffer_add_ok [OF a] g by (auto simp: growable_def)
  then have "growable al ?b'" using g1 by (simp add: growable_def)
  with a show thesis by (rule that)
qed

lemma asn1_total:
  assumes g: "growable al b" and fit: "n \<le> 0xfffffffe" and "unat (bb_len b) + 4 \<le> 2 ^ 61"
  obtains b' child' rest where
    "cbb_flush_asn1 al b child start (of_nat n) = (b', Some (child', rest))"
    and "bb_can_resize b'"
proof (cases "n \<le> 0x7f")
  case True
  then show thesis using that g by (simp add: asn1_short growable_def)
next
  case False
  have k: "len_octets n \<le> 4" using len_octets_range [of n] by simp
  then have "unat (of_nat (len_octets n) :: u64) \<le> 4" by (simp add: unat_of_nat_u64_small)
  with assms(3) have "unat (bb_len b) + unat (of_nat (len_octets n) :: u64) \<le> 2 ^ 61" by linarith
  from add_total [OF g this] obtain b1
    where b1: "cbb_buffer_add al b (of_nat (len_octets n)) = (True, b1)" and "growable al b1" .
  then have "bb_can_resize b1" by (simp add: growable_def)
  moreover have "cbb_flush_asn1 al b child start (of_nat n) =
      (b1\<lparr>bb_buf := (write_at (unat (start + of_nat (len_octets n)))
          (take n (drop (unat start) (bb_buf b1))) (bb_buf b1))
            [unat (ch_offset child) := 0x80 OR of_nat (len_octets n)]\<rparr>,
       Some (child\<lparr>ch_offset := ch_offset child + 1,
                   ch_pending_len_len := of_nat (len_octets n)\<rparr>, of_nat n))"
    using False fit by (subst asn1_long [OF _ _ refl]) (simp_all add: b1)
  ultimately show thesis using that by simp
qed

lemma length_enc_prefix:
  "wf_pfx k \<Longrightarrow> pend k \<le> length (enc_prefix k n)"
  by (cases k) (auto simp: der_len_def)

lemma collapse_length: "wf_frames fs \<Longrightarrow> collapse fs = Some s \<Longrightarrow> length (layout fs) \<le> length s"
proof (induction fs arbitrary: s)
  case (Cons f fs)
  obtain k c where f: "f = (k, c)" by (cases f)
  from Cons.prems obtain t where t: "collapse fs = Some t"
    and s: "s = enc_prefix k (length (c @ t)) @ c @ t" and wf: "wf_pfx k" "wf_frames fs"
    by (auto simp: f Let_def split: option.splits if_splits)
  show ?case using Cons.IH [OF wf(2) t] length_enc_prefix [OF wf(1), of "length (c @ t)"]
    by (simp add: f s)
qed simp

lemma cbb_flush_total:
  assumes "growable al b" and "valid_bytes b = P @ layout fs" and "wf_frames fs"
    and "collapse fs = Some s" and "length P + length s + 4 \<le> 2 ^ 61"
  obtains b' where "cbb_flush al b (chain (length P) fs) = (True, b', [])" and "growable al b'"
proof -
  have "\<exists>b'. cbb_flush al b (chain (length P) fs) = (True, b', []) \<and> bb_can_resize b'"
    using assms
  proof (induction fs arbitrary: P s)
    case Nil
    then show ?case by (simp add: growable_def buf_ok_def)
  next
    case (Cons f fs)
    obtain k c where f: "f = (k, c)" by (cases f)
    let ?child = "\<lparr>ch_offset = of_nat (length P), ch_pending_len_len = of_nat (pend k),
        ch_pending_is_asn1 = (k = Asn1)\<rparr>" and ?Q = "P @ lay (k, c)"
    from Cons.prems obtain t where t: "collapse fs = Some t"
      and s: "s = enc_prefix k (length (c @ t)) @ c @ t" and fit: "fits k (length (c @ t))"
      and wf: "wf_pfx k" "wf_frames fs"
      by (auto simp: f Let_def split: option.splits if_splits)
    have ok: "buf_ok b" using Cons.prems(1) by (simp add: growable_def)
    have vb: "valid_bytes b = ?Q @ layout fs" using Cons.prems(2) by (simp add: f)
    have len: "length ?Q + length t + 4 \<le> 2 ^ 61"
      using Cons.prems(5) length_enc_prefix [OF wf(1), of "length (c @ t)"] by (simp add: s)
    obtain b1 where rec: "cbb_flush al b (chain (length ?Q) fs) = (True, b1, [])" and rs: "bb_can_resize b1"
      using Cons.IH [OF Cons.prems(1) vb wf(2) t len] by blast
    have b1: "buf_ok b1" "valid_bytes b1 = P @ lay (k, c @ t)"
      using cbb_flush_ok [OF rec ok vb wf(2)] t by (auto simp: lay_def)
    have g1: "growable al b1" using Cons.prems(1) b1 rs by (simp add: growable_def)
    have lt: "length (c @ t) < 2 ^ 64"
      using chain_offset(3) [OF b1 wf(1)] unat_u64_less [of "bb_len b1"] by simp
    have nerr: "\<not> bb_error b" using ok by (simp add: buf_ok_def)
    note flush = cbb_flush_step [OF nerr rec b1 wf(1), folded f]
    show ?case
    proof (cases "k = Asn1")
      case True
      have "unat (bb_len b1) + 4 \<le> 2 ^ 61" using len chain_offset(3) [OF b1 wf(1)] by simp
      from asn1_total [OF g1 _ this, of "length (c @ t)"] fit True obtain b2 child' rest
        where asn1: "cbb_flush_asn1 al b1 (child_at (length P) k) (of_nat (length P + 1))
            (of_nat (length (c @ t))) = (b2, Some (child', rest))" and r2: "bb_can_resize b2"
        by (metis fits.simps(3))
      obtain buf' rest' where loop: "store_be_loop (unat (ch_pending_len_len child'))
          (unat (ch_offset child')) rest (bb_buf b2) = (buf', rest')" by fastforce
      have "valid_bytes b1 = P @ [0] @ c @ t" using b1(2) True by (simp add: lay_def)
      from flush_asn1_ok(2) [OF b1(1) this _ asn1 loop lt] have "rest' = 0" by simp
      then show ?thesis using asn1 loop r2 True
        by (subst flush) (simp add: cbb_write_prefix_def)
    next
      case False
      then obtain n where n: "k = Fixed n" "1 \<le> n" "n \<le> 7" using wf(1) by (cases k) auto
      obtain buf' rest' where loop: "store_be_loop n (length P) (of_nat (length (c @ t))) (bb_buf b1) = (buf', rest')"
        by fastforce
      have "rest' = 0" using fixed_prefix_ok(1) [OF b1(1) _ n(2,3) loop] b1(2) fit n(1) by simp
      then have "cbb_write_prefix [] b1 (child_at (length P) k) (of_nat (length (c @ t))) =
          (True, b1\<lparr>bb_buf := buf'\<rparr>, [])"
        using loop pend_pos [OF wf(1)] chain_offset(1) [OF b1 wf(1)] n(1)
        by (simp add: cbb_write_prefix_def)
      then show ?thesis using False rs by (subst flush) simp
    qed
  qed
  then obtain b' where b': "cbb_flush al b (chain (length P) fs) = (True, b', [])" "bb_can_resize b'"
    by blast
  then have "growable al b'" using cbb_flush_ok [OF b'(1) _ assms(2,3)] assms(1)
    by (auto simp: growable_def)
  with b'(1) show thesis by (rule that)
qed

end
