(* ===== verification/Cbb_Ops.thy ===== *)
theory Cbb_Ops
  imports Cbb_Spec
begin

text \<open>
  Every builder operation of \<open>Cbb\<close> implements an operation on frames. \<open>implements al f g\<close> says
  that a successful \<open>f\<close> does what \<open>g\<close> says, and that \<open>f\<close> succeeds where \<open>g\<close> is defined as long
  as the buffer may grow, the allocator serves requests below its bound and the result stays below
  \<open>max_message\<close>. The relation composes, so the compound operations follow from the primitive ones.
\<close>

section \<open>Representation\<close>

definition cbb_repr :: "cbb_st \<Rightarrow> frame list \<Rightarrow> bool" where
  "cbb_repr S F \<longleftrightarrow>
     (\<exists>b r fs. cbb_base S = Some b \<and> F = (Root, r) # fs \<and> cbb_children S = chain (length r) fs \<and>
        wf_frames fs \<and> buf_ok b \<and> valid_bytes b = layout F)"

definition cbb_growable :: "cbb_st \<Rightarrow> bool" where
  "cbb_growable S = (case cbb_base S of None \<Rightarrow> False | Some b \<Rightarrow> bb_can_resize b)"

type_synonym spec_op = "frame list \<Rightarrow> frame list option"

definition spec_then :: "spec_op \<Rightarrow> spec_op \<Rightarrow> spec_op" where
  "spec_then g h F = (case g F of None \<Rightarrow> None | Some F' \<Rightarrow> h F')"

definition spec_flush :: "nat \<Rightarrow> spec_op" where
  "spec_flush d F =
     (if d < length F
      then map_option (\<lambda>s. take d F @ [(fst (F ! d), snd (F ! d) @ s)]) (collapse (drop (Suc d) F))
      else None)"

definition spec_append :: "u8 list \<Rightarrow> spec_op" where
  "spec_append bs F = Some (butlast F @ [(fst (last F), snd (last F) @ bs)])"

definition spec_open :: "pfx \<Rightarrow> spec_op" where
  "spec_open k F = Some (F @ [(k, [])])"

definition max_message :: nat where
  "max_message = 2 ^ 61 - 4"

definition wf_top :: "frame list \<Rightarrow> bool" where
  "wf_top F \<longleftrightarrow> (\<exists>r fs. F = (Root, r) # fs \<and> wf_frames fs)"

definition grows :: "spec_op \<Rightarrow> bool" where
  "grows g \<longleftrightarrow> (\<forall>F F'. wf_top F \<and> g F = Some F' \<longrightarrow> wf_top F' \<and> length (layout F) \<le> length (layout F'))"

text \<open>\<open>implements_at al P f g\<close> restricts this to states whose frames satisfy \<open>P\<close>.\<close>

definition implements_at :: "allocator \<Rightarrow> (frame list \<Rightarrow> bool) \<Rightarrow> cbb_op \<Rightarrow> spec_op \<Rightarrow> bool" where
  "implements_at al P f g \<longleftrightarrow> grows g \<and>
     (\<forall>S F. cbb_repr S F \<and> P F \<longrightarrow>
        (\<forall>S'. f S = (True, S') \<longrightarrow>
           (\<exists>F'. g F = Some F' \<and> cbb_repr S' F' \<and> cbb_growable S' = cbb_growable S)) \<and>
        (\<forall>F'. serves al \<and> cbb_growable S \<and> g F = Some F' \<and> length (layout F') \<le> max_message \<longrightarrow>
           fst (f S)))"

abbreviation implements :: "allocator \<Rightarrow> cbb_op \<Rightarrow> spec_op \<Rightarrow> bool" where
  "implements al \<equiv> implements_at al (\<lambda>_. True)"

lemma implements_atI:
  assumes "grows g"
    and "\<And>S F S'. cbb_repr S F \<Longrightarrow> P F \<Longrightarrow> f S = (True, S') \<Longrightarrow>
           \<exists>F'. g F = Some F' \<and> cbb_repr S' F' \<and> cbb_growable S' = cbb_growable S"
    and "\<And>S F F'. cbb_repr S F \<Longrightarrow> P F \<Longrightarrow> serves al \<Longrightarrow> cbb_growable S \<Longrightarrow> g F = Some F' \<Longrightarrow>
           length (layout F') \<le> max_message \<Longrightarrow> fst (f S)"
  shows "implements_at al P f g"
  using assms unfolding implements_at_def by blast

lemmas implementsI = implements_atI [where P = "\<lambda>_. True", simplified]

lemma implements_at_grows: "implements_at al P f g \<Longrightarrow> grows g"
  unfolding implements_at_def by blast

lemma implements_at_mono:
  "implements_at al P f g \<Longrightarrow> (\<And>F. Q F \<Longrightarrow> P F) \<Longrightarrow> implements_at al Q f g"
  unfolding implements_at_def by blast

lemma implements_sound:
  assumes "implements_at al P f g" and "cbb_repr S F" and "f S = (True, S')" and "P F"
  obtains F' where "g F = Some F'" and "cbb_repr S' F'" and "cbb_growable S' = cbb_growable S"
  using assms unfolding implements_at_def by blast

lemma implements_total:
  assumes "implements_at al P f g" and "cbb_repr S F" and "serves al" and "cbb_growable S"
    and "g F = Some F'" and "length (layout F') \<le> max_message" and "P F"
  obtains S' where "f S = (True, S')" and "cbb_repr S' F'" and "cbb_growable S'"
proof -
  have "fst (f S)" using assms unfolding implements_at_def by blast
  then obtain S' where S': "f S = (True, S')" by (metis prod.collapse)
  with implements_sound [OF assms(1,2) S' assms(7)] assms(4,5) that show thesis by auto
qed

lemma cbb_repr_wf: "cbb_repr S F \<Longrightarrow> wf_top F"
  by (auto simp: cbb_repr_def wf_top_def)

lemma growsD:
  "grows g \<Longrightarrow> wf_top F \<Longrightarrow> g F = Some F' \<Longrightarrow> wf_top F' \<and> length (layout F) \<le> length (layout F')"
  unfolding grows_def by blast

lemma growsI:
  "(\<And>F F'. wf_top F \<Longrightarrow> g F = Some F' \<Longrightarrow> wf_top F' \<and> length (layout F) \<le> length (layout F')) \<Longrightarrow>
     grows g"
  unfolding grows_def by blast

lemma grows_then:
  assumes g: "grows g" and h: "grows h"
  shows "grows (spec_then g h)"
proof (rule growsI)
  fix F F' assume F: "wf_top F" and r: "spec_then g h F = Some F'"
  then obtain F1 where F1: "g F = Some F1" "h F1 = Some F'"
    by (auto simp: spec_then_def split: option.splits)
  note a = growsD [OF g F F1(1)]
  with growsD [OF h _ F1(2)] show "wf_top F' \<and> length (layout F) \<le> length (layout F')" by simp
qed

lemma implements_at_then:
  assumes f: "implements_at al P f g" and h: "implements_at al Q h k"
    and PQ: "\<And>F F'. P F \<Longrightarrow> g F = Some F' \<Longrightarrow> Q F'"
  shows "implements_at al P (cbb_then f h) (spec_then g k)"
proof (rule implements_atI)
  show "grows (spec_then g k)" using f h by (blast intro: grows_then implements_at_grows)
next
  fix S F S' assume S: "cbb_repr S F" "P F" and r: "cbb_then f h S = (True, S')"
  obtain S1 where f1: "f S = (True, S1)" and h1: "h S1 = (True, S')"
    using r by (auto simp: cbb_then_def split: prod.splits bool.splits)
  obtain F1 where F1: "g F = Some F1" "cbb_repr S1 F1" "cbb_growable S1 = cbb_growable S"
    by (rule implements_sound [OF f S(1) f1 S(2)])
  obtain F' where "k F1 = Some F'" "cbb_repr S' F'" "cbb_growable S' = cbb_growable S1"
    by (rule implements_sound [OF h F1(2) h1 PQ [OF S(2) F1(1)]])
  with F1 show "\<exists>F'. spec_then g k F = Some F' \<and> cbb_repr S' F' \<and> cbb_growable S' = cbb_growable S"
    by (simp add: spec_then_def)
next
  fix S F F' assume S: "cbb_repr S F" "P F" and F': "spec_then g k F = Some F'"
    and al: "serves al" "cbb_growable S" and room: "length (layout F') \<le> max_message"
  from F' obtain F1 where F1: "g F = Some F1" "k F1 = Some F'"
    by (auto simp: spec_then_def split: option.splits)
  have wf: "wf_top F1"
    using growsD [OF implements_at_grows [OF f] cbb_repr_wf [OF S(1)] F1(1)] by blast
  have "length (layout F1) \<le> length (layout F')"
    using growsD [OF implements_at_grows [OF h] wf F1(2)] by blast
  with room have "length (layout F1) \<le> max_message" by simp
  then obtain S1 where S1: "f S = (True, S1)" "cbb_repr S1 F1" "cbb_growable S1"
    by (rule implements_total [OF f S(1) al F1(1) _ S(2)])
  obtain S' where "h S1 = (True, S')"
    by (rule implements_total [OF h S1(2) al(1) S1(3) F1(2) room PQ [OF S(2) F1(1)]])
  with S1(1) show "fst (cbb_then f h S)" by (simp add: cbb_then_def)
qed

lemma implements_then [intro]:
  "implements al f g \<Longrightarrow> implements al h k \<Longrightarrow> implements al (cbb_then f h) (spec_then g k)"
  by (rule implements_at_then) auto

lemma implements_skip: "implements al cbb_skip Some"
  by (rule implementsI) (auto simp: grows_def cbb_skip_def)

lemma implements_fail: "implements al cbb_fail (\<lambda>_. None)"
  by (rule implementsI) (auto simp: grows_def cbb_fail_def)

section \<open>The primitive operations\<close>

definition kids :: "frame list \<Rightarrow> cbb_child list" where
  "kids F = chain (length (snd (hd F))) (tl F)"

lemma cbb_repr_alt:
  "cbb_repr S F \<longleftrightarrow>
     (\<exists>b. cbb_base S = Some b \<and> wf_top F \<and> cbb_children S = kids F \<and> buf_ok b \<and> valid_bytes b = layout F)"
  by (auto simp: cbb_repr_def wf_top_def kids_def)

lemma kids_split:
  assumes "wf_top (G @ (k, c) # H)"
  shows "kids (G @ (k, c) # H) = kids (G @ [(k, c)]) @ chain (length (layout (G @ [(k, c)]))) H"
  using assms by (cases G) (auto simp: kids_def wf_top_def chain_append lay_def add.assoc)

text \<open>The contents of the innermost frame do not show in the chain.\<close>

lemma kids_last: "kids (G @ [(k, c)]) = kids (G @ [(k, c')])"
  by (cases G) (auto simp: kids_def chain_append)

lemma length_kids: "wf_top F \<Longrightarrow> Suc (length (kids F)) = length F"
  by (auto simp: kids_def wf_top_def)

lemma wf_top_prefix:
  assumes "wf_top (G @ (k, c) # H)"
  shows "wf_top (G @ [(k, c')]) \<and> wf_frames H"
  using assms by (cases G) (auto simp: wf_top_def)

lemma split_at:
  assumes "d < length F"
  obtains G k c H where "F = G @ (k, c) # H" and "length G = d"
  using id_take_nth_drop [OF assms] assms by (metis length_take min.absorb2 less_imp_le prod.collapse)

lemma spec_flush_split:
  "spec_flush (length G) (G @ (k, c) # H) = map_option (\<lambda>s. G @ [(k, c @ s)]) (collapse H)"
  by (simp add: spec_flush_def nth_append)

lemma grows_flush: "grows (spec_flush d)"
proof (rule growsI)
  fix F F' assume F: "wf_top F" and r: "spec_flush d F = Some F'"
  then have "d < length F" by (simp add: spec_flush_def split: if_splits)
  then obtain G k c H where G: "F = G @ (k, c) # H" "length G = d" by (rule split_at)
  obtain s where s: "collapse H = Some s" "F' = G @ [(k, c @ s)]"
    using r [unfolded G(1), folded G(2)] by (auto simp: spec_flush_split)
  have wf: "wf_top (G @ [(k, c @ s)])" "wf_frames H" using wf_top_prefix [of G k c H] F G by auto
  have "length (layout H) \<le> length s" using wf(2) s(1) by (rule collapse_length)
  then show "wf_top F' \<and> length (layout F) \<le> length (layout F')" using wf by (simp add: s G)
qed

lemma buffer_add_can_resize:
  "cbb_buffer_add al b n = (ok, b') \<Longrightarrow> bb_can_resize b' = bb_can_resize b"
  using reserve_can_resize [of al b n] by (auto simp: cbb_buffer_add_def split: prod.splits bool.splits)

lemma flush_asn1_can_resize:
  assumes "cbb_flush_asn1 al b child start n = (b', r)"
  shows "bb_can_resize b' = bb_can_resize b"
  using assms
  by (auto simp: cbb_flush_asn1_def Let_def dest: buffer_add_can_resize
      split: prod.splits bool.splits if_splits)

lemma cbb_flush_can_resize:
  "cbb_flush al b cs = (ok, b', cs') \<Longrightarrow> bb_can_resize b' = bb_can_resize b"
proof (induction cs arbitrary: ok b' cs')
  case (Cons child cs)
  obtain ok1 b1 cs1 where "cbb_flush al b cs = (ok1, b1, cs1)" by (metis prod_cases3)
  with Cons.IH Cons.prems show ?case
    by (auto simp: Let_def dest: flush_asn1_can_resize split: if_splits prod.splits option.splits)
qed (auto split: if_splits)

lemma implements_flush [intro]: "implements al (CBB_flush al d) (spec_flush d)"
proof (rule implementsI [OF grows_flush])
  fix S F S' assume S: "cbb_repr S F" and r: "CBB_flush al d S = (True, S')"
  obtain b where b: "cbb_base S = Some b" "wf_top F" "cbb_children S = kids F" "buf_ok b"
    "valid_bytes b = layout F" using S by (auto simp: cbb_repr_alt)
  have "d < length F" using r b length_kids [OF b(2)] by (auto simp: CBB_flush_def split: if_splits)
  then obtain G k c H where G: "F = G @ (k, c) # H" "length G = d" by (rule split_at)
  note wf = b(2) [unfolded G(1)]
  have len: "length (kids (G @ [(k, c)])) = d"
    using length_kids [of "G @ [(k, c)]"] wf_top_prefix [OF wf, of c] G(2) by simp
  obtain b' cs' where fl: "cbb_flush al b (chain (length (layout (G @ [(k, c)]))) H) = (True, b', cs')"
    and S': "S' = S\<lparr>cbb_base := Some b', cbb_children := kids (G @ [(k, c)]) @ cs'\<rparr>"
    using r b len
    by (auto simp: CBB_flush_def kids_split [OF wf] G(1) split: if_splits prod.splits)
  have vb: "valid_bytes b = layout (G @ [(k, c)]) @ layout H" using b(5) G(1) by simp
  obtain s where s: "collapse H = Some s" "cs' = []" "buf_ok b'" "valid_bytes b' = layout (G @ [(k, c)]) @ s"
    using cbb_flush_ok [OF fl b(4) vb] wf_top_prefix [OF wf] by blast
  have "cbb_repr S' (G @ [(k, c @ s)])"
    using s wf_top_prefix [OF wf, of "c @ s"]
    by (auto simp: cbb_repr_alt S' lay_def kids_last [of G k c "c @ s"])
  moreover have "cbb_growable S' = cbb_growable S"
    using cbb_flush_can_resize [OF fl] b(1) by (simp add: cbb_growable_def S')
  ultimately show "\<exists>F'. spec_flush d F = Some F' \<and> cbb_repr S' F' \<and> cbb_growable S' = cbb_growable S"
    using s(1) spec_flush_split [of G k c H] unfolding G by auto
next
  fix S F F' assume S: "cbb_repr S F" and al: "serves al" "cbb_growable S" and r: "spec_flush d F = Some F'"
    and room: "length (layout F') \<le> max_message"
  obtain b where b: "cbb_base S = Some b" "wf_top F" "cbb_children S = kids F" "buf_ok b"
    "valid_bytes b = layout F" using S by (auto simp: cbb_repr_alt)
  then have g: "growable al b" using al by (simp add: growable_def cbb_growable_def)
  have "d < length F" using r by (simp add: spec_flush_def split: if_splits)
  then obtain G k c H where G: "F = G @ (k, c) # H" "length G = d" by (rule split_at)
  note wf = b(2) [unfolded G(1)]
  have len: "length (kids (G @ [(k, c)])) = d"
    using length_kids [of "G @ [(k, c)]"] wf_top_prefix [OF wf, of c] G(2) by simp
  obtain s where s: "collapse H = Some s" "F' = G @ [(k, c @ s)]"
    using r [unfolded G(1), folded G(2)] by (auto simp: spec_flush_split)
  have vb: "valid_bytes b = layout (G @ [(k, c)]) @ layout H" using b(5) G(1) by simp
  have rm: "length (layout (G @ [(k, c)])) + length s + 4 \<le> 2 ^ 61"
    using room by (simp add: s max_message_def)
  obtain b' where "cbb_flush al b (chain (length (layout (G @ [(k, c)]))) H) = (True, b', [])"
    using cbb_flush_total [OF g vb _ s(1) rm] wf_top_prefix [OF wf] by blast
  then show "fst (CBB_flush al d S)"
    using b len by (simp add: CBB_flush_def kids_split [OF wf] G(1))
qed

text \<open>Appending to the shared buffer appends to the innermost frame.\<close>

lemma layout_append_last:
  "spec_append bs F = Some F' \<Longrightarrow> F \<noteq> [] \<Longrightarrow> layout F' = layout F @ bs"
  by (cases F rule: rev_cases) (auto simp: spec_append_def lay_def)

lemma kids_append_last: "spec_append bs F = Some F' \<Longrightarrow> F \<noteq> [] \<Longrightarrow> kids F' = kids F"
  by (cases F rule: rev_cases) (auto simp: spec_append_def intro: kids_last)

lemma wf_append_last:
  assumes "spec_append bs F = Some F'" and F: "wf_top F"
  shows "wf_top F'"
proof -
  from F obtain r fs where "F = (Root, r) # fs" and fs: "wf_frames fs" by (auto simp: wf_top_def)
  with assms(1) show ?thesis by (cases fs rule: rev_cases) (auto simp: wf_top_def spec_append_def)
qed

lemma wf_top_not_Nil: "wf_top F \<Longrightarrow> F \<noteq> []"
  by (auto simp: wf_top_def)

lemma grows_append: "grows (spec_append bs)"
  by (rule growsI) (simp add: layout_append_last wf_append_last wf_top_not_Nil)

definition appends :: "allocator \<Rightarrow> (cbb_buffer_st \<Rightarrow> bool \<times> cbb_buffer_st) \<Rightarrow> u8 list \<Rightarrow> bool" where
  "appends al f bs \<longleftrightarrow>
     (\<forall>b b'. buf_ok b \<and> f b = (True, b') \<longrightarrow>
        buf_ok b' \<and> valid_bytes b' = valid_bytes b @ bs \<and> bb_can_resize b' = bb_can_resize b) \<and>
     (\<forall>b. growable al b \<and> unat (bb_len b) + length bs \<le> max_message \<longrightarrow> fst (f b))"

lemma implements_append:
  assumes "appends al f bs"
  shows "implements al (on_base f) (spec_append bs)"
proof (rule implementsI [OF grows_append])
  fix S F S' assume S: "cbb_repr S F" and r: "on_base f S = (True, S')"
  obtain b where b: "cbb_base S = Some b" "wf_top F" "cbb_children S = kids F" "buf_ok b"
    "valid_bytes b = layout F" using S by (auto simp: cbb_repr_alt)
  obtain b' where b': "f b = (True, b')" and S': "S' = S\<lparr>cbb_base := Some b'\<rparr>"
    using r b(1) by (auto simp: on_base_def split: prod.splits)
  have post: "buf_ok b'" "valid_bytes b' = valid_bytes b @ bs" "bb_can_resize b' = bb_can_resize b"
    using assms b(4) b' by (auto simp: appends_def)
  obtain F' where F': "spec_append bs F = Some F'" by (simp add: spec_append_def)
  note [simp] = layout_append_last [OF F' wf_top_not_Nil [OF b(2)]]
    kids_append_last [OF F' wf_top_not_Nil [OF b(2)]] wf_append_last [OF F' b(2)]
  have "cbb_repr S' F'" using b post by (simp add: cbb_repr_alt S')
  with F' post(3) b(1)
  show "\<exists>F'. spec_append bs F = Some F' \<and> cbb_repr S' F' \<and> cbb_growable S' = cbb_growable S"
    by (simp add: cbb_growable_def S')
next
  fix S F F' assume S: "cbb_repr S F" and al: "serves al" "cbb_growable S" and r: "spec_append bs F = Some F'"
    and room: "length (layout F') \<le> max_message"
  obtain b where b: "cbb_base S = Some b" "wf_top F" "buf_ok b" "valid_bytes b = layout F"
    using S by (auto simp: cbb_repr_alt)
  have "unat (bb_len b) + length bs \<le> max_message"
    using room length_valid_bytes [OF b(3)] layout_append_last [OF r wf_top_not_Nil [OF b(2)]]
    by (simp add: b(4))
  moreover have "growable al b" using al b by (simp add: growable_def cbb_growable_def)
  ultimately have "fst (f b)" using assms by (simp add: appends_def)
  then show "fst (on_base f S)" by (auto simp: on_base_def b(1) split: prod.splits)
qed

lemma buffer_write:
  assumes a: "cbb_buffer_add al b n = (True, b1)" and b: "buf_ok b" and bs: "length bs = unat n"
    and b': "b' = b1\<lparr>bb_buf := write_at (unat (bb_len b)) bs (bb_buf b1)\<rparr>"
  shows "buf_ok b'" and "valid_bytes b' = valid_bytes b @ bs" and "bb_can_resize b' = bb_can_resize b"
proof -
  obtain junk where j: "buf_ok b1" "valid_bytes b1 = valid_bytes b @ junk" "length junk = unat n"
    using buffer_add_ok [OF a b] by metis
  have vb: "valid_bytes b1 = valid_bytes b @ junk @ []" using j by simp
  have b'': "b' = b1\<lparr>bb_buf := write_at (length (valid_bytes b)) bs (bb_buf b1)\<rparr>"
    using b by (simp add: b')
  note w = write_placeholder [OF j(1) vb _ b'']
  show "buf_ok b'" "valid_bytes b' = valid_bytes b @ bs" using w bs j(3) by simp_all
  show "bb_can_resize b' = bb_can_resize b" using buffer_add_can_resize [OF a] by (simp add: b')
qed

lemma add_total_max:
  assumes "growable al b" and "unat (bb_len b) + unat n \<le> max_message"
  obtains b' where "cbb_buffer_add al b n = (True, b')"
proof -
  have "unat (bb_len b) + unat n \<le> 2 ^ 61" using assms(2) by (simp add: max_message_def)
  from add_total [OF assms(1) this] that show thesis by blast
qed

lemma appends_write:
  assumes f: "\<And>b. f b = (case cbb_buffer_add al b n of
       (False, b') \<Rightarrow> (False, b')
     | (True, b') \<Rightarrow> (True, b'\<lparr>bb_buf := write_at (unat (bb_len b)) bs (bb_buf b')\<rparr>))"
    and bs: "length bs = unat n"
  shows "appends al f bs"
proof -
  have "fst (f b)" if g: "growable al b" and room: "unat (bb_len b) + length bs \<le> max_message" for b
  proof -
    obtain b' where "cbb_buffer_add al b n = (True, b')"
      using add_total_max [OF g room [unfolded bs]] .
    then show ?thesis by (simp add: f)
  qed
  moreover have "buf_ok b' \<and> valid_bytes b' = valid_bytes b @ bs \<and> bb_can_resize b' = bb_can_resize b"
    if "buf_ok b" "f b = (True, b')" for b b'
    using that buffer_write [OF _ that(1) bs] by (auto simp: f split: prod.splits bool.splits)
  ultimately show ?thesis by (auto simp: appends_def)
qed

lemma implements_add_bytes:
  assumes "length data < 2 ^ 64"
  shows "implements al (CBB_add_bytes al d data) (spec_then (spec_flush d) (spec_append data))"
  unfolding CBB_add_bytes_def
  by (intro implements_then implements_flush implements_append appends_write)
    (use assms in \<open>auto simp: unat_of_nat_u64_small\<close>)

definition spec_append_u :: "nat \<Rightarrow> nat \<Rightarrow> spec_op" where
  "spec_append_u n v F = (if v < 256 ^ n then spec_append (be_bytes n v) F else None)"

lemma buffer_add_u_eq:
  assumes b: "buf_ok b" and n: "1 \<le> n" "n \<le> 8" and a: "cbb_buffer_add al b (of_nat n) = (True, b1)"
  shows "cbb_buffer_add_u al b v n =
     (let b' = b1\<lparr>bb_buf := write_at (unat (bb_len b)) (be_bytes n (unat v)) (bb_buf b1)\<rparr>
      in if unat v < 256 ^ n then (True, b') else (False, b'\<lparr>bb_error := True\<rparr>))"
proof -
  have un: "unat (of_nat n :: u64) = n" using n by (simp add: unat_of_nat_u64_small)
  obtain junk where j: "buf_ok b1" "unat (bb_len b1) = unat (bb_len b) + n"
    using buffer_add_ok [OF a b] un by metis
  then have "unat (bb_len b) + n \<le> length (bb_buf b1)" by (simp add: buf_ok_def word_le_nat_alt)
  note loop = store_be_loop_eq [OF this, of v]
  have "drop_bit (8 * n) v = 0 \<longleftrightarrow> unat v < 256 ^ n"
    using drop_bit_eq_0_pow256 [of "unat v" n] unat_u64_less [of v] by simp
  then show ?thesis using n a loop by (simp add: cbb_buffer_add_u_def Let_def)
qed

lemma appends_u:
  assumes n: "1 \<le> n" "n \<le> 8" and v: "unat v < 256 ^ n"
  shows "appends al (\<lambda>b. cbb_buffer_add_u al b v n) (be_bytes n (unat v))"
proof -
  have un: "unat (of_nat n :: u64) = n" using n by (simp add: unat_of_nat_u64_small)
  have "fst (cbb_buffer_add_u al b v n)"
    if g: "growable al b" and room: "unat (bb_len b) + n \<le> max_message" for b
  proof -
    obtain b1 where "cbb_buffer_add al b (of_nat n) = (True, b1)"
      using add_total_max [OF g, of "of_nat n"] room un by auto
    from buffer_add_u_eq [OF _ n this, of v] g v show ?thesis by (simp add: growable_def Let_def)
  qed
  moreover have "buf_ok b' \<and> valid_bytes b' = valid_bytes b @ be_bytes n (unat v) \<and> bb_can_resize b' = bb_can_resize b"
    if b: "buf_ok b" and r: "cbb_buffer_add_u al b v n = (True, b')" for b b'
  proof -
    obtain b1 where a: "cbb_buffer_add al b (of_nat n) = (True, b1)"
      using r n by (auto simp: cbb_buffer_add_u_def Let_def split: prod.splits bool.splits)
    with buffer_add_u_eq [OF b n a, of v] r v
    have "b' = b1\<lparr>bb_buf := write_at (unat (bb_len b)) (be_bytes n (unat v)) (bb_buf b1)\<rparr>"
      by (simp add: Let_def)
    from buffer_write [OF a b _ this] un show ?thesis by simp
  qed
  ultimately show ?thesis unfolding appends_def length_be_bytes by blast
qed

lemma add_u_too_big:
  assumes "buf_ok b" and "1 \<le> n" "n \<le> 8" and "\<not> unat v < 256 ^ n"
  shows "\<not> fst (cbb_buffer_add_u al b v n)"
proof (cases "cbb_buffer_add al b (of_nat n)")
  case (Pair ok b1)
  then show ?thesis
  proof (cases ok)
    case True
    with Pair show ?thesis
      using buffer_add_u_eq [OF assms(1-3), of al b1 v] assms(4) by (simp add: Let_def)
  next
    case False
    with Pair show ?thesis using assms(2) by (simp add: cbb_buffer_add_u_def)
  qed
qed

lemma implements_u:
  assumes n: "1 \<le> n" "n \<le> 8"
  shows "implements al (on_base (\<lambda>b. cbb_buffer_add_u al b v n)) (spec_append_u n (unat v))"
proof (cases "unat v < 256 ^ n")
  case True
  then have "spec_append_u n (unat v) = spec_append (be_bytes n (unat v))"
    by (auto simp: spec_append_u_def)
  then show ?thesis using implements_append [OF appends_u [OF n True]] by simp
next
  case False
  then have eq: "spec_append_u n (unat v) = (\<lambda>_. None)" by (auto simp: spec_append_u_def)
  show ?thesis unfolding eq
  proof (rule implementsI)
    fix S F S' assume S: "cbb_repr S F" and r: "on_base (\<lambda>b. cbb_buffer_add_u al b v n) S = (True, S')"
    obtain b where b: "cbb_base S = Some b" "buf_ok b" using S by (auto simp: cbb_repr_alt)
    have False using r b(1) add_u_too_big [OF b(2) n False, of al]
      by (auto simp: on_base_def split: prod.splits)
    then show "\<exists>F'. None = Some F' \<and> cbb_repr S' F' \<and> cbb_growable S' = cbb_growable S" ..
  qed (auto simp: grows_def)
qed

definition spec_add_u :: "nat \<Rightarrow> nat \<Rightarrow> nat \<Rightarrow> spec_op" where
  "spec_add_u d n v = spec_then (spec_flush d) (spec_append_u n v)"

lemma implements_add_u:
  "1 \<le> n \<Longrightarrow> n \<le> 8 \<Longrightarrow>
     implements al (cbb_then (CBB_flush al d) (on_base (\<lambda>b. cbb_buffer_add_u al b v n)))
       (spec_add_u d n (unat v))"
  unfolding spec_add_u_def by (intro implements_then implements_flush implements_u)

lemma implements_add_u8: "implements al (CBB_add_u8 al d v) (spec_add_u d 1 (unat v))"
  using implements_add_u [of 1 al d "ucast v"] by (simp add: CBB_add_u8_def)

lemma unat_ucast_u64:
  "unat (ucast (w :: u16) :: u64) = unat w" "unat (ucast (x :: u32) :: u64) = unat x"
  using unsigned_less [of w, where 'a = nat] unsigned_less [of x, where 'a = nat]
  by (simp_all add: unat_ucast_small)

lemma implements_add_u16: "implements al (CBB_add_u16 al d v) (spec_add_u d 2 (unat v))"
  using implements_add_u [of 2 al d "ucast v"] by (simp add: CBB_add_u16_def unat_ucast_u64)

lemma implements_add_u24: "implements al (CBB_add_u24 al d v) (spec_add_u d 3 (unat v))"
  using implements_add_u [of 3 al d "ucast v"] by (simp add: CBB_add_u24_def unat_ucast_u64)

lemma implements_add_u32: "implements al (CBB_add_u32 al d v) (spec_add_u d 4 (unat v))"
  using implements_add_u [of 4 al d "ucast v"] by (simp add: CBB_add_u32_def unat_ucast_u64)

lemma implements_add_u64: "implements al (CBB_add_u64 al d v) (spec_add_u d 8 (unat v))"
  using implements_add_u [of 8 al d v] by (simp add: CBB_add_u64_def)

text \<open>Opening a child: a placeholder for the prefix, then the new frame.\<close>

definition depth_is :: "nat \<Rightarrow> frame list \<Rightarrow> bool" where
  "depth_is d F \<longleftrightarrow> length F = Suc d"

lemma spec_flush_depth: "spec_flush d F = Some F' \<Longrightarrow> depth_is d F'"
  by (auto simp: spec_flush_def depth_is_def min_def split: if_splits)

lemma spec_append_depth: "depth_is d F \<Longrightarrow> spec_append bs F = Some F' \<Longrightarrow> depth_is d F'"
  by (cases F rule: rev_cases) (auto simp: spec_append_def depth_is_def)

lemma spec_flush_idle: "depth_is d F \<Longrightarrow> spec_flush d F = Some F"
  by (cases F rule: rev_cases) (auto simp: spec_flush_def depth_is_def nth_append)

lemma cbb_base_len_repr:
  assumes "cbb_repr S F"
  shows "cbb_base_len S = of_nat (length (layout F))"
proof -
  obtain b where "cbb_base S = Some b" "buf_ok b" "valid_bytes b = layout F"
    using assms by (auto simp: cbb_repr_alt)
  moreover from this have "length (layout F) = unat (bb_len b)" by (metis length_valid_bytes)
  ultimately show ?thesis by (simp add: cbb_base_len_def)
qed

lemma kids_snoc: "wf_top F \<Longrightarrow> kids (F @ [(k, [])]) = kids F @ [child_at (length (layout F)) k]"
  by (auto simp: wf_top_def kids_def chain_append lay_def)

lemma spec_open_Some: "spec_open k F = Some (F @ [(k, [])])"
  by (simp add: spec_open_def)

lemma implements_open:
  assumes A: "implements_at al (depth_is d) (\<lambda>S. A (cbb_base_len S) S) (spec_append (replicate (pend k) 0))" and k: "wf_pfx k"
  shows "implements_at al (depth_is d)
     (\<lambda>S. let offset = cbb_base_len S
          in cbb_then (A offset) (cbb_attach d offset (of_nat (pend k)) (k = Asn1)) S) (spec_open k)"
proof (rule implements_atI)
  show "grows (spec_open k)"
    by (rule growsI) (auto simp: spec_open_def wf_top_def k)
next
  let ?zs = "replicate (pend k) 0"
  fix S F S' assume S: "cbb_repr S F" and d: "depth_is d F"
    and r: "(let offset = cbb_base_len S
             in cbb_then (A offset) (cbb_attach d offset (of_nat (pend k)) (k = Asn1)) S) = (True, S')"
  have F: "wf_top F" using S by (rule cbb_repr_wf)
  obtain S1 where S1: "A (cbb_base_len S) S = (True, S1)"
    and S': "S' = S1\<lparr>cbb_children := take d (cbb_children S1) @ [child_at (length (layout F)) k]\<rparr>"
    using r by (auto simp: cbb_then_def cbb_attach_def Let_def simp flip: cbb_base_len_repr [OF S] split: prod.splits bool.splits)
  obtain F1 where F1: "spec_append ?zs F = Some F1" "cbb_repr S1 F1" "cbb_growable S1 = cbb_growable S"
    by (rule implements_sound [OF A S S1 d])
  note [simp] = layout_append_last [OF F1(1) wf_top_not_Nil [OF F]] kids_append_last [OF F1(1) wf_top_not_Nil [OF F]]
  obtain b where b: "cbb_base S1 = Some b" "cbb_children S1 = kids F" "buf_ok b" "valid_bytes b = layout F @ ?zs"
    using F1(2) by (auto simp: cbb_repr_alt)
  have "length (kids F) = d" using length_kids [OF F] d by (simp add: depth_is_def)
  then have "cbb_repr S' (F @ [(k, [])])"
    using b F k by (auto simp: cbb_repr_alt S' kids_snoc lay_def wf_top_def)
  then show "\<exists>F'. spec_open k F = Some F' \<and> cbb_repr S' F' \<and> cbb_growable S' = cbb_growable S"
    using F1(3) by (simp add: spec_open_def S' cbb_growable_def)
next
  fix S F F' assume S: "cbb_repr S F" "depth_is d F" and al: "serves al" "cbb_growable S"
    and F': "spec_open k F = Some F'" and room: "length (layout F') \<le> max_message"
  obtain F1 where F1: "spec_append (replicate (pend k) 0) F = Some F1" by (simp add: spec_append_def)
  have "length (layout F1) \<le> max_message"
    using room F' layout_append_last [OF F1 wf_top_not_Nil [OF cbb_repr_wf [OF S(1)]]]
    by (auto simp: spec_open_def lay_def)
  from implements_total [OF A S(1) al F1 this S(2)] obtain S1 where "A (cbb_base_len S) S = (True, S1)" by metis
  then show "fst (let offset = cbb_base_len S
             in cbb_then (A offset) (cbb_attach d offset (of_nat (pend k)) (k = Asn1)) S)"
    by (simp add: cbb_then_def cbb_attach_def Let_def)
qed

definition spec_child :: "nat \<Rightarrow> pfx \<Rightarrow> spec_op" where
  "spec_child d k = spec_then (spec_flush d) (spec_open k)"

lemma implements_length_prefixed:
  assumes n: "1 \<le> n" "n \<le> 7"
  shows "implements al (cbb_add_length_prefixed al d (of_nat n)) (spec_child d (Fixed n))"
proof -
  have un: "unat (of_nat n :: u8) = n" using n by (simp add: unat_of_nat_u8)
  have "appends al (\<lambda>b. case cbb_buffer_add al b (ucast (of_nat n :: u8)) of
       (False, b) \<Rightarrow> (False, b)
     | (True, b') \<Rightarrow> (True, b'\<lparr>bb_buf := write_at (unat (bb_len b)) (replicate n 0) (bb_buf b')\<rparr>))
     (replicate n 0)"
    by (rule appends_write [OF refl]) (simp add: un)
  define A where "A = (\<lambda>offset :: u64. on_base (\<lambda>base.
             case cbb_buffer_add al base (ucast (of_nat n :: u8)) of
               (False, base) \<Rightarrow> (False, base)
             | (True, base) \<Rightarrow>
                 (True, base\<lparr>bb_buf :=
                    write_at (unat offset) (replicate (unat (of_nat n :: u8)) 0) (bb_buf base)\<rparr>)))"
  have "(\<lambda>S. A (cbb_base_len S) S) = on_base (\<lambda>b. case cbb_buffer_add al b (ucast (of_nat n :: u8)) of
       (False, b) \<Rightarrow> (False, b)
     | (True, b') \<Rightarrow> (True, b'\<lparr>bb_buf := write_at (unat (bb_len b)) (replicate n 0) (bb_buf b')\<rparr>))"
    unfolding A_def un on_base_def cbb_base_len_def
    by (rule ext) (auto split: option.split bool.split prod.split)
  then have "implements_at al (depth_is d) (\<lambda>S. A (cbb_base_len S) S) (spec_append (replicate (pend (Fixed n)) 0))"
    using implements_at_mono [OF implements_append [OF \<open>appends al _ _\<close>]] by simp
  from implements_open [where A = A, OF this] n
  have "implements_at al (depth_is d) (\<lambda>S. let offset = cbb_base_len S
     in cbb_then (A offset) (cbb_attach d offset (of_nat n) False) S) (spec_open (Fixed n))"
    by simp
  then show ?thesis unfolding spec_child_def cbb_add_length_prefixed_def A_def
    by (rule implements_at_then [OF implements_flush]) (rule spec_flush_depth)
qed

lemma implements_add_u8_at:
  "implements_at al (depth_is d) (CBB_add_u8 al d v) (spec_append [v])"
proof -
  have "spec_add_u d 1 (unat v) F = spec_append [v] F" if "depth_is d F" for F
    using spec_flush_idle [OF that] unat_u8_less [of v]
    by (simp add: spec_add_u_def spec_then_def spec_append_u_def)
  then show ?thesis
    using implements_at_mono [OF implements_add_u8] grows_append unfolding implements_at_def by metis
qed

lemma implements_add_bytes_at:
  assumes "length data < 2 ^ 64"
  shows "implements_at al (depth_is d) (CBB_add_bytes al d data) (spec_append data)"
proof -
  have "spec_then (spec_flush d) (spec_append data) F = spec_append data F" if "depth_is d F" for F
    using spec_flush_idle [OF that] by (simp add: spec_then_def)
  then show ?thesis
    using implements_at_mono [OF implements_add_bytes [OF assms]] grows_append
    unfolding implements_at_def by metis
qed

lemma spec_append_append:
  "spec_then (spec_append xs) (spec_append ys) = spec_append (xs @ ys)"
  by (rule ext) (simp add: spec_then_def spec_append_def)

lemma implements_at_append2:
  assumes "implements_at al (depth_is d) f (spec_append xs)"
    and "implements_at al (depth_is d) g (spec_append ys)"
  shows "implements_at al (depth_is d) (cbb_then f g) (spec_append (xs @ ys))"
  unfolding spec_append_append [symmetric] using assms by (rule implements_at_then) (rule spec_append_depth)

lemma implements_skip_append: "implements_at al P cbb_skip (spec_append [])"
proof (rule implements_atI [OF grows_append])
  fix S F S' assume S: "cbb_repr S F" and "cbb_skip S = (True, S')"
  then have "S' = S" by (simp add: cbb_skip_def)
  moreover have "spec_append [] F = Some F"
    using wf_top_not_Nil [OF cbb_repr_wf [OF S]] by (simp add: spec_append_def)
  ultimately show "\<exists>F'. spec_append [] F = Some F' \<and> cbb_repr S' F' \<and> cbb_growable S' = cbb_growable S"
    using S by simp
qed (simp add: cbb_skip_def)

lemma implements_base128_loop:
  "implements_at al (depth_is d) (add_base128_loop al d v n) (spec_append (base128_bytes n v))"
proof (induction n)
  case 0
  show ?case using implements_skip_append by simp
next
  case (Suc i)
  from implements_at_append2 [OF implements_add_u8_at Suc, of "base128_byte i v"]
  show ?case by (simp add: base128_bytes_Suc base128_byte_def Let_def cong: if_cong split: if_splits)
qed

lemma implements_base128:
  "implements_at al (depth_is d) (add_base128_integer al d v) (spec_append (base128_enc v))"
  using implements_base128_loop [of al d v "base128_len v"]
  by (simp add: add_base128_integer_def base128_enc_def base128_len_def Let_def)

definition spec_asn1 :: "nat \<Rightarrow> u32 \<Rightarrow> spec_op" where
  "spec_asn1 d tag = spec_then (spec_flush d) (spec_then (spec_append (der_tag tag)) (spec_open Asn1))"

lemma implements_asn1: "implements al (CBB_add_asn1 al d tag) (spec_asn1 d tag)"
proof -
  let ?bits = "ucast (drop_bit CBS_ASN1_TAG_SHIFT tag AND 0xe0) :: u8"
    and ?num = "tag AND CBS_ASN1_TAG_NUMBER_MASK"
  have tag: "implements_at al (depth_is d)
      (if ?num \<ge> 0x1f then cbb_then (CBB_add_u8 al d (?bits OR 0x1f)) (add_base128_integer al d (ucast ?num))
       else CBB_add_u8 al d (?bits OR ucast ?num)) (spec_append (der_tag tag))"
    using implements_at_append2 [OF implements_add_u8_at implements_base128, of al d "?bits OR 0x1f" "ucast ?num"]
      implements_add_u8_at [of al d "?bits OR ucast ?num"]
    by (simp add: der_tag_def Let_def)
  have "implements_at al (depth_is d)
      (\<lambda>S. let offset = cbb_base_len S in cbb_then (CBB_add_u8 al d 0) (cbb_attach d offset 1 True) S)
      (spec_open Asn1)"
    using implements_open [where A = "\<lambda>_. CBB_add_u8 al d 0" and k = Asn1 and d = d] implements_add_u8_at [of al d 0]
    by simp
  from implements_at_then [OF tag this spec_append_depth]
  have "implements_at al (depth_is d) (cbb_then
      (if ?num \<ge> 0x1f then cbb_then (CBB_add_u8 al d (?bits OR 0x1f)) (add_base128_integer al d (ucast ?num))
       else CBB_add_u8 al d (?bits OR ucast ?num))
      (\<lambda>S. let offset = cbb_base_len S in cbb_then (CBB_add_u8 al d 0) (cbb_attach d offset 1 True) S))
      (spec_then (spec_append (der_tag tag)) (spec_open Asn1))" .
  then show ?thesis unfolding spec_asn1_def CBB_add_asn1_def Let_def
    by (rule implements_at_then [OF implements_flush]) (rule spec_flush_depth)
qed

end
