(* ===== verification/Cbb_Asn1.thy ===== *)
theory Cbb_Asn1
  imports Cbb_Ops
begin

text \<open>
  The ASN.1 writers of crypto/bytestring/cbb.c that build a whole element through a child builder:
  INTEGER, OCTET STRING and BOOLEAN. Each is shown to append the DER element of its content octets,
  and the readers of \<open>Cbs\<close> to give the value back.
\<close>

section \<open>Writers\<close>

text \<open>\<open>(value >> 8*i) & 0xff\<close>, which on a little-endian machine is also byte \<open>i\<close> of the union.\<close>

definition word_byte :: "u64 \<Rightarrow> nat \<Rightarrow> u8" where
  "word_byte v i = ucast (drop_bit (8 * i) v AND 0xff)"

text \<open>The loop over the eight bytes, \<open>n\<close> of them still to come, and the final zero.\<close>

fun add_uint64_loop :: "allocator \<Rightarrow> nat \<Rightarrow> u64 \<Rightarrow> nat \<Rightarrow> bool \<Rightarrow> cbb_op" where
  "add_uint64_loop al d v 0 started = (if \<not> started then CBB_add_u8 al d 0 else cbb_skip)"
| "add_uint64_loop al d v (Suc n) started =
     (let byte = word_byte v n
      in if \<not> started
         then if byte = 0 then add_uint64_loop al d v n False
              else cbb_then (if byte AND 0x80 \<noteq> 0 then CBB_add_u8 al d 0 else cbb_skip)
                     (cbb_then (CBB_add_u8 al d byte) (add_uint64_loop al d v n True))
         else cbb_then (CBB_add_u8 al d byte) (add_uint64_loop al d v n started))"

definition CBB_add_asn1_uint64 :: "allocator \<Rightarrow> nat \<Rightarrow> u64 \<Rightarrow> cbb_op" where
  "CBB_add_asn1_uint64 al d value =
     cbb_then (CBB_add_asn1 al d CBS_ASN1_INTEGER)
       (cbb_then (add_uint64_loop al (Suc d) value 8 False) (CBB_flush al d))"

fun int64_start :: "u64 \<Rightarrow> nat \<Rightarrow> nat" where
  "int64_start v 0 = 0"
| "int64_start v (Suc start) =
     (if word_byte v (Suc start) = 0xff \<and> word_byte v start AND 0x80 \<noteq> 0
      then int64_start v start else Suc start)"

fun add_int64_loop :: "allocator \<Rightarrow> nat \<Rightarrow> u64 \<Rightarrow> nat \<Rightarrow> cbb_op" where
  "add_int64_loop al d v 0 = cbb_skip"
| "add_int64_loop al d v (Suc i) =
     cbb_then (CBB_add_u8 al d (word_byte v i)) (add_int64_loop al d v i)"

text \<open>An \<open>int64_t\<close> is the word of its two's complement.\<close>

definition CBB_add_asn1_int64 :: "allocator \<Rightarrow> nat \<Rightarrow> u64 \<Rightarrow> cbb_op" where
  "CBB_add_asn1_int64 al d value =
     (if 0 \<le> sint value then CBB_add_asn1_uint64 al d value
      else
        (let start = int64_start value 7
         in cbb_then (CBB_add_asn1 al d CBS_ASN1_INTEGER)
              (cbb_then (add_int64_loop al (Suc d) value (Suc start)) (CBB_flush al d))))"

definition CBB_add_asn1_octet_string :: "allocator \<Rightarrow> nat \<Rightarrow> u8 list \<Rightarrow> cbb_op" where
  "CBB_add_asn1_octet_string al d data =
     cbb_then (CBB_add_asn1 al d CBS_ASN1_OCTETSTRING)
       (cbb_then (CBB_add_bytes al (Suc d) data) (CBB_flush al d))"

definition CBB_add_asn1_bool :: "allocator \<Rightarrow> nat \<Rightarrow> int \<Rightarrow> cbb_op" where
  "CBB_add_asn1_bool al d value =
     cbb_then (CBB_add_asn1 al d CBS_ASN1_BOOLEAN)
       (cbb_then (CBB_add_u8 al (Suc d) (if value \<noteq> 0 then 0xff else 0)) (CBB_flush al d))"

section \<open>What they append\<close>

text \<open>Append a DER element, if its contents have an encodable length.\<close>

definition spec_element :: "u32 \<Rightarrow> u8 list \<Rightarrow> spec_op" where
  "spec_element tag c F = (if length c \<le> 0xfffffffe then spec_append (der_element tag c) F else None)"

lemma der_element_eq: "der_element tag c = der_tag tag @ der_len (length c) @ c"
  by (simp add: der_element_def der_header_def)

lemma spec_element_eq:
  "spec_then (spec_asn1 d tag) (spec_then (spec_append c) (spec_flush d)) =
   spec_then (spec_flush d) (spec_element tag c)"
proof (rule ext)
  fix F
  show "spec_then (spec_asn1 d tag) (spec_then (spec_append c) (spec_flush d)) F =
        spec_then (spec_flush d) (spec_element tag c) F"
  proof (cases "spec_flush d F")
    case (Some F1)
    then have "length F1 = Suc d" using spec_flush_depth by (auto simp: depth_is_def)
    then obtain G k x where F1: "F1 = G @ [(k, x)]" and G: "length G = d"
      by (cases F1 rule: rev_cases) auto
    have "spec_flush d ((G @ [(k, x @ der_tag tag)]) @ [(Asn1, c)]) =
        (if length c \<le> 0xfffffffe then Some (G @ [(k, x @ der_tag tag @ der_len (length c) @ c)]) else None)"
      using spec_flush_split [of G k "x @ der_tag tag" "[(Asn1, c)]"] by (simp add: G Let_def)
    then show ?thesis using Some
      by (simp add: spec_then_def spec_asn1_def spec_append_def spec_open_def spec_element_def F1
          der_element_eq butlast_append)
  qed (simp add: spec_then_def spec_asn1_def)
qed

lemma spec_asn1_depth: "spec_asn1 d tag F = Some F' \<Longrightarrow> depth_is (Suc d) F'"
  using spec_append_depth [of d _ "der_tag tag"]
  by (auto simp: spec_asn1_def spec_then_def spec_open_def depth_is_def dest!: spec_flush_depth split: option.splits)

lemma implements_element:
  assumes "implements_at al (depth_is (Suc d)) body (spec_append c)"
  shows "implements al (cbb_then (CBB_add_asn1 al d tag) (cbb_then body (CBB_flush al d)))
           (spec_then (spec_flush d) (spec_element tag c))"
proof -
  have "implements_at al (depth_is (Suc d)) (cbb_then body (CBB_flush al d))
      (spec_then (spec_append c) (spec_flush d))"
    by (rule implements_at_then [OF assms implements_flush]) simp
  from implements_at_then [OF implements_asn1 this] show ?thesis
    unfolding spec_element_eq [symmetric] by (blast intro: spec_asn1_depth)
qed

text \<open>The content octets of an unsigned integer: no leading zero but the one that keeps the sign
  bit clear.\<close>

fun uint64_content :: "u64 \<Rightarrow> nat \<Rightarrow> bool \<Rightarrow> u8 list" where
  "uint64_content v 0 started = (if started then [] else [0])"
| "uint64_content v (Suc n) started =
     (let byte = word_byte v n
      in if started then byte # uint64_content v n True
         else if byte = 0 then uint64_content v n False
         else (if byte AND 0x80 \<noteq> 0 then [0] else []) @ byte # uint64_content v n True)"

lemma implements_uint64_loop:
  "implements_at al (depth_is d) (add_uint64_loop al d v n started) (spec_append (uint64_content v n started))"
proof (induction n arbitrary: started)
  case 0
  show ?case using implements_skip_append implements_add_u8_at [of al d 0] by simp
next
  case (Suc n)
  note byte = implements_at_append2 [OF implements_add_u8_at Suc, of "word_byte v n"]
  show ?case
    using Suc [of False] byte [of True] byte [of False]
      implements_at_append2 [OF implements_add_u8_at byte [of True], of 0]
      implements_at_append2 [OF implements_skip_append byte [of True]]
    by (auto simp: Let_def)
qed

lemma implements_asn1_uint64:
  "implements al (CBB_add_asn1_uint64 al d v)
     (spec_then (spec_flush d) (spec_element CBS_ASN1_INTEGER (uint64_content v 8 False)))"
  unfolding CBB_add_asn1_uint64_def by (rule implements_element [OF implements_uint64_loop])

lemma implements_octet_string:
  assumes "length data < 2 ^ 64"
  shows "implements al (CBB_add_asn1_octet_string al d data)
     (spec_then (spec_flush d) (spec_element CBS_ASN1_OCTETSTRING data))"
  unfolding CBB_add_asn1_octet_string_def by (rule implements_element [OF implements_add_bytes_at [OF assms]])

lemma implements_bool:
  "implements al (CBB_add_asn1_bool al d v)
     (spec_then (spec_flush d) (spec_element CBS_ASN1_BOOLEAN [if v \<noteq> 0 then 0xff else 0]))"
  unfolding CBB_add_asn1_bool_def by (rule implements_element [OF implements_add_u8_at])

fun int64_content :: "u64 \<Rightarrow> nat \<Rightarrow> u8 list" where
  "int64_content v 0 = []"
| "int64_content v (Suc i) = word_byte v i # int64_content v i"

lemma implements_int64_loop:
  "implements_at al (depth_is d) (add_int64_loop al d v n) (spec_append (int64_content v n))"
proof (induction n)
  case 0
  show ?case using implements_skip_append by simp
next
  case (Suc n)
  show ?case using implements_at_append2 [OF implements_add_u8_at Suc, of "word_byte v n"] by simp
qed

definition asn1_int64_content :: "u64 \<Rightarrow> u8 list" where
  "asn1_int64_content v =
     (if 0 \<le> sint v then uint64_content v 8 False else int64_content v (Suc (int64_start v 7)))"

lemma implements_asn1_int64:
  "implements al (CBB_add_asn1_int64 al d v)
     (spec_then (spec_flush d) (spec_element CBS_ASN1_INTEGER (asn1_int64_content v)))"
  using implements_asn1_uint64 [of al d v] implements_element [OF implements_int64_loop [of al "Suc d" v]]
  by (simp add: CBB_add_asn1_int64_def asn1_int64_content_def Let_def
      del: add_int64_loop.simps int64_content.simps)

section \<open>The readers undo them\<close>

lemma word_byte_ucast: "word_byte v i = ucast (drop_bit (8 * i) v)"
  by (auto intro!: bit_word_eqI simp: word_byte_def bit_simps bit_numeral_rec(2))
    (auto simp: bit_iff_odd eval_nat_numeral elim!: lessE)

lemma unat_word_byte: "unat (word_byte v i) = unat v div 256 ^ i mod 256"
  by (simp add: word_byte_ucast unsigned_ucast_eq unsigned_take_bit_eq unat_drop_bit_eq drop_bit_nat_def
      take_bit_eq_mod power_mult)

lemma be_nat_content_True: "be_nat (uint64_content v n True) = unat v mod 256 ^ n \<and> length (uint64_content v n True) = n"
proof (induction n)
  case (Suc n)
  then show ?case using mod_mult2_eq [of "unat v" "256 ^ n" 256]
    by (simp add: Let_def be_nat_Cons unat_word_byte mult.commute)
qed simp

lemma uint64_content_value:
  "unat v < 256 ^ n \<Longrightarrow> be_nat (uint64_content v n False) = unat v \<and> length (uint64_content v n False) \<le> Suc n"
proof (induction n)
  case (Suc n)
  have byte: "unat (word_byte v n) = unat v div 256 ^ n"
    using Suc.prems by (simp add: unat_word_byte mod_less less_mult_imp_div_less)
  show ?case
  proof (cases "word_byte v n = 0")
    case True
    then have "unat v div 256 ^ n = 0" using byte by simp
    then have "unat v < 256 ^ n" by (metis div_eq_0_iff power_not_zero zero_neq_numeral)
    with Suc.IH True show ?thesis by (simp add: Let_def)
  next
    case False
    then show ?thesis using be_nat_content_True [of v n] byte
      by (auto simp: Let_def be_nat_Cons div_mult_mod_eq)
  qed
qed simp

lemma uint64_content_unsigned: "CBS_is_unsigned_asn1_integer (uint64_content v n False)"
proof (induction n)
  case (Suc n)
  show ?case
  proof (cases "word_byte v n = 0")
    case False
    have "word_byte v n \<noteq> 0xff" if "word_byte v n AND 0x80 = 0" using that by auto
    with False show ?thesis
      by (cases n) (auto simp: CBS_is_unsigned_asn1_integer_def CBS_is_valid_asn1_integer_def Let_def)
  qed (simp add: Suc)
qed (simp add: CBS_is_unsigned_asn1_integer_def CBS_is_valid_asn1_integer_def)

lemma get_asn1_uint64_content:
  "CBS_get_asn1_uint64 (der_element CBS_ASN1_INTEGER (uint64_content v 8 False) @ rest) = (Some v, rest)"
proof -
  have "unat v < 256 ^ 8" using unat_u64_less [of v] by simp
  note content = uint64_content_value [OF this]
  have "length (uint64_content v 8 False) < 2 ^ 32" using content by simp
  from get_asn1_uint64_der [OF this] content uint64_content_unsigned [of v 8]
  show ?thesis by simp
qed

lemma get_asn1_bool_content:
  "CBS_get_asn1_bool (der_element CBS_ASN1_BOOLEAN [if v \<noteq> 0 then 0xff else 0] @ rest) = (Some (v \<noteq> (0 :: int)), rest)"
  by (simp add: CBS_get_asn1_bool_def rbind_def get_asn1_der CBS_len_def CBS_data_def)

text \<open>The union of the reader: the contents in reverse, sign extended.\<close>

lemma fold_update_upto:
  "n \<le> length u \<Longrightarrow> fold (\<lambda>i u. u[i := f i]) [0..<n] u = map f [0..<n] @ drop n u"
proof (induction n)
  case (Suc n)
  then have "drop n u = u ! n # drop (Suc n) u" by (intro Cons_nth_drop_Suc [symmetric]) simp
  with Suc show ?case by (simp add: list_update_append)
qed simp

lemma int64_union_eq:
  assumes "length c \<le> 8"
  shows "int64_union c neg = rev (replicate (8 - length c) (if neg then 0xff else 0) @ c)"
proof -
  have "map (\<lambda>i. c ! (length c - i - 1)) [0..<length c] = rev c"
    by (rule nth_equalityI) (auto simp: rev_nth)
  then show ?thesis
    using fold_update_upto [of "length c" "replicate 8 (if neg then 0xff else 0 :: u8)"] assms
    by (cases neg) (simp_all add: int64_union_def)
qed

lemma word64_of_le_rev: "word64_of_le (rev c) = of_nat (be_nat c)"
  by (simp add: word64_of_le_def foldr_conv_foldl foldl_shift_in)

lemma get_asn1_int64_eq:
  assumes "CBS_is_valid_asn1_integer c = Some neg" and "length c \<le> 8"
    and "be_nat (replicate (8 - length c) (if neg then 0xff else 0) @ c) = unat v"
  shows "CBS_get_asn1_int64 (der_element CBS_ASN1_INTEGER c @ rest) = (Some v, rest)"
proof -
  have "word64_of_le (int64_union c neg) = v"
    using assms(2,3) by (simp add: int64_union_eq word64_of_le_rev del: rev_append)
  then show ?thesis using assms(1,2)
    by (simp add: CBS_get_asn1_int64_def rbind_def get_asn1_der CBS_len_def CBS_data_def)
qed

lemma be_nat_zeros [simp]: "be_nat (replicate n 0 @ c) = be_nat c"
  by (induction n) (auto simp: be_nat_Cons)

lemma int64_content_bytes: "be_nat (int64_content v n) = unat v mod 256 ^ n \<and> length (int64_content v n) = n"
proof (induction n)
  case (Suc n)
  then show ?case using mod_mult2_eq [of "unat v" "256 ^ n" 256]
    by (simp add: be_nat_Cons unat_word_byte mult.commute)
qed simp

text \<open>The skipped bytes are sign extension, and the first byte kept is negative and not redundant.\<close>

lemma int64_start_skips:
  "word_byte v n AND 0x80 \<noteq> 0 \<Longrightarrow>
     int64_content v (Suc n) = replicate (n - int64_start v n) 0xff @ int64_content v (Suc (int64_start v n)) \<and>
     int64_start v n \<le> n \<and> word_byte v (int64_start v n) AND 0x80 \<noteq> 0"
proof (induction n)
  case (Suc n)
  show ?case
  proof (cases "word_byte v (Suc n) = 0xff \<and> word_byte v n AND 0x80 \<noteq> 0")
    case True
    with Suc.IH show ?thesis by (auto simp: Suc_diff_le)
  next
    case False
    with Suc.prems show ?thesis by auto
  qed
qed simp

lemma int64_start_minimal:
  "int64_start v n = Suc m \<Longrightarrow> \<not> (word_byte v (Suc m) = 0xff \<and> word_byte v m AND 0x80 \<noteq> 0)"
  by (induction n) (auto split: if_splits)

lemma int64_content_valid:
  assumes "word_byte v n AND 0x80 \<noteq> 0"
  shows "CBS_is_valid_asn1_integer (int64_content v (Suc (int64_start v n))) = Some True"
proof (cases "int64_start v n")
  case 0
  with int64_start_skips [OF assms] show ?thesis by (simp add: CBS_is_valid_asn1_integer_def)
next
  case (Suc m)
  have "word_byte v (Suc m) AND 0x80 \<noteq> 0" using int64_start_skips [OF assms] Suc by auto
  moreover from this have "word_byte v (Suc m) \<noteq> 0" by auto
  ultimately show ?thesis using int64_start_minimal [OF Suc] Suc
    by (auto simp: CBS_is_valid_asn1_integer_def)
qed

lemma word_byte_sign: "word_byte v 7 AND 0x80 \<noteq> 0 \<longleftrightarrow> sint v < 0"
proof -
  have "bit (word_byte v 7) 7 \<longleftrightarrow> bit v 63" by (simp add: word_byte_ucast bit_simps)
  then show ?thesis using bit_last_iff [of v] by (simp add: u8_and_80)
qed

lemma get_asn1_int64_content:
  "CBS_get_asn1_int64 (der_element CBS_ASN1_INTEGER (asn1_int64_content v) @ rest) = (Some v, rest)"
proof (cases "0 \<le> sint v")
  case True
  have "unat v < 256 ^ 8" using unat_u64_less [of v] by simp
  note content = uint64_content_value [OF this]
  have "word_byte v 7 AND 0x80 = 0" using True word_byte_sign [of v] by auto
  moreover have "unat v < 256 ^ 7" if "word_byte v 7 = 0"
    using unat_word_byte [of v 7] that unat_u64_less [of v] by simp
  moreover have "uint64_content v 8 False =
      (if word_byte v 7 = 0 then uint64_content v 7 False
       else (if word_byte v 7 AND 0x80 \<noteq> 0 then [0] else []) @ word_byte v 7 # uint64_content v 7 True)"
    using uint64_content.simps(2) [of v 7 False] by (simp add: Let_def)
  ultimately have "length (uint64_content v 8 False) \<le> 8"
    using uint64_content_value [of v 7] be_nat_content_True [of v 7] by simp
  moreover have "CBS_is_valid_asn1_integer (uint64_content v 8 False) = Some False"
    using uint64_content_unsigned [of v 8]
    by (auto simp: CBS_is_unsigned_asn1_integer_def split: option.splits)
  ultimately show ?thesis using True content
    by (intro get_asn1_int64_eq [of _ False]) (simp_all add: asn1_int64_content_def)
next
  case False
  then have top: "word_byte v 7 AND 0x80 \<noteq> 0" by (simp add: word_byte_sign)
  let ?c = "int64_content v (Suc (int64_start v 7))"
  note skip = int64_start_skips [OF top]
  have len: "length ?c = Suc (int64_start v 7)" by (simp only: int64_content_bytes)
  have "replicate (8 - length ?c) 0xff @ ?c = int64_content v (Suc 7)"
    using skip by (simp add: len del: int64_content.simps)
  then have "be_nat (replicate (8 - length ?c) 0xff @ ?c) = unat v"
    using int64_content_bytes [of v "Suc 7"] unat_u64_less [of v] by (simp del: int64_content.simps)
  then show ?thesis using False len skip int64_content_valid [OF top]
    by (intro get_asn1_int64_eq [of _ True]) (simp_all add: asn1_int64_content_def del: int64_content.simps)
qed

end
