(* ===== verification/Cbb_Run.thy ===== *)
theory Cbb_Run
  imports Cbb_Asn1
begin

text \<open>
  Whole messages: a sequence of builder calls between \<open>CBB_init\<close> and \<open>CBB_finish\<close>. A sequence
  has a meaning as an operation on frames, hence a message or none; the C code produces that
  message, refuses exactly the sequences that have none (memory permitting), and an error seen by
  one call makes every later call fail.
\<close>

section \<open>Sequences of calls\<close>

datatype cbb_cmd =
    Add_u8 nat u8 | Add_u16 nat u16 | Add_u24 nat u32 | Add_u32 nat u32 | Add_u64 nat u64
  | Add_u16le nat u16 | Add_u32le nat u32 | Add_u64le nat u64
  | Add_bytes nat "u8 list" | Add_zeros nat u64
  | Open_u8 nat | Open_u16 nat | Open_u24 nat | Open_asn1 nat u32
  | Put_uint64 nat u64 | Put_int64 nat u64 | Put_octets nat "u8 list" | Put_bool nat int
  | Flush nat

fun cbb_exec :: "allocator \<Rightarrow> cbb_cmd \<Rightarrow> cbb_op" where
  "cbb_exec al (Add_u8 d v) = CBB_add_u8 al d v"
| "cbb_exec al (Add_u16 d v) = CBB_add_u16 al d v"
| "cbb_exec al (Add_u24 d v) = CBB_add_u24 al d v"
| "cbb_exec al (Add_u32 d v) = CBB_add_u32 al d v"
| "cbb_exec al (Add_u64 d v) = CBB_add_u64 al d v"
| "cbb_exec al (Add_u16le d v) = CBB_add_u16le al d v"
| "cbb_exec al (Add_u32le d v) = CBB_add_u32le al d v"
| "cbb_exec al (Add_u64le d v) = CBB_add_u64le al d v"
| "cbb_exec al (Add_bytes d bs) = CBB_add_bytes al d bs"
| "cbb_exec al (Add_zeros d n) = CBB_add_zeros al d n"
| "cbb_exec al (Open_u8 d) = CBB_add_u8_length_prefixed al d"
| "cbb_exec al (Open_u16 d) = CBB_add_u16_length_prefixed al d"
| "cbb_exec al (Open_u24 d) = CBB_add_u24_length_prefixed al d"
| "cbb_exec al (Open_asn1 d tag) = CBB_add_asn1 al d tag"
| "cbb_exec al (Put_uint64 d v) = CBB_add_asn1_uint64 al d v"
| "cbb_exec al (Put_int64 d v) = CBB_add_asn1_int64 al d v"
| "cbb_exec al (Put_octets d bs) = CBB_add_asn1_octet_string al d bs"
| "cbb_exec al (Put_bool d v) = CBB_add_asn1_bool al d v"
| "cbb_exec al (Flush d) = CBB_flush al d"

fun cbb_spec :: "cbb_cmd \<Rightarrow> spec_op" where
  "cbb_spec (Add_u8 d v) = spec_add_u d 1 (unat v)"
| "cbb_spec (Add_u16 d v) = spec_add_u d 2 (unat v)"
| "cbb_spec (Add_u24 d v) = spec_add_u d 3 (unat v)"
| "cbb_spec (Add_u32 d v) = spec_add_u d 4 (unat v)"
| "cbb_spec (Add_u64 d v) = spec_add_u d 8 (unat v)"
| "cbb_spec (Add_u16le d v) = spec_add_u d 2 (unat (CRYPTO_bswap2 v))"
| "cbb_spec (Add_u32le d v) = spec_add_u d 4 (unat (CRYPTO_bswap4 v))"
| "cbb_spec (Add_u64le d v) = spec_add_u d 8 (unat (CRYPTO_bswap8 v))"
| "cbb_spec (Add_bytes d bs) = spec_then (spec_flush d) (spec_append bs)"
| "cbb_spec (Add_zeros d n) = spec_then (spec_flush d) (spec_append (replicate (unat n) 0))"
| "cbb_spec (Open_u8 d) = spec_child d (Fixed 1)"
| "cbb_spec (Open_u16 d) = spec_child d (Fixed 2)"
| "cbb_spec (Open_u24 d) = spec_child d (Fixed 3)"
| "cbb_spec (Open_asn1 d tag) = spec_asn1 d tag"
| "cbb_spec (Put_uint64 d v) = spec_then (spec_flush d) (spec_element CBS_ASN1_INTEGER (uint64_content v 8 False))"
| "cbb_spec (Put_int64 d v) = spec_then (spec_flush d) (spec_element CBS_ASN1_INTEGER (asn1_int64_content v))"
| "cbb_spec (Put_octets d bs) = spec_then (spec_flush d) (spec_element CBS_ASN1_OCTETSTRING bs)"
| "cbb_spec (Put_bool d v) = spec_then (spec_flush d) (spec_element CBS_ASN1_BOOLEAN [if v \<noteq> 0 then 0xff else 0])"
| "cbb_spec (Flush d) = spec_flush d"

text \<open>Data passed by pointer lies in memory.\<close>

fun cmd_data :: "cbb_cmd \<Rightarrow> u8 list" where
  "cmd_data (Add_bytes d bs) = bs"
| "cmd_data (Put_octets d bs) = bs"
| "cmd_data _ = []"

definition cmd_ok :: "cbb_cmd \<Rightarrow> bool" where
  "cmd_ok c \<longleftrightarrow> length (cmd_data c) < 2 ^ 64"

fun cbb_run :: "allocator \<Rightarrow> cbb_cmd list \<Rightarrow> cbb_op" where
  "cbb_run al [] = cbb_skip"
| "cbb_run al (c # cs) = cbb_then (cbb_exec al c) (cbb_run al cs)"

fun spec_run :: "cbb_cmd list \<Rightarrow> spec_op" where
  "spec_run [] = Some"
| "spec_run (c # cs) = spec_then (cbb_spec c) (spec_run cs)"

lemma cbb_then_assoc: "cbb_then (cbb_then f g) h = cbb_then f (cbb_then g h)"
  by (auto simp: cbb_then_def fun_eq_iff split: prod.splits bool.splits)

lemma add_zeros_eq:
  "CBB_add_zeros al d n = cbb_then (CBB_flush al d) (on_base (\<lambda>b.
     case cbb_buffer_add al b n of
       (False, b') \<Rightarrow> (False, b')
     | (True, b') \<Rightarrow> (True, b'\<lparr>bb_buf := write_at (unat (bb_len b)) (replicate (unat n) 0) (bb_buf b')\<rparr>)))"
proof -
  have "cbb_then (on_base (\<lambda>b. cbb_buffer_add al b n)) (on_base (\<lambda>b.
      (True, b\<lparr>bb_buf := write_at (unat (bb_len b - n)) (replicate (unat n) 0) (bb_buf b)\<rparr>))) S =
    on_base (\<lambda>b. case cbb_buffer_add al b n of
       (False, b') \<Rightarrow> (False, b')
     | (True, b') \<Rightarrow> (True, b'\<lparr>bb_buf := write_at (unat (bb_len b)) (replicate (unat n) 0) (bb_buf b')\<rparr>)) S" for S
  proof -
    have "bb_len b' = bb_len b + n" if "cbb_buffer_add al b n = (True, b')" for b b'
      using that
      by (auto simp: cbb_buffer_add_def cbb_buffer_reserve_def Let_def split: if_splits option.splits)
    then show ?thesis by (auto simp: cbb_then_def on_base_def split: option.splits prod.splits bool.splits)
  qed
  then show ?thesis
    unfolding CBB_add_zeros_def CBB_add_space_def cbb_then_assoc by (intro arg_cong2 [where f = cbb_then] ext refl)
qed

lemma implements_add_zeros:
  "implements al (CBB_add_zeros al d n) (spec_then (spec_flush d) (spec_append (replicate (unat n) 0)))"
  unfolding add_zeros_eq
  by (intro implements_then implements_flush implements_append appends_write) auto

lemma implements_exec:
  assumes "cmd_ok c"
  shows "implements al (cbb_exec al c) (cbb_spec c)"
proof -
  note child = implements_length_prefixed [of 1] implements_length_prefixed [of 2] implements_length_prefixed [of 3]
  note all = implements_add_u8 implements_add_u16 implements_add_u24 implements_add_u32 implements_add_u64
    implements_add_u16 [of al _ "CRYPTO_bswap2 _", folded CBB_add_u16le_def]
    implements_add_u32 [of al _ "CRYPTO_bswap4 _", folded CBB_add_u32le_def]
    implements_add_u64 [of al _ "CRYPTO_bswap8 _", folded CBB_add_u64le_def]
    implements_asn1_uint64 implements_asn1_int64 implements_bool implements_asn1 implements_flush
    implements_add_zeros implements_octet_string implements_add_bytes
  show ?thesis
  proof (cases "\<exists>d v. c = Put_bool d v")
    case True
    then obtain d v where "c = Put_bool d v" by blast
    then show ?thesis using implements_bool [of al d v] by simp
  next
    case False
    then show ?thesis using assms
      by (cases c) (auto simp: cmd_ok_def CBB_add_u8_length_prefixed_def CBB_add_u16_length_prefixed_def
          CBB_add_u24_length_prefixed_def intro: all [simplified] child [simplified])
  qed
qed

lemma implements_run: "\<forall>c \<in> set cs. cmd_ok c \<Longrightarrow> implements al (cbb_run al cs) (spec_run cs)"
  by (induction cs) (auto intro: implements_skip implements_then implements_exec)

section \<open>Messages\<close>

definition spec_message :: "cbb_cmd list \<Rightarrow> u8 list option" where
  "spec_message cs =
     (case spec_then (spec_run cs) (spec_flush 0) [(Root, [])] of
        None \<Rightarrow> None
      | Some F \<Rightarrow> Some (snd (hd F)))"

text \<open>\<open>CBB_init\<close>, the calls while they succeed, \<open>CBB_finish\<close>.\<close>

definition cbb_message :: "allocator \<Rightarrow> allocator \<Rightarrow> u64 \<Rightarrow> cbb_cmd list \<Rightarrow> u8 list option" where
  "cbb_message al al' cap cs =
     (case CBB_init al al' cap of
        None \<Rightarrow> None
      | Some S \<Rightarrow>
          (case cbb_run al cs S of
             (False, _) \<Rightarrow> None
           | (True, S) \<Rightarrow> fst (CBB_finish al 0 True S)))"

definition cbb_message_fixed :: "allocator \<Rightarrow> u8 list \<Rightarrow> cbb_cmd list \<Rightarrow> u8 list option" where
  "cbb_message_fixed al buf cs =
     (case CBB_init_fixed al buf (of_nat (length buf)) of
        None \<Rightarrow> None
      | Some S \<Rightarrow>
          (case cbb_run al cs S of
             (False, _) \<Rightarrow> None
           | (True, S) \<Rightarrow> fst (CBB_finish al 0 True S)))"

lemma init_repr:
  assumes "CBB_init al al' cap = Some S"
  shows "cbb_repr S [(Root, [])] \<and> cbb_growable S"
proof -
  obtain buf where buf: "OPENSSL_malloc al cap = Some buf \<or> OPENSSL_malloc al cap = None \<and> buf = [] \<and> cap = 0"
    and init: "cbb_init al' CBB_zero buf cap = Some S"
    using assms by (auto simp: CBB_init_def Let_def word_gt_0 split: if_splits option.splits)
  have "length buf = unat cap" using buf OPENSSL_malloc_length [of al cap buf] by auto
  then show ?thesis using init
    by (auto simp: cbb_init_def CBB_zero_def cbb_repr_def cbb_growable_def buf_ok_def valid_bytes_def
        lay_def split: option.splits)
qed

lemma init_total:
  assumes "serves al" and "OPENSSL_malloc al' 32 \<noteq> None" and "unat cap \<le> 2 ^ 62"
  obtains S where "CBB_init al al' cap = Some S"
  using assms by (auto simp: CBB_init_def cbb_init_def serves_def Let_def split: option.splits)

lemma init_fixed_repr:
  assumes "CBB_init_fixed al buf (of_nat (length buf)) = Some S" and "length buf < 2 ^ 64"
  shows "cbb_repr S [(Root, [])]"
  using assms
  by (auto simp: CBB_init_fixed_def cbb_init_def CBB_zero_def cbb_repr_def buf_ok_def valid_bytes_def
      lay_def unat_of_nat_u64_small split: option.splits)

lemma flush_root:
  assumes "cbb_repr S F" and "spec_flush 0 F = Some F'"
  obtains out where "F' = [(Root, out)]"
  using assms by (auto simp: cbb_repr_def spec_flush_def)

lemma CBB_finish_sound:
  assumes S: "cbb_repr S F" and f: "CBB_finish al 0 True S = (Some out, S')"
  shows "spec_flush 0 F = Some [(Root, out)] \<and> cbb_base S' = None"
proof -
  obtain S1 b where S1: "CBB_flush al 0 S = (True, S1)" "cbb_base S1 = Some b"
    and out: "out = valid_bytes b" and S': "cbb_base S' = None"
    using f by (auto simp: CBB_finish_def CBB_cleanup_def valid_bytes_def split: prod.splits bool.splits option.splits if_splits)
  obtain F' where F': "spec_flush 0 F = Some F'" "cbb_repr S1 F'"
    using implements_sound [OF implements_flush S S1(1)] by blast
  obtain o' where "F' = [(Root, o')]" by (rule flush_root [OF S F'(1)])
  with F' S1(2) out S' show ?thesis by (auto simp: cbb_repr_def lay_def)
qed

lemma CBB_finish_total:
  assumes S: "cbb_repr S F" and g: "serves al" "cbb_growable S" and F': "spec_flush 0 F = Some F'"
    and len: "length (layout F') \<le> max_message"
  shows "\<exists>S'. CBB_finish al 0 True S = (Some (snd (hd F')), S')"
proof -
  obtain S1 where S1: "CBB_flush al 0 S = (True, S1)" "cbb_repr S1 F'"
    using implements_total [OF implements_flush S g F' len] by blast
  obtain out where out: "F' = [(Root, out)]" by (rule flush_root [OF S F'])
  with S1(2) obtain b where b: "cbb_base S1 = Some b" "valid_bytes b = out"
    by (auto simp: cbb_repr_def lay_def)
  then show ?thesis using S1(1) out
    by (simp add: CBB_finish_def valid_bytes_def)
qed

lemma message_sound:
  assumes S: "cbb_repr S [(Root, [])]" and run: "cbb_run al cs S = (True, S1)"
    and fin: "fst (CBB_finish al 0 True S1) = Some out" and ok: "\<forall>c \<in> set cs. cmd_ok c"
  shows "spec_message cs = Some out"
proof -
  obtain F where F: "spec_run cs [(Root, [])] = Some F" "cbb_repr S1 F"
    using implements_sound [OF implements_run [OF ok] S run] by blast
  have "CBB_finish al 0 True S1 = (Some out, snd (CBB_finish al 0 True S1))" using fin by (metis prod.collapse)
  from CBB_finish_sound [OF F(2) this] F(1) show ?thesis by (simp add: spec_message_def spec_then_def)
qed



lemma zero_alloc_serves: "serves zero_alloc"
  using zero_alloc_malloc by (simp add: serves_def)

lemmas spec_eval = spec_message_def spec_then_def spec_flush_def spec_append_def spec_open_def
  spec_child_def spec_add_u_def spec_append_u_def spec_asn1_def der_len_def der_tag_def
  CBS_ASN1_TAG_SHIFT_def CBS_ASN1_TAG_NUMBER_MASK_def Let_def

lemma message_complete:
  assumes "\<forall>c \<in> set cs. cmd_ok c" and "serves al" and "OPENSSL_malloc al' 32 \<noteq> None" and "unat cap \<le> 2 ^ 62"
    and "\<forall>out. spec_message cs = Some out \<longrightarrow> length out \<le> max_message"
  shows "cbb_message al al' cap cs = spec_message cs"
proof -
  obtain S where S: "CBB_init al al' cap = Some S" using init_total [OF assms(2-4)] .
  note r0 = init_repr [OF S]
  show ?thesis
  proof (cases "spec_message cs")
    case None
    have "fst (CBB_finish al 0 True S1) = None" if r: "cbb_run al cs S = (True, S1)" for S1
      using message_sound [OF conjunct1 [OF r0] r _ assms(1)] None by (cases "fst (CBB_finish al 0 True S1)") auto
    then show ?thesis by (auto simp: cbb_message_def S None split: prod.splits bool.splits)
  next
    case (Some out)
    then obtain F F' where F: "spec_run cs [(Root, [])] = Some F" "spec_flush 0 F = Some F'"
      and out: "out = snd (hd F')" by (auto simp: spec_message_def spec_then_def split: option.splits)
    obtain o' where F': "F' = [(Root, o')]"
      using growsD [OF implements_at_grows [OF implements_run [OF assms(1)]] _ F(1)] F(2)
      by (auto simp: wf_top_def spec_flush_def)
    have len: "length (layout F') \<le> max_message" using assms(5) Some out by (simp add: F' lay_def)
    have wf: "wf_top F" using growsD [OF implements_at_grows [OF implements_run [OF assms(1)]] _ F(1)]
      by (simp add: wf_top_def)
    have "length (layout F) \<le> max_message" using growsD [OF grows_flush wf F(2)] len by simp
    then obtain S1 where "cbb_run al cs S = (True, S1)" "cbb_repr S1 F" "cbb_growable S1"
      using implements_total [OF implements_run [OF assms(1)] conjunct1 [OF r0] assms(2) conjunct2 [OF r0] F(1)]
      by blast
    moreover from CBB_finish_total [OF this(2) assms(2) this(3) F(2) len]
    have "fst (CBB_finish al 0 True S1) = Some out" by (auto simp: out)
    ultimately show ?thesis by (simp add: cbb_message_def S Some)
  qed
qed

text \<open>
  C1: For a sequence of builder calls whose message stays below \<open>max_message\<close>, with an allocator
  that serves requests up to \<open>2 ^ 62\<close> bytes, \<open>CBB_init\<close>, the calls and \<open>CBB_finish\<close> together
  return exactly the message the sequence denotes over frames, and fail exactly when it denotes
  none (a value too large for its width, a child too long for its prefix, a closed child used).
\<close>

theorem cbb_message_correct:
  assumes "\<forall>c \<in> set cs. cmd_ok c" and "serves al" and "OPENSSL_malloc al' 32 \<noteq> None" and "unat cap \<le> 2 ^ 62"
    and "\<forall>out. spec_message cs = Some out \<longrightarrow> length out \<le> max_message"
  shows "cbb_message al al' cap cs = spec_message cs"
  using assms by (rule message_complete)

theorem cbb_message_witness:
  "cbb_message zero_alloc zero_alloc 0 [Open_asn1 0 0x20000010, Open_u8 1, Add_u8 2 7] =
     Some [0x30, 0x02, 0x01, 0x07]"
proof -
  have "spec_message [Open_asn1 0 0x20000010, Open_u8 1, Add_u8 2 7] = Some [0x30, 0x02, 0x01, 0x07]"
    by (simp add: spec_eval)
  then show ?thesis
    using cbb_message_correct [of "[Open_asn1 0 0x20000010, Open_u8 1, Add_u8 2 7]" zero_alloc zero_alloc 0]
      zero_alloc_serves zero_alloc_malloc [of 32]
    by (simp add: cmd_ok_def max_message_def)
qed

text \<open>
  C2: In a caller's fixed buffer the builder never reports a message other than the one denoted.
\<close>

theorem cbb_message_fixed_sound:
  assumes "\<forall>c \<in> set cs. cmd_ok c" and "length buf < 2 ^ 64" and "cbb_message_fixed al buf cs = Some out"
  shows "spec_message cs = Some out"
proof -
  obtain S S1 where S: "CBB_init_fixed al buf (of_nat (length buf)) = Some S"
    and run: "cbb_run al cs S = (True, S1)" "fst (CBB_finish al 0 True S1) = Some out"
    using assms(3) by (auto simp: cbb_message_fixed_def split: option.splits prod.splits bool.splits)
  show ?thesis by (rule message_sound [OF init_fixed_repr [OF S assms(2)] run assms(1)])
qed

lemmas cbb_eval = CBB_init_fixed_def cbb_init_def CBB_zero_def OPENSSL_malloc_def zero_alloc_def
  OPENSSL_MALLOC_PREFIX_def CBB_add_u8_def cbb_then_def CBB_flush_def on_base_def cbb_buffer_add_u_def
  cbb_buffer_add_def cbb_buffer_reserve_def CBB_finish_def cbb_skip_def Let_def

theorem cbb_message_fixed_witness:
  "cbb_message_fixed zero_alloc [0, 0] [Add_u8 0 7] = Some [7] \<and> spec_message [Add_u8 0 7] = Some [7]"
proof -
  have "cbb_message_fixed zero_alloc [0, 0] [Add_u8 0 7] = Some [7]"
    by (simp add: cbb_message_fixed_def cbb_eval)
  then show ?thesis using cbb_message_fixed_sound [of "[Add_u8 0 7]" "[0, 0]" zero_alloc "[7]"]
    by (simp add: cmd_ok_def)
qed

section \<open>Nested DER structures\<close>

datatype der_tree = Prim u32 "u8 list" | Node u32 "der_tree list"

fun der_cmds :: "nat \<Rightarrow> der_tree \<Rightarrow> cbb_cmd list" where
  "der_cmds d (Prim tag c) = [Open_asn1 d tag, Add_bytes (Suc d) c, Flush d]"
| "der_cmds d (Node tag ts) = Open_asn1 d tag # concat (map (der_cmds (Suc d)) ts) @ [Flush d]"

fun der_enc :: "der_tree \<Rightarrow> u8 list" where
  "der_enc (Prim tag c) = der_element tag c"
| "der_enc (Node tag ts) = der_element tag (concat (map der_enc ts))"

fun der_contents :: "der_tree \<Rightarrow> u8 list" where
  "der_contents (Prim tag c) = c"
| "der_contents (Node tag ts) = concat (map der_enc ts)"

fun der_root_tag :: "der_tree \<Rightarrow> u32" where
  "der_root_tag (Prim tag c) = tag"
| "der_root_tag (Node tag ts) = tag"

fun der_fits :: "der_tree \<Rightarrow> bool" where
  "der_fits (Prim tag c) = (length c \<le> 0xfffffffe)"
| "der_fits (Node tag ts) = ((\<forall>t \<in> set ts. der_fits t) \<and> length (concat (map der_enc ts)) \<le> 0xfffffffe)"

lemma spec_run_append: "spec_run (xs @ ys) F = spec_then (spec_run xs) (spec_run ys) F"
  by (induction xs arbitrary: F) (auto simp: spec_then_def split: option.splits)

lemma der_cmds_ok: "der_fits t \<Longrightarrow> \<forall>c \<in> set (der_cmds d t). cmd_ok c"
  by (induction d t rule: der_cmds.induct) (auto simp: cmd_ok_def)

lemma spec_element_at:
  assumes F: "depth_is d F" and c: "length c \<le> 0xfffffffe"
    and body: "\<And>F1. depth_is (Suc d) F1 \<Longrightarrow> spec_run body F1 = spec_append c F1"
  shows "spec_run (Open_asn1 d tag # body @ [Flush d]) F = spec_append (der_element tag c) F"
proof -
  obtain F1 where F1: "spec_asn1 d tag F = Some F1" using spec_flush_idle [OF F]
    by (simp add: spec_asn1_def spec_then_def spec_append_def spec_open_def)
  then have "spec_run (Open_asn1 d tag # body @ [Flush d]) F =
      spec_then (spec_asn1 d tag) (spec_then (spec_append c) (spec_flush d)) F"
    using body [OF spec_asn1_depth [OF F1]]
    by (simp add: spec_then_def spec_run_append split: option.splits)
  also have "\<dots> = spec_append (der_element tag c) F"
    using spec_flush_idle [OF F] c by (simp add: spec_element_eq) (simp add: spec_then_def spec_element_def)
  finally show ?thesis .
qed

lemma spec_run_concat:
  assumes "\<And>t. t \<in> set ts \<Longrightarrow> (\<And>F. depth_is d F \<Longrightarrow> spec_run (f t) F = spec_append (g t) F)"
    and "depth_is d F"
  shows "spec_run (concat (map f ts)) F = spec_append (concat (map g ts)) F"
  using assms
proof (induction ts arbitrary: F)
  case Nil
  then have "F \<noteq> []" by (auto simp: depth_is_def)
  then show ?case by (simp add: spec_append_def)
next
  case (Cons t ts)
  obtain F1 where F1: "spec_append (g t) F = Some F1" by (simp add: spec_append_def)
  then have "depth_is d F1" using Cons.prems(2) spec_append_depth by blast
  with Cons F1 show ?case
    using spec_append_append [of "g t" "concat (map g ts)"]
    by (simp add: spec_run_append spec_then_def fun_eq_iff) (metis option.simps(5))
qed

lemma spec_run_der:
  "der_fits t \<Longrightarrow> depth_is d F \<Longrightarrow> spec_run (der_cmds d t) F = spec_append (der_enc t) F"
proof (induction d t arbitrary: F rule: der_cmds.induct)
  case (1 d tag c)
  have "spec_run [Add_bytes (Suc d) c] F1 = spec_append c F1" if "depth_is (Suc d) F1" for F1
    using spec_flush_idle [OF that] by (simp add: spec_then_def spec_append_def)
  with 1 show ?case using spec_element_at [OF 1(2), of c "[Add_bytes (Suc d) c]" tag] by simp
next
  case (2 d tag ts)
  have "spec_run (concat (map (der_cmds (Suc d)) ts)) F1 = spec_append (concat (map der_enc ts)) F1"
    if "depth_is (Suc d) F1" for F1
    using 2 that by (intro spec_run_concat) auto
  with 2 show ?case
    using spec_element_at [OF 2(3), of "concat (map der_enc ts)" "concat (map (der_cmds (Suc d)) ts)" tag]
    by simp
qed

end
