(* ===== verification/Cbb_Lock.thy ===== *)
theory Cbb_Lock
  imports Cbb_Run
begin

text \<open>
  The error flag of the builder. A call of \<open>cbb_cmd\<close> on an open \<open>CBB\<close> that fails has locked the shared
  buffer, and on a locked buffer every such call fails and changes nothing: callers may check only
  the last call of a sequence of them. It is not so for every function of cbb.c: \<open>CBB_did_write\<close>,
  \<open>CBB_add_asn1_oid_from_text\<close>, \<open>CBB_flush_asn1_set_of\<close> and \<open>CBB_add_utf8\<close> refuse some of their arguments
  or contents without setting the flag (\<open>did_write_does_not_lock\<close> is an instance). \<open>locks d f e\<close> is the triple that composes: started with depth
  \<open>d\<close> open, \<open>f\<close> either leaves depth \<open>e\<close> open or locks.
\<close>

definition cbb_live :: "nat \<Rightarrow> cbb_st \<Rightarrow> bool" where
  "cbb_live d S \<longleftrightarrow> cbb_base S \<noteq> None \<and> d \<le> length (cbb_children S)"

definition cbb_failed :: "cbb_st \<Rightarrow> bool" where
  "cbb_failed S = (case cbb_base S of None \<Rightarrow> False | Some b \<Rightarrow> bb_error b)"

definition locks :: "nat \<Rightarrow> cbb_op \<Rightarrow> nat \<Rightarrow> bool" where
  "locks d f e \<longleftrightarrow>
     (\<forall>S. cbb_live d S \<longrightarrow> (case f S of (True, S') \<Rightarrow> cbb_live e S' | (False, S') \<Rightarrow> cbb_failed S'))"

lemma locks_then [intro]: "locks d f e \<Longrightarrow> locks e g k \<Longrightarrow> locks d (cbb_then f g) k"
  by (fastforce simp: locks_def cbb_then_def split: prod.splits bool.splits)

lemma locks_weaken: "locks d f e \<Longrightarrow> k \<le> e \<Longrightarrow> locks d f k"
  by (fastforce simp: locks_def cbb_live_def split: prod.splits bool.splits)

lemma locks_skip [intro]: "locks d cbb_skip d"
  by (simp add: locks_def cbb_skip_def)

lemma locks_If [intro]: "locks d f e \<Longrightarrow> locks d g e \<Longrightarrow> locks d (if b then f else g) e"
  by simp

lemma locks_let: "(\<And>x. locks d (f x) e) \<Longrightarrow> locks d (\<lambda>S. f (g S) S) e"
  by (simp add: locks_def)

lemma cbb_flush_error:
  "cbb_flush al b cs = (False, b', cs') \<Longrightarrow> bb_error b'"
proof (induction cs arbitrary: b' cs')
  case (Cons child cs)
  obtain ok1 b1 cs1 where "cbb_flush al b cs = (ok1, b1, cs1)" by (metis prod_cases3)
  with Cons.prems show ?case
    by (auto simp: Let_def split: if_splits prod.splits option.splits)
qed (auto split: if_splits)

lemma locks_flush [intro]: "locks d (CBB_flush al d) d"
  by (auto simp: locks_def CBB_flush_def cbb_live_def cbb_failed_def split: option.splits prod.splits bool.splits
      dest: cbb_flush_error)

lemma locks_on_base [intro]:
  "(\<And>b b'. f b = (False, b') \<Longrightarrow> bb_error b') \<Longrightarrow> locks d (on_base f) d"
  by (auto simp: locks_def on_base_def cbb_live_def cbb_failed_def split: option.splits prod.splits bool.splits)

lemma locks_attach [intro]: "locks d (cbb_attach d off n is_asn1) (Suc d)"
  by (auto simp: locks_def cbb_attach_def cbb_live_def)

lemma add_u_error: "cbb_buffer_add_u al b v n = (False, b') \<Longrightarrow> bb_error b'"
  by (auto simp: cbb_buffer_add_u_def Let_def dest: buffer_add_error split: if_splits prod.splits bool.splits)

lemma locks_add_u [intro]:
  "locks d (cbb_then (CBB_flush al d) (on_base (\<lambda>b. cbb_buffer_add_u al b v n))) d"
  by (rule locks_then [OF locks_flush locks_on_base]) (rule add_u_error)

lemmas add_u_defs = CBB_add_u8_def CBB_add_u16_def CBB_add_u24_def CBB_add_u32_def CBB_add_u64_def
  CBB_add_u16le_def CBB_add_u32le_def CBB_add_u64le_def

lemma locks_add_bytes [intro]: "locks d (CBB_add_bytes al d bs) d"
  unfolding CBB_add_bytes_def
  by (rule locks_then [OF locks_flush locks_on_base])
    (auto dest: buffer_add_error split: prod.splits bool.splits)

lemma locks_add_zeros [intro]: "locks d (CBB_add_zeros al d n) d"
  unfolding add_zeros_eq
  by (rule locks_then [OF locks_flush locks_on_base])
    (auto dest: buffer_add_error split: prod.splits bool.splits)

lemma locks_length_prefixed [intro]: "locks d (cbb_add_length_prefixed al d n) (Suc d)"
  unfolding cbb_add_length_prefixed_def Let_def
  by (rule locks_then [OF locks_flush], rule locks_let, rule locks_then [OF locks_on_base locks_attach])
    (auto dest: buffer_add_error split: prod.splits bool.splits)

lemma locks_u8 [intro]: "locks d (CBB_add_u8 al d v) d"
  unfolding CBB_add_u8_def by (rule locks_add_u)

lemma locks_base128_loop: "locks d (add_base128_loop al d v n) d"
proof (induction n)
  case (Suc n)
  show ?case unfolding add_base128_loop.simps Let_def by (rule locks_then [OF locks_u8 Suc])
qed auto

lemma locks_asn1 [intro]: "locks d (CBB_add_asn1 al d tag) (Suc d)"
proof -
  have "locks d (add_base128_integer al d v) d" for v
    by (simp add: add_base128_integer_def Let_def locks_base128_loop)
  then have tag: "locks d (if p then cbb_then (CBB_add_u8 al d x) (add_base128_integer al d v) else CBB_add_u8 al d y) d"
    for p x y v by (intro locks_If locks_u8 locks_then [OF locks_u8])
  have "locks d (\<lambda>S. cbb_then (CBB_add_u8 al d 0) (cbb_attach d (cbb_base_len S) 1 True) S) (Suc d)"
    by (rule locks_let) (rule locks_then [OF locks_u8 locks_attach])
  then show ?thesis unfolding CBB_add_asn1_def Let_def
    by (intro locks_then [OF locks_flush] locks_then [OF tag])
qed

lemma locks_element:
  assumes "locks (Suc d) body (Suc d)"
  shows "locks d (cbb_then (CBB_add_asn1 al d tag) (cbb_then body (CBB_flush al d))) d"
  using locks_weaken [OF assms, of d] by (intro locks_then [OF locks_asn1] locks_then [OF _ locks_flush]) simp

lemma locks_uint64_loop: "locks d (add_uint64_loop al d v n started) d"
proof (induction n arbitrary: started)
  case (Suc n)
  have "locks d (cbb_then (CBB_add_u8 al d x) (add_uint64_loop al d v n s)) d" for x s
    by (rule locks_then [OF locks_u8 Suc])
  then show ?case unfolding add_uint64_loop.simps Let_def
    by (intro locks_If Suc locks_then [where e = d] locks_u8 locks_skip)
qed auto

lemma locks_int64_loop: "locks d (add_int64_loop al d v n) d"
proof (induction n)
  case (Suc n)
  show ?case unfolding add_int64_loop.simps by (rule locks_then [OF locks_u8 Suc])
qed auto

fun cmd_depth :: "cbb_cmd \<Rightarrow> nat" where
  "cmd_depth (Add_u8 d v) = d" | "cmd_depth (Add_u16 d w) = d" | "cmd_depth (Add_u24 d x) = d"
| "cmd_depth (Add_u32 d x) = d" | "cmd_depth (Add_u64 d y) = d" | "cmd_depth (Add_u16le d w) = d"
| "cmd_depth (Add_u32le d x) = d" | "cmd_depth (Add_u64le d y) = d" | "cmd_depth (Add_bytes d bs) = d"
| "cmd_depth (Add_zeros d y) = d" | "cmd_depth (Open_u8 d) = d" | "cmd_depth (Open_u16 d) = d"
| "cmd_depth (Open_u24 d) = d" | "cmd_depth (Open_asn1 d x) = d" | "cmd_depth (Put_uint64 d y) = d"
| "cmd_depth (Put_int64 d y) = d" | "cmd_depth (Put_octets d bs) = d" | "cmd_depth (Put_bool d i) = d"
| "cmd_depth (Flush d) = d"

lemma locks_exec: "locks (cmd_depth c) (cbb_exec al c) (cmd_depth c)"
proof -
  have prefixed: "locks d (cbb_add_length_prefixed al d n) d" for d n
    using locks_weaken [OF locks_length_prefixed] by simp
  have asn1: "locks d (CBB_add_asn1 al d tag) d" for d tag
    using locks_weaken [OF locks_asn1] by simp
  show ?thesis
    by (cases c) (auto simp: add_u_defs CBB_add_u8_length_prefixed_def CBB_add_u16_length_prefixed_def
        CBB_add_u24_length_prefixed_def CBB_add_asn1_uint64_def CBB_add_asn1_int64_def Let_def
        CBB_add_asn1_octet_string_def CBB_add_asn1_bool_def simp del: add_uint64_loop.simps add_int64_loop.simps
        intro: prefixed asn1 locks_element locks_uint64_loop locks_int64_loop)
qed

lemma cbb_flush_locked: "bb_error b \<Longrightarrow> cbb_flush al b cs = (False, b, cs)"
  by (cases cs) auto

lemma flush_locked: "cbb_failed S \<Longrightarrow> CBB_flush al d S = (False, S)"
  by (auto simp: cbb_failed_def CBB_flush_def cbb_flush_locked split: option.splits)

lemma then_locked: "f S = (False, S) \<Longrightarrow> cbb_then f g S = (False, S)"
  by (simp add: cbb_then_def)

lemma exec_locked:
  assumes "cbb_failed S"
  shows "cbb_exec al c S = (False, S)"
  using flush_locked [OF assms]
  by (cases c) (simp_all add: add_u_defs then_locked CBB_add_bytes_def add_zeros_eq
      CBB_add_u8_length_prefixed_def CBB_add_u16_length_prefixed_def CBB_add_u24_length_prefixed_def
      cbb_add_length_prefixed_def CBB_add_asn1_def CBB_add_asn1_uint64_def CBB_add_asn1_int64_def Let_def
      CBB_add_asn1_octet_string_def CBB_add_asn1_bool_def)

text \<open>Calls whose results the caller ignores.\<close>

fun cbb_run_unchecked :: "allocator \<Rightarrow> cbb_cmd list \<Rightarrow> cbb_st \<Rightarrow> cbb_st" where
  "cbb_run_unchecked al [] S = S"
| "cbb_run_unchecked al (c # cs) S = cbb_run_unchecked al cs (snd (cbb_exec al c S))"

lemma run_unchecked_locked: "cbb_failed S \<Longrightarrow> cbb_run_unchecked al cs S = S"
  by (induction cs) (auto simp: exec_locked)

text \<open>
  C3: When one of the calls of \<open>cbb_cmd\<close> (adding an integer, bytes, zeros, a length-prefixed or ASN.1
  child, an ASN.1 unsigned or signed integer, octet string or boolean, and \<open>CBB_flush\<close>) fails on an
  open builder, the message is locked: whatever calls of these follow, \<open>CBB_finish\<close> returns nothing.
\<close>

theorem cbb_failure_sticks:
  assumes "cbb_live (cmd_depth c) S" and "cbb_exec al c S = (False, S')"
  shows "fst (CBB_finish al 0 have_out (cbb_run_unchecked al cs S')) = None"
proof -
  have "cbb_failed S'" using locks_exec [of c al] assms by (auto simp: locks_def)
  then show ?thesis using flush_locked [of S' al 0] by (simp add: run_unchecked_locked CBB_finish_def)
qed

theorem cbb_failure_witness:
  "\<exists>S S'. CBB_init_fixed zero_alloc [] 0 = Some S \<and> cbb_exec zero_alloc (Add_u8 0 7) S = (False, S') \<and>
     fst (CBB_finish zero_alloc 0 True (cbb_run_unchecked zero_alloc [Flush 0] S')) = None"
proof -
  obtain S where S: "CBB_init_fixed zero_alloc [] 0 = Some S" by (simp add: cbb_eval)
  moreover obtain S' where "cbb_exec zero_alloc (Add_u8 0 7) S = (False, S')"
    using S by (auto simp: cbb_eval)
  moreover have "cbb_live (cmd_depth (Add_u8 0 7)) S" using S by (auto simp: cbb_eval cbb_live_def)
  ultimately show ?thesis using cbb_failure_sticks by blast
qed

text \<open>A refused \<open>CBB_did_write\<close> is not such a call: it leaves the builder as it was.\<close>

lemma did_write_does_not_lock:
  assumes "CBB_did_write d n S = (False, S')"
  shows "S' = S"
  using assms by (auto simp: CBB_did_write_def on_base_def Let_def split: option.splits if_splits prod.splits)

end
