(* ===== verification/Int_Spec.thy ===== *)
theory Int_Spec
  imports Cbb_Asn1
begin

text \<open>
  The INTEGER reader against its writer: the minimal unsigned content octets of a value are
  unique, so \<open>CBS_get_asn1_uint64\<close> accepts one encoding of each value, the one
  \<open>CBB_add_asn1_uint64\<close> produces.
\<close>

lemma unsigned_cases:
  assumes "CBS_is_unsigned_asn1_integer c"
  obtains b where "c = [b]" and "unat b < 128"
  | b b' bs where "c = b # b' # bs" and "unat b < 128" and "128 \<le> unat b * 256 + unat b'"
proof -
  have top: "b AND 0x80 = 0 \<longleftrightarrow> unat b < 128" for b :: u8
  proof -
    have "bit b 7 \<longleftrightarrow> bit (unat b) 7" by (simp add: bit_unsigned_iff)
    also have "\<dots> \<longleftrightarrow> odd (unat b div 2 ^ 7)" by (rule bit_iff_odd)
    also have "\<dots> \<longleftrightarrow> 128 \<le> unat b"
    proof (cases "128 \<le> unat b")
      case True
      then have "unat b div 2 ^ 7 = 1" using unat_u8_less [of b] by (intro div_nat_eqI) (simp_all del: unat_u8_less)
      with True show ?thesis by simp
    qed simp
    finally show ?thesis by (auto simp: u8_and_80)
  qed
  show thesis
  proof (cases c)
    case Nil
    with assms show thesis by (simp add: CBS_is_unsigned_asn1_integer_def CBS_is_valid_asn1_integer_def)
  next
    case (Cons b c')
    show thesis
    proof (cases c')
      case Nil
      with Cons assms that(1) [of b] show thesis
        by (simp add: CBS_is_unsigned_asn1_integer_def CBS_is_valid_asn1_integer_def top split: if_splits)
    next
      case (Cons b' bs)
      with \<open>c = b # c'\<close> assms have "unat b < 128" "b \<noteq> 0 \<or> 128 \<le> unat b'"
        by (auto simp: CBS_is_unsigned_asn1_integer_def CBS_is_valid_asn1_integer_def Let_def top not_less split: if_splits)
      moreover from this have "128 \<le> unat b * 256 + unat b'" using unat_gt_0 [of b] by (cases "b = 0") (simp_all del: unat_gt_0)
      ultimately show thesis using that(2) [of b b' bs] Cons \<open>c = b # c'\<close> by simp
    qed
  qed
qed

lemma unsigned_unique:
  assumes "CBS_is_unsigned_asn1_integer c" and "CBS_is_unsigned_asn1_integer c'" and "be_nat c = be_nat c'"
  shows "c = c'"
proof -
  have upper: "2 * be_nat x < 256 ^ length x" if x_ok: "CBS_is_unsigned_asn1_integer x" for x
  proof -
    obtain b bs where x: "x = b # bs" and b: "unat b < 128" using x_ok by (cases rule: unsigned_cases) auto
    have "unat b * 256 ^ length bs + be_nat bs < (unat b + 1) * 256 ^ length bs"
      using be_nat_less [of bs] by simp
    also have "\<dots> \<le> 128 * 256 ^ length bs" using b by (intro mult_le_mono1) simp
    finally show ?thesis by (simp add: x be_nat_Cons)
  qed
  have lower: "256 ^ (length x - 1) \<le> 2 * be_nat x"
    if x_ok: "CBS_is_unsigned_asn1_integer x" and len: "1 < length x" for x
  proof -
    obtain b b' bs where x: "x = b # b' # bs" and b: "128 \<le> unat b * 256 + unat b'"
      using x_ok len by (auto elim: unsigned_cases)
    have "128 * 256 ^ length bs \<le> (unat b * 256 + unat b') * 256 ^ length bs" using b by (rule mult_le_mono1)
    then show ?thesis by (simp add: x be_nat_Cons algebra_simps)
  qed
  have le: "length y \<le> length x"
    if "CBS_is_unsigned_asn1_integer x" "CBS_is_unsigned_asn1_integer y" "be_nat x = be_nat y" for x y
  proof (rule ccontr)
    assume "\<not> length y \<le> length x"
    then have less: "length x \<le> length y - 1" "1 < length y"
      using that(1) by (cases x; auto simp: CBS_is_unsigned_asn1_integer_def CBS_is_valid_asn1_integer_def)+
    have "256 ^ length x \<le> (256 :: nat) ^ (length y - 1)" using less by (intro power_increasing) auto
    with lower [OF that(2) less(2)] upper [OF that(1)] that(3) show False by linarith
  qed
  have "length c = length c'" using le assms by (metis le_antisym)
  then show ?thesis using assms(3) be_bytes_be_nat by metis
qed

lemma uint64_content_unique:
  assumes "CBS_is_unsigned_asn1_integer c" and "be_nat c = unat v"
  shows "c = uint64_content v 8 False"
proof -
  have "unat v < 256 ^ 8" using unat_u64_less [of v] by simp
  with uint64_content_value [OF this] assms uint64_content_unsigned [of v 8] show ?thesis
    by (intro unsigned_unique) simp_all
qed

end
