(* ===== verification/Unicode.thy ===== *)
theory Unicode
  imports Cbb_Ops
begin

text \<open>
  crypto/bytestring/unicode.c: the character readers and writers of the ASN.1 string types. UTF-8
  is shown to be a codec on the valid code points whose reader accepts the shortest form only.
\<close>

section \<open>The readers and writers\<close>

definition is_valid_code_point :: "u32 \<Rightarrow> bool" where
  "is_valid_code_point v =
     (if v > 0x10ffff \<or> v AND 0xfffe = 0xfffe \<or> v \<ge> 0xfdd0 \<and> v \<le> 0xfdef \<or>
         v \<ge> 0xd800 \<and> v \<le> 0xdfff
      then False else True)"

definition BOTTOM_BITS :: "nat \<Rightarrow> u8" where
  "BOTTOM_BITS n = ucast (push_bit n 1 - 1 :: u32)"

definition TOP_BITS :: "nat \<Rightarrow> u8" where
  "TOP_BITS n = NOT (BOTTOM_BITS (8 - n))"

fun utf8_loop :: "nat \<Rightarrow> u32 \<Rightarrow> u32 reader" where
  "utf8_loop 0 v cbs = (Some v, cbs)"
| "utf8_loop (Suc n) v cbs =
     (case CBS_get_u8 cbs of
        (None, cbs) \<Rightarrow> (None, cbs)
      | (Some c, cbs) \<Rightarrow>
          if c AND TOP_BITS 2 \<noteq> TOP_BITS 1 then (None, cbs)
          else utf8_loop n (push_bit 6 v OR ucast (c AND BOTTOM_BITS 6)) cbs)"

definition cbs_get_utf8 :: "u32 reader" where
  "cbs_get_utf8 = rbind CBS_get_u8 (\<lambda>c.
     if c \<le> 0x7f then rreturn (ucast c)
     else
       (let rest = (\<lambda>v len lower_bound. rbind (utf8_loop len v) (\<lambda>v.
              if \<not> is_valid_code_point v \<or> v < lower_bound then rfail else rreturn v))
        in if c AND TOP_BITS 3 = TOP_BITS 2 then rest (ucast (c AND BOTTOM_BITS 5)) 1 0x80
           else if c AND TOP_BITS 4 = TOP_BITS 3 then rest (ucast (c AND BOTTOM_BITS 4)) 2 0x800
           else if c AND TOP_BITS 5 = TOP_BITS 4 then rest (ucast (c AND BOTTOM_BITS 3)) 3 0x10000
           else rfail))"

definition cbs_get_latin1 :: "u32 reader" where
  "cbs_get_latin1 = rbind CBS_get_u8 (\<lambda>c. rreturn (ucast c))"

definition cbs_get_ucs2_be :: "u32 reader" where
  "cbs_get_ucs2_be = rbind CBS_get_u16 (\<lambda>c.
     if \<not> is_valid_code_point (ucast c) then rfail else rreturn (ucast c))"

definition cbs_get_utf32_be :: "u32 reader" where
  "cbs_get_utf32_be = rbind CBS_get_u32 (\<lambda>v. if is_valid_code_point v then rreturn v else rfail)"

definition cbb_get_utf8_len :: "u32 \<Rightarrow> nat" where
  "cbb_get_utf8_len u = (if u \<le> 0x7f then 1 else if u \<le> 0x7ff then 2 else if u \<le> 0xffff then 3 else 4)"

definition cbb_add_utf8 :: "allocator \<Rightarrow> nat \<Rightarrow> u32 \<Rightarrow> cbb_op" where
  "cbb_add_utf8 al d u =
     (let low = (\<lambda>k. TOP_BITS 1 OR ucast (drop_bit k u AND ucast (BOTTOM_BITS 6)))
      in if \<not> is_valid_code_point u then cbb_fail
         else if u \<le> 0x7f then CBB_add_u8 al d (ucast u)
         else if u \<le> 0x7ff then
           cbb_then (CBB_add_u8 al d (TOP_BITS 2 OR ucast (drop_bit 6 u))) (CBB_add_u8 al d (low 0))
         else if u \<le> 0xffff then
           cbb_then (CBB_add_u8 al d (TOP_BITS 3 OR ucast (drop_bit 12 u)))
             (cbb_then (CBB_add_u8 al d (low 6)) (CBB_add_u8 al d (low 0)))
         else if u \<le> 0x10ffff then
           cbb_then (CBB_add_u8 al d (TOP_BITS 4 OR ucast (drop_bit 18 u)))
             (cbb_then (CBB_add_u8 al d (low 12))
               (cbb_then (CBB_add_u8 al d (low 6)) (CBB_add_u8 al d (low 0))))
         else cbb_fail)"

definition cbb_add_latin1 :: "allocator \<Rightarrow> nat \<Rightarrow> u32 \<Rightarrow> cbb_op" where
  "cbb_add_latin1 al d u = (if u \<le> 0xff then CBB_add_u8 al d (ucast u) else cbb_fail)"

definition cbb_add_ucs2_be :: "allocator \<Rightarrow> nat \<Rightarrow> u32 \<Rightarrow> cbb_op" where
  "cbb_add_ucs2_be al d u =
     (if u \<le> 0xffff \<and> is_valid_code_point u then CBB_add_u16 al d (ucast u) else cbb_fail)"

definition cbb_add_utf32_be :: "allocator \<Rightarrow> nat \<Rightarrow> u32 \<Rightarrow> cbb_op" where
  "cbb_add_utf32_be al d u = (if is_valid_code_point u then CBB_add_u32 al d u else cbb_fail)"

section \<open>UTF-8\<close>

text \<open>The last \<open>n\<close> bytes of the encoding of \<open>v\<close>, six bits each.\<close>

fun utf8_tail :: "nat \<Rightarrow> nat \<Rightarrow> u8 list" where
  "utf8_tail 0 v = []"
| "utf8_tail (Suc n) v = of_nat (128 + v div 64 ^ n mod 64) # utf8_tail n v"

definition utf8_enc :: "u32 \<Rightarrow> u8 list" where
  "utf8_enc u =
     (if u \<le> 0x7f then [ucast u]
      else if u \<le> 0x7ff then of_nat (0xc0 + unat u div 64) # utf8_tail 1 (unat u)
      else if u \<le> 0xffff then of_nat (0xe0 + unat u div 4096) # utf8_tail 2 (unat u)
      else of_nat (0xf0 + unat u div 262144) # utf8_tail 3 (unat u))"

lemma u8_high_bits: "n \<le> 8 \<Longrightarrow> unat (c AND NOT (mask n) :: u8) = unat c div 2 ^ n * 2 ^ n"
proof -
  assume "n \<le> 8"
  have "c AND NOT (mask n) = push_bit n (drop_bit n c)"
    by (auto intro!: bit_word_eqI simp: bit_simps)
  moreover have "unat (drop_bit n c) * 2 ^ n < 256"
    by (simp add: unat_drop_bit_eq drop_bit_nat_def le_less_trans [OF div_times_less_eq_dividend unat_u8_less])
  ultimately show ?thesis
    by (simp add: unsigned_push_bit_eq push_bit_nat_def take_bit_nat_eq_self unat_drop_bit_eq drop_bit_nat_def)
qed

lemma u8_low_bits: "unat (c AND mask n :: u8) = unat c mod 2 ^ n"
proof -
  have "unat (c AND mask n) = take_bit n (unat c)"
    by (simp only: take_bit_eq_mask [symmetric] unsigned_take_bit_eq)
  then show ?thesis by (simp only: take_bit_eq_mod)
qed

lemma bits_masks:
  "TOP_BITS 1 = NOT (mask 7)" "TOP_BITS 2 = NOT (mask 6)" "TOP_BITS 3 = NOT (mask 5)"
  "TOP_BITS 4 = NOT (mask 4)" "TOP_BITS 5 = NOT (mask 3)"
  "BOTTOM_BITS 6 = mask 6" "BOTTOM_BITS 5 = mask 5" "BOTTOM_BITS 4 = mask 4" "BOTTOM_BITS 3 = mask 3"
  by (simp_all add: TOP_BITS_def BOTTOM_BITS_def mask_eq_exp_minus_1)

lemma unat_TOP_BITS:
  "unat (TOP_BITS 1) = 128" "unat (TOP_BITS 2) = 192" "unat (TOP_BITS 3) = 224" "unat (TOP_BITS 4) = 240"
  by (simp_all add: TOP_BITS_def BOTTOM_BITS_def)

text \<open>The lead and continuation byte tests, as ranges.\<close>

lemma top_tests:
  "c AND TOP_BITS 2 = TOP_BITS 1 \<longleftrightarrow> unat c div 64 = 2"
  "c AND TOP_BITS 3 = TOP_BITS 2 \<longleftrightarrow> unat c div 32 = 6"
  "c AND TOP_BITS 4 = TOP_BITS 3 \<longleftrightarrow> unat c div 16 = 14"
  "c AND TOP_BITS 5 = TOP_BITS 4 \<longleftrightarrow> unat c div 8 = 30"
  by (simp_all add: word_unat_eq_iff unat_TOP_BITS del: One_nat_def) (simp_all add: bits_masks u8_high_bits)

lemma unat_bottom:
  "unat (c AND BOTTOM_BITS 6) = unat c mod 64" "unat (c AND BOTTOM_BITS 5) = unat c mod 32"
  "unat (c AND BOTTOM_BITS 4) = unat c mod 16" "unat (c AND BOTTOM_BITS 3) = unat c mod 8"
  by (simp_all add: bits_masks u8_low_bits)

lemma utf8_shift:
  assumes "unat v < 2 ^ 26"
  shows "unat (push_bit 6 v OR ucast (c AND BOTTOM_BITS 6) :: u32) = 64 * unat v + unat c mod 64"
proof -
  have "push_bit 6 v OR ucast (c AND BOTTOM_BITS 6) = push_bit 6 v + (ucast (c AND BOTTOM_BITS 6) :: u32)"
    by (rule word_or_push_bit_add) (simp add: unat_bottom)
  moreover have "64 * unat v + unat c mod 64 < 2 ^ 32"
    using assms mod_less_divisor [of 64 "unat c"] by (simp del: mod_less_divisor)
  ultimately show ?thesis using assms
    by (simp add: unat_word_ariths push_bit_eq_mult unat_bottom mult.commute)
qed

lemma u8_eq_of_nat: "n < 256 \<Longrightarrow> c = (of_nat n :: u8) \<longleftrightarrow> unat c = n"
  by (auto simp: unat_of_nat_u8 word_unat_eq_iff)

lemma digit_split:
  fixes a q x B p :: nat
  assumes "0 < B"
  shows "a div B = p \<and> q = B * x + a mod B \<longleftrightarrow> a = p * B + q mod B \<and> q div B = x"
proof
  assume l: "a div B = p \<and> q = B * x + a mod B"
  then have "q mod B = a mod B" "q div B = x" using assms by simp_all
  with l show "a = p * B + q mod B \<and> q div B = x" by (metis div_mult_mod_eq)
next
  assume r: "a = p * B + q mod B \<and> q div B = x"
  then have "a div B = p" "a mod B = q mod B" using assms by simp_all
  with r show "a div B = p \<and> q = B * x + a mod B" by (metis mult_div_mod_eq)
qed

lemma utf8_loop_exact:
  "(unat v + 1) * 64 ^ n \<le> 2 ^ 32 \<Longrightarrow>
     utf8_loop n v s = (Some w, t) \<longleftrightarrow> s = utf8_tail n (unat w) @ t \<and> unat w div 64 ^ n = unat v"
proof (induction n arbitrary: v s)
  case 0
  then show ?case by (auto simp: word_unat_eq_iff)
next
  case (Suc n)
  show ?case
  proof (cases s)
    case Nil
    then show ?thesis by simp
  next
    case (Cons c s')
    have room: "(unat v + 1) * 64 * 64 ^ n \<le> 2 ^ 32" using Suc.prems by (simp only: power_Suc mult.assoc)
    have "(unat v + 1) * 64 * 1 \<le> (unat v + 1) * 64 * 64 ^ n" by (intro mult_le_mono2) simp
    with room have "(unat v + 1) * 64 \<le> 2 ^ 32" by linarith
    then have vb: "unat v < 2 ^ 26" by simp
    let ?v = "push_bit 6 v OR ucast (c AND BOTTOM_BITS 6) :: u32"
    have v': "unat ?v = 64 * unat v + unat c mod 64" using vb by (rule utf8_shift)
    have "(unat ?v + 1) * 64 ^ n \<le> (unat v + 1) * 64 * 64 ^ n"
      unfolding v' using mod_less_divisor [of 64 "unat c"] by (intro mult_le_mono1) (simp del: mod_less_divisor)
    then have "(unat ?v + 1) * 64 ^ n \<le> 2 ^ 32" using room by (rule le_trans)
    note IH = Suc.IH [OF this, of s']
    define q where "q = unat w div 64 ^ n"
    have q': "unat w div 64 ^ Suc n = q div 64" by (simp add: q_def mult.commute [of 64] flip: div_mult2_eq)
    have "128 + q mod 64 < 256" using mod_less_divisor [of 64 q] by (simp del: mod_less_divisor)
    note c = u8_eq_of_nat [OF this, of c]
    have "utf8_loop (Suc n) v s = (Some w, t) \<longleftrightarrow> unat c div 64 = 2 \<and> s' = utf8_tail n (unat w) @ t \<and> q = unat ?v"
      by (simp add: Cons top_tests IH q_def del: One_nat_def)
    moreover have "s = utf8_tail (Suc n) (unat w) @ t \<longleftrightarrow> c = of_nat (128 + q mod 64) \<and> s' = utf8_tail n (unat w) @ t"
      by (simp add: Cons q_def del: of_nat_add)
    ultimately show ?thesis
      using digit_split [of 64 "unat c" 2 q "unat v"] unfolding c v' q' by auto
  qed
qed

lemma valid_range: "is_valid_code_point u \<Longrightarrow> unat u \<le> 0x10ffff"
  by (simp add: is_valid_code_point_def not_less word_le_nat_alt split: if_splits)

text \<open>The lead byte of an \<open>n\<close>-byte sequence carries what the tail does not.\<close>

lemma utf8_multi_exact:
  assumes lead: "\<And>c :: u8. test c \<longleftrightarrow> unat c div 2 ^ k = p" and low: "\<And>c. unat (low c :: u8) = unat c mod 2 ^ k"
    and room: "2 ^ k * 64 ^ n \<le> (2 :: nat) ^ 32" and p: "(p + 1) * 2 ^ k \<le> 256"
  shows "(test c \<and> utf8_loop n (ucast (low c)) s = (Some w, t)) \<longleftrightarrow>
     unat w < 2 ^ k * 64 ^ n \<and> c = of_nat (p * 2 ^ k + unat w div 64 ^ n) \<and> s = utf8_tail n (unat w) @ t"
proof -
  have "unat (low c) + 1 \<le> 2 ^ k" by (simp add: low Suc_le_eq)
  then have "(unat (ucast (low c) :: u32) + 1) * 64 ^ n \<le> 2 ^ k * 64 ^ n" by (intro mult_le_mono1) simp
  then have "(unat (ucast (low c) :: u32) + 1) * 64 ^ n \<le> 2 ^ 32" using room by (rule le_trans)
  note loop = utf8_loop_exact [OF this, of s w t]
  define q where "q = unat w div 64 ^ n"
  have q: "unat w < 2 ^ k * 64 ^ n \<longleftrightarrow> q < 2 ^ k" by (simp add: q_def div_less_iff_less_mult)
  have c: "c = of_nat (p * 2 ^ k + q) \<longleftrightarrow> unat c = p * 2 ^ k + q" if "q < 2 ^ k"
    using that p by (intro u8_eq_of_nat) (simp add: algebra_simps)
  have "unat c div 2 ^ k = p \<and> q = unat c mod 2 ^ k \<longleftrightarrow> q < 2 ^ k \<and> unat c = p * 2 ^ k + q"
    using digit_split [of "2 ^ k" "unat c" p q 0] by auto
  then show ?thesis using c by (auto simp: lead loop low q q_def [symmetric])
qed

lemma get_utf8_cases:
  "cbs_get_utf8 (c # s) = (Some u, t) \<longleftrightarrow>
     c \<le> 0x7f \<and> u = ucast c \<and> s = t \<or>
     (unat c div 2 ^ 5 = 6 \<and> utf8_loop 1 (ucast (c AND BOTTOM_BITS 5)) s = (Some u, t)) \<and> is_valid_code_point u \<and> 0x80 \<le> u \<or>
     (unat c div 2 ^ 4 = 14 \<and> utf8_loop 2 (ucast (c AND BOTTOM_BITS 4)) s = (Some u, t)) \<and> is_valid_code_point u \<and> 0x800 \<le> u \<or>
     (unat c div 2 ^ 3 = 30 \<and> utf8_loop 3 (ucast (c AND BOTTOM_BITS 3)) s = (Some u, t)) \<and> is_valid_code_point u \<and> 0x10000 \<le> u"
proof -
  have rest: "rbind (utf8_loop n v) (\<lambda>v. if \<not> is_valid_code_point v \<or> v < low then rfail else rreturn v) s = (Some u, t) \<longleftrightarrow>
      utf8_loop n v s = (Some u, t) \<and> is_valid_code_point u \<and> low \<le> u" for n v low
    by (auto simp: rbind_def not_less split: prod.splits option.splits)
  have low: "c \<le> 0x7f \<longleftrightarrow> unat c < 128" by (simp add: word_le_nat_alt less_Suc_eq_le [symmetric])
  have excl: "\<not> (unat c < 128 \<and> unat c div 32 = 6)" "\<not> (unat c < 128 \<and> unat c div 16 = 14)"
    "\<not> (unat c < 128 \<and> unat c div 8 = 30)" "\<not> (unat c div 32 = 6 \<and> unat c div 16 = 14)"
    "\<not> (unat c div 32 = 6 \<and> unat c div 8 = 30)" "\<not> (unat c div 16 = 14 \<and> unat c div 8 = 30)"
    by linarith+
  have eq: "cbs_get_utf8 (c # s) =
      (let rest = (\<lambda>v len lower_bound. rbind (utf8_loop len v) (\<lambda>v.
              if \<not> is_valid_code_point v \<or> v < lower_bound then rfail else rreturn v))
       in if c \<le> 0x7f then (Some (ucast c), s)
          else if unat c div 32 = 6 then rest (ucast (c AND BOTTOM_BITS 5)) 1 0x80 s
          else if unat c div 16 = 14 then rest (ucast (c AND BOTTOM_BITS 4)) 2 0x800 s
          else if unat c div 8 = 30 then rest (ucast (c AND BOTTOM_BITS 3)) 3 0x10000 s
          else (None, s))"
    unfolding cbs_get_utf8_def rbind_Some [where f = CBS_get_u8, OF get_u8_Cons] Let_def top_tests
    by (simp only: if_distrib [where f = "\<lambda>f. f s"] rreturn_apply rfail_apply)
  have if_eq: "(if p then a else b) = y \<longleftrightarrow> p \<and> a = y \<or> \<not> p \<and> b = y" for p and a b y :: "u32 option \<times> u8 list"
    by simp
  have "(None, s) \<noteq> (Some u, t)" by simp
  moreover have "(2 :: nat) ^ 5 = 32" "(2 :: nat) ^ 4 = 16" "(2 :: nat) ^ 3 = 8" by simp_all
  ultimately show ?thesis
    unfolding eq Let_def if_eq rest by (simp only: low prod.inject option.inject eq_commute [of u]) (use excl in blast)
qed

lemma valid_ascii: "u \<le> 0x7f \<Longrightarrow> is_valid_code_point u"
proof -
  assume u: "u \<le> 0x7f"
  have "u AND 0xfffe \<noteq> 0xfffe"
  proof
    assume "u AND 0xfffe = 0xfffe"
    then have "0xfffe \<le> u" by (metis word_and_le2)
    with u show False by (simp add: word_le_nat_alt)
  qed
  with u show ?thesis by (simp add: is_valid_code_point_def word_le_nat_alt word_less_nat_alt)
qed

lemma utf8_exact:
  "cbs_get_utf8 s = (Some u, t) \<longleftrightarrow> is_valid_code_point u \<and> s = utf8_enc u @ t"
proof (cases s)
  case Nil
  then show ?thesis by (simp add: cbs_get_utf8_def rbind_def utf8_enc_def)
next
  case (Cons c s')
  have m1: "(unat c div 2 ^ 5 = 6 \<and> utf8_loop 1 (ucast (c AND BOTTOM_BITS 5)) s' = (Some u, t)) \<longleftrightarrow>
      unat u < 2 ^ 5 * 64 ^ 1 \<and> c = of_nat (6 * 2 ^ 5 + unat u div 64 ^ 1) \<and> s' = utf8_tail 1 (unat u) @ t"
    by (rule utf8_multi_exact) (simp_all add: unat_bottom)
  have m2: "(unat c div 2 ^ 4 = 14 \<and> utf8_loop 2 (ucast (c AND BOTTOM_BITS 4)) s' = (Some u, t)) \<longleftrightarrow>
      unat u < 2 ^ 4 * 64 ^ 2 \<and> c = of_nat (14 * 2 ^ 4 + unat u div 64 ^ 2) \<and> s' = utf8_tail 2 (unat u) @ t"
    by (rule utf8_multi_exact) (simp_all add: unat_bottom)
  have m3: "(unat c div 2 ^ 3 = 30 \<and> utf8_loop 3 (ucast (c AND BOTTOM_BITS 3)) s' = (Some u, t)) \<longleftrightarrow>
      unat u < 2 ^ 3 * 64 ^ 3 \<and> c = of_nat (30 * 2 ^ 3 + unat u div 64 ^ 3) \<and> s' = utf8_tail 3 (unat u) @ t"
    by (rule utf8_multi_exact) (simp_all add: unat_bottom)
  have ascii: "c \<le> 0x7f \<and> u = ucast c \<longleftrightarrow> u \<le> 0x7f \<and> c = ucast u"
    using unat_ucast_small [of u, where 'b = 8] by (auto simp: word_le_nat_alt word_unat_eq_iff)
  have "cbs_get_utf8 s = (Some u, t) \<longleftrightarrow>
     (u \<le> 0x7f \<and> c = ucast u) \<and> s' = t \<or>
     (unat u < 2 ^ 5 * 64 ^ 1 \<and> c = of_nat (6 * 2 ^ 5 + unat u div 64 ^ 1) \<and> s' = utf8_tail 1 (unat u) @ t) \<and>
       is_valid_code_point u \<and> 0x80 \<le> u \<or>
     (unat u < 2 ^ 4 * 64 ^ 2 \<and> c = of_nat (14 * 2 ^ 4 + unat u div 64 ^ 2) \<and> s' = utf8_tail 2 (unat u) @ t) \<and>
       is_valid_code_point u \<and> 0x800 \<le> u \<or>
     (unat u < 2 ^ 3 * 64 ^ 3 \<and> c = of_nat (30 * 2 ^ 3 + unat u div 64 ^ 3) \<and> s' = utf8_tail 3 (unat u) @ t) \<and>
       is_valid_code_point u \<and> 0x10000 \<le> u"
    unfolding Cons get_utf8_cases m1 m2 m3 ascii [symmetric] by (simp only: conj_assoc)
  also have "\<dots> \<longleftrightarrow> is_valid_code_point u \<and> s = utf8_enc u @ t"
    using valid_range [of u] valid_ascii [of u]
    by (auto simp: utf8_enc_def Cons word_le_nat_alt)
  finally show ?thesis .
qed

section \<open>The writers produce the encoding\<close>

lemma u8_or_add: "k \<le> 8 \<Longrightarrow> unat (b :: u8) < 2 ^ k \<Longrightarrow> NOT (mask k) OR b = NOT (mask k) + b"
proof -
  assume "unat b < 2 ^ k"
  have "NOT (mask k) = push_bit k (-1 :: u8)" by (auto intro!: bit_word_eqI simp: bit_simps)
  with word_or_push_bit_add [OF \<open>unat b < 2 ^ k\<close>, of "-1"] show ?thesis by (simp only:)
qed

lemma TOP_BITS_or:
  "unat b < 64 \<Longrightarrow> TOP_BITS 2 OR b = TOP_BITS 2 + b" "unat b < 32 \<Longrightarrow> TOP_BITS 3 OR b = TOP_BITS 3 + b"
  "unat b < 16 \<Longrightarrow> TOP_BITS 4 OR b = TOP_BITS 4 + b" "unat b < 128 \<Longrightarrow> TOP_BITS 1 OR b = TOP_BITS 1 + b"
  unfolding bits_masks by (rule u8_or_add; simp)+

lemma lead_bytes:
  "unat u < 0x800 \<Longrightarrow> TOP_BITS 2 OR ucast (drop_bit 6 u) = of_nat (0xc0 + unat u div 64)"
  "unat u < 0x10000 \<Longrightarrow> TOP_BITS 3 OR ucast (drop_bit 12 u) = of_nat (0xe0 + unat u div 4096)"
  "unat u < 0x200000 \<Longrightarrow> TOP_BITS 4 OR ucast (drop_bit 18 u) = of_nat (0xf0 + unat u div 262144)" for u :: u32
proof -
  have d: "unat (ucast (drop_bit k u) :: u8) = unat u div 2 ^ k" if "unat u < 2 ^ k * 2 ^ j" "j \<le> 5" for k j
  proof -
    have "unat u div 2 ^ k < 2 ^ j" using that(1) by (simp add: div_less_iff_less_mult mult.commute)
    also have "(2 :: nat) ^ j \<le> 2 ^ 5" using that(2) by (intro power_increasing) auto
    finally have "unat (drop_bit k u) < 2 ^ 8" by (simp add: unat_drop_bit_eq drop_bit_nat_def)
    then show ?thesis by (simp add: unat_ucast_small unat_drop_bit_eq drop_bit_nat_def)
  qed
  have div: "unat u div 2 ^ k < 2 ^ j" if "unat u < 2 ^ k * 2 ^ j" for k j
    using that by (simp add: div_less_iff_less_mult mult.commute)
  show "TOP_BITS 2 OR ucast (drop_bit 6 u) = of_nat (0xc0 + unat u div 64)" if "unat u < 0x800"
    using d [of 6 5] div [of 6 5] that
    by (simp add: TOP_BITS_or word_unat_eq_iff unat_word_ariths unat_of_nat_u8 unat_TOP_BITS)
  show "TOP_BITS 3 OR ucast (drop_bit 12 u) = of_nat (0xe0 + unat u div 4096)" if "unat u < 0x10000"
    using d [of 12 4] div [of 12 4] that
    by (simp add: TOP_BITS_or word_unat_eq_iff unat_word_ariths unat_of_nat_u8 unat_TOP_BITS)
  show "TOP_BITS 4 OR ucast (drop_bit 18 u) = of_nat (0xf0 + unat u div 262144)" if "unat u < 0x200000"
    using d [of 18 3] div [of 18 3] that
    by (simp add: TOP_BITS_or word_unat_eq_iff unat_word_ariths unat_of_nat_u8 unat_TOP_BITS)
qed

lemma tail_byte:
  "TOP_BITS 1 OR ucast (drop_bit k u AND ucast (BOTTOM_BITS 6) :: u32) = of_nat (128 + unat u div 2 ^ k mod 64)"
  for u :: u32
proof -
  have "ucast (BOTTOM_BITS 6) = (mask 6 :: u32)" by (simp add: BOTTOM_BITS_def mask_eq_exp_minus_1)
  then have "drop_bit k u AND ucast (BOTTOM_BITS 6) = take_bit 6 (drop_bit k u)"
    by (simp add: take_bit_eq_mask)
  moreover have "unat (take_bit 6 (drop_bit k u)) = unat u div 2 ^ k mod 64"
    by (simp only: unsigned_take_bit_eq unat_drop_bit_eq drop_bit_nat_def) (simp add: take_bit_eq_mod)
  ultimately have "unat (ucast (drop_bit k u AND ucast (BOTTOM_BITS 6) :: u32) :: u8) = unat u div 2 ^ k mod 64"
    using less_trans [OF mod_less_divisor [of 64 "unat u div 2 ^ k"], of 256] by (simp add: unat_ucast_small)
  then show ?thesis
    using mod_less_divisor [of 64 "unat u div 2 ^ k"]
    by (simp add: TOP_BITS_or word_unat_eq_iff unat_word_ariths unat_of_nat_u8 unat_TOP_BITS
        del: mod_less_divisor One_nat_def of_nat_add)
qed

definition spec_char :: "(u32 \<Rightarrow> bool) \<Rightarrow> (u32 \<Rightarrow> u8 list) \<Rightarrow> u32 \<Rightarrow> spec_op" where
  "spec_char valid enc u F = (if valid u then spec_append (enc u) F else None)"

lemma implements_char:
  assumes "valid u \<Longrightarrow> implements_at al P f (spec_append (enc u))" and "\<not> valid u \<Longrightarrow> f = cbb_fail"
  shows "implements_at al P f (spec_char valid enc u)"
proof (cases "valid u")
  case True
  then have "spec_char valid enc u = spec_append (enc u)" by (auto simp: spec_char_def)
  with assms(1) [OF True] show ?thesis by simp
next
  case False
  then have "spec_char valid enc u = (\<lambda>_. None)" by (auto simp: spec_char_def)
  with assms(2) [OF False] show ?thesis
    by (simp add: implements_at_mono [OF implements_fail])
qed

lemma implements_utf8:
  "implements_at al (depth_is d) (cbb_add_utf8 al d u) (spec_char is_valid_code_point utf8_enc u)"
proof (rule implements_char)
  assume valid: "is_valid_code_point u"
  note byte = implements_add_u8_at [of al d]
  note seq2 = implements_at_append2 [OF byte byte, simplified append_Cons append_Nil]
  note seq3 = implements_at_append2 [OF byte seq2, simplified append_Cons append_Nil]
  note seq4 = implements_at_append2 [OF byte seq3, simplified append_Cons append_Nil]
  have r: "unat u \<le> 0x10ffff" using valid by (rule valid_range)
  have tail: "TOP_BITS 1 OR ucast (drop_bit k u AND ucast (BOTTOM_BITS 6) :: u32) = of_nat (128 + unat u div 2 ^ k mod 64)"
    for k by (rule tail_byte)
  have le: "u \<le> 0x7f \<longleftrightarrow> unat u \<le> 0x7f" "u \<le> 0x7ff \<longleftrightarrow> unat u \<le> 0x7ff" "u \<le> 0xffff \<longleftrightarrow> unat u \<le> 0xffff"
    "u \<le> 0x10ffff \<longleftrightarrow> unat u \<le> 0x10ffff" by (simp_all add: word_le_nat_alt)
  have tails: "utf8_tail 1 n = [of_nat (128 + n mod 64)]"
    "utf8_tail 2 n = [of_nat (128 + n div 64 mod 64), of_nat (128 + n mod 64)]"
    "utf8_tail 3 n = [of_nat (128 + n div 4096 mod 64), of_nat (128 + n div 64 mod 64), of_nat (128 + n mod 64)]" for n
    by (simp_all add: numeral_2_eq_2 numeral_3_eq_3 del: of_nat_add)
  consider "unat u \<le> 0x7f" | "0x7f < unat u" "unat u \<le> 0x7ff" | "0x7ff < unat u" "unat u \<le> 0xffff"
    | "0xffff < unat u" by linarith
  then show "implements_at al (depth_is d) (cbb_add_utf8 al d u) (spec_append (utf8_enc u))"
  proof cases
    case 1
    then show ?thesis using byte [of "ucast u"] valid by (simp add: cbb_add_utf8_def utf8_enc_def le)
  next
    case 2
    then show ?thesis
      using seq2 [of "of_nat (0xc0 + unat u div 64)" "of_nat (128 + unat u mod 64)"] valid tail [of 0]
      by (simp add: cbb_add_utf8_def utf8_enc_def le lead_bytes tails Let_def del: of_nat_add One_nat_def)
  next
    case 3
    then show ?thesis
      using seq3 [of "of_nat (0xe0 + unat u div 4096)" "of_nat (128 + unat u div 64 mod 64)" "of_nat (128 + unat u mod 64)"]
        valid tail [of 0] tail [of 6]
      by (simp add: cbb_add_utf8_def utf8_enc_def le lead_bytes tails Let_def del: of_nat_add One_nat_def)
  next
    case 4
    then show ?thesis
      using seq4 [of "of_nat (0xf0 + unat u div 262144)" "of_nat (128 + unat u div 4096 mod 64)"
          "of_nat (128 + unat u div 64 mod 64)" "of_nat (128 + unat u mod 64)"]
        valid tail [of 0] tail [of 6] tail [of 12] r
      by (simp add: cbb_add_utf8_def utf8_enc_def le lead_bytes tails Let_def del: of_nat_add One_nat_def)
  qed
qed (simp add: cbb_add_utf8_def)

lemma length_utf8_enc: "length (utf8_enc u) = cbb_get_utf8_len u"
proof -
  have "length (utf8_tail n v) = n" for n v by (induction n) simp_all
  then show ?thesis by (simp add: utf8_enc_def cbb_get_utf8_len_def)
qed

section \<open>The character codecs\<close>

interpretation utf8: codec utf8_enc cbs_get_utf8 is_valid_code_point
  by unfold_locales (simp add: utf8_exact)

interpretation latin1: codec "\<lambda>u. [ucast u]" cbs_get_latin1 "\<lambda>u. u \<le> 0xff"
proof
  show "cbs_get_latin1 ([ucast u] @ rest) = (Some u, rest)" if "u \<le> 0xff" for u :: u32 and rest
    using that unat_ucast_small [of u, where 'b = 8]
    by (simp add: cbs_get_latin1_def rbind_def word_unat_eq_iff word_le_nat_alt)
qed

interpretation ucs2: codec "\<lambda>u. be_bytes 2 (unat u)" cbs_get_ucs2_be "\<lambda>u. u \<le> 0xffff \<and> is_valid_code_point u"
proof
  show "cbs_get_ucs2_be (be_bytes 2 (unat u) @ rest) = (Some u, rest)"
    if u: "u \<le> 0xffff \<and> is_valid_code_point u" for u :: u32 and rest
  proof -
    have lt: "unat u < 65536" using u by (simp add: word_le_nat_alt)
    have "ucast (ucast (of_nat (unat u) :: u64) :: u16) = u"
      using lt by (simp add: word_unat_eq_iff unat_ucast_small unat_of_nat_u64_small)
    moreover have "CBS_get_u16 (be_bytes 2 (unat u) @ rest) = (Some (ucast (of_nat (unat u) :: u64)), rest)"
      using lt by (simp add: CBS_get_u16_def rbind_def get_u_append)
    ultimately show ?thesis using u by (simp add: cbs_get_ucs2_be_def rbind_def)
  qed
qed

interpretation utf32: codec "\<lambda>u. be_bytes 4 (unat u)" cbs_get_utf32_be is_valid_code_point
proof
  show "cbs_get_utf32_be (be_bytes 4 (unat u) @ rest) = (Some u, rest)" if "is_valid_code_point u" for u :: u32 and rest
  proof -
    have lt: "unat u < 256 ^ 4" using unsigned_less [of u, where 'a = nat] by simp
    have "ucast (of_nat (unat u) :: u64) = u"
      using lt by (simp add: word_unat_eq_iff unat_ucast_small unat_of_nat_u64_small)
    then have "CBS_get_u32 (be_bytes 4 (unat u) @ rest) = (Some u, rest)"
      using lt by (simp add: CBS_get_u32_def rbind_def get_u_append)
    then show ?thesis using that by (simp add: cbs_get_utf32_be_def rbind_def)
  qed
qed

end
