(* ===== verification/Ber.thy ===== *)
theory Ber
  imports Cbb_Run
begin

text \<open>
  crypto/bytestring/ber.c: the walk that looks for BER-only encodings, the converter to DER and the
  reader of implicitly tagged strings. The walk terminates on every input; the converter
  terminates, and what it writes is DER all the way down.
\<close>

section \<open>Every element read consumes its header\<close>

lemma element_shape:
  assumes ass: "cbs_get_any_asn1_element ber s = (Some e, t)"
  obtains tag len hl bf where "cbs_finish_element s tag len hl bf = (Some e, t)"
    and "2 \<le> unat hl" and "unat hl \<le> unat len"
proof -
  obtain tag h where tag: "parse_asn1_tag s = (Some tag, h)"
    using ass by (auto simp: cbs_get_any_asn1_element_def split: prod.splits option.splits)
  with ass obtain b h' where h: "h = b # h'"
    by (cases h) (auto simp: cbs_get_any_asn1_element_def)
  have s: "s = der_tag tag @ b # h'" using parse_asn1_tag_SomeE [OF tag] h by simp
  define n where "n = length s - length h'"
  have n: "2 \<le> n" "n \<le> 12" using length_der_tag [of tag] by (auto simp: n_def s Suc_le_eq)
  have hl: "unat (of_nat n :: u64) = n" using n by (simp add: unat_of_nat_u64_small)
  let ?nb = "ucast (b AND 0x7f) :: u64"
  show thesis
  proof (cases "b AND 0x80 = 0")
    case True
    have "unat (ucast b + of_nat n :: u64) = unat b + n"
      using n unat_u8_less [of b] by (simp add: unat_u64_add hl del: unat_u8_less)
    then show thesis
      using that [of tag "ucast b + of_nat n" "of_nat n" False] ass True n
      by (simp add: cbs_get_any_asn1_element_def tag h Let_def CBS_len_def hl flip: n_def)
  next
    case False
    show thesis
    proof (cases "ber \<and> tag AND CBS_ASN1_CONSTRUCTED \<noteq> 0 \<and> ?nb = 0")
      case True
      then show thesis
        using that [of tag "of_nat n" "of_nat n" True] ass False n
        by (simp add: cbs_get_any_asn1_element_def tag h Let_def CBS_len_def hl flip: n_def)
    next
      case not_indef: False
      then have nb: "\<not> ?nb > 4"
        using ass False by (auto simp: cbs_get_any_asn1_element_def tag h Let_def split: if_splits)
      then obtain len64 h'' where get: "cbs_get_u (unat ?nb) h' = (Some len64, h'')"
        using ass False not_indef
        by (auto simp: cbs_get_any_asn1_element_def tag h Let_def split: if_splits prod.splits option.splits)
      obtain bs where bs: "length bs = unat ?nb" "len64 = of_nat (be_nat bs)"
        using get by (rule get_u_SomeE)
      have k: "unat ?nb \<le> 4" using nb by (simp add: word_less_nat_alt not_less del: unat_ucast_u8_u64)
      have "be_nat bs < 256 ^ length bs" by (rule be_nat_less)
      also have "\<dots> \<le> 256 ^ 4" using bs k by (intro power_increasing) auto
      finally have "unat len64 < 2 ^ 32" by (simp add: bs(2) unat_of_nat_u64_small)
      moreover have H: "unat (of_nat n + ?nb) = n + unat ?nb"
        using n k by (simp add: unat_u64_add hl del: unat_ucast_u8_u64)
      ultimately have L: "unat (len64 + (of_nat n + ?nb)) = unat len64 + (n + unat ?nb)"
        using n k by (subst unat_u64_add) (simp del: unat_ucast_u8_u64)
      have nb0: "?nb \<noteq> 0"
        using ass False not_indef by (auto simp: cbs_get_any_asn1_element_def tag h Let_def split: if_splits)
      define bf where "bf = (len64 < 128 \<or> drop_bit ((unat ?nb - 1) * 8) len64 = 0)"
      have "cbs_get_any_asn1_element ber s =
          (if bf \<and> \<not> ber then (None, s) else if len64 + of_nat n + ?nb < len64 then (None, s)
           else cbs_finish_element s tag (len64 + (of_nat n + ?nb)) (of_nat n + ?nb) bf)"
        unfolding cbs_get_any_asn1_element_def tag h prod.case option.case get_u8_Cons CBS_len_def
          n_def [symmetric] Let_def
        using False not_indef nb nb0 by (simp only: get prod.case option.case bf_def [symmetric] if_False de_Morgan_disj simp_thms)
      then have "cbs_finish_element s tag (len64 + (of_nat n + ?nb)) (of_nat n + ?nb) bf = (Some e, t)"
        using ass by (auto split: if_splits)
      then show thesis by (rule that) (use H L n in linarith)+
    qed
  qed
qed

lemma element_consumes:
  assumes "cbs_get_any_asn1_element ber s = (Some e, t)"
  shows "s = el_out e @ t" and "2 \<le> unat (el_header_len e)" and "unat (el_header_len e) \<le> length (el_out e)"
proof -
  obtain tag len hl bf where f: "cbs_finish_element s tag len hl bf = (Some e, t)"
    and hl: "2 \<le> unat hl" "unat hl \<le> unat len"
    using assms by (rule element_shape)
  from f have e: "e = \<lparr>el_out = take (unat len) s, el_tag = tag, el_header_len = hl, el_ber_found = bf\<rparr>"
    "t = drop (unat len) s" "unat len \<le> length s"
    by (auto simp: finish_element_eq split: if_splits)
  show "s = el_out e @ t" "2 \<le> unat (el_header_len e)" "unat (el_header_len e) \<le> length (el_out e)"
    using hl e by (simp_all add: min_absorb2)
qed

lemma ber_element_consumes:
  assumes "CBS_get_any_ber_asn1_element s = (Some e, t)"
  shows "length t < length s" and "CBS_skip (unat (el_header_len e)) (el_out e) =
    (Some (), drop (unat (el_header_len e)) (el_out e))"
    and "length (drop (unat (el_header_len e)) (el_out e)) < length s"
proof -
  note e = element_consumes [OF assms [unfolded CBS_get_any_ber_asn1_element_def]]
  have "length s = length (el_out e) + length t" by (subst e(1)) simp
  then show "length t < length s" "length (drop (unat (el_header_len e)) (el_out e)) < length s"
    using e(2,3) by (simp_all del: length_greater_0_conv)
  show "CBS_skip (unat (el_header_len e)) (el_out e) = (Some (), drop (unat (el_header_len e)) (el_out e))"
    using e(3) by (simp add: CBS_skip_def rbind_def cbs_get_def)
qed

lemma ber_contents_shorter:
  "CBS_get_any_ber_asn1_element s = (Some e, t) \<Longrightarrow>
   CBS_skip (unat (el_header_len e)) (el_out e) = (Some u, c) \<Longrightarrow> length c < length s"
  using ber_element_consumes [of s e t] by simp

section \<open>Looking for BER\<close>

definition kMaxDepth :: nat where "kMaxDepth = 2048"

definition CBS_ASN1_UTF8STRING :: u32 where "CBS_ASN1_UTF8STRING = 0xc"
definition CBS_ASN1_NUMERICSTRING :: u32 where "CBS_ASN1_NUMERICSTRING = 0x12"
definition CBS_ASN1_PRINTABLESTRING :: u32 where "CBS_ASN1_PRINTABLESTRING = 0x13"
definition CBS_ASN1_T61STRING :: u32 where "CBS_ASN1_T61STRING = 0x14"
definition CBS_ASN1_VIDEOTEXSTRING :: u32 where "CBS_ASN1_VIDEOTEXSTRING = 0x15"
definition CBS_ASN1_IA5STRING :: u32 where "CBS_ASN1_IA5STRING = 0x16"
definition CBS_ASN1_GRAPHICSTRING :: u32 where "CBS_ASN1_GRAPHICSTRING = 0x19"
definition CBS_ASN1_VISIBLESTRING :: u32 where "CBS_ASN1_VISIBLESTRING = 0x1a"
definition CBS_ASN1_GENERALSTRING :: u32 where "CBS_ASN1_GENERALSTRING = 0x1b"
definition CBS_ASN1_UNIVERSALSTRING :: u32 where "CBS_ASN1_UNIVERSALSTRING = 0x1c"
definition CBS_ASN1_BMPSTRING :: u32 where "CBS_ASN1_BMPSTRING = 0x1e"

definition is_string_type :: "u32 \<Rightarrow> bool" where
  "is_string_type tag \<longleftrightarrow> tag AND NOT CBS_ASN1_CONSTRUCTED \<in>
     {CBS_ASN1_OCTETSTRING, CBS_ASN1_UTF8STRING, CBS_ASN1_NUMERICSTRING, CBS_ASN1_PRINTABLESTRING,
      CBS_ASN1_T61STRING, CBS_ASN1_VIDEOTEXSTRING, CBS_ASN1_IA5STRING, CBS_ASN1_GRAPHICSTRING,
      CBS_ASN1_VISIBLESTRING, CBS_ASN1_GENERALSTRING, CBS_ASN1_UNIVERSALSTRING, CBS_ASN1_BMPSTRING}"

text \<open>The loop of \<open>cbs_find_ber\<close>; \<open>found\<close> is \<open>*ber_found\<close>, \<open>None\<close> the return value 0.\<close>

function cbs_find_ber_loop :: "nat \<Rightarrow> cbs \<Rightarrow> bool \<Rightarrow> bool option" where
  "cbs_find_ber_loop depth in' found =
     (if in' = [] then Some found
      else
        (case CBS_get_any_ber_asn1_element in' of
           (None, _) \<Rightarrow> None
         | (Some e, in'') \<Rightarrow>
             if el_ber_found e then Some True
             else if el_tag e AND CBS_ASN1_CONSTRUCTED \<noteq> 0 then
               (if is_string_type (el_tag e) then Some True
                else
                  (case CBS_skip (unat (el_header_len e)) (el_out e) of
                     (None, _) \<Rightarrow> None
                   | (Some _, contents) \<Rightarrow>
                       (case (if depth + 1 > kMaxDepth then None
                              else cbs_find_ber_loop (depth + 1) contents False) of
                          None \<Rightarrow> None
                        | Some found \<Rightarrow> cbs_find_ber_loop depth in'' found)))
             else cbs_find_ber_loop depth in'' False))"
  by pat_completeness auto
termination
  by (relation "measure (\<lambda>(d, s, f). length s)") (auto dest: ber_element_consumes [OF sym] ber_contents_shorter [OF sym sym])

declare cbs_find_ber_loop.simps [simp del]

definition cbs_find_ber :: "cbs \<Rightarrow> nat \<Rightarrow> bool option" where
  "cbs_find_ber orig_in depth = (if depth > kMaxDepth then None else cbs_find_ber_loop depth orig_in False)"

section \<open>Converting\<close>

definition is_eoc :: "u64 \<Rightarrow> cbs \<Rightarrow> bool" where
  "is_eoc header_len contents \<longleftrightarrow> header_len = 2 \<and> CBS_len contents = 2 \<and> take 2 (CBS_data contents) = [0, 0]"

text \<open>A constructed string becomes a primitive one whose children are concatenated.\<close>

definition is_constructed_string :: "u32 \<Rightarrow> bool" where
  "is_constructed_string tag \<longleftrightarrow> tag AND CBS_ASN1_CONSTRUCTED \<noteq> 0 \<and> is_string_type tag"

definition ber_out_tag :: "u32 \<Rightarrow> u32" where
  "ber_out_tag tag = (if is_constructed_string tag then tag AND NOT CBS_ASN1_CONSTRUCTED else tag)"

definition ber_child_tag :: "u32 \<Rightarrow> u32 \<Rightarrow> u32" where
  "ber_child_tag string_tag tag =
     (if string_tag \<noteq> 0 then string_tag
      else if is_constructed_string tag then ber_out_tag tag else string_tag)"

definition is_indefinite :: "u64 \<Rightarrow> cbs \<Rightarrow> bool" where
  "is_indefinite header_len contents \<longleftrightarrow>
     CBS_len contents = unat header_len \<and> header_len > 0 \<and>
     CBS_data contents ! (unat header_len - 1) = 0x80"

type_synonym ber_result = "(bool \<times> cbs \<times> cbb_st) option"

text \<open>The contents of one element; \<open>convert\<close> is the recursive call.\<close>

definition convert_contents ::
    "(nat \<Rightarrow> u32 \<Rightarrow> bool \<Rightarrow> nat \<Rightarrow> cbs \<Rightarrow> cbb_st \<Rightarrow> ber_result) \<Rightarrow> allocator \<Rightarrow> nat \<Rightarrow> u32 \<Rightarrow> nat \<Rightarrow>
       asn1_element \<Rightarrow> cbs \<Rightarrow> cbb_st \<Rightarrow> ber_result" where
  "convert_contents convert al out_contents child_string_tag depth e in' S =
     (if is_indefinite (el_header_len e) (el_out e)
      then convert out_contents child_string_tag True depth in' S
      else
        (case CBS_skip (unat (el_header_len e)) (el_out e) of
           (None, _) \<Rightarrow> Some (False, in', S)
         | (Some _, contents) \<Rightarrow>
             if el_tag e AND CBS_ASN1_CONSTRUCTED \<noteq> 0
             then (case convert out_contents child_string_tag False depth contents S of
                     None \<Rightarrow> None
                   | Some (ok, _, S) \<Rightarrow> Some (ok, in', S))
             else (case CBB_add_bytes al out_contents (CBS_data contents) S of
                     (ok, S) \<Rightarrow> Some (ok, in', S))))"

text \<open>
  One call or loop round per unit of fuel; \<open>None\<close> only when it runs out. The result is the return
  value, the input left and the builder.
\<close>

fun cbs_convert_ber ::
    "nat \<Rightarrow> allocator \<Rightarrow> nat \<Rightarrow> u32 \<Rightarrow> bool \<Rightarrow> nat \<Rightarrow> cbs \<Rightarrow> cbb_st \<Rightarrow> ber_result" where
  "cbs_convert_ber 0 al out string_tag looking_for_eoc depth in' S = None"
| "cbs_convert_ber (Suc fuel) al out string_tag looking_for_eoc depth in' S =
     (if depth > kMaxDepth then Some (False, in', S)
      else if in' = [] then Some (\<not> looking_for_eoc, in', S)
      else
        (case CBS_get_any_ber_asn1_element in' of
           (None, in') \<Rightarrow> Some (False, in', S)
         | (Some e, in') \<Rightarrow>
             if is_eoc (el_header_len e) (el_out e) then Some (looking_for_eoc, in', S)
             else
               (case (if string_tag \<noteq> 0
                      then (el_tag e AND NOT CBS_ASN1_CONSTRUCTED = string_tag, S)
                      else CBB_add_asn1 al out (ber_out_tag (el_tag e)) S) of
                  (False, S) \<Rightarrow> Some (False, in', S)
                | (True, S) \<Rightarrow>
                    (case convert_contents (cbs_convert_ber fuel al) al
                            (if string_tag \<noteq> 0 then out else Suc out)
                            (ber_child_tag string_tag (el_tag e)) (depth + 1) e in' S of
                       None \<Rightarrow> None
                     | Some (False, in', S) \<Rightarrow> Some (False, in', S)
                     | Some (True, in', S) \<Rightarrow>
                         (case CBB_flush al out S of
                            (False, S) \<Rightarrow> Some (False, in', S)
                          | (True, S) \<Rightarrow>
                              cbs_convert_ber fuel al out string_tag looking_for_eoc depth in' S)))))"

text \<open>The result: what \<open>*out\<close> holds, whether \<open>*out_storage\<close> was allocated, and the input left.\<close>

definition CBS_asn1_ber_to_der ::
    "nat \<Rightarrow> allocator \<Rightarrow> allocator \<Rightarrow> cbs \<Rightarrow> (u8 list \<times> bool) option \<times> cbs" where
  "CBS_asn1_ber_to_der fuel al al' in' =
     (case cbs_find_ber in' 0 of
        None \<Rightarrow> (None, in')
      | Some False \<Rightarrow>
          (case CBS_get_any_asn1_element in' of
             (None, in') \<Rightarrow> (None, in')
           | (Some e, in') \<Rightarrow> (Some (el_out e, False), in'))
      | Some True \<Rightarrow>
          (case CBB_init al al' (of_nat (CBS_len in')) of
             None \<Rightarrow> (None, in')
           | Some cbb \<Rightarrow>
               (case cbs_convert_ber fuel al 0 0 False 0 in' cbb of
                  None \<Rightarrow> (None, in')
                | Some (False, in', cbb) \<Rightarrow> (None, in')
                | Some (True, in', cbb) \<Rightarrow>
                    (case CBB_finish al 0 True cbb of
                       (None, _) \<Rightarrow> (None, in')
                     | (Some data, _) \<Rightarrow> (Some (data, True), in')))))"

fun implicit_string_loop :: "nat \<Rightarrow> allocator \<Rightarrow> u32 \<Rightarrow> cbs \<Rightarrow> cbb_st \<Rightarrow> (bool \<times> cbb_st) option" where
  "implicit_string_loop 0 al inner_tag child result = None"
| "implicit_string_loop (Suc fuel) al inner_tag child result =
     (if child = [] then Some (True, result)
      else
        (case CBS_get_asn1 inner_tag child of
           (None, _) \<Rightarrow> Some (False, result)
         | (Some chunk, child) \<Rightarrow>
             (case CBB_add_bytes al 0 (CBS_data chunk) result of
                (False, result) \<Rightarrow> Some (False, result)
              | (True, result) \<Rightarrow> implicit_string_loop fuel al inner_tag child result)))"

definition CBS_get_asn1_implicit_string ::
    "nat \<Rightarrow> allocator \<Rightarrow> allocator \<Rightarrow> u32 \<Rightarrow> u32 \<Rightarrow> cbs \<Rightarrow> (u8 list \<times> bool) option \<times> cbs" where
  "CBS_get_asn1_implicit_string fuel al al' outer_tag inner_tag in' =
     (if CBS_peek_asn1_tag in' outer_tag
      then rbind (CBS_get_asn1 outer_tag) (\<lambda>out. rreturn (out, False)) in'
      else
        (case CBB_init al al' (of_nat (CBS_len in')) of
           None \<Rightarrow> (None, in')
         | Some result \<Rightarrow>
             rbind (CBS_get_asn1 (outer_tag OR CBS_ASN1_CONSTRUCTED))
               (\<lambda>child.
                  case implicit_string_loop fuel al inner_tag child result of
                    None \<Rightarrow> rfail
                  | Some (False, _) \<Rightarrow> rfail
                  | Some (True, result) \<Rightarrow>
                      (case CBB_finish al 0 True result of
                         (None, _) \<Rightarrow> rfail
                       | (Some data, _) \<Rightarrow> rreturn (data, True))) in'))"

section \<open>The converter terminates\<close>

lemma contents_return:
  assumes el: "CBS_get_any_ber_asn1_element s = (Some e, t)"
    and rec: "\<And>out st eoc depth s1 S1. length s1 < length s \<Longrightarrow>
      \<exists>ok s' S'. convert out st eoc depth s1 S1 = Some (ok, s', S') \<and> length s' \<le> length s1"
  shows "\<exists>ok s' S'. convert_contents convert al out st depth e t S = Some (ok, s', S') \<and> length s' \<le> length t"
proof -
  note c = ber_element_consumes [OF el]
  obtain ok s' S' where "convert out st False depth (drop (unat (el_header_len e)) (el_out e)) S = Some (ok, s', S')"
    using rec [OF c(3)] by blast
  then show ?thesis using rec [OF c(1), of out st True depth S] c(2)
    by (auto simp: convert_contents_def split: prod.split)
qed

lemma convert_ber_returns:
  "length s < fuel \<Longrightarrow>
     \<exists>ok s' S'. cbs_convert_ber fuel al out st eoc depth s S = Some (ok, s', S') \<and> length s' \<le> length s"
proof (induction fuel arbitrary: out st eoc depth s S)
  case (Suc fuel)
  show ?case
  proof (cases "CBS_get_any_ber_asn1_element s")
    case (Pair e t)
    show ?thesis
    proof (cases e)
      case None
      have "t = s" using element.atomic_law [of True s] Pair None
        by (simp add: CBS_get_any_ber_asn1_element_def)
      with Pair None show ?thesis by auto
    next
      case (Some el)
      note get = Pair [unfolded Some]
      have IH: "\<exists>ok s' S'. cbs_convert_ber fuel al out st eoc depth s1 S1 = Some (ok, s', S') \<and> length s' \<le> length s1"
        if "length s1 < length s" for out st eoc depth s1 S1
        using that Suc by simp
      have step: "\<exists>ok s' S'. convert_contents (cbs_convert_ber fuel al) al out st depth el t S = Some (ok, s', S') \<and>
          length s' \<le> length t" for out st depth S
        by (rule contents_return [OF get IH])
      have next': "\<exists>ok s' S'. cbs_convert_ber fuel al out st eoc depth s1 S1 = Some (ok, s', S') \<and> length s' \<le> length s"
        if "length s1 \<le> length t" for out st eoc depth s1 S1
        using IH [of s1 out st eoc depth S1] that ber_element_consumes(1) [OF get] by fastforce
      obtain o1 S1 where S1: "(if st \<noteq> 0 then (el_tag el AND NOT CBS_ASN1_CONSTRUCTED = st, S)
          else CBB_add_asn1 al out (ber_out_tag (el_tag el)) S) = (o1, S1)" by (rule prod.exhaust)
      obtain o2 s2 S2 where S2: "convert_contents (cbs_convert_ber fuel al) al (if st \<noteq> 0 then out else Suc out)
          (ber_child_tag st (el_tag el)) (depth + 1) el t S1 = Some (o2, s2, S2)" "length s2 \<le> length t"
        using step by blast
      obtain o3 S3 where S3: "CBB_flush al out S2 = (o3, S3)" by (rule prod.exhaust)
      have "length s2 \<le> length s" "length t \<le> length s" using S2(2) ber_element_consumes(1) [OF get] by simp_all
      then show ?thesis
        using next' [OF S2(2), of out st eoc depth S3] S2(1)
        unfolding cbs_convert_ber.simps get prod.case option.case S1
        by (cases "st = 0") (auto simp: S3 split: bool.split)
    qed
  qed
qed simp

section \<open>What the converter writes\<close>

text \<open>DER at every level, with no constructed strings; the contents of primitive elements are free.\<close>

inductive nested_der :: "u8 list \<Rightarrow> bool" where
  empty: "nested_der []"
| primitive: "tag AND CBS_ASN1_CONSTRUCTED = 0 \<Longrightarrow> length c < 2 ^ 32 \<Longrightarrow> nested_der s \<Longrightarrow>
    nested_der (der_element tag c @ s)"
| constructed: "tag AND CBS_ASN1_CONSTRUCTED \<noteq> 0 \<Longrightarrow> \<not> is_string_type tag \<Longrightarrow> length c < 2 ^ 32 \<Longrightarrow>
    nested_der c \<Longrightarrow> nested_der s \<Longrightarrow> nested_der (der_element tag c @ s)"

lemma nested_der_append: "nested_der s \<Longrightarrow> nested_der t \<Longrightarrow> nested_der (s @ t)"
  by (induction rule: nested_der.induct) (auto intro: nested_der.intros)

lemmas nested_der_one = nested_der.primitive [OF _ _ nested_der.empty, unfolded append_Nil2]
  nested_der.constructed [OF _ _ _ _ nested_der.empty, unfolded append_Nil2]

lemma out_tag_cases:
  obtains "ber_out_tag tag AND CBS_ASN1_CONSTRUCTED = 0"
  | "ber_out_tag tag = tag" and "tag AND CBS_ASN1_CONSTRUCTED \<noteq> 0" and "\<not> is_string_type tag"
      and "ber_child_tag 0 tag = 0"
proof (cases "is_constructed_string tag")
  case True
  have "(tag AND NOT CBS_ASN1_CONSTRUCTED) AND CBS_ASN1_CONSTRUCTED = 0"
    by (auto intro!: bit_word_eqI simp: bit_simps)
  with True that(1) show thesis by (simp add: ber_out_tag_def)
next
  case False
  with that show thesis
    by (cases "tag AND CBS_ASN1_CONSTRUCTED = 0")
      (auto simp: ber_out_tag_def ber_child_tag_def is_constructed_string_def)
qed

lemma flush_closes_element:
  assumes F: "depth_is d F" and F1: "spec_asn1 d tag F = Some F1" and F2: "spec_append c F1 = Some F2"
    and F3: "spec_flush d F2 = Some F3"
  shows "spec_append (der_element tag c) F = Some F3 \<and> length c < 2 ^ 32"
proof -
  have "spec_then (spec_flush d) (spec_element tag c) F = Some F3"
    using F1 F2 F3 by (simp add: spec_then_def flip: spec_element_eq)
  then show ?thesis
    by (simp add: spec_then_def spec_flush_idle [OF F] spec_element_def split: if_splits)
qed

definition appended :: "nat \<Rightarrow> frame list \<Rightarrow> u8 list \<Rightarrow> cbb_st \<Rightarrow> bool" where
  "appended d F bs S \<longleftrightarrow> (\<exists>F'. spec_append bs F = Some F' \<and> depth_is d F' \<and> cbb_repr S F')"

lemma appended_Nil: "cbb_repr S F \<Longrightarrow> depth_is d F \<Longrightarrow> appended d F [] S"
  by (cases F rule: rev_cases) (auto simp: appended_def spec_append_def depth_is_def)

lemma contents_appended:
  assumes rec: "\<And>d st eoc depth s1 S1 F1 s2 S2. convert d st eoc depth s1 S1 = Some (True, s2, S2) \<Longrightarrow>
      length s1 < 2 ^ 64 \<Longrightarrow> cbb_repr S1 F1 \<Longrightarrow> depth_is d F1 \<Longrightarrow>
      \<exists>bs. appended d F1 bs S2 \<and> (st = 0 \<longrightarrow> nested_der bs)"
    and r: "convert_contents convert al d st depth e t S = Some (True, t', S')" and S: "cbb_repr S F" "depth_is d F"
    and len: "length (el_out e) < 2 ^ 64" "length t < 2 ^ 64"
  shows "\<exists>bs. appended d F bs S' \<and> (st = 0 \<and> el_tag e AND CBS_ASN1_CONSTRUCTED \<noteq> 0 \<longrightarrow> nested_der bs)"
proof -
  consider (indef) "convert d st True depth t S = Some (True, t', S')"
    | (cons) c s2 where "convert d st False depth c S = Some (True, s2, S')" "length c < 2 ^ 64"
    | (prim) c where "el_tag e AND CBS_ASN1_CONSTRUCTED = 0" "CBB_add_bytes al d c S = (True, S')" "length c < 2 ^ 64"
  proof (cases "is_indefinite (el_header_len e) (el_out e)")
    case True
    with r indef show thesis by (simp add: convert_contents_def)
  next
    case False
    with r obtain c where c: "CBS_skip (unat (el_header_len e)) (el_out e) = (Some (), c)"
      by (auto simp: convert_contents_def split: prod.splits option.splits)
    then have "length c < 2 ^ 64" using len(1)
      by (auto simp: CBS_skip_def rbind_def cbs_get_def split: if_splits)
    with r False c cons prim show thesis
      by (auto simp: convert_contents_def CBS_data_def split: if_splits option.splits prod.splits)
  qed
  then show ?thesis
  proof cases
    case indef
    from rec [OF this len(2) S] show ?thesis by blast
  next
    case cons
    from rec [OF this S] show ?thesis by blast
  next
    case prim
    obtain F' where "spec_then (spec_flush d) (spec_append c) F = Some F'" "cbb_repr S' F'"
      using implements_sound [OF implements_add_bytes [OF prim(3)] S(1) prim(2)] by blast
    then have "appended d F c S'"
      using spec_append_depth [OF S(2)] by (simp add: spec_then_def spec_flush_idle [OF S(2)] appended_def)
    with prim(1) show ?thesis by auto
  qed
qed

text \<open>One element: opened, filled and flushed.\<close>

lemma element_appended:
  assumes S: "cbb_repr S F" "depth_is d F" and st: "st = 0"
    and op: "CBB_add_asn1 al d (ber_out_tag tag) S = (True, S1)"
    and body: "\<And>F1. cbb_repr S1 F1 \<Longrightarrow> depth_is (Suc d) F1 \<Longrightarrow> \<exists>bs. appended (Suc d) F1 bs S2 \<and>
        (ber_child_tag st tag = 0 \<and> tag AND CBS_ASN1_CONSTRUCTED \<noteq> 0 \<longrightarrow> nested_der bs)"
    and fl: "CBB_flush al d S2 = (True, S3)"
  shows "\<exists>bs. appended d F bs S3 \<and> nested_der bs"
proof -
  obtain F1 where F1: "spec_asn1 d (ber_out_tag tag) F = Some F1" "cbb_repr S1 F1"
    using implements_sound [OF implements_asn1 S(1) op] by blast
  obtain c F2 where c: "spec_append c F1 = Some F2" "cbb_repr S2 F2"
      "ber_child_tag st tag = 0 \<and> tag AND CBS_ASN1_CONSTRUCTED \<noteq> 0 \<longrightarrow> nested_der c"
    using body [OF F1(2) spec_asn1_depth [OF F1(1)]] by (auto simp: appended_def)
  obtain F3 where F3: "spec_flush d F2 = Some F3" "cbb_repr S3 F3"
    using implements_sound [OF implements_flush c(2) fl] by blast
  note el = flush_closes_element [OF S(2) F1(1) c(1) F3(1)]
  have "nested_der (der_element (ber_out_tag tag) c)"
    by (cases tag rule: out_tag_cases) (use el c(3) st in \<open>auto intro: nested_der_one\<close>)
  with el F3(2) spec_append_depth [OF S(2)] show ?thesis by (auto simp: appended_def)
qed

lemma contents_shorter:
  assumes el: "CBS_get_any_ber_asn1_element s = (Some e, t)"
    and rec: "\<And>out st eoc depth s1 S1 ok s' S'. convert out st eoc depth s1 S1 = Some (ok, s', S') \<Longrightarrow> length s' \<le> length s1"
    and r: "convert_contents convert al out st depth e t S = Some (ok, t', S')"
  shows "length t' < length s"
proof -
  have "t' = t \<or> (\<exists>eoc. convert out st eoc depth t S = Some (ok, t', S'))"
    using r by (auto simp: convert_contents_def split: if_splits option.splits prod.splits)
  then have "length t' \<le> length t" using rec by auto
  with ber_element_consumes(1) [OF el] show ?thesis by simp
qed

lemma convert_ber_shorter:
  "cbs_convert_ber fuel al out st eoc depth s S = Some (ok, s', S') \<Longrightarrow> length s' \<le> length s"
proof (induction fuel arbitrary: out st eoc depth s S ok s' S')
  case (Suc fuel)
  consider "s' = s" | e t where "CBS_get_any_ber_asn1_element s = (e, t)" "s' = t"
    | e t out1 st1 depth1 S1 ok1 S2 where "CBS_get_any_ber_asn1_element s = (Some e, t)"
      "convert_contents (cbs_convert_ber fuel al) al out1 st1 depth1 e t S1 = Some (ok1, s', S2)"
    | e t out1 st1 depth1 S1 ok1 t' S2 S3 where "CBS_get_any_ber_asn1_element s = (Some e, t)"
      "convert_contents (cbs_convert_ber fuel al) al out1 st1 depth1 e t S1 = Some (ok1, t', S2)"
      "cbs_convert_ber fuel al out st eoc depth t' S3 = Some (ok, s', S')"
    using Suc.prems unfolding cbs_convert_ber.simps
    by (clarsimp split: if_split_asm option.splits prod.splits bool.splits)
  then show ?case
  proof cases
    case 2
    then show ?thesis using element.length_le [of True s] by (simp add: CBS_get_any_ber_asn1_element_def)
  next
    case 3
    have "length s' < length s" by (rule contents_shorter [OF 3(1) _ 3(2)]) (rule Suc.IH)
    then show ?thesis by simp
  next
    case 4
    have "length t' < length s" by (rule contents_shorter [OF 4(1) _ 4(2)]) (rule Suc.IH)
    with Suc.IH [OF 4(3)] show ?thesis by simp
  qed simp
qed simp

lemma convert_ber_sound:
  "cbs_convert_ber fuel al d st eoc depth s S = Some (True, s', S') \<Longrightarrow> length s < 2 ^ 64 \<Longrightarrow>
     cbb_repr S F \<Longrightarrow> depth_is d F \<Longrightarrow> \<exists>bs. appended d F bs S' \<and> (st = 0 \<longrightarrow> nested_der bs)"
proof (induction fuel arbitrary: d st eoc depth s S F s' S')
  case (Suc fuel)
  consider (stop) "S' = S" | (more) e t S1 t' S2 S3 where
      "CBS_get_any_ber_asn1_element s = (Some e, t)"
      "(if st \<noteq> 0 then (el_tag e AND NOT CBS_ASN1_CONSTRUCTED = st, S)
        else CBB_add_asn1 al d (ber_out_tag (el_tag e)) S) = (True, S1)"
      "convert_contents (cbs_convert_ber fuel al) al (if st \<noteq> 0 then d else Suc d)
         (ber_child_tag st (el_tag e)) (depth + 1) e t S1 = Some (True, t', S2)"
      "CBB_flush al d S2 = (True, S3)"
      "cbs_convert_ber fuel al d st eoc depth t' S3 = Some (True, s', S')"
    using Suc.prems(1) unfolding cbs_convert_ber.simps
    by (clarsimp split: if_split_asm option.splits prod.splits bool.splits)
  then show ?case
  proof cases
    case stop
    with appended_Nil [OF Suc.prems(3,4)] show ?thesis using nested_der.empty by blast
  next
    case more
    note el = element_consumes(1) [OF more(1) [unfolded CBS_get_any_ber_asn1_element_def]]
    have len: "length (el_out e) < 2 ^ 64" "length t < 2 ^ 64" using Suc.prems(2) by (simp_all add: el)
    have body: "\<exists>bs. appended d' F bs S2 \<and>
        (ber_child_tag st (el_tag e) = 0 \<and> el_tag e AND CBS_ASN1_CONSTRUCTED \<noteq> 0 \<longrightarrow> nested_der bs)"
      if F: "cbb_repr S1 F" "depth_is d' F" and d': "d' = (if st \<noteq> 0 then d else Suc d)" for F d'
      by (rule contents_appended [OF _ more(3) [folded d'] F len]) (rule Suc.IH)
    have "\<exists>bs. appended d F bs S3 \<and> (st = 0 \<longrightarrow> nested_der bs)"
    proof (cases "st = 0")
      case True
      have "CBB_add_asn1 al d (ber_out_tag (el_tag e)) S = (True, S1)" using more(2) True by simp
      from element_appended [OF Suc.prems(3,4) True this _ more(4)] body [of _ "Suc d"] True show ?thesis by auto
    next
      case False
      then have "S1 = S" using more(2) by simp
      then obtain bs where "appended d F bs S2" using body [of F d] Suc.prems(3,4) False by auto
      then obtain F2 where F2: "spec_append bs F = Some F2" "depth_is d F2" "cbb_repr S2 F2"
        by (auto simp: appended_def)
      obtain F3 where F3: "spec_flush d F2 = Some F3" "cbb_repr S3 F3"
        using implements_sound [OF implements_flush F2(3) more(4)] by blast
      then have "F3 = F2" using spec_flush_idle [OF F2(2)] by simp
      with F2 F3 False show ?thesis by (auto simp: appended_def)
    qed
    then obtain bs where bs: "appended d F bs S3" "st = 0 \<longrightarrow> nested_der bs" by blast
    have t': "length t' < 2 ^ 64"
    proof -
      have "length t' < length s" by (rule contents_shorter [OF more(1) _ more(3)]) (rule convert_ber_shorter)
      with Suc.prems(2) show ?thesis by simp
    qed
    obtain F3 where F3: "spec_append bs F = Some F3" "depth_is d F3" "cbb_repr S3 F3"
      using bs(1) by (auto simp: appended_def)
    obtain bs' where bs': "appended d F3 bs' S'" "st = 0 \<longrightarrow> nested_der bs'"
      using Suc.IH [OF more(5) t' F3(3,2)] by auto
    have "appended d F (bs @ bs') S'"
      using fun_cong [OF spec_append_append [of bs bs'], of F] F3(1) bs'(1)
      by (simp add: spec_then_def appended_def)
    then show ?thesis using nested_der_append bs(2) bs'(2) by blast
  qed
qed simp

section \<open>The walk on DER\<close>

lemma find_ber_element:
  assumes "length c < 2 ^ 32"
  shows "cbs_find_ber_loop depth (der_element tag c @ s) found =
     (if tag AND CBS_ASN1_CONSTRUCTED \<noteq> 0 then
        (if is_string_type tag then Some True
         else (case (if depth + 1 > kMaxDepth then None else cbs_find_ber_loop (depth + 1) c False) of
                 None \<Rightarrow> None | Some found \<Rightarrow> cbs_find_ber_loop depth s found))
      else cbs_find_ber_loop depth s False)"
proof -
  have "der_element tag c \<noteq> []" using length_der_tag [of tag] by (auto simp: der_element_def der_header_def)
  then show ?thesis
    by (subst cbs_find_ber_loop.simps)
      (simp add: CBS_get_any_ber_asn1_element_def get_element_der [OF assms] skip_header cong: if_cong)
qed

lemma find_ber_Nil [simp]: "cbs_find_ber_loop depth [] found = Some found"
  by (subst cbs_find_ber_loop.simps) simp

lemma find_ber_nested_der:
  "nested_der s \<Longrightarrow> cbs_find_ber_loop depth s False \<noteq> Some True"
proof (induction arbitrary: depth rule: nested_der.induct)
  case (constructed tag c s)
  have "found = False" if "cbs_find_ber_loop (Suc depth) c False = Some found" for found
    using constructed.IH(1) [of "Suc depth"] that by auto
  with constructed show ?case
    by (auto simp: find_ber_element split: option.split)
qed (auto simp: find_ber_element)

lemma nested_der_elementD:
  assumes "nested_der (der_element tag c @ s)" and "length c < 2 ^ 32" and "tag AND CBS_ASN1_CONSTRUCTED \<noteq> 0"
  shows "\<not> is_string_type tag \<and> nested_der c"
  using assms(1)
proof cases
  case empty
  then show ?thesis using length_der_tag [of tag] by (auto simp: der_element_def der_header_def)
next
  case (primitive tag' c' s')
  then show ?thesis using der_element.prefix_free [of "(c, tag)" "(c', tag')" s s'] assms by auto
next
  case (constructed tag' c' s')
  then show ?thesis using der_element.prefix_free [of "(c, tag)" "(c', tag')" s s'] assms by auto
qed

text \<open>
  C14: Whatever \<open>CBS_asn1_ber_to_der\<close> converts comes out as DER at every level, without constructed
  strings, so the walk finds nothing to convert in it.
\<close>

theorem ber_to_der_converts:
  assumes "CBS_asn1_ber_to_der fuel al al' s = (Some (out, True), t)" and "length s < 2 ^ 64"
  shows "nested_der out \<and> cbs_find_ber out 0 \<noteq> Some True"
proof -
  obtain S0 S1 S2 where S0: "CBB_init al al' (of_nat (CBS_len s)) = Some S0"
    and conv: "cbs_convert_ber fuel al 0 0 False 0 s S0 = Some (True, t, S1)"
    and fin: "CBB_finish al 0 True S1 = (Some out, S2)"
    using assms(1)
    by (auto simp: CBS_asn1_ber_to_der_def split: option.splits prod.splits bool.splits)
  have "cbb_repr S0 [(Root, [])]" using init_repr [OF S0] by blast
  from convert_ber_sound [OF conv assms(2) this, of]
  obtain bs where bs: "appended 0 [(Root, [])] bs S1" "nested_der bs" by (auto simp: depth_is_def)
  then have "cbb_repr S1 [(Root, bs)]" by (simp add: appended_def spec_append_def)
  from CBB_finish_sound [OF this fin] have "out = bs" by (simp add: spec_flush_def)
  with bs(2) find_ber_nested_der [of bs 0] show ?thesis by (simp add: cbs_find_ber_def)
qed

text \<open>A constructed OCTET STRING without chunks becomes the primitive one.\<close>

theorem ber_to_der_witness:
  "CBS_asn1_ber_to_der 3 zero_alloc zero_alloc [0x24, 0] = (Some ([4, 0], True), []) \<and> nested_der [4, 0]"
proof -
  have run: "CBS_asn1_ber_to_der 3 zero_alloc zero_alloc [0x24, 0] = (Some ([4, 0], True), [])" by code_simp
  then show ?thesis using ber_to_der_converts [OF run] by simp
qed

text \<open>
  C15: The converter returns on every input: a unit of fuel per byte and one more are enough, at
  any depth and in any mode.
\<close>

theorem convert_ber_terminates:
  "cbs_convert_ber (Suc (length s)) al out string_tag looking_for_eoc depth s S \<noteq> None"
  using convert_ber_returns [of s "Suc (length s)" al out string_tag looking_for_eoc depth S]
  by (auto simp del: cbs_convert_ber.simps)

section \<open>A nested constructed string the walk forgets\<close>

text \<open>
  SEQUENCE { SEQUENCE { constructed OCTET STRING { 41 } }, INTEGER 5 }. The walk finds the
  constructed string, then the INTEGER resets \<open>*ber_found\<close>, so the input is passed on as DER.
\<close>

definition forgotten_ber :: "u8 list" where
  "forgotten_ber = [0x30, 0x0a, 0x30, 0x05, 0x24, 0x03, 0x04, 0x01, 0x41, 0x02, 0x01, 0x05]"

lemma forgotten_ber_eq:
  "forgotten_ber = der_element 0x20000010
     (der_element 0x20000010 (der_element 0x20000004 (der_element 0x4 [0x41])) @ der_element 0x2 [5])"
  by (simp add: forgotten_ber_def der_element_def der_header_def der_len_def der_tag_def
      CBS_ASN1_TAG_SHIFT_def CBS_ASN1_TAG_NUMBER_MASK_def Let_def)

lemma sequence_tag: "(0x20000010 :: u32) AND CBS_ASN1_CONSTRUCTED \<noteq> 0" "\<not> is_string_type 0x20000010"
  "(0x20000004 :: u32) AND CBS_ASN1_CONSTRUCTED \<noteq> 0" "is_string_type 0x20000004"
  "(0x2 :: u32) AND CBS_ASN1_CONSTRUCTED = 0"
  by (simp_all add: CBS_ASN1_CONSTRUCTED_def CBS_ASN1_TAG_SHIFT_def is_string_type_def
      CBS_ASN1_OCTETSTRING_def CBS_ASN1_UTF8STRING_def CBS_ASN1_NUMERICSTRING_def CBS_ASN1_PRINTABLESTRING_def
      CBS_ASN1_T61STRING_def CBS_ASN1_VIDEOTEXSTRING_def CBS_ASN1_IA5STRING_def CBS_ASN1_GRAPHICSTRING_def
      CBS_ASN1_VISIBLESTRING_def CBS_ASN1_GENERALSTRING_def CBS_ASN1_UNIVERSALSTRING_def CBS_ASN1_BMPSTRING_def)

text \<open>
  C29: An input with a nested constructed string before a primitive element is handed on unchanged, as
  if it were DER, because the flag the inner walk sets is overwritten by the next element.
\<close>

theorem ber_to_der_forgets_nested_ber:
  "CBS_asn1_ber_to_der fuel al al' forgotten_ber = (Some (forgotten_ber, False), []) \<and> \<not> nested_der forgotten_ber"
proof -
  let ?str = "der_element 0x20000004 (der_element 0x4 [0x41])"
  let ?inner = "der_element 0x20000010 ?str" and ?int = "der_element 0x2 [5]"
  have len: "length (der_element tag c) \<le> length c + 16" for tag c
    using length_der_header [of tag "length c"] by (simp add: der_element_def)
  have lens: "length (der_element 0x4 [0x41]) < 2 ^ 32" "length ?str < 2 ^ 32" "length (?inner @ ?int) < 2 ^ 32"
    using len [of "0x4" "[0x41]"] len [of "0x20000004" "der_element 0x4 [0x41]"] len [of "0x20000010" ?str] len [of "0x2" "[5]"]
    by simp_all
  have str: "cbs_find_ber_loop depth ?str False = Some True" for depth
    using find_ber_element [OF lens(1), of depth "0x20000004" "[]" False] sequence_tag by simp
  have int: "cbs_find_ber_loop depth ?int found = Some False" for depth found
    using find_ber_element [of "[5]" depth "0x2" "[]" found] sequence_tag by simp
  have inner: "cbs_find_ber_loop 1 (?inner @ ?int) False = Some False"
    using find_ber_element [OF lens(2), of 1 "0x20000010" ?int False] sequence_tag str int
    by (simp add: kMaxDepth_def)
  have "cbs_find_ber forgotten_ber 0 = Some False"
    using find_ber_element [OF lens(3), of 0 "0x20000010" "[]" False] sequence_tag inner
    by (simp add: forgotten_ber_eq cbs_find_ber_def kMaxDepth_def)
  moreover have "CBS_get_any_asn1_element forgotten_ber =
      (Some \<lparr>el_out = forgotten_ber, el_tag = 0x20000010,
         el_header_len = of_nat (length (der_header 0x20000010 (length (?inner @ ?int)))), el_ber_found = False\<rparr>, [])"
    using get_element_der [OF lens(3), of False "0x20000010" "[]"]
    by (simp add: CBS_get_any_asn1_element_def forgotten_ber_eq)
  ultimately have "CBS_asn1_ber_to_der fuel al al' forgotten_ber = (Some (forgotten_ber, False), [])"
    by (simp add: CBS_asn1_ber_to_der_def)
  moreover have "\<not> nested_der forgotten_ber"
  proof
    assume "nested_der forgotten_ber"
    then have "nested_der (?inner @ ?int)"
      using nested_der_elementD [of "0x20000010" "?inner @ ?int" "[]"] lens(3) sequence_tag
      by (simp add: forgotten_ber_eq)
    then have "nested_der (?str @ [])" using nested_der_elementD [OF _ lens(2)] sequence_tag by simp
    then show False using nested_der_elementD [OF _ lens(1)] sequence_tag by blast
  qed
  ultimately show ?thesis by blast
qed

end
