(* ===== verification/Oid.thy ===== *)
theory Oid
  imports Cbb_Run
begin

text \<open>
  Object identifiers: \<open>CBB_add_asn1_oid_from_text\<close> of cbb.c parses dotted decimal text into content
  octets and \<open>CBS_asn1_oid_to_text\<close> of cbs.c prints them. On the arcs the encoding allows the two
  are inverse.
\<close>

section \<open>From text\<close>

abbreviation dot :: u8 where "dot \<equiv> 0x2e"

text \<open>The loop of \<open>parse_dotted_decimal\<close>.\<close>

fun dotted_decimal_loop :: "u64 \<Rightarrow> bool \<Rightarrow> u64 reader" where
  "dotted_decimal_loop out seen_digit [] = (if seen_digit then Some out else None, [])"
| "dotted_decimal_loop out seen_digit (u # cbs) =
     (if u = dot \<and> CBS_len cbs > 0 then (if seen_digit then Some out else None, cbs)
      else if u < 0x30 \<or> u > 0x39 \<or> seen_digit \<and> out = 0 \<or> out > (-1) div 10 \<or>
              out * 10 > -1 - (ucast u - 0x30)
      then (None, cbs)
      else dotted_decimal_loop (out * 10 + (ucast u - 0x30)) True cbs)"

definition parse_dotted_decimal :: "u64 reader" where
  "parse_dotted_decimal = dotted_decimal_loop 0 False"

lemma dotted_decimal_shorter: "length (snd (dotted_decimal_loop out seen s)) \<le> length s - 1"
proof (induction out seen s rule: dotted_decimal_loop.induct)
  case (2 out seen u cbs)
  then show ?case by (auto intro: le_trans)
qed simp

lemma parse_dotted_shorter:
  assumes "r = parse_dotted_decimal s" and "s \<noteq> []"
  shows "length (snd r) < length s"
proof (cases s)
  case (Cons u s')
  with dotted_decimal_shorter [of 0 False s] show ?thesis by (simp add: parse_dotted_decimal_def assms(1))
qed (use assms in simp)

function oid_text_loop :: "allocator \<Rightarrow> nat \<Rightarrow> cbs \<Rightarrow> cbb_op" where
  "oid_text_loop al d cbs =
     (if cbs = [] then cbb_skip
      else
        (case parse_dotted_decimal cbs of
           (None, _) \<Rightarrow> cbb_fail
         | (Some a, cbs) \<Rightarrow> cbb_then (add_base128_integer al d a) (oid_text_loop al d cbs)))"
  by pat_completeness auto
termination
  by (relation "measure (\<lambda>(al, d, s). length s)") (auto dest: parse_dotted_shorter)

declare oid_text_loop.simps [simp del]

definition CBB_add_asn1_oid_from_text :: "allocator \<Rightarrow> nat \<Rightarrow> u8 list \<Rightarrow> cbb_op" where
  "CBB_add_asn1_oid_from_text al d text = cbb_then (CBB_flush al d)
     (case parse_dotted_decimal text of
        (None, _) \<Rightarrow> cbb_fail
      | (Some a, cbs) \<Rightarrow>
          (case parse_dotted_decimal cbs of
             (None, _) \<Rightarrow> cbb_fail
           | (Some b, cbs) \<Rightarrow>
               if a > 2 \<or> a < 2 \<and> b > 39 \<or> b > -1 - 80 then cbb_fail
               else cbb_then (add_base128_integer al d (40 * a + b)) (oid_text_loop al d cbs)))"

section \<open>To text\<close>

text \<open>\<open>%llu\<close>.\<close>

fun decimal :: "nat \<Rightarrow> u8 list" where
  "decimal n = (if n < 10 then [of_nat (48 + n)] else decimal (n div 10) @ [of_nat (48 + n mod 10)])"

declare decimal.simps [simp del]

definition add_decimal :: "allocator \<Rightarrow> nat \<Rightarrow> u64 \<Rightarrow> cbb_op" where
  "add_decimal al out v = CBB_add_bytes al out (decimal (unat v))"

lemma base128_shorter:
  assumes "(Some v, t) = parse_base128_integer s"
  shows "length t < length s"
proof -
  have "s = base128_enc v @ t" by (rule parse_base128_SomeE) (simp add: assms)
  moreover have "length (base128_enc v) > 0" by (simp add: length_base128_enc base128_len_def)
  ultimately show ?thesis by simp
qed

function oid_print_loop :: "allocator \<Rightarrow> cbs \<Rightarrow> cbb_op" where
  "oid_print_loop al copy =
     (if copy = [] then cbb_skip
      else
        (case parse_base128_integer copy of
           (None, _) \<Rightarrow> cbb_fail
         | (Some v, copy) \<Rightarrow>
             cbb_then (CBB_add_u8 al 0 dot) (cbb_then (add_decimal al 0 v) (oid_print_loop al copy))))"
  by pat_completeness auto
termination
  by (relation "measure (\<lambda>(al, s). length s)") (auto dest: base128_shorter)

declare oid_print_loop.simps [simp del]

definition CBS_asn1_oid_to_text :: "allocator \<Rightarrow> allocator \<Rightarrow> cbs \<Rightarrow> u8 list option" where
  "CBS_asn1_oid_to_text al al' cbs =
     (case CBB_init al al' 32 of
        None \<Rightarrow> None
      | Some cbb \<Rightarrow>
          (case parse_base128_integer cbs of
             (None, _) \<Rightarrow> None
           | (Some v, copy) \<Rightarrow>
               (case cbb_then
                       (if v \<ge> 80
                        then cbb_then (CBB_add_bytes al 0 [0x32, dot]) (add_decimal al 0 (v - 80))
                        else cbb_then (add_decimal al 0 (v div 40))
                               (cbb_then (CBB_add_u8 al 0 dot) (add_decimal al 0 (v mod 40))))
                       (cbb_then (oid_print_loop al copy) (CBB_add_u8 al 0 0)) cbb of
                  (False, _) \<Rightarrow> None
                | (True, cbb) \<Rightarrow> fst (CBB_finish al 0 True cbb))))"

section \<open>The decimal parser undoes the printer\<close>

lemma u64_facts: "unat ((-1) div 10 :: u64) = 1844674407370955161" "unat (-1 :: u64) = 18446744073709551615"
  by (simp_all add: unat_div unsigned_minus_1_eq_mask mask_eq_exp_minus_1)

lemma dotted_step:
  assumes n: "10 * m + d < 2 ^ 64" and d: "d < 10" and seen: "seen \<longrightarrow> m \<noteq> 0"
  shows "dotted_decimal_loop (of_nat m) seen (of_nat (48 + d) # tail) = dotted_decimal_loop (of_nat (10 * m + d)) True tail"
proof -
  have u: "unat (of_nat (48 + d) :: u8) = 48 + d" using d by (simp add: unat_of_nat_u8 del: of_nat_add)
  have m: "unat (of_nat m :: u64) = m" using n by (intro unat_of_nat_u64_small) simp
  let ?u = "of_nat (48 + d) :: u8"
  have digit: "ucast ?u - 0x30 = (of_nat d :: u64)"
  proof -
    have "(ucast ?u :: u64) = of_nat (48 + d)" by (simp only: ucast_u8_of_nat u)
    then show ?thesis by simp
  qed
  have "?u \<noteq> dot" "\<not> ?u < 0x30" "\<not> ?u > 0x39"
    using d u by (auto simp: word_unat_eq_iff word_less_nat_alt simp del: of_nat_add)
  moreover have "\<not> (seen \<and> (of_nat m :: u64) = 0)" using seen m by (metis unat_0)
  moreover have "\<not> (of_nat m :: u64) > (-1) div 10"
    using n by (simp add: word_less_nat_alt m u64_facts)
  moreover have "\<not> (of_nat m * 10 :: u64) > -1 - of_nat d"
  proof -
    have "unat (of_nat d :: u64) = d" using d by (simp add: unat_of_nat_u64_small)
    moreover from this have "unat (-1 - of_nat d :: u64) = 18446744073709551615 - d"
      using d by (subst unat_sub) (simp_all add: u64_facts word_le_nat_alt)
    moreover have "unat (of_nat m * 10 :: u64) = m * 10"
      using n unat_of_nat_u64_small [of "m * 10"] by simp
    ultimately show ?thesis using n d by (simp add: word_less_nat_alt)
  qed
  ultimately have cond: "\<not> (?u < 0x30 \<or> ?u > 0x39 \<or> seen \<and> (of_nat m :: u64) = 0 \<or>
      (of_nat m :: u64) > (-1) div 10 \<or> (of_nat m * 10 :: u64) > -1 - (ucast ?u - 0x30))"
    and nd: "?u \<noteq> dot" unfolding digit by blast+
  have val: "of_nat m * 10 + (ucast ?u - 0x30) = (of_nat (10 * m + d) :: u64)"
    unfolding digit by (simp add: mult.commute)
  show ?thesis
    by (subst dotted_decimal_loop.simps) (simp only: cond val nd if_False simp_thms)
qed

lemma dotted_decimal:
  "n < 2 ^ 64 \<Longrightarrow> dotted_decimal_loop 0 False (decimal n @ tail) = dotted_decimal_loop (of_nat n) True tail"
proof (induction n arbitrary: tail rule: decimal.induct)
  case (1 n)
  show ?case
  proof (cases "n < 10")
    case True
    with dotted_step [of 0 n False tail] show ?thesis by (simp add: decimal.simps)
  next
    case False
    let ?m = "n div 10" and ?d = "n mod 10"
    have n: "10 * ?m + ?d = n" by simp
    have "dotted_decimal_loop 0 False (decimal n @ tail) =
        dotted_decimal_loop 0 False (decimal ?m @ of_nat (48 + ?d) # tail)"
      using False by (subst decimal.simps) simp
    also have "\<dots> = dotted_decimal_loop (of_nat ?m) True (of_nat (48 + ?d) # tail)"
      using 1 False by (intro "1.IH") simp_all
    also have "\<dots> = dotted_decimal_loop (of_nat (10 * ?m + ?d)) True tail"
      using 1 False by (intro dotted_step) (auto simp: n)
    finally show ?thesis by (simp only: n)
  qed
qed

lemma parse_dotted_end: "parse_dotted_decimal (decimal (unat v)) = (Some v, [])"
  using dotted_decimal [of "unat v" "[]"] unat_u64_less [of v] by (simp add: parse_dotted_decimal_def)

lemma parse_dotted_next:
  "s \<noteq> [] \<Longrightarrow> parse_dotted_decimal (decimal (unat v) @ dot # s) = (Some v, s)"
  using dotted_decimal [of "unat v" "dot # s"] unat_u64_less [of v]
  by (simp add: parse_dotted_decimal_def CBS_len_def)

section \<open>Arcs, their text and their encoding\<close>

fun dotted_tail :: "u64 list \<Rightarrow> u8 list" where
  "dotted_tail [] = []"
| "dotted_tail (v # vs) = dot # decimal (unat v) @ dotted_tail vs"

fun dotted :: "u64 list \<Rightarrow> u8 list" where
  "dotted [] = []"
| "dotted (v # vs) = decimal (unat v) @ dotted_tail vs"

fun oid_valid :: "u64 list \<Rightarrow> bool" where
  "oid_valid (a # b # vs) = (a \<le> 2 \<and> (a < 2 \<longrightarrow> b \<le> 39) \<and> unat b \<le> 2 ^ 64 - 81)"
| "oid_valid _ = False"

fun oid_content :: "u64 list \<Rightarrow> u8 list" where
  "oid_content (a # b # vs) = base128_enc (40 * a + b) @ concat (map base128_enc vs)"
| "oid_content _ = []"

lemma decimal_not_Nil [simp]: "decimal n \<noteq> []"
  by (subst decimal.simps) simp

lemma parse_dotted_list:
  "parse_dotted_decimal (dotted (v # vs)) = (Some v, dotted vs)"
  using parse_dotted_end [of v] parse_dotted_next [of "dotted vs" v]
  by (cases vs) simp_all

lemma dotted_Nil_iff: "dotted vs = [] \<longleftrightarrow> vs = []"
  by (cases vs) auto

lemma implements_oid_text_loop:
  "implements_at al (depth_is d) (oid_text_loop al d (dotted vs)) (spec_append (concat (map base128_enc vs)))"
proof (induction vs)
  case Nil
  show ?case using implements_skip_append by (simp add: oid_text_loop.simps)
next
  case (Cons v vs)
  have "oid_text_loop al d (dotted (v # vs)) = cbb_then (add_base128_integer al d v) (oid_text_loop al d (dotted vs))"
    by (subst oid_text_loop.simps) (simp add: parse_dotted_list dotted_Nil_iff del: dotted.simps)
  with implements_at_append2 [OF implements_base128 Cons, of v] show ?case by simp
qed

lemma implements_oid_from_text:
  assumes "oid_valid arcs"
  shows "implements al (CBB_add_asn1_oid_from_text al d (dotted arcs))
    (spec_then (spec_flush d) (spec_append (oid_content arcs)))"
proof -
  obtain a b vs where arcs: "arcs = a # b # vs" using assms by (cases arcs rule: oid_valid.cases) auto
  have "unat (-1 - 80 :: u64) = 2 ^ 64 - 81" by (subst unat_sub) (simp_all add: u64_facts word_le_nat_alt)
  then have "\<not> b > -1 - 80" using assms by (simp add: arcs word_less_nat_alt)
  then have ok: "\<not> (a > 2 \<or> a < 2 \<and> b > 39 \<or> b > -1 - 80)" using assms by (auto simp: arcs not_less)
  have "CBB_add_asn1_oid_from_text al d (dotted arcs) =
      cbb_then (CBB_flush al d) (cbb_then (add_base128_integer al d (40 * a + b)) (oid_text_loop al d (dotted vs)))"
    unfolding CBB_add_asn1_oid_from_text_def arcs parse_dotted_list prod.case option.case if_not_P [OF ok] ..
  moreover have "implements_at al (depth_is d)
      (cbb_then (add_base128_integer al d (40 * a + b)) (oid_text_loop al d (dotted vs))) (spec_append (oid_content arcs))"
    using implements_at_append2 [OF implements_base128 implements_oid_text_loop] by (simp add: arcs)
  ultimately show ?thesis
    by (simp add: implements_at_then [OF implements_flush _ spec_flush_depth])
qed

lemma length_decimal: "length (decimal n) \<le> Suc (n div 10)"
proof (induction n rule: decimal.induct)
  case (1 n)
  show ?case
  proof (cases "n < 10")
    case False
    then have "length (decimal (n div 10)) \<le> Suc (n div 10 div 10)" using 1 by blast
    moreover have "Suc (n div 10 div 10) \<le> n div 10" using False by linarith
    ultimately show ?thesis using False by (subst decimal.simps) simp
  qed (simp add: decimal.simps)
qed

lemma length_decimal_u64: "length (decimal (unat (v :: u64))) < 2 ^ 64"
  using length_decimal [of "unat v"] unat_u64_less [of v] by (simp del: unat_u64_less)

lemma implements_decimal:
  "implements_at al (depth_is 0) (add_decimal al 0 v) (spec_append (decimal (unat v)))"
  unfolding add_decimal_def by (rule implements_add_bytes_at [OF length_decimal_u64])

lemma implements_print_loop:
  "implements_at al (depth_is 0) (oid_print_loop al (concat (map base128_enc vs))) (spec_append (dotted_tail vs))"
proof (induction vs)
  case Nil
  show ?case using implements_skip_append by (simp add: oid_print_loop.simps)
next
  case (Cons v vs)
  have "length (base128_enc v) > 0" by (simp add: length_base128_enc base128_len_def)
  then have "base128_enc v \<noteq> []" by simp
  then have "oid_print_loop al (concat (map base128_enc (v # vs))) =
      cbb_then (CBB_add_u8 al 0 dot) (cbb_then (add_decimal al 0 v) (oid_print_loop al (concat (map base128_enc vs))))"
    by (subst oid_print_loop.simps) (simp add: parse_base128_enc)
  with implements_at_append2 [OF implements_add_u8_at implements_at_append2 [OF implements_decimal Cons], of dot v]
  show ?case by simp
qed

lemma first_arcs:
  assumes "oid_valid (a # b # vs)"
  shows "implements_at al (depth_is 0)
    (if 40 * a + b \<ge> 80
     then cbb_then (CBB_add_bytes al 0 [0x32, dot]) (add_decimal al 0 (40 * a + b - 80))
     else cbb_then (add_decimal al 0 ((40 * a + b) div 40))
            (cbb_then (CBB_add_u8 al 0 dot) (add_decimal al 0 ((40 * a + b) mod 40))))
    (spec_append (decimal (unat a) @ dot # decimal (unat b)))"
proof -
  have b: "unat b \<le> 2 ^ 64 - 81" and a: "unat a \<le> 2" using assms by (simp_all add: word_le_nat_alt)
  have v: "unat (40 * a + b) = 40 * unat a + unat b"
  proof -
    have "unat (40 * a) = 40 * unat a" using a by (simp add: unat_word_ariths)
    then show ?thesis using a b by (simp add: unat_u64_add)
  qed
  show ?thesis
  proof (cases "unat a = 2")
    case True
    then have "a = 2" by (simp add: word_unat_eq_iff)
    moreover have "40 * a + b \<ge> 80" using v True by (simp add: word_le_nat_alt)
    moreover have "decimal 2 = [0x32]" by (simp add: decimal.simps)
    ultimately show ?thesis
      using implements_at_append2 [OF implements_add_bytes_at implements_decimal, of "[0x32, dot]" al b] by simp
  next
    case False
    then have a1: "unat a \<le> 1" using a by simp
    then have b39: "unat b \<le> 39" using assms by (simp add: word_le_nat_alt word_less_nat_alt)
    have "\<not> 40 * a + b \<ge> 80" using v a1 b39 by (simp add: word_le_nat_alt)
    moreover have "(40 * a + b) div 40 = a" "(40 * a + b) mod 40 = b"
      using v b39 by (simp_all add: word_unat_eq_iff unat_div unat_mod)
    ultimately show ?thesis
      using implements_at_append2 [OF implements_decimal implements_at_append2 [OF implements_add_u8_at implements_decimal],
          of al a dot b] by simp
  qed
qed

lemma message_at:
  assumes f: "implements_at al (depth_is 0) f (spec_append out)" and init: "CBB_init al al' cap = Some S"
    and al: "serves al" and len: "length out \<le> max_message"
  shows "\<exists>S1. f S = (True, S1) \<and> fst (CBB_finish al 0 True S1) = Some out"
proof -
  note S = init_repr [OF init]
  have F: "spec_append out [(Root, [])] = Some [(Root, out)]" by (simp add: spec_append_def)
  have lay: "length (layout [(Root, out)]) \<le> max_message" using len by (simp add: lay_def)
  obtain S1 where S1: "f S = (True, S1)" "cbb_repr S1 [(Root, out)]" "cbb_growable S1"
    using implements_total [OF f conjunct1 [OF S] al conjunct2 [OF S] F lay] by (auto simp: depth_is_def)
  have "spec_flush 0 [(Root, out)] = Some [(Root, out)]" by (simp add: spec_flush_def)
  from CBB_finish_total [OF S1(2) al S1(3) this lay] S1(1) show ?thesis by auto
qed

text \<open>
  C19: The content octets of an object identifier, read from dotted decimal text into an open
  builder, print as the same text with its terminator, for every list of arcs the encoding allows.
\<close>

theorem oid_text_roundtrip:
  assumes "oid_valid arcs" and "serves al" and "OPENSSL_malloc al' 32 \<noteq> None" and "unat cap \<le> 2 ^ 62"
    and "length (oid_content arcs) \<le> max_message" and "length (dotted arcs) < max_message"
  shows "\<exists>S S1. CBB_init al al' cap = Some S \<and>
    CBB_add_asn1_oid_from_text al 0 (dotted arcs) S = (True, S1) \<and>
    fst (CBB_finish al 0 True S1) = Some (oid_content arcs) \<and>
    CBS_asn1_oid_to_text al al' (oid_content arcs) = Some (dotted arcs @ [0])"
proof -
  obtain S where S: "CBB_init al al' cap = Some S" using init_total [OF assms(2-4)] .
  obtain S0 where S0: "CBB_init al al' 32 = Some S0" using init_total [OF assms(2,3), of 32] by auto
  obtain a b vs where arcs: "arcs = a # b # vs" using assms(1) by (cases arcs rule: oid_valid.cases) auto
  have "spec_then (spec_flush 0) (spec_append bs) F = spec_append bs F" if "depth_is 0 F" for bs F
    using spec_flush_idle [OF that] by (simp add: spec_then_def)
  then have "implements_at al (depth_is 0) (CBB_add_asn1_oid_from_text al 0 (dotted arcs)) (spec_append (oid_content arcs))"
    using implements_at_mono [OF implements_oid_from_text [OF assms(1), of al 0]] grows_append
    unfolding implements_at_def by metis
  from message_at [OF this S assms(2,5)] obtain S1
    where S1: "CBB_add_asn1_oid_from_text al 0 (dotted arcs) S = (True, S1)"
      "fst (CBB_finish al 0 True S1) = Some (oid_content arcs)" by blast
  note print = implements_at_append2 [OF implements_print_loop implements_add_u8_at]
  note whole = implements_at_append2 [OF first_arcs [OF assms(1) [unfolded arcs]] print, of al vs 0]
  have dotted_eq: "(decimal (unat a) @ dot # decimal (unat b)) @ dotted_tail vs @ [0] = dotted arcs @ [0]"
    by (simp add: arcs)
  have "length (dotted arcs @ [0]) \<le> max_message" using assms(6) by simp
  from message_at [OF whole [unfolded dotted_eq] S0 assms(2) this]
  have "CBS_asn1_oid_to_text al al' (oid_content arcs) = Some (dotted arcs @ [0])"
    by (auto simp: CBS_asn1_oid_to_text_def S0 arcs parse_base128_enc split del: if_split)
  with S S1 show ?thesis by blast
qed

theorem oid_text_roundtrip_witness:
  "\<exists>S S1. CBB_init zero_alloc zero_alloc 0 = Some S \<and>
    CBB_add_asn1_oid_from_text zero_alloc 0 [0x32, 0x2e, 0x35, 0x2e, 0x37] S = (True, S1) \<and>
    CBS_asn1_oid_to_text zero_alloc zero_alloc (oid_content [2, 5, 7]) = Some [0x32, 0x2e, 0x35, 0x2e, 0x37, 0]"
proof -
  have dotted_eq: "dotted [2, 5, 7] = [0x32, 0x2e, 0x35, 0x2e, 0x37]" by (simp add: decimal.simps)
  have "length (oid_content [2, 5, 7]) \<le> 20"
    using base128_len_le [of "40 * 2 + 5"] base128_len_le [of 7] by (simp add: length_base128_enc)
  then show ?thesis
    using oid_text_roundtrip [where arcs = "[2, 5, 7]" and al = zero_alloc and al' = zero_alloc and cap = 0] zero_alloc_serves zero_alloc_malloc [of 32]
    by (auto simp: dotted_eq max_message_def simp del: dotted.simps oid_content.simps)
qed

end
