(* ===== verification/Qsort.thy ===== *)
theory Qsort
  imports Main "HOL-Library.Multiset"
begin

text \<open>
  C comparison functions and libc's \<open>qsort\<close>. The contract of a comparison function is a total
  preorder on the values it may be called on; under it the sort orders its input, and a binary
  search finds the earliest match.
\<close>

text \<open>The order of elements that compare equal is not specified by C; here they keep theirs.\<close>

fun qsort_insert :: "('a \<Rightarrow> 'a \<Rightarrow> int) \<Rightarrow> 'a \<Rightarrow> 'a list \<Rightarrow> 'a list" where
  "qsort_insert cmp x [] = [x]"
| "qsort_insert cmp x (y # ys) = (if cmp x y \<le> 0 then x # y # ys else y # qsort_insert cmp x ys)"

definition qsort :: "('a \<Rightarrow> 'a \<Rightarrow> int) \<Rightarrow> 'a list \<Rightarrow> 'a list" where
  "qsort cmp xs = foldr (qsort_insert cmp) xs []"

lemma mset_qsort_insert [simp]: "mset (qsort_insert cmp x ys) = add_mset x (mset ys)"
  by (induction ys) auto

lemma mset_qsort [simp]: "mset (qsort cmp xs) = mset xs"
proof -
  have "mset (foldr (qsort_insert cmp) xs []) = mset xs" by (induction xs) simp_all
  then show ?thesis by (simp add: qsort_def)
qed

lemma set_qsort [simp]: "set (qsort cmp xs) = set xs"
  by (metis mset_qsort set_mset_mset)

lemma length_qsort [simp]: "length (qsort cmp xs) = length xs"
  by (metis mset_qsort size_mset)

locale comparison =
  fixes cmp :: "'a \<Rightarrow> 'a \<Rightarrow> int" and A :: "'a set"
  assumes swap: "x \<in> A \<Longrightarrow> y \<in> A \<Longrightarrow> cmp x y < 0 \<longleftrightarrow> cmp y x > 0"
    and trans: "x \<in> A \<Longrightarrow> y \<in> A \<Longrightarrow> z \<in> A \<Longrightarrow> cmp x y \<le> 0 \<Longrightarrow> cmp y z \<le> 0 \<Longrightarrow> cmp x z \<le> 0"
begin

abbreviation le :: "'a \<Rightarrow> 'a \<Rightarrow> bool" where
  "le x y \<equiv> cmp x y \<le> 0"

lemma total: "x \<in> A \<Longrightarrow> y \<in> A \<Longrightarrow> \<not> le x y \<Longrightarrow> le y x"
  using swap [of y x] by linarith

lemma swap_pos: "x \<in> A \<Longrightarrow> y \<in> A \<Longrightarrow> cmp x y > 0 \<longleftrightarrow> cmp y x < 0"
  using swap [of y x] by simp

lemma swap_le: "x \<in> A \<Longrightarrow> y \<in> A \<Longrightarrow> cmp x y \<ge> 0 \<longleftrightarrow> le y x"
  using swap [of x y] by linarith

lemma less_le_trans:
  assumes "x \<in> A" and "y \<in> A" and "z \<in> A" and "cmp x y < 0" and "le y z"
  shows "cmp x z < 0"
proof (rule ccontr)
  assume "\<not> cmp x z < 0"
  then have "le z x" using swap_le [of x z] assms by simp
  then have "le y x" using trans [of y z x] assms by simp
  then show False using swap [of x y] assms by simp
qed

lemma le_less_trans:
  assumes "x \<in> A" and "y \<in> A" and "z \<in> A" and "le x y" and "cmp y z < 0"
  shows "cmp x z < 0"
proof (rule ccontr)
  assume "\<not> cmp x z < 0"
  then have "le z x" using swap_le [of x z] assms by simp
  then have "le z y" using trans [of z x y] assms by simp
  then show False using swap [of y z] assms by simp
qed

lemma sorted_insert:
  assumes "sorted_wrt le ys" and "x \<in> A" and "set ys \<subseteq> A"
  shows "sorted_wrt le (qsort_insert cmp x ys)"
  using assms
proof (induction ys)
  case (Cons y ys)
  have s: "set (qsort_insert cmp x ys) = insert x (set ys)"
    by (metis mset_qsort_insert set_mset_add_mset_insert set_mset_mset)
  show ?case
  proof (cases "le x y")
    case True
    then have "\<forall>z \<in> set ys. le x z" using Cons.prems trans [of x y] by (meson list.set_intros subsetD sorted_wrt.simps(2))
    with True Cons.prems(1) show ?thesis by simp
  next
    case False
    then have "le y x" using Cons.prems total by simp
    with False Cons show ?thesis by (simp add: s)
  qed
qed simp

lemma sorted_qsort: "set xs \<subseteq> A \<Longrightarrow> sorted_wrt le (qsort cmp xs)"
proof -
  assume "set xs \<subseteq> A"
  then have "sorted_wrt le (foldr (qsort_insert cmp) xs [])"
  proof (induction xs)
    case (Cons x xs)
    have "set (foldr (qsort_insert cmp) xs []) = set xs" using set_qsort [of cmp xs] by (simp add: qsort_def)
    with Cons show ?case by (auto intro: sorted_insert)
  qed simp
  then show ?thesis by (simp add: qsort_def)
qed

end

end
