(* ===== verification/Set_Of.thy ===== *)
theory Set_Of
  imports Cbb_Run Qsort "HOL-Library.List_Lexorder"
begin

text \<open>
  \<open>CBB_flush_asn1_set_of\<close> of crypto/bytestring/cbb.c: the contents of an open SET OF are split into
  elements, sorted by their encoding and written back. The result is a permutation of the elements
  in the order of X.690, 11.6.
\<close>

section \<open>The comparison\<close>

definition compare_set_of_element :: "cbs \<Rightarrow> cbs \<Rightarrow> int" where
  "compare_set_of_element a b =
     (let a_len = CBS_len a; b_len = CBS_len b;
          min_len = (if a_len < b_len then a_len else b_len);
          ret = OPENSSL_memcmp (CBS_data a) (CBS_data b) min_len
      in if ret \<noteq> 0 then ret
         else if a_len = b_len then 0
         else if a_len < b_len then -1 else 1)"

section \<open>Sorting the contents of a builder\<close>

function set_of_children :: "cbs \<Rightarrow> cbs list option" where
  "set_of_children s =
     (if s = [] then Some []
      else
        (case CBS_get_any_asn1_element s of
           (None, _) \<Rightarrow> None
         | (Some e, s) \<Rightarrow>
             (case set_of_children s of None \<Rightarrow> None | Some es \<Rightarrow> Some (el_out e # es))))"
  by pat_completeness auto

lemma get_element_splits:
  assumes "CBS_get_any_asn1_element s = (Some e, t)"
  shows "s = el_out e @ t" and "el_out e \<noteq> []"
proof -
  obtain tag c where "s = der_element tag c @ t" "e = \<lparr>el_out = der_element tag c, el_tag = tag,
      el_header_len = of_nat (length (der_header tag (length c))), el_ber_found = False\<rparr>"
    using assms by (rule get_element_canonical)
  then show "s = el_out e @ t" "el_out e \<noteq> []"
    using length_der_tag [of tag] by (auto simp: der_element_def der_header_def)
qed

lemma get_element_shorter:
  "(Some e, t) = CBS_get_any_asn1_element s \<Longrightarrow> length t < length s"
  using get_element_splits [of s e t] by (cases "el_out e") auto

termination set_of_children
  by (relation "measure length") (auto dest: get_element_shorter)

declare set_of_children.simps [simp del]

fun add_all_bytes :: "allocator \<Rightarrow> nat \<Rightarrow> cbs list \<Rightarrow> cbb_op" where
  "add_all_bytes al d [] = cbb_skip"
| "add_all_bytes al d (e # es) = cbb_then (CBB_add_bytes al d e) (add_all_bytes al d es)"

definition cbb_rewind :: "nat \<Rightarrow> cbb_op" where
  "cbb_rewind d S =
     (True, S\<lparr>cbb_base := map_option (\<lambda>b. b\<lparr>bb_len := cbb_contents_start d S\<rparr>) (cbb_base S)\<rparr>)"

definition CBB_flush_asn1_set_of :: "allocator \<Rightarrow> nat \<Rightarrow> cbb_op" where
  "CBB_flush_asn1_set_of al d = cbb_then (CBB_flush al d) (\<lambda>S.
     case set_of_children (CBB_data d S) of
       None \<Rightarrow> (False, S)
     | Some elems \<Rightarrow>
         let num_children = length elems
         in if num_children < 2 then (True, S)
            else if num_children > (2 ^ 64 - 1) div 16 then (False, S)
            else
              (case (OPENSSL_memdup al (CBB_data d S), OPENSSL_malloc al (of_nat (num_children * 16))) of
                 (Some buf, Some _) \<Rightarrow>
                   (case set_of_children buf of
                      None \<Rightarrow> (False, S)
                    | Some children \<Rightarrow>
                        cbb_then (cbb_rewind d)
                          (add_all_bytes al d (qsort compare_set_of_element children)) S)
               | _ \<Rightarrow> (False, S)))"

section \<open>The comparison is the order on byte strings\<close>

lemma compare_Nil [simp]: "compare_set_of_element [] b = (if b = [] then 0 else -1)"
  "compare_set_of_element (x # a) [] = 1"
  by (auto simp: compare_set_of_element_def OPENSSL_memcmp_def CBS_len_def Let_def)

lemma compare_Cons [simp]:
  "compare_set_of_element (x # a) (y # b) =
     (if x = y then compare_set_of_element a b else int (unat x) - int (unat y))"
proof -
  have "memcmp a b 0 = 0" by (cases a; cases b) auto
  then show ?thesis
    by (auto simp: compare_set_of_element_def OPENSSL_memcmp_def CBS_len_def CBS_data_def Let_def word_uint_eq_iff)
qed

lemma compare_le: "compare_set_of_element a b \<le> 0 \<longleftrightarrow> a \<le> b"
proof (induction a arbitrary: b)
  case (Cons x a)
  show ?case
  proof (cases b)
    case (Cons y b')
    then show ?thesis using Cons.IH [of b'] by (auto simp: word_less_def word_uint_eq_iff)
  qed simp
qed simp

lemma compare_swap: "compare_set_of_element a b < 0 \<longleftrightarrow> compare_set_of_element b a > 0"
  proof -
  have eq: "compare_set_of_element a b = 0 \<longleftrightarrow> a = b" for a b
    by (induction a arbitrary: b; case_tac b) (auto simp: word_uint_eq_iff)
  have "compare_set_of_element a b < 0 \<longleftrightarrow> a \<le> b \<and> a \<noteq> b"
    using compare_le [of a b] eq [of a b] by linarith
  also have "\<dots> \<longleftrightarrow> \<not> b \<le> a" by auto
  also have "\<dots> \<longleftrightarrow> compare_set_of_element b a > 0" by (simp add: compare_le [symmetric] not_le)
  finally show ?thesis .
qed

interpretation encodings: comparison compare_set_of_element UNIV
  by unfold_locales (auto simp: compare_le compare_swap)

lemma set_of_children_concat: "set_of_children s = Some es \<Longrightarrow> concat es = s"
proof (induction s arbitrary: es rule: set_of_children.induct)
  case (1 s)
  show ?case
  proof (cases "s = []")
    case False
    with 1(2) obtain e t es' where e: "CBS_get_any_asn1_element s = (Some e, t)"
      "set_of_children t = Some es'" "es = el_out e # es'"
      by (subst (asm) set_of_children.simps) (auto split: option.splits prod.splits)
    have "concat es' = t" by (rule 1(1) [OF False e(1) [symmetric] refl e(2)])
    with get_element_splits(1) [OF e(1)] e(3) show ?thesis by simp
  qed (use 1(2) in \<open>simp add: set_of_children.simps\<close>)
qed

section \<open>Rewinding\<close>

lemma repr_split:
  assumes "cbb_repr S F" and "depth_is d F"
  obtains G k c b where "F = G @ [(k, c)]" and "length G = d" and "cbb_base S = Some b" and "buf_ok b"
    and "valid_bytes b = layout G @ replicate (pend k) 0 @ c"
    and "unat (cbb_contents_start d S) = length (layout G) + pend k"
proof -
  obtain b where b: "cbb_base S = Some b" "wf_top F" "cbb_children S = kids F" "buf_ok b" "valid_bytes b = layout F"
    using assms(1) by (auto simp: cbb_repr_alt)
  obtain G k c where F: "F = G @ [(k, c)]" "length G = d"
    using assms(2) by (cases F rule: rev_cases) (auto simp: depth_is_def)
  have vb: "valid_bytes b = layout G @ replicate (pend k) 0 @ c" using b(5) by (simp add: F lay_def)
  have len: "unat (bb_len b) = length (layout G) + pend k + length c"
    using length_valid_bytes [OF b(4)] by (simp add: vb)
  have "unat (cbb_contents_start d S) = length (layout G) + pend k"
  proof (cases "d = 0")
    case True
    then show ?thesis using F b(2) by (simp add: cbb_contents_start_def wf_top_def)
  next
    case False
    then obtain r fs where G: "G = (Root, r) # fs" using F b(2) by (cases G) (auto simp: wf_top_def)
    then have wf: "wf_pfx k" using b(2) F by (simp add: wf_top_def)
    have "kids F = kids G @ [child_at (length (layout G)) k]" by (simp add: F G kids_def chain_append lay_def)
    moreover have "length (kids G) = d - 1" using F(2) by (simp add: G kids_def)
    ultimately have "cbb_children S ! (d - 1) = child_at (length (layout G)) k" using b(3) by (simp add: nth_append)
    moreover have "valid_bytes b = layout G @ lay (k, c)" by (simp add: vb lay_def)
    ultimately show ?thesis using False chain_offset(2) [OF b(4) _ wf] by (simp add: cbb_contents_start_def Let_def)
  qed
  then show thesis using that F b(1,4) vb by blast
qed

lemma CBB_data_repr:
  assumes "cbb_repr S F" and "depth_is d F"
  shows "CBB_data d S = snd (last F)"
  using assms
proof (rule repr_split)
  fix G k c b assume F: "F = G @ [(k, c)]" and b: "cbb_base S = Some b" "buf_ok b"
    and vb: "valid_bytes b = layout G @ replicate (pend k) 0 @ c"
    and start: "unat (cbb_contents_start d S) = length (layout G) + pend k"
  have "length (valid_bytes b) = length (layout G) + pend k + length c" by (simp add: vb)
  then have len: "unat (bb_len b) = length (layout G) + pend k + length c" using b by simp
  then have "unat (CBB_len d S) = length c"
    using start by (simp add: CBB_len_def b unat_sub word_le_nat_alt)
  then have "CBB_data d S = drop (unat (cbb_contents_start d S)) (valid_bytes b)"
    using start len by (simp add: CBB_data_def b valid_bytes_def drop_take)
  then show ?thesis using start by (simp add: vb F)
qed

definition spec_rewind :: spec_op where
  "spec_rewind F = Some (butlast F @ [(fst (last F), [])])"

lemma rewind_repr:
  assumes "cbb_repr S F" and "depth_is d F"
  shows "\<exists>S'. cbb_rewind d S = (True, S') \<and> cbb_repr S' (butlast F @ [(fst (last F), [])]) \<and>
    cbb_growable S' = cbb_growable S"
  using assms
proof (rule repr_split)
  fix G k c b assume F: "F = G @ [(k, c)]" and b: "cbb_base S = Some b" "buf_ok b"
    and vb: "valid_bytes b = layout G @ replicate (pend k) 0 @ c"
    and start: "unat (cbb_contents_start d S) = length (layout G) + pend k"
  have "length (valid_bytes b) = length (layout G) + pend k + length c" by (simp add: vb)
  then have len: "unat (bb_len b) = length (layout G) + pend k + length c" using b by simp
  let ?b = "b\<lparr>bb_len := cbb_contents_start d S\<rparr>"
  have ok: "buf_ok ?b" using b(2) start len by (simp add: buf_ok_def word_le_nat_alt)
  have "valid_bytes ?b = take (length (layout G) + pend k) (valid_bytes b)"
    using start len by (simp add: valid_bytes_def min_def)
  then have vb': "valid_bytes ?b = layout (G @ [(k, [])])" by (simp add: vb lay_def)
  have wf: "wf_top (G @ [(k, [])])" "cbb_children S = kids (G @ [(k, [])])"
    using assms(1) wf_top_prefix [of G k c "[]" "[]"] kids_last [of G k c "[]"] by (auto simp: cbb_repr_alt F)
  show ?thesis using wf vb' ok b(1)
    by (simp add: cbb_rewind_def cbb_repr_alt F cbb_growable_def)
qed

section \<open>The sorted contents\<close>

lemma implements_add_all:
  "\<forall>e \<in> set es. length e < 2 ^ 64 \<Longrightarrow>
     implements_at al (depth_is d) (add_all_bytes al d es) (spec_append (concat es))"
proof (induction es)
  case Nil
  show ?case using implements_skip_append by simp
next
  case (Cons e es)
  then have "length e < 2 ^ 64" "\<forall>e \<in> set es. length e < 2 ^ 64" by simp_all
  from implements_at_append2 [OF implements_add_bytes_at [OF this(1)] Cons.IH [OF this(2)]]
  show ?case by simp
qed

lemma length_in_concat: "e \<in> set es \<Longrightarrow> length e \<le> length (concat es)"
  by (induction es) auto

lemma repr_contents_length:
  assumes "cbb_repr S F" and "F \<noteq> []"
  shows "length (snd (last F)) < 2 ^ 64"
proof -
  obtain b where "buf_ok b" "valid_bytes b = layout F" using assms(1) by (auto simp: cbb_repr_alt)
  then have "length (layout F) = unat (bb_len b)" by (metis length_valid_bytes)
  moreover have "length (snd (last F)) \<le> length (layout F)"
    using assms(2) by (cases F rule: rev_cases) (simp_all add: lay_def)
  ultimately show ?thesis using unat_u64_less [of "bb_len b"] by (simp del: unat_u64_less)
qed

text \<open>Rewinding and adding the elements of the contents in another order.\<close>

lemma rewrite_contents:
  assumes S: "cbb_repr S F" "depth_is d F" and es: "set es = set es'" "concat es' = snd (last F)"
    and w: "cbb_then (cbb_rewind d) (add_all_bytes al d es) S = (True, S')"
  shows "cbb_repr S' (butlast F @ [(fst (last F), concat es)])"
proof -
  have "F \<noteq> []" using S(2) by (auto simp: depth_is_def)
  then have len: "length (snd (last F)) < 2 ^ 64" by (rule repr_contents_length [OF S(1)])
  obtain S2 where S2: "cbb_rewind d S = (True, S2)" "cbb_repr S2 (butlast F @ [(fst (last F), [])])"
    using rewind_repr [OF S] by blast
  have w2: "add_all_bytes al d es S2 = (True, S')" using w S2(1) by (simp add: cbb_then_def)
  have "\<forall>e \<in> set es. length e < 2 ^ 64"
    using length_in_concat [of _ es'] es len by (auto dest: le_less_trans)
  from implements_sound [OF implements_add_all [OF this] S2(2) w2] S(2)
  show ?thesis by (auto simp: depth_is_def spec_append_def)
qed

text \<open>
  C20: \<open>CBB_flush_asn1_set_of\<close> that succeeds has flushed the builder and replaced its contents, read
  as a sequence of DER elements, by the same elements in ascending lexicographic order of their
  encodings as strings of unsigned bytes (\<open>sorted\<close> with the order of \<open>List_Lexorder\<close> on byte
  strings, which does not mention the code's comparison).
\<close>

theorem set_of_sorts:
  assumes "cbb_repr S F" and "CBB_flush_asn1_set_of al d S = (True, S')"
  shows "\<exists>F1 es es'. spec_flush d F = Some F1 \<and> set_of_children (snd (last F1)) = Some es \<and>
    mset es' = mset es \<and> sorted es' \<and>
    cbb_repr S' (butlast F1 @ [(fst (last F1), concat es')])"
proof -
  obtain S1 where fl: "CBB_flush al d S = (True, S1)"
    using assms(2) by (auto simp: CBB_flush_asn1_set_of_def cbb_then_def split: prod.splits bool.splits)
  obtain F1 where F1: "spec_flush d F = Some F1" "cbb_repr S1 F1"
    using implements_sound [OF implements_flush assms(1) fl] by blast
  have d: "depth_is d F1" using F1(1) by (rule spec_flush_depth)
  let ?c = "snd (last F1)" and ?sorted = "qsort compare_set_of_element"
  obtain es where es: "set_of_children ?c = Some es"
    and r: "length es < 2 \<and> S' = S1 \<or> (\<exists>buf children. OPENSSL_memdup al ?c = Some buf \<and>
      set_of_children buf = Some children \<and>
      cbb_then (cbb_rewind d) (add_all_bytes al d (?sorted children)) S1 = (True, S'))"
    using assms(2) by (auto simp: CBB_flush_asn1_set_of_def cbb_then_def [of "CBB_flush al d"] fl Let_def
        CBB_data_repr [OF F1(2) d] split: option.splits if_splits prod.splits)
  have c: "concat es = ?c" using es by (rule set_of_children_concat)
  have "F1 \<noteq> []" using d by (auto simp: depth_is_def)
  then have F1_eq: "F1 = butlast F1 @ [(fst (last F1), ?c)]" by simp
  from repr_contents_length [OF F1(2) \<open>F1 \<noteq> []\<close>]
  have dup: "buf = ?c" if "OPENSSL_memdup al ?c = Some buf" for buf using OPENSSL_memdup_Some [OF that] by blast
  have "sorted_wrt (\<lambda>a b. compare_set_of_element a b \<le> 0) (?sorted es)"
    by (rule encodings.sorted_qsort) simp
  then have "sorted (?sorted es)" by (simp add: compare_le)
  moreover have "?sorted es = es" if "length es < 2" using that by (cases es; cases "tl es") (auto simp: qsort_def)
  then have "cbb_repr S' (butlast F1 @ [(fst (last F1), concat (?sorted es))])"
    using r es dup F1(2) F1_eq c rewrite_contents [OF F1(2) d _ c, of "?sorted es" al S'] by auto
  ultimately show ?thesis using F1(1) es by (intro exI [of _ F1] exI [of _ es] exI [of _ "?sorted es"]) auto
qed

text \<open>A SET OF with two INTEGERs in the wrong order.\<close>

definition root_builder :: "u8 list \<Rightarrow> u64 \<Rightarrow> cbb_st" where
  "root_builder bs len = \<lparr>cbb_base = Some \<lparr>bb_buf = bs, bb_len = len, bb_cap = of_nat (length bs),
     bb_can_resize = True, bb_error = False\<rparr>, cbb_children = []\<rparr>"

lemma root_builder_flush: "CBB_flush al 0 (root_builder bs len) = (True, root_builder bs len)"
  by (simp add: CBB_flush_def root_builder_def)

lemma root_builder_data: "CBB_data 0 (root_builder bs len) = take (unat len) bs"
  by (simp add: CBB_data_def root_builder_def CBB_len_def cbb_contents_start_def)

lemma root_builder_rewind: "cbb_rewind 0 (root_builder bs len) = (True, root_builder bs 0)"
  by (simp add: cbb_rewind_def root_builder_def cbb_contents_start_def)

theorem set_of_sorts_witness:
  "\<exists>S S'. cbb_repr S [(Root, [2, 1, 2, 2, 1, 1])] \<and> CBB_flush_asn1_set_of zero_alloc 0 S = (True, S') \<and>
     cbb_repr S' [(Root, [2, 1, 1, 2, 1, 2])]"
proof -
  let ?c = "[2, 1, 2, 2, 1, 1] :: u8 list" and ?d = "[2, 1, 1, 2, 1, 2] :: u8 list"
  have children: "set_of_children ?c = Some [[2, 1, 2], [2, 1, 1]]" by code_simp
  have sorted: "qsort compare_set_of_element [[2, 1, 2], [2, 1, 1]] = [[2, 1, 1], [2, 1, 2]]"
    by (simp add: qsort_def)
  have dup: "OPENSSL_memdup zero_alloc ?c = Some ?c" by code_simp
  have add: "add_all_bytes zero_alloc 0 [[2, 1, 1], [2, 1, 2]] (root_builder ?c 0) = (True, root_builder ?d 6)"
    by code_simp
  have "OPENSSL_malloc zero_alloc 32 \<noteq> None" using zero_alloc_malloc [of 32] by simp
  then have flush: "CBB_flush_asn1_set_of zero_alloc 0 (root_builder ?c 6) = (True, root_builder ?d 6)"
    by (auto simp: CBB_flush_asn1_set_of_def cbb_then_def [of "CBB_flush zero_alloc 0"]
        cbb_then_def [of "cbb_rewind 0"] root_builder_flush root_builder_data root_builder_rewind
        children sorted dup add Let_def simp del: add_all_bytes.simps)
  have repr: "cbb_repr (root_builder ?c 6) [(Root, ?c)]"
    by (simp add: cbb_repr_def root_builder_def buf_ok_def valid_bytes_def lay_def)
  obtain F1 es es' where F: "spec_flush 0 [(Root, ?c)] = Some F1" "set_of_children (snd (last F1)) = Some es"
      "mset es' = mset es" "sorted es'"
      "cbb_repr (root_builder ?d 6) (butlast F1 @ [(fst (last F1), concat es')])"
    using set_of_sorts [OF repr flush] by blast
  have F1: "F1 = [(Root, ?c)]" using F(1) by (simp add: spec_flush_def)
  then have "es = [[2, 1, 2], [2, 1, 1]]" using F(2) children by simp
  then have "mset es' = {#[2, 1, 2], [2, 1, 1]#}" using F(3) by simp
  then have "es' = [[2, 1, 2], [2, 1, 1]] \<or> es' = [[2, 1, 1], [2, 1, 2]]"
    by (cases es'; cases "tl es'") (auto simp: add_eq_conv_diff)
  then have "es' = [[2, 1, 1], [2, 1, 2]]" using F(4) by auto
  with F(5) F1 repr flush show ?thesis by auto
qed

end
