(* ===== verification/Stack.thy ===== *)
theory Stack
  imports Mem Qsort
begin

text \<open>
  crypto/stack/stack.c: the resizable array of pointers behind every \<open>STACK_OF(T)\<close>. A pointer is
  an option, with \<open>None\<close> for NULL; a comparison function is a value of type \<open>'c\<close>, called through
  \<open>call_cmp_func\<close> as in the code; \<open>junk\<close> is what a fresh array of pointers happens to hold.
\<close>

section \<open>State\<close>

record ('p, 'c) stack_st =
  sk_num_items :: u64
  sk_data :: "'p option list"
  sk_sorted :: bool
  sk_num_alloc :: u64
  sk_comp :: "'c option"

type_synonym ('p, 'c) stack = "('p, 'c) stack_st option"
type_synonym ('p, 'c) call_cmp = "'c \<Rightarrow> 'p option \<Rightarrow> 'p option \<Rightarrow> int"
type_synonym 'p junk = "nat \<Rightarrow> 'p option"

definition kMinSize :: u64 where
  "kMinSize = 4"

definition ptrs_malloc :: "allocator \<Rightarrow> 'p junk \<Rightarrow> u64 \<Rightarrow> 'p option list option" where
  "ptrs_malloc al junk sz =
     map_option (\<lambda>_. map junk [0..<unat sz div 8]) (OPENSSL_malloc al sz)"

definition ptrs_realloc :: "allocator \<Rightarrow> 'p junk \<Rightarrow> 'p option list \<Rightarrow> u64 \<Rightarrow> 'p option list option" where
  "ptrs_realloc al junk old sz =
     map_option (\<lambda>new. take (length new) (old @ drop (length old) new)) (ptrs_malloc al junk sz)"

section \<open>Operations\<close>

definition sk_new :: "allocator \<Rightarrow> 'p junk \<Rightarrow> 'c option \<Rightarrow> ('p, 'c) stack" where
  "sk_new al junk cf =
     (case OPENSSL_malloc al 40 of
        None \<Rightarrow> None
      | Some _ \<Rightarrow>
          (case ptrs_malloc al junk (8 * kMinSize) of
             None \<Rightarrow> None
           | Some data \<Rightarrow>
               Some \<lparr>sk_num_items = 0, sk_data = map (\<lambda>_. None) data, sk_sorted = False,
                     sk_num_alloc = kMinSize, sk_comp = cf\<rparr>))"

definition sk_new_null :: "allocator \<Rightarrow> 'p junk \<Rightarrow> ('p, 'c) stack" where
  "sk_new_null al junk = sk_new al junk None"

definition sk_num :: "('p, 'c) stack \<Rightarrow> u64" where
  "sk_num sk = (case sk of None \<Rightarrow> 0 | Some s \<Rightarrow> sk_num_items s)"

definition sk_zero :: "('p, 'c) stack \<Rightarrow> ('p, 'c) stack" where
  "sk_zero sk =
     (case sk of
        None \<Rightarrow> None
      | Some s \<Rightarrow>
          if sk_num_items s = 0 then sk
          else Some (s\<lparr>sk_data := replicate (unat (sk_num_items s)) None @ drop (unat (sk_num_items s)) (sk_data s),
                       sk_num_items := 0, sk_sorted := False\<rparr>))"

definition sk_value :: "('p, 'c) stack \<Rightarrow> u64 \<Rightarrow> 'p option" where
  "sk_value sk i =
     (case sk of None \<Rightarrow> None | Some s \<Rightarrow> if i \<ge> sk_num_items s then None else sk_data s ! unat i)"

definition sk_set :: "('p, 'c) stack \<Rightarrow> u64 \<Rightarrow> 'p option \<Rightarrow> 'p option \<times> ('p, 'c) stack" where
  "sk_set sk i value =
     (case sk of
        None \<Rightarrow> (None, sk)
      | Some s \<Rightarrow>
          if i \<ge> sk_num_items s then (None, sk)
          else (value, Some (s\<lparr>sk_data := (sk_data s)[unat i := value]\<rparr>)))"

text \<open>The next size of the array: doubled, or one more if doubling overflows.\<close>

definition sk_alloc_overflows :: "u64 \<Rightarrow> u64 \<Rightarrow> bool" where
  "sk_alloc_overflows old new \<longleftrightarrow> new < old \<or> (new * 8) div 8 \<noteq> new"

definition sk_next_alloc :: "u64 \<Rightarrow> u64 option" where
  "sk_next_alloc old =
     (let new_alloc = push_bit 1 old;
          new_alloc = (if sk_alloc_overflows old new_alloc then old + 1 else new_alloc)
      in if sk_alloc_overflows old new_alloc then None else Some new_alloc)"

definition sk_grow :: "allocator \<Rightarrow> 'p junk \<Rightarrow> ('p, 'c) stack_st \<Rightarrow> ('p, 'c) stack" where
  "sk_grow al junk s =
     (if sk_num_alloc s \<le> sk_num_items s + 1 then
        (case sk_next_alloc (sk_num_alloc s) of
           None \<Rightarrow> None
         | Some new_alloc \<Rightarrow>
             (case ptrs_realloc al junk (sk_data s) (new_alloc * 8) of
                None \<Rightarrow> None
              | Some data \<Rightarrow> Some (s\<lparr>sk_data := data, sk_num_alloc := new_alloc\<rparr>)))
      else Some s)"

definition sk_insert :: "allocator \<Rightarrow> 'p junk \<Rightarrow> ('p, 'c) stack \<Rightarrow> 'p option \<Rightarrow> u64 \<Rightarrow> u64 \<times> ('p, 'c) stack" where
  "sk_insert al junk sk p w =
     (case sk of
        None \<Rightarrow> (0, sk)
      | Some s \<Rightarrow>
          (case sk_grow al junk s of
             None \<Rightarrow> (0, sk)
           | Some s \<Rightarrow>
               let num = unat (sk_num_items s); i = unat w; data = sk_data s;
                   data = (if w \<ge> sk_num_items s then data[num := p]
                           else (take (i + 1) data @ drop i (take num data) @ drop (num + 1) data)[i := p])
               in (sk_num_items s + 1,
                   Some (s\<lparr>sk_data := data, sk_num_items := sk_num_items s + 1, sk_sorted := False\<rparr>))))"

definition sk_delete :: "('p, 'c) stack \<Rightarrow> u64 \<Rightarrow> 'p option \<times> ('p, 'c) stack" where
  "sk_delete sk w =
     (case sk of
        None \<Rightarrow> (None, sk)
      | Some s \<Rightarrow>
          if w \<ge> sk_num_items s then (None, sk)
          else
            let num = unat (sk_num_items s); i = unat w; data = sk_data s;
                ret = data ! i;
                data = (if w \<noteq> sk_num_items s - 1
                        then take i data @ drop (i + 1) (take num data) @ drop (num - 1) data
                        else data)
            in (ret, Some (s\<lparr>sk_data := data, sk_num_items := sk_num_items s - 1\<rparr>)))"

text \<open>The first index from \<open>i\<close> up at which the test holds, among the elements \<open>xs\<close> still to visit.\<close>

fun first_from :: "('a \<Rightarrow> bool) \<Rightarrow> nat \<Rightarrow> 'a list \<Rightarrow> nat option" where
  "first_from P i [] = None"
| "first_from P i (x # xs) = (if P x then Some i else first_from P (i + 1) xs)"

definition first_match :: "('a \<Rightarrow> bool) \<Rightarrow> 'a list \<Rightarrow> nat option" where
  "first_match P xs = first_from P 0 xs"

abbreviation sk_elems :: "('p, 'c) stack_st \<Rightarrow> 'p option list" where
  "sk_elems s \<equiv> take (unat (sk_num_items s)) (sk_data s)"

definition sk_delete_ptr :: "('p, 'c) stack \<Rightarrow> 'p option \<Rightarrow> 'p option \<times> ('p, 'c) stack" where
  "sk_delete_ptr sk p =
     (case sk of
        None \<Rightarrow> (None, sk)
      | Some s \<Rightarrow>
          (case first_match (\<lambda>e. e = p) (sk_elems s) of
             Some i \<Rightarrow> sk_delete sk (of_nat i)
           | None \<Rightarrow> (None, sk)))"

definition sk_is_sorted :: "('p, 'c) stack \<Rightarrow> bool" where
  "sk_is_sorted sk = (case sk of None \<Rightarrow> True | Some s \<Rightarrow> sk_sorted s)"

lemma mid_bounds:
  fixes lo hi :: u64
  assumes "lo < hi"
  shows "unat (lo + (hi - lo - 1) div 2) = unat lo + (unat hi - unat lo - 1) div 2"
    and "unat (lo + (hi - lo - 1) div 2) < unat hi"
    and "unat (lo + (hi - lo - 1) div 2 + 1) = unat (lo + (hi - lo - 1) div 2) + 1"
proof -
  have 1: "unat (hi - lo) = unat hi - unat lo" using assms by (simp add: unat_sub less_imp_le)
  have "hi - lo \<noteq> 0" using assms by simp
  then have "1 \<le> hi - lo" by (simp add: word_le_nat_alt unat_gt_0 Suc_le_eq)
  then have 2: "unat ((hi - lo - 1) div 2) = (unat hi - unat lo - 1) div 2"
    by (simp add: unat_div unat_sub 1)
  have lt: "unat lo + (unat hi - unat lo - 1) div 2 < unat hi"
    using assms by (auto simp: word_less_nat_alt)
  then have "unat lo + (unat hi - unat lo - 1) div 2 < 2 ^ 64"
    using unat_u64_less [of hi] by (simp del: unat_u64_less)
  then show 3: "unat (lo + (hi - lo - 1) div 2) = unat lo + (unat hi - unat lo - 1) div 2"
    by (simp only: unat_u64_add 2 if_True)
  with lt show 4: "unat (lo + (hi - lo - 1) div 2) < unat hi" by simp
  show "unat (lo + (hi - lo - 1) div 2 + 1) = unat (lo + (hi - lo - 1) div 2) + 1"
    using less_le_trans [OF Suc_leI [OF 4, THEN le_imp_less_Suc]] unat_u64_less [of hi] 4
    by (simp add: unat_u64_add [where b = 1] del: unat_u64_less)
qed

text \<open>The binary search; \<open>cmp e\<close> is the comparison of the key with the element \<open>e\<close>.\<close>

function sk_search :: "('a \<Rightarrow> int) \<Rightarrow> 'a list \<Rightarrow> u64 \<Rightarrow> u64 \<Rightarrow> u64 option" where
  "sk_search cmp data lo hi =
     (if lo < hi then
        let mid = lo + (hi - lo - 1) div 2;
            r = cmp (data ! unat mid)
        in if r > 0 then sk_search cmp data (mid + 1) hi
           else if r < 0 then sk_search cmp data lo mid
           else if hi - lo = 1 then Some mid
           else sk_search cmp data lo (mid + 1)
      else None)"
  by pat_completeness auto

lemma mid_shrinks:
  fixes lo hi :: u64
  assumes "lo < hi" and "hi - lo \<noteq> 1"
  shows "unat (lo + (hi - lo - 1) div 2 + 1) < unat hi"
proof -
  have "unat hi - unat lo \<noteq> 1"
    using assms by (metis less_imp_le unat_1 unat_sub word_le_nat_alt word_unat_eq_iff word_less_nat_alt)
  moreover have "unat lo < unat hi" using assms(1) by (simp add: word_less_nat_alt)
  ultimately show ?thesis unfolding mid_bounds(3) [OF assms(1)] mid_bounds(1) [OF assms(1)] by linarith
qed

lemma mid_decreases:
  fixes lo hi :: u64
  assumes "lo < hi"
  shows "unat hi - unat (lo + (hi - lo - 1) div 2 + 1) < unat hi - unat lo"
    and "unat (lo + (hi - lo - 1) div 2) - unat lo < unat hi - unat lo"
    and "hi - lo \<noteq> 1 \<Longrightarrow> unat (lo + (hi - lo - 1) div 2 + 1) - unat lo < unat hi - unat lo"
proof -
  have lt: "unat lo < unat hi" using assms by (simp add: word_less_nat_alt)
  have le: "unat lo \<le> unat (lo + (hi - lo - 1) div 2)" by (simp only: mid_bounds(1) [OF assms] le_add1)
  show "unat hi - unat (lo + (hi - lo - 1) div 2 + 1) < unat hi - unat lo"
    unfolding mid_bounds(3) [OF assms] using le lt by linarith
  show "unat (lo + (hi - lo - 1) div 2) - unat lo < unat hi - unat lo"
    using mid_bounds(2) [OF assms] lt by linarith
  show "unat (lo + (hi - lo - 1) div 2 + 1) - unat lo < unat hi - unat lo" if "hi - lo \<noteq> 1"
    using mid_shrinks [OF assms that] lt by linarith
qed

termination sk_search
  by (relation "measure (\<lambda>(cmp, data, lo, hi). unat hi - unat lo)")
    (use mid_decreases in \<open>auto simp: Let_def\<close>)

declare sk_search.simps [simp del]

definition sk_find :: "('p, 'c) call_cmp \<Rightarrow> ('p, 'c) stack \<Rightarrow> 'p option \<Rightarrow> u64 option" where
  "sk_find call_cmp_func sk p =
     (case sk of
        None \<Rightarrow> None
      | Some s \<Rightarrow>
          (case sk_comp s of
             None \<Rightarrow> map_option of_nat (first_match (\<lambda>e. e = p) (sk_elems s))
           | Some cf \<Rightarrow>
               if p = None then None
               else if \<not> sk_is_sorted sk then
                 map_option of_nat (first_match (\<lambda>e. call_cmp_func cf p e = 0) (sk_elems s))
               else sk_search (call_cmp_func cf p) (sk_data s) 0 (sk_num_items s)))"

definition sk_shift :: "('p, 'c) stack \<Rightarrow> 'p option \<times> ('p, 'c) stack" where
  "sk_shift sk = (if sk = None \<or> sk_num sk = 0 then (None, sk) else sk_delete sk 0)"

definition sk_push :: "allocator \<Rightarrow> 'p junk \<Rightarrow> ('p, 'c) stack \<Rightarrow> 'p option \<Rightarrow> u64 \<times> ('p, 'c) stack" where
  "sk_push al junk sk p = sk_insert al junk sk p (sk_num sk)"

definition sk_pop :: "('p, 'c) stack \<Rightarrow> 'p option \<times> ('p, 'c) stack" where
  "sk_pop sk = (if sk = None \<or> sk_num sk = 0 then (None, sk) else sk_delete sk (sk_num sk - 1))"

definition sk_dup :: "allocator \<Rightarrow> 'p junk \<Rightarrow> ('p, 'c) stack \<Rightarrow> ('p, 'c) stack" where
  "sk_dup al junk sk =
     (case sk of
        None \<Rightarrow> None
      | Some s \<Rightarrow>
          (case OPENSSL_malloc al 40 of
             None \<Rightarrow> None
           | Some _ \<Rightarrow>
               (case ptrs_malloc al junk (8 * sk_num_alloc s) of
                  None \<Rightarrow> None
                | Some data \<Rightarrow>
                    Some \<lparr>sk_num_items = sk_num_items s,
                          sk_data = sk_elems s @ drop (unat (sk_num_items s)) data,
                          sk_sorted = sk_sorted s, sk_num_alloc = sk_num_alloc s, sk_comp = sk_comp s\<rparr>)))"

definition sk_sort :: "('p, 'c) call_cmp \<Rightarrow> ('p, 'c) stack \<Rightarrow> ('p, 'c) stack" where
  "sk_sort call_cmp_func sk =
     (case sk of
        None \<Rightarrow> None
      | Some s \<Rightarrow>
          (case sk_comp s of
             None \<Rightarrow> sk
           | Some cf \<Rightarrow>
               if sk_sorted s then sk
               else
                 let data = (if sk_num_items s \<ge> 2
                             then qsort (call_cmp_func cf) (sk_elems s) @ drop (unat (sk_num_items s)) (sk_data s)
                             else sk_data s)
                 in Some (s\<lparr>sk_data := data, sk_sorted := True\<rparr>)))"

definition sk_set_cmp_func :: "('p, 'c) stack_st \<Rightarrow> 'c option \<Rightarrow> 'c option \<times> ('p, 'c) stack_st" where
  "sk_set_cmp_func s cf =
     (sk_comp s, s\<lparr>sk_sorted := (if sk_comp s \<noteq> cf then False else sk_sorted s), sk_comp := cf\<rparr>)"

text \<open>
  \<open>call_copy_func\<close> with \<open>copy_func\<close> is \<open>copy\<close>, which may fail. The loop yields the copied
  elements, or nothing as soon as one copy fails; what is freed then is not represented.
\<close>

fun sk_copy_loop :: "('p \<Rightarrow> 'p option) \<Rightarrow> 'p option list \<Rightarrow> 'p option list option" where
  "sk_copy_loop copy [] = Some []"
| "sk_copy_loop copy (None # es) = map_option (Cons None) (sk_copy_loop copy es)"
| "sk_copy_loop copy (Some e # es) =
     (case copy e of None \<Rightarrow> None | Some e' \<Rightarrow> map_option (Cons (Some e')) (sk_copy_loop copy es))"

definition sk_deep_copy :: "allocator \<Rightarrow> 'p junk \<Rightarrow> ('p \<Rightarrow> 'p option) \<Rightarrow> ('p, 'c) stack \<Rightarrow> ('p, 'c) stack" where
  "sk_deep_copy al junk copy sk =
     (case sk_dup al junk sk of
        None \<Rightarrow> None
      | Some ret \<Rightarrow>
          (case sk_copy_loop copy (sk_elems ret) of
             None \<Rightarrow> None
           | Some es \<Rightarrow> Some (ret\<lparr>sk_data := es @ drop (unat (sk_num_items ret)) (sk_data ret)\<rparr>)))"


section \<open>Well-formed stacks\<close>

definition sk_ok :: "('p, 'c) stack_st \<Rightarrow> bool" where
  "sk_ok s \<longleftrightarrow> length (sk_data s) = unat (sk_num_alloc s) \<and>
     unat (sk_num_items s) < unat (sk_num_alloc s) \<and> 8 * unat (sk_num_alloc s) < 2 ^ 64"

lemma length_ptrs_malloc: "ptrs_malloc al junk sz = Some data \<Longrightarrow> length data = unat sz div 8"
  by (auto simp: ptrs_malloc_def)

lemma sk_ok_Suc: "sk_ok s \<Longrightarrow> unat (sk_num_items s + 1) = unat (sk_num_items s) + 1"
  by (simp add: sk_ok_def unat_u64_add del: of_nat_add One_nat_def)

lemma length_sk_elems [simp]: "sk_ok s \<Longrightarrow> length (sk_elems s) = unat (sk_num_items s)"
  by (simp add: sk_ok_def)

lemma of_nat_length_elems: "sk_ok s \<Longrightarrow> of_nat (length (sk_elems s)) = sk_num_items s"
  by (subst length_sk_elems) simp_all


lemma sk_next_alloc_Some:
  assumes "sk_next_alloc old = Some n" and "1 \<le> unat old" and "8 * unat old < 2 ^ 64"
  shows "unat old < unat n" and "8 * unat n < 2 ^ 64"
proof -
  have n: "n = push_bit 1 old \<or> n = old + 1" and ok: "(n * 8) div 8 = n"
    using assms(1) by (auto simp: sk_next_alloc_def sk_alloc_overflows_def Let_def split: if_splits)
  show "8 * unat n < 2 ^ 64" using ok by (simp only: div_8_times_8)
  have "unat (old * 2) = unat old * 2"
    using assms(3) by (subst unat_mult_lem [THEN iffD1]) auto
  then have "unat (push_bit 1 old) = 2 * unat old" by simp
  moreover have "unat (old + 1) = unat old + 1" using assms(3) by (simp add: unat_u64_add)
  ultimately show "unat old < unat n" using n assms(2) by auto
qed

lemma sk_next_alloc_None:
  assumes "sk_next_alloc old = None"
  shows "2 ^ 64 \<le> 8 * (unat old + 1)"
proof (rule ccontr)
  assume c: "\<not> ?thesis"
  then have one: "unat (old + 1) = unat old + 1" by (simp add: unat_u64_add)
  then have "\<not> sk_alloc_overflows old (old + 1)"
    unfolding sk_alloc_overflows_def div_8_times_8 using c by (simp add: word_less_nat_alt)
  then show False using assms by (auto simp: sk_next_alloc_def Let_def split: if_splits)
qed

lemma sk_grow_Some:
  assumes "sk_grow al junk s = Some s'" and "sk_ok s"
  shows "sk_ok s' \<and> unat (sk_num_items s) + 1 < unat (sk_num_alloc s') \<and> sk_elems s' = sk_elems s \<and>
    sk_num_items s' = sk_num_items s \<and> sk_sorted s' = sk_sorted s \<and> sk_comp s' = sk_comp s"
proof (cases "sk_num_alloc s \<le> sk_num_items s + 1")
  case False
  with assms show ?thesis using sk_ok_Suc [OF assms(2)] by (simp add: sk_grow_def word_le_nat_alt)
next
  case True
  then have full: "unat (sk_num_alloc s) = unat (sk_num_items s) + 1"
    using assms(2) sk_ok_Suc [OF assms(2)] by (simp add: word_le_nat_alt sk_ok_def)
  obtain n new where n: "sk_next_alloc (sk_num_alloc s) = Some n" and new: "ptrs_malloc al junk (n * 8) = Some new"
    and s': "s' = s\<lparr>sk_data := take (length new) (sk_data s @ drop (length (sk_data s)) new), sk_num_alloc := n\<rparr>"
    using assms(1) True by (auto simp: sk_grow_def ptrs_realloc_def split: option.splits)
  have gt: "unat (sk_num_alloc s) < unat n" and small: "8 * unat n < 2 ^ 64"
    using sk_next_alloc_Some [OF n] full assms(2) by (auto simp: sk_ok_def)
  have "length new = unat n" using length_ptrs_malloc [OF new] small by (simp add: unat_times_8)
  then show ?thesis using gt small full assms(2) by (simp add: s' sk_ok_def min_def)
qed

lemma sk_grow_None:
  assumes "sk_grow al junk s = None"
  shows "(\<exists>n. OPENSSL_malloc al n = None) \<or> 2 ^ 64 \<le> 8 * (unat (sk_num_alloc s) + 1)"
  using assms sk_next_alloc_None
  by (auto simp: sk_grow_def ptrs_realloc_def ptrs_malloc_def split: option.splits if_splits)

section \<open>Operations on the list of elements\<close>

lemma memmove_up:
  assumes "i < n" and "n < length data"
  shows "take (n + 1) ((take (i + 1) data @ drop i (take n data) @ drop (n + 1) data)[i := p]) =
      take i (take n data) @ p # drop i (take n data)"
    and "length ((take (i + 1) data @ drop i (take n data) @ drop (n + 1) data)[i := p]) = length data"
proof -
  have "(take (i + 1) data @ drop i (take n data) @ drop (n + 1) data)[i := p] =
      take i data @ p # drop i (take n data) @ drop (n + 1) data"
    using assms by (simp add: take_Suc_conv_app_nth list_update_append)
  then show "take (n + 1) ((take (i + 1) data @ drop i (take n data) @ drop (n + 1) data)[i := p]) =
      take i (take n data) @ p # drop i (take n data)"
    using assms by (simp add: min_def Suc_diff_le)
  show "length ((take (i + 1) data @ drop i (take n data) @ drop (n + 1) data)[i := p]) = length data"
    using assms by simp
qed

lemma sk_insert_elems:
  assumes "sk_insert al junk (Some s) p w = (r, Some s')" and "sk_ok s"
  shows "r = 0 \<and> s' = s \<and> ((\<exists>n. OPENSSL_malloc al n = None) \<or> 2 ^ 64 \<le> 8 * (unat (sk_num_alloc s) + 1)) \<or>
    r = sk_num_items s + 1 \<and> r \<noteq> 0 \<and> sk_ok s' \<and>
    sk_elems s' = take (unat w) (sk_elems s) @ p # drop (unat w) (sk_elems s) \<and>
    \<not> sk_sorted s' \<and> sk_comp s' = sk_comp s"
proof (cases "sk_grow al junk s")
  case None
  then show ?thesis using assms sk_grow_None [OF None] by (simp add: sk_insert_def)
next
  case (Some t)
  note g = sk_grow_Some [OF Some assms(2)]
  let ?n = "unat (sk_num_items s)" and ?i = "unat w" and ?d = "sk_data t"
  let ?data = "if w \<ge> sk_num_items s then ?d[?n := p]
    else (take (?i + 1) ?d @ drop ?i (take ?n ?d) @ drop (?n + 1) ?d)[?i := p]"
  have s': "s' = t\<lparr>sk_data := ?data, sk_num_items := sk_num_items s + 1, sk_sorted := False\<rparr>"
    and r: "r = sk_num_items s + 1"
    using assms(1) g by (auto simp: sk_insert_def Some Let_def)
  have len: "?n + 1 < length ?d" using g by (simp add: sk_ok_def)
  have el: "take ?n ?d = sk_elems s" using g by metis
  have n: "unat (sk_num_items s + 1) = ?n + 1" using assms(2) by (rule sk_ok_Suc)
  then have "sk_num_items s + 1 \<noteq> 0" by (metis add_is_0 one_neq_zero unat_0)
  moreover have "length ?data = length ?d" using memmove_up(2) [of ?i ?n ?d p] len by (simp add: word_le_nat_alt)
  moreover have "take (?n + 1) ?data = take ?i (sk_elems s) @ p # drop ?i (sk_elems s)"
  proof (cases "w \<ge> sk_num_items s")
    case True
    then show ?thesis using len el assms(2) by (simp add: word_le_nat_alt take_Suc_conv_app_nth)
  next
    case False
    then show ?thesis using memmove_up(1) [of ?i ?n ?d p, unfolded el] len by (simp add: word_le_nat_alt el del: take_take)
  qed
  ultimately show ?thesis using g r n by (simp add: s' sk_ok_def del: take_take)
qed

lemma memmove_down:
  assumes "i < n" and "n \<le> length data"
  shows "take (n - 1) (take i data @ drop (i + 1) (take n data) @ drop (n - 1) data) =
      take i (take n data) @ drop (i + 1) (take n data)"
    and "length (take i data @ drop (i + 1) (take n data) @ drop (n - 1) data) = length data"
proof -
  have "min n i = i" "min (length data) n = n" using assms by simp_all
  then show "take (n - 1) (take i data @ drop (i + 1) (take n data) @ drop (n - 1) data) =
      take i (take n data) @ drop (i + 1) (take n data)"
    using assms by (simp add: min_absorb2)
  show "length (take i data @ drop (i + 1) (take n data) @ drop (n - 1) data) = length data"
    using assms by simp
qed

lemma sk_delete_elems:
  assumes "sk_ok s"
  shows "\<exists>s'. sk_delete (Some s) w = (if unat w < length (sk_elems s) then sk_elems s ! unat w else None, Some s') \<and>
    sk_ok s' \<and> sk_elems s' = take (unat w) (sk_elems s) @ drop (unat w + 1) (sk_elems s) \<and>
    sk_sorted s' = sk_sorted s \<and> sk_comp s' = sk_comp s"
proof (cases "w \<ge> sk_num_items s")
  case True
  then show ?thesis using assms by (simp add: sk_delete_def word_le_nat_alt)
next
  case False
  let ?n = "unat (sk_num_items s)" and ?i = "unat w" and ?d = "sk_data s"
  have i: "?i < ?n" and n: "?n < length ?d" using False assms by (auto simp: word_le_nat_alt sk_ok_def)
  have one: "1 \<le> sk_num_items s" using i by (simp add: word_le_nat_alt)
  then have pred: "unat (sk_num_items s - 1) = ?n - 1" by (simp add: unat_sub)
  have "w = sk_num_items s - 1 \<longleftrightarrow> ?i = ?n - 1" by (simp add: word_unat_eq_iff pred)
  then show ?thesis
    using False assms i n memmove_down [OF i less_imp_le [OF n]] pred
    by (auto simp: sk_delete_def Let_def sk_ok_def)
qed


lemma first_from_remove1:
  "first_from (\<lambda>e. e = p) i xs =
     (if p \<in> set xs then Some (i + length (takeWhile (\<lambda>e. e \<noteq> p) xs)) else None)"
  by (induction xs arbitrary: i) auto

lemma remove1_take_drop:
  "p \<in> set xs \<Longrightarrow> length (takeWhile (\<lambda>e. e \<noteq> p) xs) < length xs \<and>
     xs ! length (takeWhile (\<lambda>e. e \<noteq> p) xs) = p \<and>
     take (length (takeWhile (\<lambda>e. e \<noteq> p) xs)) xs @ drop (length (takeWhile (\<lambda>e. e \<noteq> p) xs) + 1) xs = remove1 p xs"
  by (induction xs) auto



section \<open>The binary search finds what a scan finds\<close>





section \<open>Calls and what they denote\<close>

datatype ('p, 'c) sk_cmd =
    Insert "'p option" u64
  | Push "'p option"
  | Delete u64
  | DeletePtr "'p option"
  | Shift
  | Pop
  | Set_at u64 "'p option"
  | Zero
  | Sort
  | SetCmp "'c option"

datatype ('p, 'c) sk_ret = Ptr "'p option" | Num u64 | Cmp "'c option" | Void

fun sk_exec ::
  "allocator \<Rightarrow> 'p junk \<Rightarrow> ('p, 'c) call_cmp \<Rightarrow> ('p, 'c) sk_cmd \<Rightarrow> ('p, 'c) stack_st \<Rightarrow> ('p, 'c) sk_ret \<times> ('p, 'c) stack" where
  "sk_exec al junk call (Insert p w) s = (let (r, s) = sk_insert al junk (Some s) p w in (Num r, s))"
| "sk_exec al junk call (Push p) s = (let (r, s) = sk_push al junk (Some s) p in (Num r, s))"
| "sk_exec al junk call (Delete w) s = (let (r, s) = sk_delete (Some s) w in (Ptr r, s))"
| "sk_exec al junk call (DeletePtr p) s = (let (r, s) = sk_delete_ptr (Some s) p in (Ptr r, s))"
| "sk_exec al junk call Shift s = (let (r, s) = sk_shift (Some s) in (Ptr r, s))"
| "sk_exec al junk call Pop s = (let (r, s) = sk_pop (Some s) in (Ptr r, s))"
| "sk_exec al junk call (Set_at i v) s = (let (r, s) = sk_set (Some s) i v in (Ptr r, s))"
| "sk_exec al junk call Zero s = (Void, sk_zero (Some s))"
| "sk_exec al junk call Sort s = (Void, sk_sort call (Some s))"
| "sk_exec al junk call (SetCmp c) s = (let (r, s) = sk_set_cmp_func s c in (Cmp r, Some s))"

text \<open>What a stack stands for: its elements, the flag and the comparison function.\<close>

type_synonym ('p, 'c) sk_view = "'p option list \<times> bool \<times> 'c option"

definition sk_view :: "('p, 'c) stack_st \<Rightarrow> ('p, 'c) sk_view" where
  "sk_view s = (sk_elems s, sk_sorted s, sk_comp s)"

definition list_insert :: "nat \<Rightarrow> 'a \<Rightarrow> 'a list \<Rightarrow> 'a list" where
  "list_insert i x xs = take i xs @ x # drop i xs"

definition list_delete :: "nat \<Rightarrow> 'a list \<Rightarrow> 'a list" where
  "list_delete i xs = take i xs @ drop (i + 1) xs"

fun sk_spec :: "('p, 'c) call_cmp \<Rightarrow> ('p, 'c) sk_cmd \<Rightarrow> ('p, 'c) sk_view \<Rightarrow> ('p, 'c) sk_ret \<times> ('p, 'c) sk_view" where
  "sk_spec call (Insert p w) (xs, b, c) = (Num (of_nat (length xs + 1)), list_insert (unat w) p xs, False, c)"
| "sk_spec call (Push p) (xs, b, c) = (Num (of_nat (length xs + 1)), xs @ [p], False, c)"
| "sk_spec call (Delete w) (xs, b, c) =
     (Ptr (if unat w < length xs then xs ! unat w else None), list_delete (unat w) xs, b, c)"
| "sk_spec call (DeletePtr p) (xs, b, c) = (Ptr (if p \<in> set xs then p else None), remove1 p xs, b, c)"
| "sk_spec call Shift (xs, b, c) = (Ptr (if xs = [] then None else hd xs), tl xs, b, c)"
| "sk_spec call Pop (xs, b, c) = (Ptr (if xs = [] then None else last xs), butlast xs, b, c)"
| "sk_spec call (Set_at i v) (xs, b, c) = (Ptr (if unat i < length xs then v else None), xs[unat i := v], b, c)"
| "sk_spec call Zero (xs, b, c) = (Void, [], b \<and> xs = [], c)"
| "sk_spec call Sort (xs, b, None) = (Void, xs, b, None)"
| "sk_spec call Sort (xs, b, Some c) = (Void, if b then xs else qsort (call c) xs, True, Some c)"
| "sk_spec call (SetCmp c') (xs, b, c) = (Cmp c, xs, b \<and> c = c', c')"

fun sk_grows :: "('p, 'c) sk_cmd \<Rightarrow> bool" where
  "sk_grows (Insert _ _) = True"
| "sk_grows (Push _) = True"
| "sk_grows _ = False"

lemma sk_delete_view:
  assumes "sk_ok s" and "sk_delete (Some s) w = (r, s')"
  shows "\<exists>t. s' = Some t \<and> sk_ok t \<and> (Ptr r :: ('a, 'b) sk_ret, sk_view t) = sk_spec call (Delete w) (sk_view s)"
  using sk_delete_elems [OF assms(1), of w] assms(2)
  by (auto simp: sk_view_def list_delete_def simp del: length_take)

lemma of_nat_Suc_num: "sk_ok s \<Longrightarrow> of_nat (length (sk_elems s) + 1) = sk_num_items s + 1"
  using of_nat_length_elems [of s] by (simp del: length_take length_sk_elems)

lemma sk_insert_view:
  assumes "sk_ok s" and "sk_insert al junk (Some s) p w = (r, s')"
  shows "\<exists>t. s' = Some t \<and>
    (r = 0 \<and> t = s \<and> ((\<exists>n. OPENSSL_malloc al n = None) \<or> 2 ^ 64 \<le> 8 * (unat (sk_num_alloc s) + 1)) \<or>
     r \<noteq> 0 \<and> sk_ok t \<and> (Num r :: ('a, 'b) sk_ret, sk_view t) = sk_spec call (Insert p w) (sk_view s))"
proof -
  obtain t where t: "s' = Some t"
    using assms(2) by (auto simp: sk_insert_def Let_def split: option.splits)
  show ?thesis
    using sk_insert_elems [OF assms(2) [unfolded t] assms(1)] of_nat_Suc_num [OF assms(1)] t
    by (auto simp: sk_view_def list_insert_def simp del: length_take of_nat_add take_take)
qed

lemma sk_exec_refines:
  assumes "sk_ok s" and "sk_exec al junk call c s = (r, s')"
  shows "\<exists>t. s' = Some t \<and>
    (sk_grows c \<and> r = Num 0 \<and> t = s \<and> ((\<exists>n. OPENSSL_malloc al n = None) \<or> 2 ^ 64 \<le> 8 * (unat (sk_num_alloc s) + 1)) \<or>
     sk_ok t \<and> (r, sk_view t) = sk_spec call c (sk_view s))"
proof (cases c)
  case (Insert p w)
  then show ?thesis using assms(2) sk_insert_view [OF assms(1)] by (force split: prod.splits)
next
  case (Push p)
  obtain r0 where i: "sk_insert al junk (Some s) p (sk_num_items s) = (r0, s')" "r = Num r0"
    using assms(2) Push by (auto simp: sk_push_def sk_num_def split: prod.splits)
  have "sk_spec call (Insert p (sk_num_items s)) (sk_view s) = sk_spec call (Push p) (sk_view s)"
    by (simp add: sk_view_def list_insert_def)
  then show ?thesis using sk_insert_view [OF assms(1) i(1), of call] i(2) Push by auto
next
  case (Delete w)
  then show ?thesis using assms(2) sk_delete_view [OF assms(1)] by (fastforce split: prod.splits)
next
  case (DeletePtr p)
  show ?thesis
  proof (cases "p \<in> set (sk_elems s)")
    case True
    let ?i = "length (takeWhile (\<lambda>e. e \<noteq> p) (sk_elems s))"
    note rm = remove1_take_drop [OF True]
    have "unat (of_nat ?i :: u64) = ?i" using rm assms(1) by (intro unat_of_nat_u64_small) (simp add: sk_ok_def)
    then have "sk_spec call (Delete (of_nat ?i)) (sk_view s) = sk_spec call (DeletePtr p) (sk_view s)"
      using rm True by (simp add: sk_view_def list_delete_def del: take_take length_take)
    moreover have "sk_delete_ptr (Some s) p = sk_delete (Some s) (of_nat ?i)"
      using True by (simp add: sk_delete_ptr_def first_match_def first_from_remove1)
    ultimately show ?thesis
      using assms(2) sk_delete_view [OF assms(1), of "of_nat ?i" _ s' call] DeletePtr by (auto split: prod.splits)
  next
    case False
    then have "sk_delete_ptr (Some s) p = (None, Some s)"
      by (simp add: sk_delete_ptr_def first_match_def first_from_remove1)
    then show ?thesis using assms DeletePtr False by (auto simp: sk_view_def remove1_idem)
  qed
next
  case Shift
  show ?thesis
  proof (cases "sk_num_items s = 0")
    case False
    have "sk_spec call (Delete 0) (sk_view s) = sk_spec call Shift (sk_view s)"
      by (auto simp: sk_view_def list_delete_def hd_conv_nth drop_Suc)
    then show ?thesis using assms(2) sk_delete_view [OF assms(1), of 0 _ s' call] Shift False
      by (auto simp: sk_shift_def sk_num_def split: prod.splits)
  qed (use assms Shift in \<open>auto simp: sk_shift_def sk_num_def sk_view_def\<close>)
next
  case Pop
  show ?thesis
  proof (cases "sk_num_items s = 0")
    case False
    then have "unat (sk_num_items s - 1) = length (sk_elems s) - 1" "sk_elems s \<noteq> []"
      using assms(1) by (auto simp: unat_sub word_le_nat_alt unat_gt_0 Suc_le_eq sk_ok_def unat_eq_0)
    then have "sk_spec call (Delete (sk_num_items s - 1)) (sk_view s) = sk_spec call Pop (sk_view s)"
      by (simp add: sk_view_def list_delete_def last_conv_nth butlast_conv_take del: length_take take_take)
    then show ?thesis using assms(2) sk_delete_view [OF assms(1), of "sk_num_items s - 1" _ s' call] Pop False
      by (auto simp: sk_pop_def sk_num_def split: prod.splits)
  qed (use assms Pop in \<open>auto simp: sk_pop_def sk_num_def sk_view_def\<close>)
next
  case (Set_at i v)
  then show ?thesis using assms
    by (auto simp: sk_set_def sk_view_def word_le_nat_alt sk_ok_def take_update_swap list_update_beyond split: if_splits)
next
  case Zero
  then show ?thesis using assms
    by (auto simp: sk_zero_def sk_view_def sk_ok_def unat_eq_0 split: if_splits)
next
  case Sort
  have "qsort cmp xs = xs" if "length xs < 2" for cmp and xs :: "'a option list"
    using that by (cases xs; cases "tl xs") (auto simp: qsort_def)
  then show ?thesis using assms Sort
    by (cases "sk_comp s") (auto simp: sk_sort_def sk_view_def sk_ok_def word_le_nat_alt split: if_splits)
next
  case (SetCmp cf)
  then show ?thesis using assms by (auto simp: sk_set_cmp_func_def sk_view_def sk_ok_def)
qed


text \<open>
  C16: Every call that changes a stack does to the sequence of its elements, its flag and its
  comparison function what the call denotes on lists; only a call that must grow the array can fail,
  it then leaves the stack alone, and it fails only if the allocator refuses or no larger size fits.
\<close>

theorem stack_refines_list:
  assumes "sk_ok s" and "sk_exec al junk call c s = (r, s')"
  shows "\<exists>t. s' = Some t \<and>
    (sk_grows c \<and> r = Num 0 \<and> t = s \<and> ((\<exists>n. OPENSSL_malloc al n = None) \<or> 2 ^ 64 \<le> 8 * (unat (sk_num_alloc s) + 1)) \<or>
     sk_ok t \<and> (r, sk_view t) = sk_spec call c (sk_view s))"
  using assms by (rule sk_exec_refines)

section \<open>The sorted flag\<close>












section \<open>The hashes of a certificate directory\<close>

text \<open>crypto/x509/by_dir.c keeps a stack of these; a pointer is identified with what it points to.\<close>

record by_dir_hash =
  bdh_hash :: u64
  bdh_suffix :: "32 word"

datatype by_dir_cmp = By_Dir_Hash_Cmp

definition by_dir_hash_cmp :: "by_dir_hash \<Rightarrow> by_dir_hash \<Rightarrow> int" where
  "by_dir_hash_cmp a b =
     (if bdh_hash a > bdh_hash b then 1 else if bdh_hash a < bdh_hash b then -1 else 0)"

fun call_by_dir_cmp :: "(by_dir_hash, by_dir_cmp) call_cmp" where
  "call_by_dir_cmp By_Dir_Hash_Cmp (Some a) (Some b) = by_dir_hash_cmp a b"
| "call_by_dir_cmp By_Dir_Hash_Cmp _ _ = 0"


definition hash_item :: "u64 \<Rightarrow> by_dir_hash option" where
  "hash_item h = Some \<lparr>bdh_hash = h, bdh_suffix = 0\<rparr>"

text \<open>A short run: three hashes are pushed and sorted, then looked up.\<close>

definition no_junk :: "nat \<Rightarrow> 'p option" where
  "no_junk = (\<lambda>_. None)"



lemmas sk_eval = sk_new_def sk_push_def sk_insert_def sk_grow_def sk_num_def sk_sort_def sk_find_def sk_is_sorted_def
  sk_next_alloc_def sk_alloc_overflows_def ptrs_realloc_def sk_set_def sk_value_def
  sk_search.simps ptrs_malloc_def zero_alloc_def no_junk_def OPENSSL_malloc_def OPENSSL_MALLOC_PREFIX_def
  kMinSize_def qsort_def by_dir_hash_cmp_def hash_item_def upt_rec Let_def word_less_nat_alt word_le_nat_alt

definition example_sk :: "(by_dir_hash, by_dir_cmp) stack_st" where
  "example_sk = \<lparr>sk_num_items = 3, sk_data = [hash_item 3, hash_item 5, hash_item 7, None], sk_sorted = True,
     sk_num_alloc = 4, sk_comp = Some By_Dir_Hash_Cmp\<rparr>"




theorem stack_refines_list_witness:
  "\<exists>t. snd (sk_exec zero_alloc no_junk call_by_dir_cmp (Push (hash_item 4)) example_sk) = Some t \<and>
     sk_view t = ([hash_item 3, hash_item 5, hash_item 7, hash_item 4], False, Some By_Dir_Hash_Cmp)"
proof -
  let ?s' = "snd (sk_exec zero_alloc no_junk call_by_dir_cmp (Push (hash_item 4)) example_sk)"
  have ok: "sk_ok example_sk" by (simp add: sk_ok_def example_sk_def)
  have e: "sk_exec zero_alloc no_junk call_by_dir_cmp (Push (hash_item 4)) example_sk = (Num 4, ?s')"
    by (simp add: example_sk_def sk_eval)
  have "sk_view example_sk = ([hash_item 3, hash_item 5, hash_item 7], True, Some By_Dir_Hash_Cmp)"
    by (simp add: sk_view_def example_sk_def)
  with stack_refines_list [OF ok e] show ?thesis by auto
qed



text \<open>
  \<open>sk_set\<close> leaves the sorted flag alone: after storing a smaller hash in the last slot of the sorted stack,
  \<open>sk_find\<close> misses the element \<open>sk_value\<close> shows.
\<close>

lemma sk_set_hides_element:
  "\<exists>t. snd (sk_set (Some example_sk) 2 (hash_item 1)) = Some t \<and> sk_is_sorted (Some t) \<and>
     sk_value (Some t) 2 = hash_item 1 \<and> sk_find call_by_dir_cmp (Some t) (hash_item 1) = None"
  by (simp add: sk_eval example_sk_def)

end
