(* ===== verification/Lhash.thy ===== *)
theory Lhash
  imports Mem "HOL-Library.Multiset"
begin

text \<open>
  crypto/lhash/lhash.c: the chained hash table behind every \<open>LHASH_OF(T)\<close>. A chain is the list of
  its items in order; the pointer that \<open>get_next_ptr_and_hash\<close> returns is a position in a chain,
  at the end of the chain when nothing compares equal. The hash and comparison functions are
  values of types \<open>'h\<close> and \<open>'c\<close>, called through the helpers the code passes around.
\<close>

section \<open>State\<close>

record 'd lhash_item =
  lhi_data :: 'd
  lhi_hash :: u32

type_synonym 'd chain = "'d lhash_item list"

record ('d, 'h, 'c) lhash_st =
  lh_num_items :: u64
  lh_buckets :: "'d chain list"
  lh_num_buckets :: u64
  lh_callback_depth :: u32
  lh_comp :: 'c
  lh_hash :: 'h

type_synonym ('d, 'h) call_hash = "'h \<Rightarrow> 'd \<Rightarrow> u32"
type_synonym ('d, 'c) call_lh_cmp = "'c \<Rightarrow> 'd \<Rightarrow> 'd \<Rightarrow> int"

definition kMinNumBuckets :: u64 where
  "kMinNumBuckets = 16"

definition kMaxAverageChainLength :: u64 where
  "kMaxAverageChainLength = 2"

definition kMinAverageChainLength :: u64 where
  "kMinAverageChainLength = 1"

section \<open>Operations\<close>

definition OPENSSL_lh_new :: "allocator \<Rightarrow> 'h \<Rightarrow> 'c \<Rightarrow> ('d, 'h, 'c) lhash_st option" where
  "OPENSSL_lh_new al h cf =
     (case OPENSSL_malloc al 48 of
        None \<Rightarrow> None
      | Some _ \<Rightarrow>
          (case OPENSSL_malloc al (8 * kMinNumBuckets) of
             None \<Rightarrow> None
           | Some _ \<Rightarrow>
               Some \<lparr>lh_num_items = 0, lh_buckets = replicate (unat kMinNumBuckets) [],
                     lh_num_buckets = kMinNumBuckets, lh_callback_depth = 0, lh_comp = cf, lh_hash = h\<rparr>))"

definition OPENSSL_lh_num_items :: "('d, 'h, 'c) lhash_st \<Rightarrow> u64" where
  "OPENSSL_lh_num_items lh = lh_num_items lh"

definition bucket_of :: "u32 \<Rightarrow> u64 \<Rightarrow> nat" where
  "bucket_of hash n = unat ((ucast hash :: u64) mod n)"

fun chain_position :: "('d \<Rightarrow> bool) \<Rightarrow> 'd chain \<Rightarrow> nat" where
  "chain_position P [] = 0"
| "chain_position P (it # its) = (if P (lhi_data it) then 0 else chain_position P its + 1)"

definition get_next_ptr_and_hash ::
  "('d, 'h) call_hash \<Rightarrow> ('d, 'c) call_lh_cmp \<Rightarrow> ('d, 'h, 'c) lhash_st \<Rightarrow> 'd \<Rightarrow> u32 \<times> nat \<times> nat" where
  "get_next_ptr_and_hash call_hash call_cmp lh data =
     (let hash = call_hash (lh_hash lh) data;
          b = bucket_of hash (lh_num_buckets lh)
      in (hash, b, chain_position (\<lambda>d. call_cmp (lh_comp lh) d data = 0) (lh_buckets lh ! b)))"

definition get_next_ptr_by_key ::
  "('d, 'h, 'c) lhash_st \<Rightarrow> 'k \<Rightarrow> u32 \<Rightarrow> ('k \<Rightarrow> 'd \<Rightarrow> int) \<Rightarrow> nat \<times> nat" where
  "get_next_ptr_by_key lh key key_hash cmp_key =
     (let b = bucket_of key_hash (lh_num_buckets lh)
      in (b, chain_position (\<lambda>d. cmp_key key d = 0) (lh_buckets lh ! b)))"

text \<open>What the pointer points to: NULL at the end of a chain.\<close>

definition ptr_item :: "('d, 'h, 'c) lhash_st \<Rightarrow> nat \<times> nat \<Rightarrow> 'd lhash_item option" where
  "ptr_item lh ptr =
     (let chain = lh_buckets lh ! fst ptr in if snd ptr < length chain then Some (chain ! snd ptr) else None)"

definition OPENSSL_lh_retrieve ::
  "('d, 'h) call_hash \<Rightarrow> ('d, 'c) call_lh_cmp \<Rightarrow> ('d, 'h, 'c) lhash_st \<Rightarrow> 'd \<Rightarrow> 'd option" where
  "OPENSSL_lh_retrieve call_hash call_cmp lh data =
     map_option lhi_data (ptr_item lh (snd (get_next_ptr_and_hash call_hash call_cmp lh data)))"

definition OPENSSL_lh_retrieve_key ::
  "('d, 'h, 'c) lhash_st \<Rightarrow> 'k \<Rightarrow> u32 \<Rightarrow> ('k \<Rightarrow> 'd \<Rightarrow> int) \<Rightarrow> 'd option" where
  "OPENSSL_lh_retrieve_key lh key key_hash cmp_key =
     map_option lhi_data (ptr_item lh (get_next_ptr_by_key lh key key_hash cmp_key))"

definition move_item :: "u64 \<Rightarrow> 'd lhash_item \<Rightarrow> 'd chain list \<Rightarrow> 'd chain list" where
  "move_item n cur new_buckets =
     (let b = bucket_of (lhi_hash cur) n in new_buckets[b := cur # new_buckets ! b])"

definition lh_rebucket :: "allocator \<Rightarrow> ('d, 'h, 'c) lhash_st \<Rightarrow> u64 \<Rightarrow> ('d, 'h, 'c) lhash_st" where
  "lh_rebucket al lh new_num_buckets =
     (let alloc_size = new_num_buckets * 8
      in if alloc_size div 8 \<noteq> new_num_buckets then lh
         else
           (case OPENSSL_malloc al alloc_size of
              None \<Rightarrow> lh
            | Some _ \<Rightarrow>
                lh\<lparr>lh_num_buckets := new_num_buckets,
                   lh_buckets := fold (fold (move_item new_num_buckets)) (lh_buckets lh)
                     (replicate (unat new_num_buckets) [])\<rparr>))"

definition lh_maybe_resize :: "allocator \<Rightarrow> ('d, 'h, 'c) lhash_st \<Rightarrow> ('d, 'h, 'c) lhash_st" where
  "lh_maybe_resize al lh =
     (if lh_callback_depth lh > 0 then lh
      else
        let avg_chain_length = lh_num_items lh div lh_num_buckets lh
        in if avg_chain_length > kMaxAverageChainLength then
             let new_num_buckets = lh_num_buckets lh * 2
             in if new_num_buckets > lh_num_buckets lh then lh_rebucket al lh new_num_buckets else lh
           else if avg_chain_length < kMinAverageChainLength \<and> lh_num_buckets lh > kMinNumBuckets then
             let new_num_buckets = lh_num_buckets lh div 2;
                 new_num_buckets = (if new_num_buckets < kMinNumBuckets then kMinNumBuckets else new_num_buckets)
             in lh_rebucket al lh new_num_buckets
           else lh)"

definition set_chain :: "nat \<Rightarrow> 'd chain \<Rightarrow> ('d, 'h, 'c) lhash_st \<Rightarrow> ('d, 'h, 'c) lhash_st" where
  "set_chain b chain lh = lh\<lparr>lh_buckets := (lh_buckets lh)[b := chain]\<rparr>"

text \<open>The result, what \<open>*old_data\<close> is set to, and the table.\<close>

definition OPENSSL_lh_insert ::
  "allocator \<Rightarrow> ('d, 'h) call_hash \<Rightarrow> ('d, 'c) call_lh_cmp \<Rightarrow> ('d, 'h, 'c) lhash_st \<Rightarrow> 'd \<Rightarrow>
     bool \<times> 'd option \<times> ('d, 'h, 'c) lhash_st" where
  "OPENSSL_lh_insert al call_hash call_cmp lh data =
     (case get_next_ptr_and_hash call_hash call_cmp lh data of (hash, b, i) \<Rightarrow>
        (case ptr_item lh (b, i) of
           Some item \<Rightarrow>
             (True, Some (lhi_data item),
              set_chain b ((lh_buckets lh ! b)[i := item\<lparr>lhi_data := data\<rparr>]) lh)
         | None \<Rightarrow>
             (case OPENSSL_malloc al 24 of
                None \<Rightarrow> (False, None, lh)
              | Some _ \<Rightarrow>
                  let lh = set_chain b (lh_buckets lh ! b @ [\<lparr>lhi_data = data, lhi_hash = hash\<rparr>]) lh;
                      lh = lh\<lparr>lh_num_items := lh_num_items lh + 1\<rparr>
                  in (True, None, lh_maybe_resize al lh))))"

definition OPENSSL_lh_delete ::
  "allocator \<Rightarrow> ('d, 'h) call_hash \<Rightarrow> ('d, 'c) call_lh_cmp \<Rightarrow> ('d, 'h, 'c) lhash_st \<Rightarrow> 'd \<Rightarrow>
     'd option \<times> ('d, 'h, 'c) lhash_st" where
  "OPENSSL_lh_delete al call_hash call_cmp lh data =
     (case get_next_ptr_and_hash call_hash call_cmp lh data of (hash, b, i) \<Rightarrow>
        (case ptr_item lh (b, i) of
           None \<Rightarrow> (None, lh)
         | Some item \<Rightarrow>
             let chain = lh_buckets lh ! b;
                 lh = set_chain b (take i chain @ drop (i + 1) chain) lh;
                 lh = lh\<lparr>lh_num_items := lh_num_items lh - 1\<rparr>
             in (Some (lhi_data item), lh_maybe_resize al lh)))"

text \<open>The callback acts on its argument only; a callback that changes the table is not represented.\<close>

definition OPENSSL_lh_doall_arg ::
  "allocator \<Rightarrow> ('d, 'h, 'c) lhash_st \<Rightarrow> ('d \<Rightarrow> 'a \<Rightarrow> 'a) \<Rightarrow> 'a \<Rightarrow> 'a \<times> ('d, 'h, 'c) lhash_st" where
  "OPENSSL_lh_doall_arg al lh func arg =
     (let uint_max = (-1 :: u32);
          lh = (if lh_callback_depth lh < uint_max then lh\<lparr>lh_callback_depth := lh_callback_depth lh + 1\<rparr> else lh);
          arg = fold (fold (\<lambda>cur. func (lhi_data cur))) (lh_buckets lh) arg;
          lh = (if lh_callback_depth lh < uint_max then lh\<lparr>lh_callback_depth := lh_callback_depth lh - 1\<rparr> else lh)
      in (arg, lh_maybe_resize al lh))"

section \<open>Well-formed tables\<close>

text \<open>The contract of the two callbacks.\<close>

locale hashing =
  fixes hash :: "'d \<Rightarrow> u32" and cmp :: "'d \<Rightarrow> 'd \<Rightarrow> int"
  assumes eq_refl: "cmp x x = 0"
    and eq_sym: "cmp x y = 0 \<Longrightarrow> cmp y x = 0"
    and eq_trans: "cmp x y = 0 \<Longrightarrow> cmp y z = 0 \<Longrightarrow> cmp x z = 0"
    and hash_eq: "cmp x y = 0 \<Longrightarrow> hash x = hash y"

definition chain_items :: "'d chain list \<Rightarrow> 'd lhash_item multiset" where
  "chain_items bs = mset (concat bs)"

definition lh_items :: "('d, 'h, 'c) lhash_st \<Rightarrow> 'd lhash_item multiset" where
  "lh_items lh = chain_items (lh_buckets lh)"

definition lh_contents :: "('d, 'h, 'c) lhash_st \<Rightarrow> 'd multiset" where
  "lh_contents lh = image_mset lhi_data (lh_items lh)"

definition buckets_ok :: "u64 \<Rightarrow> 'd chain list \<Rightarrow> bool" where
  "buckets_ok n bs \<longleftrightarrow> length bs = unat n \<and>
     (\<forall>b < length bs. \<forall>it \<in> set (bs ! b). bucket_of (lhi_hash it) n = b)"

definition unique_up_to :: "('d \<Rightarrow> 'd \<Rightarrow> int) \<Rightarrow> 'd multiset \<Rightarrow> bool" where
  "unique_up_to cmp M \<longleftrightarrow> (\<forall>x. size {#d \<in># M. cmp d x = 0#} \<le> 1)"

definition lh_ok :: "('d \<Rightarrow> u32) \<Rightarrow> ('d \<Rightarrow> 'd \<Rightarrow> int) \<Rightarrow> ('d, 'h, 'c) lhash_st \<Rightarrow> bool" where
  "lh_ok hash cmp lh \<longleftrightarrow>
     kMinNumBuckets \<le> lh_num_buckets lh \<and> buckets_ok (lh_num_buckets lh) (lh_buckets lh) \<and>
     (\<forall>it \<in># lh_items lh. lhi_hash it = hash (lhi_data it)) \<and>
     unique_up_to cmp (lh_contents lh) \<and> lh_num_items lh = of_nat (size (lh_items lh))"

lemma bucket_of_less: "kMinNumBuckets \<le> n \<Longrightarrow> bucket_of h n < unat n"
  by (auto simp: bucket_of_def unat_mod kMinNumBuckets_def word_le_nat_alt)

text \<open>Everything but bucket \<open>b\<close>.\<close>

definition other_items :: "nat \<Rightarrow> 'd chain list \<Rightarrow> 'd lhash_item multiset" where
  "other_items b bs = chain_items (take b bs) + chain_items (drop (Suc b) bs)"

lemma chain_items_update:
  assumes "b < length bs"
  shows "chain_items (bs[b := ch]) = mset ch + other_items b bs"
    and "chain_items bs = mset (bs ! b) + other_items b bs"
proof -
  show "chain_items (bs[b := ch]) = mset ch + other_items b bs"
    using assms by (simp add: chain_items_def other_items_def upd_conv_take_nth_drop)
  have "bs = take b bs @ bs ! b # drop (Suc b) bs" using assms by (rule id_take_nth_drop)
  then have "chain_items bs = chain_items (take b bs @ bs ! b # drop (Suc b) bs)" by (rule arg_cong)
  then show "chain_items bs = mset (bs ! b) + other_items b bs"
    by (simp add: chain_items_def other_items_def)
qed

lemma move_item_ok:
  assumes "kMinNumBuckets \<le> n" and "buckets_ok n B"
  shows "buckets_ok n (move_item n it B) \<and> chain_items (move_item n it B) = add_mset it (chain_items B)"
proof -
  let ?b = "bucket_of (lhi_hash it) n"
  have b: "?b < length B" using bucket_of_less [OF assms(1)] assms(2) by (simp add: buckets_ok_def)
  have "chain_items (move_item n it B) = add_mset it (chain_items B)"
    unfolding move_item_def Let_def chain_items_update(1) [OF b] chain_items_update(2) [OF b] by simp
  moreover have "buckets_ok n (move_item n it B)"
    using assms(2) b by (auto simp: move_item_def Let_def buckets_ok_def nth_list_update)
  ultimately show ?thesis by simp
qed

lemma move_chain_ok:
  assumes "kMinNumBuckets \<le> n"
  shows "buckets_ok n B \<Longrightarrow> buckets_ok n (fold (move_item n) its B) \<and>
    chain_items (fold (move_item n) its B) = mset its + chain_items B"
proof (induction its arbitrary: B)
  case (Cons it its)
  with Cons.IH [of "move_item n it B"] move_item_ok [OF assms Cons.prems, of it] show ?case by simp
qed simp

lemma move_all_ok:
  assumes "kMinNumBuckets \<le> n"
  shows "buckets_ok n B \<Longrightarrow> buckets_ok n (fold (fold (move_item n)) bs B) \<and>
    chain_items (fold (fold (move_item n)) bs B) = chain_items bs + chain_items B"
proof (induction bs arbitrary: B)
  case (Cons ch bs)
  have "chain_items (ch # bs) = mset ch + chain_items bs" by (simp add: chain_items_def)
  with Cons.IH [of "fold (move_item n) ch B"] move_chain_ok [OF assms Cons.prems, of ch]
  show ?case by (simp add: ac_simps)
qed (simp add: chain_items_def)

lemma rebucket_ok:
  assumes "lh_ok hash cmp lh" and "kMinNumBuckets \<le> n"
  shows "lh_ok hash cmp (lh_rebucket al lh n) \<and> lh_items (lh_rebucket al lh n) = lh_items lh"
proof -
  let ?B = "replicate (unat n) []"
  have B: "buckets_ok n ?B" "chain_items ?B = {#}" by (simp_all add: buckets_ok_def chain_items_def)
  from move_all_ok [OF assms(2) B(1), of "lh_buckets lh"] B(2) show ?thesis using assms
    by (auto simp: lh_rebucket_def Let_def lh_ok_def lh_items_def lh_contents_def split: option.splits)
qed

lemma maybe_resize_ok:
  assumes "lh_ok hash cmp lh"
  shows "lh_ok hash cmp (lh_maybe_resize al lh) \<and> lh_items (lh_maybe_resize al lh) = lh_items lh"
  using assms rebucket_ok [OF assms]
  by (auto simp: lh_maybe_resize_def Let_def lh_ok_def not_less intro: order_trans)

section \<open>Positions in a chain\<close>

lemma chain_position_found:
  "chain_position P ch < length ch \<Longrightarrow> P (lhi_data (ch ! chain_position P ch))"
  by (induction ch) auto

lemma chain_position_none:
  "\<not> chain_position P ch < length ch \<longleftrightarrow> (\<forall>it \<in> set ch. \<not> P (lhi_data it))"
  by (induction ch) auto

section \<open>The operations on the contents\<close>

lemma unique_partition:
  assumes "unique_up_to cmp M" and "d \<in># M" and "cmp d x = 0"
  shows "M = add_mset d {#e \<in># M. cmp e x \<noteq> 0#}"
proof -
  have "d \<in># {#e \<in># M. cmp e x = 0#}" using assms(2,3) by simp
  then obtain N where N: "{#e \<in># M. cmp e x = 0#} = add_mset d N" by (metis mset_add)
  moreover have "size {#e \<in># M. cmp e x = 0#} \<le> 1" using assms(1) by (simp add: unique_up_to_def)
  ultimately have "{#e \<in># M. cmp e x = 0#} = {#d#}" by simp
  then show ?thesis using multiset_partition [of M "\<lambda>e. cmp e x = 0"] by simp
qed

lemma unique_match:
  assumes "unique_up_to cmp M" and "d \<in># M" and "cmp d x = 0" and "e \<in># M" and "cmp e x = 0"
  shows "d = e"
proof -
  have "M = add_mset d {#e \<in># M. cmp e x \<noteq> 0#}" using assms(1-3) by (rule unique_partition)
  then have "e = d \<or> e \<in># {#e \<in># M. cmp e x \<noteq> 0#}" using assms(4) by (metis insert_iff set_mset_add_mset_insert)
  then show ?thesis using assms(5) by auto
qed

lemma unique_mono: "unique_up_to cmp M \<Longrightarrow> unique_up_to cmp {#e \<in># M. P e#}"
  unfolding unique_up_to_def
proof
  fix x assume u: "\<forall>x. size {#d \<in># M. cmp d x = 0#} \<le> 1"
  have "{#d \<in># {#e \<in># M. P e#}. cmp d x = 0#} \<subseteq># {#d \<in># M. cmp d x = 0#}"
    by (simp add: multiset_filter_mono)
  from size_mset_mono [OF this] show "size {#d \<in># {#e \<in># M. P e#}. cmp d x = 0#} \<le> 1" using u order_trans by blast
qed

text \<open>Where an item lies: in the bucket of its hash.\<close>

lemma item_in_bucket:
  assumes "buckets_ok n bs" and "it \<in># chain_items bs"
  shows "it \<in> set (bs ! bucket_of (lhi_hash it) n)"
proof -
  obtain b where "b < length bs" "it \<in> set (bs ! b)"
    using assms(2) by (auto simp: chain_items_def) (metis in_set_conv_nth)
  with assms(1) show ?thesis by (auto simp: buckets_ok_def)
qed

definition belongs :: "('d \<Rightarrow> u32) \<Rightarrow> u64 \<Rightarrow> nat \<Rightarrow> 'd lhash_item \<Rightarrow> bool" where
  "belongs hash n b it \<longleftrightarrow> bucket_of (lhi_hash it) n = b \<and> lhi_hash it = hash (lhi_data it)"

lemma bucket_in_items: "b < length bs \<Longrightarrow> it \<in> set (bs ! b) \<Longrightarrow> it \<in># chain_items bs"
  by (auto simp: chain_items_def)

context hashing
begin

lemma unique_add: "unique_up_to cmp M \<Longrightarrow> unique_up_to cmp (add_mset x {#e \<in># M. cmp e x \<noteq> 0#})"
proof -
  assume u: "unique_up_to cmp M"
  have "size {#d \<in># add_mset x {#e \<in># M. cmp e x \<noteq> 0#}. cmp d y = 0#} \<le> 1" for y
  proof (cases "cmp x y = 0")
    case True
    then have "\<not> (cmp d x \<noteq> 0 \<and> cmp d y = 0)" for d using eq_trans eq_sym by blast
    then have "{#d \<in># {#e \<in># M. cmp e x \<noteq> 0#}. cmp d y = 0#} = {#}" by (simp add: filter_filter_mset conj_commute)
    then show ?thesis using True by simp
  next
    case False
    then show ?thesis using unique_mono [OF u] by (simp add: unique_up_to_def)
  qed
  then show ?thesis by (simp add: unique_up_to_def)
qed

text \<open>The search of one chain decides for the whole table.\<close>

lemma search_found:
  assumes "lh_ok hash cmp lh" and "b = bucket_of (hash x) (lh_num_buckets lh)"
    and "i = chain_position (\<lambda>d. cmp d x = 0) (lh_buckets lh ! b)" and "i < length (lh_buckets lh ! b)"
  shows "lh_buckets lh ! b ! i \<in># lh_items lh" and "cmp (lhi_data (lh_buckets lh ! b ! i)) x = 0"
proof -
  have "b < length (lh_buckets lh)" using assms(1,2) bucket_of_less by (auto simp: lh_ok_def buckets_ok_def)
  then show "lh_buckets lh ! b ! i \<in># lh_items lh" using assms(4) by (simp add: lh_items_def bucket_in_items)
  show "cmp (lhi_data (lh_buckets lh ! b ! i)) x = 0" using chain_position_found [of "\<lambda>d. cmp d x = 0" "lh_buckets lh ! b"] assms(3,4) by simp
qed

lemma search_none:
  assumes "lh_ok hash cmp lh" and "b = bucket_of (hash x) (lh_num_buckets lh)"
    and "\<not> chain_position (\<lambda>d. cmp d x = 0) (lh_buckets lh ! b) < length (lh_buckets lh ! b)"
    and "d \<in># lh_contents lh"
  shows "cmp d x \<noteq> 0"
proof
  assume "cmp d x = 0"
  obtain it where it: "it \<in># lh_items lh" "d = lhi_data it" using assms(4) by (auto simp: lh_contents_def)
  then have "lhi_hash it = hash d" using assms(1) by (simp add: lh_ok_def)
  then have "lhi_hash it = hash x" using hash_eq \<open>cmp d x = 0\<close> by simp
  then have "it \<in> set (lh_buckets lh ! b)"
    using item_in_bucket [of "lh_num_buckets lh" "lh_buckets lh" it] it assms(1,2) by (simp add: lh_ok_def lh_items_def)
  then show False using assms(3) chain_position_none [of "\<lambda>d. cmp d x = 0" "lh_buckets lh ! b"] it(2) \<open>cmp d x = 0\<close>
    by simp
qed

lemma retrieve_iff:
  assumes "lh_ok hash cmp lh" and "call_hash (lh_hash lh) = hash" and "call_cmp (lh_comp lh) = cmp"
  shows "OPENSSL_lh_retrieve call_hash call_cmp lh x = Some d \<longleftrightarrow> d \<in># lh_contents lh \<and> cmp d x = 0"
proof -
  let ?b = "bucket_of (hash x) (lh_num_buckets lh)"
  let ?i = "chain_position (\<lambda>d. cmp d x = 0) (lh_buckets lh ! ?b)"
  have r: "OPENSSL_lh_retrieve call_hash call_cmp lh x =
      (if ?i < length (lh_buckets lh ! ?b) then Some (lhi_data (lh_buckets lh ! ?b ! ?i)) else None)"
    by (simp add: OPENSSL_lh_retrieve_def get_next_ptr_and_hash_def assms(2,3) Let_def ptr_item_def)
  have u: "unique_up_to cmp (lh_contents lh)" using assms(1) by (simp add: lh_ok_def)
  show ?thesis
  proof (cases "?i < length (lh_buckets lh ! ?b)")
    case True
    note f = search_found [OF assms(1) refl refl True]
    then have "lhi_data (lh_buckets lh ! ?b ! ?i) \<in># lh_contents lh" by (simp add: lh_contents_def)
    then show ?thesis using r True f(2) unique_match [OF u] by auto
  qed (use r search_none [OF assms(1) refl] in auto)
qed

lemma chain_belongs:
  assumes "lh_ok hash cmp lh" and "b < length (lh_buckets lh)" and "it \<in> set (lh_buckets lh ! b)"
  shows "belongs hash (lh_num_buckets lh) b it"
  unfolding belongs_def
proof (rule conjI)
  show "bucket_of (lhi_hash it) (lh_num_buckets lh) = b" using assms by (auto simp: lh_ok_def buckets_ok_def)
  show "lhi_hash it = hash (lhi_data it)"
    using assms(1) bucket_in_items [OF assms(2,3)] by (auto simp: lh_ok_def lh_items_def)
qed

lemma belongs_new: "belongs hash n (bucket_of (hash x) n) \<lparr>lhi_data = x, lhi_hash = hash x\<rparr>"
  by (simp add: belongs_def)

text \<open>Replacing one chain keeps a table well-formed if the new chain belongs there.\<close>

lemma set_chain_ok:
  assumes "lh_ok hash cmp lh" and "b < length (lh_buckets lh)"
    and "\<forall>it \<in> set ch. belongs hash (lh_num_buckets lh) b it"
    and "n = of_nat (size (mset ch + other_items b (lh_buckets lh)))"
    and "unique_up_to cmp (image_mset lhi_data (mset ch + other_items b (lh_buckets lh)))"
  shows "lh_ok hash cmp ((set_chain b ch lh)\<lparr>lh_num_items := n\<rparr>) \<and>
    lh_items ((set_chain b ch lh)\<lparr>lh_num_items := n\<rparr>) = mset ch + other_items b (lh_buckets lh)"
proof -
  have items: "lh_items ((set_chain b ch lh)\<lparr>lh_num_items := n\<rparr>) = mset ch + other_items b (lh_buckets lh)"
    using assms(2) by (simp add: lh_items_def set_chain_def chain_items_update(1))
  have "lh_items lh = mset (lh_buckets lh ! b) + other_items b (lh_buckets lh)"
    using assms(2) by (simp add: lh_items_def chain_items_update(2) [symmetric])
  then have "\<forall>it \<in># mset ch + other_items b (lh_buckets lh). lhi_hash it = hash (lhi_data it)"
    using assms(1,3) by (auto simp: lh_ok_def belongs_def)
  moreover have "buckets_ok (lh_num_buckets lh) ((lh_buckets lh)[b := ch])"
    using assms(1-3) by (auto simp: lh_ok_def buckets_ok_def belongs_def nth_list_update)
  ultimately show ?thesis
    using assms(1,4,5) items by (simp add: lh_ok_def lh_contents_def set_chain_def)
qed

lemma delete_ok:
  assumes "lh_ok hash cmp lh" and "call_hash (lh_hash lh) = hash" and "call_cmp (lh_comp lh) = cmp"
    and "OPENSSL_lh_delete al call_hash call_cmp lh x = (r, lh')"
  shows "lh_ok hash cmp lh' \<and> lh_contents lh' = {#e \<in># lh_contents lh. cmp e x \<noteq> 0#} \<and>
    (\<forall>d. r = Some d \<longleftrightarrow> d \<in># lh_contents lh \<and> cmp d x = 0)"
proof -
  let ?b = "bucket_of (hash x) (lh_num_buckets lh)"
  let ?ch = "lh_buckets lh ! ?b"
  let ?i = "chain_position (\<lambda>d. cmp d x = 0) ?ch"
  have u: "unique_up_to cmp (lh_contents lh)" using assms(1) by (simp add: lh_ok_def)
  have b: "?b < length (lh_buckets lh)" using assms(1) bucket_of_less by (auto simp: lh_ok_def buckets_ok_def)
  show ?thesis
  proof (cases "?i < length ?ch")
    case False
    then have "r = None \<and> lh' = lh"
      using assms(2-4) by (simp add: OPENSSL_lh_delete_def get_next_ptr_and_hash_def Let_def ptr_item_def)
    moreover have "\<forall>e \<in># lh_contents lh. cmp e x \<noteq> 0" using search_none [OF assms(1) refl False] by blast
    then have "{#e \<in># lh_contents lh. cmp e x \<noteq> 0#} = lh_contents lh" by (simp add: filter_mset_eq_conv)
    ultimately show ?thesis using assms(1) \<open>\<forall>e \<in># lh_contents lh. cmp e x \<noteq> 0\<close> by auto
  next
    case True
    note f = search_found [OF assms(1) refl refl True]
    let ?it = "?ch ! ?i" and ?ch' = "take ?i ?ch @ drop (?i + 1) ?ch"
    have split: "mset ?ch = add_mset ?it (mset ?ch')"
      using True by (metis Suc_eq_plus1 id_take_nth_drop mset.simps(2) mset_append union_mset_add_mset_right)
    have items: "lh_items lh = add_mset ?it (mset ?ch' + other_items ?b (lh_buckets lh))"
      using b split by (simp add: lh_items_def chain_items_update(2))
    have d: "lhi_data ?it \<in># lh_contents lh" using f(1) by (simp add: lh_contents_def)
    have c': "image_mset lhi_data (mset ?ch' + other_items ?b (lh_buckets lh)) = {#e \<in># lh_contents lh. cmp e x \<noteq> 0#}"
      using unique_partition [OF u d f(2)] items by (simp add: lh_contents_def)
    let ?lh = "(set_chain ?b ?ch' lh)\<lparr>lh_num_items := lh_num_items lh - 1\<rparr>"
    have "set ?ch' \<subseteq> set ?ch" using set_take_subset [of ?i ?ch] set_drop_subset [of "?i + 1" ?ch] by auto
    then have mem: "\<forall>it \<in> set ?ch'. belongs hash (lh_num_buckets lh) ?b it"
      using chain_belongs [OF assms(1) b] by blast
    have n: "lh_num_items lh - 1 = of_nat (size (mset ?ch' + other_items ?b (lh_buckets lh)))"
      using assms(1) items by (simp add: lh_ok_def)
    note ok = set_chain_ok [OF assms(1) b mem n, unfolded c', OF unique_mono [OF u]]
    have "lh' = lh_maybe_resize al ?lh" "r = Some (lhi_data ?it)"
      using assms(2-4) True
      by (simp_all add: OPENSSL_lh_delete_def get_next_ptr_and_hash_def Let_def ptr_item_def set_chain_def)
    then show ?thesis
      using maybe_resize_ok [OF conjunct1 [OF ok], of al] conjunct2 [OF ok] c' d f(2) unique_match [OF u]
      by (auto simp: lh_contents_def)
  qed
qed

lemma insert_ok:
  assumes "lh_ok hash cmp lh" and "call_hash (lh_hash lh) = hash" and "call_cmp (lh_comp lh) = cmp"
    and "OPENSSL_lh_insert al call_hash call_cmp lh x = (r, old, lh')"
  shows "lh_ok hash cmp lh' \<and> (\<forall>d. old = Some d \<longleftrightarrow> d \<in># lh_contents lh \<and> cmp d x = 0) \<and>
    (if r then lh_contents lh' = add_mset x {#e \<in># lh_contents lh. cmp e x \<noteq> 0#}
     else lh' = lh \<and> old = None \<and> OPENSSL_malloc al 24 = None)"
proof -
  let ?b = "bucket_of (hash x) (lh_num_buckets lh)"
  let ?ch = "lh_buckets lh ! ?b"
  let ?i = "chain_position (\<lambda>d. cmp d x = 0) ?ch"
  have u: "unique_up_to cmp (lh_contents lh)" using assms(1) by (simp add: lh_ok_def)
  have b: "?b < length (lh_buckets lh)" using assms(1) bucket_of_less by (auto simp: lh_ok_def buckets_ok_def)
  have mem: "\<forall>it \<in> set ?ch. belongs hash (lh_num_buckets lh) ?b it"
    using chain_belongs [OF assms(1) b] by blast
  have items: "lh_items lh = mset ?ch + other_items ?b (lh_buckets lh)"
    using b by (simp add: lh_items_def chain_items_update(2))
  show ?thesis
  proof (cases "?i < length ?ch")
    case False
    have none: "\<forall>e \<in># lh_contents lh. cmp e x \<noteq> 0" using search_none [OF assms(1) refl False] by blast
    then have same: "{#e \<in># lh_contents lh. cmp e x \<noteq> 0#} = lh_contents lh" by (simp add: filter_mset_eq_conv)
    show ?thesis
    proof (cases "OPENSSL_malloc al 24")
      case None
      then have "\<not> r \<and> old = None \<and> lh' = lh"
        using assms(2-4) False by (simp add: OPENSSL_lh_insert_def get_next_ptr_and_hash_def Let_def ptr_item_def)
      then show ?thesis using assms(1) none None by auto
    next
      case (Some blk)
      let ?new = "\<lparr>lhi_data = x, lhi_hash = hash x\<rparr>"
      let ?lh = "(set_chain ?b (?ch @ [?new]) lh)\<lparr>lh_num_items := lh_num_items lh + 1\<rparr>"
      have c': "image_mset lhi_data (mset (?ch @ [?new]) + other_items ?b (lh_buckets lh)) = add_mset x (lh_contents lh)"
        using items by (simp add: lh_contents_def)
      have n: "lh_num_items lh + 1 = of_nat (size (mset (?ch @ [?new]) + other_items ?b (lh_buckets lh)))"
        using assms(1) items by (simp add: lh_ok_def)
      have u': "unique_up_to cmp (add_mset x (lh_contents lh))" using unique_add [OF u, of x] same by simp
      have mem': "\<forall>it \<in> set (?ch @ [?new]). belongs hash (lh_num_buckets lh) ?b it"
        using mem by (simp add: belongs_new)
      note ok = set_chain_ok [OF assms(1) b mem' n, unfolded c', OF u']
      have "lh' = lh_maybe_resize al ?lh" "r" "old = None"
        using assms(2-4) False Some
        by (simp_all add: OPENSSL_lh_insert_def get_next_ptr_and_hash_def Let_def ptr_item_def set_chain_def)
      then show ?thesis
        using maybe_resize_ok [OF conjunct1 [OF ok], of al] conjunct2 [OF ok] c' none same
        by (auto simp: lh_contents_def)
    qed
  next
    case True
    note f = search_found [OF assms(1) refl refl True]
    let ?it = "?ch ! ?i" and ?ch' = "?ch[?i := (?ch ! ?i)\<lparr>lhi_data := x\<rparr>]"
    have d: "lhi_data ?it \<in># lh_contents lh" using f(1) by (simp add: lh_contents_def)
    have split: "mset ?ch = add_mset ?it (mset ?ch - {#?it#})" using True by simp
    then have "lh_items lh = add_mset ?it ((mset ?ch - {#?it#}) + other_items ?b (lh_buckets lh))"
      using items by (metis union_mset_add_mset_left)
    then have rest: "image_mset lhi_data ((mset ?ch - {#?it#}) + other_items ?b (lh_buckets lh)) = {#e \<in># lh_contents lh. cmp e x \<noteq> 0#}"
      using unique_partition [OF u d f(2)] by (simp add: lh_contents_def)
    have upd: "mset ?ch' = add_mset (?it\<lparr>lhi_data := x\<rparr>) (mset ?ch - {#?it#})" using True by (simp add: mset_update)
    have c': "image_mset lhi_data (mset ?ch' + other_items ?b (lh_buckets lh)) = add_mset x {#e \<in># lh_contents lh. cmp e x \<noteq> 0#}"
      using rest upd by simp
    have "size (mset ?ch') = size (mset ?ch)" by simp
    then have n: "lh_num_items lh = of_nat (size (mset ?ch' + other_items ?b (lh_buckets lh)))"
      using assms(1) items by (simp add: lh_ok_def)
    have "belongs hash (lh_num_buckets lh) ?b (?it\<lparr>lhi_data := x\<rparr>)"
      using f(2) mem True hash_eq nth_mem [OF True] by (auto simp: belongs_def)
    then have mem': "\<forall>it \<in> set ?ch'. belongs hash (lh_num_buckets lh) ?b it"
      using mem set_update_subset_insert [of ?ch ?i "?it\<lparr>lhi_data := x\<rparr>"] by auto
    note ok = set_chain_ok [OF assms(1) b mem' n, unfolded c', OF unique_add [OF u]]
    have "lh' = (set_chain ?b ?ch' lh)\<lparr>lh_num_items := lh_num_items lh\<rparr>" "r" "old = Some (lhi_data ?it)"
      using assms(2-4) True
      by (auto simp: OPENSSL_lh_insert_def get_next_ptr_and_hash_def Let_def ptr_item_def set_chain_def)
    then show ?thesis using ok c' d f(2) unique_match [OF u] by (auto simp: lh_contents_def)
  qed
qed

text \<open>What a table stands for: the partial function from keys to the stored value.\<close>

lemma option_eqI: "(\<And>d. a = Some d \<longleftrightarrow> b = Some d) \<Longrightarrow> a = b"
  by (cases a) (auto, metis not_Some_eq)

lemma retrieve_after:
  assumes "lh_ok hash cmp lh" and "call_hash (lh_hash lh) = hash" and "call_cmp (lh_comp lh) = cmp"
    and "lh_ok hash cmp lh'" and "call_hash (lh_hash lh') = hash" and "call_cmp (lh_comp lh') = cmp"
    and "lh_contents lh' = M + {#e \<in># lh_contents lh. cmp e x \<noteq> 0#}" and "M = {#} \<and> r = None \<or> M = {#x#} \<and> r = Some x"
  shows "OPENSSL_lh_retrieve call_hash call_cmp lh' = (\<lambda>y. if cmp x y = 0 then r else OPENSSL_lh_retrieve call_hash call_cmp lh y)"
proof (rule ext, rule option_eqI)
  fix y d
  have "cmp x y = 0 \<Longrightarrow> cmp d y = 0 \<Longrightarrow> cmp d x = 0" "cmp x y \<noteq> 0 \<Longrightarrow> cmp d y = 0 \<Longrightarrow> cmp d x \<noteq> 0"
    using eq_sym eq_trans by blast+
  then show "OPENSSL_lh_retrieve call_hash call_cmp lh' y = Some d \<longleftrightarrow>
      (if cmp x y = 0 then r else OPENSSL_lh_retrieve call_hash call_cmp lh y) = Some d"
    using assms(7,8) by (auto simp: retrieve_iff [where call_hash = call_hash and call_cmp = call_cmp, OF assms(1-3)] retrieve_iff [where call_hash = call_hash and call_cmp = call_cmp, OF assms(4-6)] eq_refl)
qed

lemma retrieve_eq:
  assumes "lh_ok hash cmp lh" and "call_hash (lh_hash lh) = hash" and "call_cmp (lh_comp lh) = cmp"
    and "\<forall>d. r = Some d \<longleftrightarrow> d \<in># lh_contents lh \<and> cmp d x = 0"
  shows "r = OPENSSL_lh_retrieve call_hash call_cmp lh x"
  using assms(4) by (intro option_eqI) (simp add: retrieve_iff [where call_hash = call_hash and call_cmp = call_cmp, OF assms(1-3)])

end

text \<open>Only the values of the callbacks on stored elements matter.\<close>

lemma unique_up_to_stored:
  assumes "hashing hash cmp"
  shows "unique_up_to cmp M \<longleftrightarrow> (\<forall>x \<in># M. size {#d \<in># M. cmp d x = 0#} \<le> 1)"
proof
  assume all: "\<forall>x \<in># M. size {#d \<in># M. cmp d x = 0#} \<le> 1"
  have "size {#d \<in># M. cmp d x = 0#} \<le> 1" for x
  proof (cases "{#d \<in># M. cmp d x = 0#} = {#}")
    case True
    then have "size {#d \<in># M. cmp d x = 0#} = 0" by (simp only: size_empty)
    then show ?thesis by linarith
  next
    case False
    then obtain y where y: "y \<in># M" "cmp y x = 0" by (auto dest: multiset_nonemptyE)
    then have "cmp d x = 0 \<longleftrightarrow> cmp d y = 0" for d
      using hashing.eq_trans [OF assms] hashing.eq_sym [OF assms] by blast
    then show ?thesis using all y(1) by simp
  qed
  then show "unique_up_to cmp M" by (simp add: unique_up_to_def)
qed (simp add: unique_up_to_def)

lemma lh_ok_cong:
  assumes "hashing hash cmp" and "hashing hash' cmp'"
    and "\<And>d. d \<in># lh_contents lh \<Longrightarrow> hash' d = hash d"
    and "\<And>d e. d \<in># lh_contents lh \<Longrightarrow> e \<in># lh_contents lh \<Longrightarrow> cmp' d e = 0 \<longleftrightarrow> cmp d e = 0"
    and "lh_ok hash cmp lh"
  shows "lh_ok hash' cmp' lh"
proof -
  have "{#d \<in># lh_contents lh. cmp' d x = 0#} = {#d \<in># lh_contents lh. cmp d x = 0#}" if "x \<in># lh_contents lh" for x
    using assms(4) that by (intro filter_mset_cong) auto
  then have "unique_up_to cmp' (lh_contents lh)"
    using assms(5) unfolding unique_up_to_stored [OF assms(1)] unique_up_to_stored [OF assms(2)] lh_ok_def by simp
  moreover have "\<forall>it \<in># lh_items lh. lhi_hash it = hash' (lhi_data it)"
    using assms(3,5) by (auto simp: lh_ok_def lh_contents_def)
  ultimately show ?thesis using assms(5) by (simp add: lh_ok_def)
qed

section \<open>Calls and what they denote\<close>

datatype 'd lh_cmd = Lh_Insert 'd | Lh_Delete 'd | Lh_Retrieve 'd

fun lh_exec ::
  "allocator \<Rightarrow> ('d, 'h) call_hash \<Rightarrow> ('d, 'c) call_lh_cmp \<Rightarrow> 'd lh_cmd \<Rightarrow> ('d, 'h, 'c) lhash_st \<Rightarrow>
     (bool \<times> 'd option) \<times> ('d, 'h, 'c) lhash_st" where
  "lh_exec al ch cc (Lh_Insert x) lh = (case OPENSSL_lh_insert al ch cc lh x of (r, old, lh) \<Rightarrow> ((r, old), lh))"
| "lh_exec al ch cc (Lh_Delete x) lh = (case OPENSSL_lh_delete al ch cc lh x of (r, lh) \<Rightarrow> ((True, r), lh))"
| "lh_exec al ch cc (Lh_Retrieve x) lh = ((True, OPENSSL_lh_retrieve ch cc lh x), lh)"

fun lh_run ::
  "allocator \<Rightarrow> ('d, 'h) call_hash \<Rightarrow> ('d, 'c) call_lh_cmp \<Rightarrow> 'd lh_cmd list \<Rightarrow> ('d, 'h, 'c) lhash_st \<Rightarrow>
     (bool \<times> 'd option) list \<times> ('d, 'h, 'c) lhash_st" where
  "lh_run al ch cc [] lh = ([], lh)"
| "lh_run al ch cc (c # cs) lh =
     (let (r, lh) = lh_exec al ch cc c lh; (rs, lh) = lh_run al ch cc cs lh in (r # rs, lh))"

text \<open>The same calls on a partial function; \<open>full\<close> says that no new item can be allocated.\<close>

fun map_exec :: "bool \<Rightarrow> ('d \<Rightarrow> 'd \<Rightarrow> int) \<Rightarrow> 'd lh_cmd \<Rightarrow> ('d \<Rightarrow> 'd option) \<Rightarrow> (bool \<times> 'd option) \<times> ('d \<Rightarrow> 'd option)" where
  "map_exec full cmp (Lh_Insert x) m =
     (if full \<and> m x = None then ((False, None), m)
      else ((True, m x), \<lambda>y. if cmp x y = 0 then Some x else m y))"
| "map_exec full cmp (Lh_Delete x) m = ((True, m x), \<lambda>y. if cmp x y = 0 then None else m y)"
| "map_exec full cmp (Lh_Retrieve x) m = ((True, m x), m)"

fun map_run :: "bool \<Rightarrow> ('d \<Rightarrow> 'd \<Rightarrow> int) \<Rightarrow> 'd lh_cmd list \<Rightarrow> ('d \<Rightarrow> 'd option) \<Rightarrow> (bool \<times> 'd option) list \<times> ('d \<Rightarrow> 'd option)" where
  "map_run full cmp [] m = ([], m)"
| "map_run full cmp (c # cs) m =
     (let (r, m) = map_exec full cmp c m; (rs, m) = map_run full cmp cs m in (r # rs, m))"

lemma rebucket_funs [simp]: "lh_hash (lh_rebucket al lh n) = lh_hash lh" "lh_comp (lh_rebucket al lh n) = lh_comp lh"
  by (auto simp: lh_rebucket_def Let_def split: option.splits)

lemma maybe_resize_funs [simp]: "lh_hash (lh_maybe_resize al lh) = lh_hash lh" "lh_comp (lh_maybe_resize al lh) = lh_comp lh"
  by (auto simp: lh_maybe_resize_def Let_def)

lemma exec_funs: "lh_exec al ch cc c lh = (r, lh') \<Longrightarrow> lh_hash lh' = lh_hash lh \<and> lh_comp lh' = lh_comp lh"
  by (cases c) (auto simp: OPENSSL_lh_insert_def OPENSSL_lh_delete_def set_chain_def Let_def split: prod.splits option.splits)

context hashing
begin

lemma exec_refines:
  assumes "lh_ok hash cmp lh" and f: "ch (lh_hash lh) = hash" "cc (lh_comp lh) = cmp"
    and e: "lh_exec al ch cc c lh = (r, lh')"
  shows "lh_ok hash cmp lh' \<and>
    map_exec (OPENSSL_malloc al 24 = None) cmp c (OPENSSL_lh_retrieve ch cc lh) = (r, OPENSSL_lh_retrieve ch cc lh')"
proof -
  have f': "ch (lh_hash lh') = hash" "cc (lh_comp lh') = cmp" using exec_funs [OF e] f by simp_all
  note eq = retrieve_eq [where call_hash = ch and call_cmp = cc, OF assms(1) f]
  note after = retrieve_after [where call_hash = ch and call_cmp = cc, OF assms(1) f _ f']
  show ?thesis
  proof (cases c)
    case (Lh_Insert x)
    obtain b old where i: "OPENSSL_lh_insert al ch cc lh x = (b, old, lh')" and r: "r = (b, old)"
      using e Lh_Insert by (auto split: prod.splits)
    note ok = insert_ok [where call_hash = ch and call_cmp = cc, OF assms(1) f i]
    have old: "old = OPENSSL_lh_retrieve ch cc lh x" using ok by (intro eq) blast
    show ?thesis
    proof (cases b)
      case True
      then have "lh_contents lh' = {#x#} + {#e \<in># lh_contents lh. cmp e x \<noteq> 0#}" using ok by simp
      note new = after [OF conjunct1 [OF ok] this, of "Some x", simplified]
      have "OPENSSL_malloc al 24 \<noteq> None \<or> old \<noteq> None"
        using i True by (auto simp: OPENSSL_lh_insert_def Let_def split: prod.splits option.splits)
      then show ?thesis using ok new r old True by (auto simp: Lh_Insert)
    next
      case False
      then show ?thesis using ok r old by (auto simp: Lh_Insert)
    qed
  next
    case (Lh_Delete x)
    obtain d where i: "OPENSSL_lh_delete al ch cc lh x = (d, lh')" and r: "r = (True, d)"
      using e Lh_Delete by (auto split: prod.splits)
    note ok = delete_ok [where call_hash = ch and call_cmp = cc, OF assms(1) f i]
    have "d = OPENSSL_lh_retrieve ch cc lh x" using ok by (intro eq) blast
    moreover have "lh_contents lh' = {#} + {#e \<in># lh_contents lh. cmp e x \<noteq> 0#}" using ok by simp
    note new = after [OF conjunct1 [OF ok] this, of None, simplified]
    ultimately show ?thesis using ok r by (auto simp: Lh_Delete)
  qed (use assms in auto)
qed

lemma run_refines:
  assumes "lh_ok hash cmp lh" and "ch (lh_hash lh) = hash" and "cc (lh_comp lh) = cmp"
    and "lh_run al ch cc cs lh = (rs, lh')"
  shows "lh_ok hash cmp lh' \<and>
    map_run (OPENSSL_malloc al 24 = None) cmp cs (OPENSSL_lh_retrieve ch cc lh) = (rs, OPENSSL_lh_retrieve ch cc lh')"
  using assms
proof (induction cs arbitrary: lh rs)
  case (Cons c cs)
  obtain r lh1 where e: "lh_exec al ch cc c lh = (r, lh1)" by fastforce
  obtain rs1 where run: "lh_run al ch cc cs lh1 = (rs1, lh')" "rs = r # rs1"
    using Cons.prems(4) e by (auto simp: Let_def split: prod.splits)
  note ok = exec_refines [OF Cons.prems(1-3) e]
  have "ch (lh_hash lh1) = hash" "cc (lh_comp lh1) = cmp" using exec_funs [OF e] Cons.prems(2,3) by simp_all
  from Cons.IH [OF conjunct1 [OF ok] this run(1)] ok run(2) show ?case by simp
qed simp

lemma new_ok:
  assumes "OPENSSL_lh_new al h cf = Some lh"
  shows "lh_ok hash cmp lh \<and> lh_hash lh = h \<and> lh_comp lh = cf \<and> lh_contents lh = {#}"
  using assms
  by (auto simp: OPENSSL_lh_new_def lh_ok_def buckets_ok_def lh_items_def lh_contents_def chain_items_def
      unique_up_to_def split: option.splits)

lemma empty_retrieve:
  assumes "OPENSSL_lh_new al h cf = Some lh"
  shows "OPENSSL_lh_retrieve ch cc lh = (\<lambda>_. None)"
proof -
  have "unat ((ucast k :: u64) mod 16) < 16" for k :: u32 by (simp add: unat_mod)
  then show ?thesis using assms
    by (auto simp: OPENSSL_lh_new_def OPENSSL_lh_retrieve_def get_next_ptr_and_hash_def ptr_item_def Let_def
        bucket_of_def kMinNumBuckets_def fun_eq_iff split: option.splits)
qed

end

text \<open>
  C11: A table made by \<open>OPENSSL_lh_new\<close> answers every sequence of insertions, deletions and lookups as
  a partial function on keys does, whatever resizing happened, provided its hash agrees with its
  comparison; an insertion fails only for a new key when no item can be allocated.
\<close>

theorem lh_refines_map:
  assumes "hashing (ch h) (cc cf)" and "OPENSSL_lh_new al h cf = Some lh" and "lh_run al ch cc cs lh = (rs, lh')"
  shows "map_run (OPENSSL_malloc al 24 = None) (cc cf) cs (\<lambda>_. None) = (rs, OPENSSL_lh_retrieve ch cc lh')"
  using hashing.run_refines [OF assms(1) _ _ _ assms(3)] hashing.new_ok [OF assms(1,2)]
    hashing.empty_retrieve [OF assms(1,2)]
  by simp

text \<open>
  Iteration with a callback that leaves the table alone calls it once for every stored element, and
  changes neither the contents nor the well-formedness of the table even when it resizes it at the end.
\<close>

lemma lh_doall_visits:
  assumes "lh_ok hash cmp lh" and "OPENSSL_lh_doall_arg al lh func arg = (arg', lh')"
  shows "lh_ok hash cmp lh' \<and> lh_contents lh' = lh_contents lh \<and>
    (\<exists>ds. mset ds = lh_contents lh \<and> arg' = fold func ds arg)"
proof -
  have visit: "fold (fold (\<lambda>cur. func (lhi_data cur))) bs arg = fold func (map lhi_data (concat bs)) arg" for bs
    by (induction bs arbitrary: arg) (simp_all add: fold_map comp_def)
  have "mset (map lhi_data (concat (lh_buckets lh))) = lh_contents lh"
    by (simp add: lh_contents_def lh_items_def chain_items_def flip: mset_map)
  moreover have "arg' = fold func (map lhi_data (concat (lh_buckets lh))) arg"
    using assms(2) by (auto simp: OPENSSL_lh_doall_arg_def Let_def visit)
  moreover define d where "d = lh_callback_depth lh"
  define k where "k = (if d < -1 \<and> \<not> d + 1 < -1 then d + 1 else d)"
  have "lh' = lh_maybe_resize al (lh\<lparr>lh_callback_depth := k\<rparr>)"
    using assms(2) by (cases "d < -1"; cases "d + 1 < -1") (auto simp: OPENSSL_lh_doall_arg_def Let_def k_def d_def)
  moreover have "lh_ok hash cmp (lh\<lparr>lh_callback_depth := k\<rparr>)" "lh_items (lh\<lparr>lh_callback_depth := k\<rparr>) = lh_items lh"
    using assms(1) by (simp_all add: lh_ok_def lh_items_def lh_contents_def)
  ultimately show ?thesis using maybe_resize_ok [of hash cmp "lh\<lparr>lh_callback_depth := k\<rparr>" al]
    by (intro conjI exI [of _ "map lhi_data (concat (lh_buckets lh))"]) (simp_all add: lh_contents_def)
qed

end
