(* ===== verification/Refcount.thy ===== *)
theory Refcount
  imports Prelude
begin

text \<open>
  crypto/refcount_lock.c: reference counts that saturate instead of wrapping around. Each function is
  one critical section of the code.
\<close>

definition CRYPTO_REFCOUNT_MAX :: u32 where
  "CRYPTO_REFCOUNT_MAX = 0xffffffff"

definition CRYPTO_refcount_inc :: "u32 \<Rightarrow> u32" where
  "CRYPTO_refcount_inc n = (if n < CRYPTO_REFCOUNT_MAX then n + 1 else n)"

text \<open>Nothing is returned when the code aborts.\<close>

definition CRYPTO_refcount_dec_and_test_zero :: "u32 \<Rightarrow> (bool \<times> u32) option" where
  "CRYPTO_refcount_dec_and_test_zero n =
     (if n = 0 then None
      else
        let m = (if n < CRYPTO_REFCOUNT_MAX then n - 1 else n)
        in Some (m = 0, m))"

end
