(* ===== verification/Pool.thy ===== *)
theory Pool
  imports Lhash Refcount
begin

text \<open>
  crypto/pool/pool.c with the reference counts of \<open>Refcount\<close>: byte buffers that may be
  shared through a pool, a hash table that holds at most one buffer for each byte string. A buffer
  is an address in a heap; an address is not used again after its buffer was freed. Each critical
  section of the code is one function here, so that threads interleave between them. One pool is
  modelled; a buffer is in it or in none.
\<close>

section \<open>State\<close>

record crypto_buffer =
  cb_pooled :: bool
  cb_data :: "u8 list"
  cb_references :: u32
  cb_data_is_static :: bool

type_synonym buf_heap = "nat \<Rightarrow> crypto_buffer option"

record pool_st =
  ps_heap :: buf_heap
  ps_next :: nat
  ps_bufs :: "(nat, unit, unit) lhash_st"

definition CRYPTO_BUFFER_hash :: "crypto_buffer \<Rightarrow> u32" where
  "CRYPTO_BUFFER_hash buf = OPENSSL_hash32 (cb_data buf)"

definition CRYPTO_BUFFER_cmp :: "crypto_buffer \<Rightarrow> crypto_buffer \<Rightarrow> int" where
  "CRYPTO_BUFFER_cmp a b =
     (if length (cb_data a) \<noteq> length (cb_data b) then 1
      else OPENSSL_memcmp (cb_data a) (cb_data b) (length (cb_data a)))"

definition buf_hash :: "buf_heap \<Rightarrow> nat \<Rightarrow> u32" where
  "buf_hash h a = CRYPTO_BUFFER_hash (the (h a))"

definition buf_cmp :: "buf_heap \<Rightarrow> nat \<Rightarrow> nat \<Rightarrow> int" where
  "buf_cmp h a b = CRYPTO_BUFFER_cmp (the (h a)) (the (h b))"

section \<open>Operations\<close>

definition CRYPTO_BUFFER_POOL_new :: "allocator \<Rightarrow> pool_st option" where
  "CRYPTO_BUFFER_POOL_new al =
     (case OPENSSL_malloc al 64 of
        None \<Rightarrow> None
      | Some _ \<Rightarrow>
          (case OPENSSL_lh_new al () () of
             None \<Rightarrow> None
           | Some bufs \<Rightarrow> Some \<lparr>ps_heap = (\<lambda>_. None), ps_next = 0, ps_bufs = bufs\<rparr>))"

definition put_buffer :: "nat \<Rightarrow> crypto_buffer \<Rightarrow> pool_st \<Rightarrow> pool_st" where
  "put_buffer a b s = s\<lparr>ps_heap := (ps_heap s)(a \<mapsto> b)\<rparr>"

definition crypto_buffer_free_object :: "nat \<Rightarrow> pool_st \<Rightarrow> pool_st" where
  "crypto_buffer_free_object a s = s\<lparr>ps_heap := (ps_heap s)(a := None)\<rparr>"

definition inc_buffer :: "nat \<Rightarrow> pool_st \<Rightarrow> pool_st" where
  "inc_buffer a s =
     (let b = the (ps_heap s a) in put_buffer a (b\<lparr>cb_references := CRYPTO_refcount_inc (cb_references b)\<rparr>) s)"

definition pool_retrieve :: "pool_st \<Rightarrow> nat \<Rightarrow> nat option" where
  "pool_retrieve s a = OPENSSL_lh_retrieve (\<lambda>_. buf_hash (ps_heap s)) (\<lambda>_. buf_cmp (ps_heap s)) (ps_bufs s) a"

text \<open>A duplicate without static data is ignored for new static data.\<close>

definition usable_duplicate :: "bool \<Rightarrow> buf_heap \<Rightarrow> nat option \<Rightarrow> nat option" where
  "usable_duplicate data_is_static h duplicate =
     (case duplicate of
        Some a \<Rightarrow> if data_is_static \<and> \<not> cb_data_is_static (the (h a)) then None else duplicate
      | None \<Rightarrow> None)"

text \<open>The section under the read lock; \<open>tmp\<close> is at an address of its own for its duration.\<close>

definition crypto_buffer_lookup :: "u8 list \<Rightarrow> bool \<Rightarrow> pool_st \<Rightarrow> nat option \<times> pool_st" where
  "crypto_buffer_lookup data data_is_static s =
     (let tmp = \<lparr>cb_pooled = False, cb_data = data, cb_references = 0, cb_data_is_static = False\<rparr>;
          duplicate = pool_retrieve (put_buffer (ps_next s) tmp s) (ps_next s);
          duplicate = usable_duplicate data_is_static (ps_heap s) duplicate
      in case duplicate of None \<Rightarrow> (None, s) | Some a \<Rightarrow> (Some a, inc_buffer a s))"

text \<open>The section under the write lock, which puts the new buffer at \<open>buf\<close> into the pool.\<close>

definition crypto_buffer_publish :: "allocator \<Rightarrow> bool \<Rightarrow> nat \<Rightarrow> pool_st \<Rightarrow> nat option \<times> pool_st" where
  "crypto_buffer_publish al data_is_static buf s =
     (case usable_duplicate data_is_static (ps_heap s) (pool_retrieve s buf) of
        Some duplicate \<Rightarrow> (Some duplicate, crypto_buffer_free_object buf (inc_buffer duplicate s))
      | None \<Rightarrow>
          (case OPENSSL_lh_insert al (\<lambda>_. buf_hash (ps_heap s)) (\<lambda>_. buf_cmp (ps_heap s)) (ps_bufs s) buf of
             (inserted, old, bufs) \<Rightarrow>
               let s = s\<lparr>ps_bufs := bufs\<rparr>
               in if inserted then (Some buf, s) else (None, crypto_buffer_free_object buf s)))"

text \<open>Everything after the first section.\<close>

definition crypto_buffer_insert ::
  "allocator \<Rightarrow> u8 list \<Rightarrow> bool \<Rightarrow> bool \<Rightarrow> pool_st \<Rightarrow> nat option \<times> pool_st" where
  "crypto_buffer_insert al data data_is_static pool s =
     (case OPENSSL_malloc al 32 of
        None \<Rightarrow> (None, s)
      | Some _ \<Rightarrow>
          (case (if data_is_static then Some data
                 else case OPENSSL_memdup al data of
                        Some copy \<Rightarrow> Some copy
                      | None \<Rightarrow> if length data \<noteq> 0 then None else Some []) of
             None \<Rightarrow> (None, s)
           | Some copy \<Rightarrow>
               let buf = ps_next s;
                   s = put_buffer buf \<lparr>cb_pooled = pool, cb_data = copy, cb_references = 1,
                                       cb_data_is_static = data_is_static\<rparr> s;
                   s = s\<lparr>ps_next := buf + 1\<rparr>
               in if \<not> pool then (Some buf, s) else crypto_buffer_publish al data_is_static buf s))"

definition crypto_buffer_new :: "allocator \<Rightarrow> u8 list \<Rightarrow> bool \<Rightarrow> bool \<Rightarrow> pool_st \<Rightarrow> nat option \<times> pool_st" where
  "crypto_buffer_new al data data_is_static pool s =
     (if pool then
        (case crypto_buffer_lookup data data_is_static s of
           (Some a, s) \<Rightarrow> (Some a, s)
         | (None, s) \<Rightarrow> crypto_buffer_insert al data data_is_static pool s)
      else crypto_buffer_insert al data data_is_static pool s)"

definition CRYPTO_BUFFER_new :: "allocator \<Rightarrow> u8 list \<Rightarrow> bool \<Rightarrow> pool_st \<Rightarrow> nat option \<times> pool_st" where
  "CRYPTO_BUFFER_new al data pool s = crypto_buffer_new al data False pool s"

definition CRYPTO_BUFFER_new_from_static_data_unsafe ::
  "allocator \<Rightarrow> u8 list \<Rightarrow> bool \<Rightarrow> pool_st \<Rightarrow> nat option \<times> pool_st" where
  "CRYPTO_BUFFER_new_from_static_data_unsafe al data pool s = crypto_buffer_new al data True pool s"

text \<open>\<open>None\<close> stands for an abort or an access to a freed buffer.\<close>

definition CRYPTO_BUFFER_free :: "allocator \<Rightarrow> nat option \<Rightarrow> pool_st \<Rightarrow> pool_st option" where
  "CRYPTO_BUFFER_free al buf s =
     (case buf of
        None \<Rightarrow> Some s
      | Some a \<Rightarrow>
          (case ps_heap s a of
             None \<Rightarrow> None
           | Some b \<Rightarrow>
               (case CRYPTO_refcount_dec_and_test_zero (cb_references b) of
                  None \<Rightarrow> None
                | Some (zero, n) \<Rightarrow>
                    let s = put_buffer a (b\<lparr>cb_references := n\<rparr>) s
                    in if \<not> zero then Some s
                       else if \<not> cb_pooled b then Some (crypto_buffer_free_object a s)
                       else
                         let s = (if pool_retrieve s a = Some a
                                  then s\<lparr>ps_bufs := snd (OPENSSL_lh_delete al (\<lambda>_. buf_hash (ps_heap s))
                                          (\<lambda>_. buf_cmp (ps_heap s)) (ps_bufs s) a)\<rparr>
                                  else s)
                         in Some (crypto_buffer_free_object a s))))"

definition CRYPTO_BUFFER_up_ref :: "nat \<Rightarrow> pool_st \<Rightarrow> pool_st option" where
  "CRYPTO_BUFFER_up_ref a s = (case ps_heap s a of None \<Rightarrow> None | Some b \<Rightarrow> Some (inc_buffer a s))"

definition CRYPTO_BUFFER_data :: "nat \<Rightarrow> pool_st \<Rightarrow> u8 list" where
  "CRYPTO_BUFFER_data a s = cb_data (the (ps_heap s a))"

definition CRYPTO_BUFFER_len :: "nat \<Rightarrow> pool_st \<Rightarrow> nat" where
  "CRYPTO_BUFFER_len a s = length (cb_data (the (ps_heap s a)))"

section \<open>The table's contract\<close>

lemma buf_cmp_eq: "buf_cmp h x y = 0 \<longleftrightarrow> cb_data (the (h x)) = cb_data (the (h y))"
  using OPENSSL_memcmp_eq_0 [of "cb_data (the (h x))" "cb_data (the (h y))"]
  by (auto simp: buf_cmp_def CRYPTO_BUFFER_cmp_def)

interpretation pool: hashing "buf_hash h" "buf_cmp h" for h
  by unfold_locales (auto simp: buf_cmp_eq buf_hash_def CRYPTO_BUFFER_hash_def)

section \<open>The invariant\<close>

text \<open>\<open>R\<close> is the multiset of references that callers hold.\<close>

definition counted :: "nat multiset \<Rightarrow> nat \<Rightarrow> crypto_buffer \<Rightarrow> bool" where
  "counted R a b \<longleftrightarrow> cb_references b \<noteq> 0 \<and>
     (cb_references b = CRYPTO_REFCOUNT_MAX \<or> unat (cb_references b) = count R a)"

definition pool_inv :: "pool_st \<Rightarrow> nat multiset \<Rightarrow> bool" where
  "pool_inv s R \<longleftrightarrow>
     lh_ok (buf_hash (ps_heap s)) (buf_cmp (ps_heap s)) (ps_bufs s) \<and>
     (\<forall>a \<in># lh_contents (ps_bufs s). \<exists>b. ps_heap s a = Some b \<and> cb_pooled b) \<and>
     (\<forall>a b. ps_heap s a = Some b \<longrightarrow> a < ps_next s \<and> counted R a b) \<and>
     (\<forall>a \<in># R. ps_heap s a \<noteq> None)"

lemma pool_lh_ok_cong:
  assumes "lh_ok (buf_hash h) (buf_cmp h) lh"
    and "\<And>a. a \<in># lh_contents lh \<Longrightarrow> cb_data (the (h' a)) = cb_data (the (h a))"
  shows "lh_ok (buf_hash h') (buf_cmp h') lh"
  using assms by (intro lh_ok_cong [OF pool.hashing_axioms pool.hashing_axioms _ _ assms(1)])
    (auto simp: buf_cmp_eq buf_hash_def CRYPTO_BUFFER_hash_def)

lemma pool_retrieve_iff:
  assumes "lh_ok (buf_hash (ps_heap s)) (buf_cmp (ps_heap s)) (ps_bufs s)"
  shows "pool_retrieve s x = Some a \<longleftrightarrow>
    a \<in># lh_contents (ps_bufs s) \<and> cb_data (the (ps_heap s a)) = cb_data (the (ps_heap s x))"
  unfolding pool_retrieve_def
  by (subst pool.retrieve_iff [where h = "ps_heap s" and call_hash = "\<lambda>_. buf_hash (ps_heap s)"
        and call_cmp = "\<lambda>_. buf_cmp (ps_heap s)", OF assms refl refl]) (simp add: buf_cmp_eq)

lemma u32_below_max: "n \<noteq> 0xffffffff \<Longrightarrow> n < 0xffffffff \<and> unat (n + 1) = unat n + 1 \<and> n + 1 \<noteq> (0 :: u32)"
proof -
  assume "n \<noteq> 0xffffffff"
  then have "unat n \<noteq> 4294967295" by (simp add: word_unat_eq_iff)
  moreover have "unat n < 4294967296" using unsigned_less [of n] by simp
  ultimately have lt: "unat n < 4294967295" by linarith
  then have "unat (n + 1) = unat n + 1" by (simp add: unat_word_ariths)
  moreover from this have "n + 1 \<noteq> 0" by (metis add_is_0 one_neq_zero unat_0)
  ultimately show ?thesis using lt by (simp add: word_less_nat_alt)
qed

lemma counted_inc:
  "counted R a b \<Longrightarrow> counted (add_mset a R) a (b\<lparr>cb_references := CRYPTO_refcount_inc (cb_references b)\<rparr>)"
  using u32_below_max [of "cb_references b"]
  by (auto simp: counted_def CRYPTO_refcount_inc_def CRYPTO_REFCOUNT_MAX_def)

lemma counted_other: "x \<noteq> a \<Longrightarrow> counted (add_mset x R) a b = counted R a b"
  by (simp add: counted_def)

lemma pool_invD:
  assumes "pool_inv s R"
  shows "lh_ok (buf_hash (ps_heap s)) (buf_cmp (ps_heap s)) (ps_bufs s)"
    and "a \<in># lh_contents (ps_bufs s) \<Longrightarrow> \<exists>b. ps_heap s a = Some b \<and> cb_pooled b"
    and "ps_heap s a = Some b \<Longrightarrow> a < ps_next s \<and> counted R a b"
    and "a \<in># R \<Longrightarrow> \<exists>b. ps_heap s a = Some b"
  using assms by (auto simp: pool_inv_def)

lemma pool_invI:
  assumes "lh_ok (buf_hash (ps_heap s)) (buf_cmp (ps_heap s)) (ps_bufs s)"
    and "\<And>a. a \<in># lh_contents (ps_bufs s) \<Longrightarrow> \<exists>b. ps_heap s a = Some b \<and> cb_pooled b"
    and "\<And>a b. ps_heap s a = Some b \<Longrightarrow> a < ps_next s \<and> counted R a b"
    and "\<And>a. a \<in># R \<Longrightarrow> \<exists>b. ps_heap s a = Some b"
  shows "pool_inv s R"
  using assms unfolding pool_inv_def by (metis option.simps(3))

text \<open>Changing the count of one buffer.\<close>

lemma recount_inv:
  assumes "pool_inv s R" and "ps_heap s a = Some b" and "counted R' a (b\<lparr>cb_references := n\<rparr>)"
    and "\<And>c. c \<noteq> a \<Longrightarrow> count R' c = count R c"
  shows "pool_inv (put_buffer a (b\<lparr>cb_references := n\<rparr>) s) R'"
proof (rule pool_invI)
  let ?s = "put_buffer a (b\<lparr>cb_references := n\<rparr>) s"
  have "lh_ok (buf_hash (ps_heap ?s)) (buf_cmp (ps_heap ?s)) (ps_bufs s)"
    using pool_invD(1) [OF assms(1)] by (rule pool_lh_ok_cong) (simp add: put_buffer_def assms(2))
  then show "lh_ok (buf_hash (ps_heap ?s)) (buf_cmp (ps_heap ?s)) (ps_bufs ?s)" by (simp add: put_buffer_def)
  show "\<exists>b. ps_heap ?s c = Some b \<and> cb_pooled b" if "c \<in># lh_contents (ps_bufs ?s)" for c
    using pool_invD(2) [OF assms(1), of c] that by (auto simp: put_buffer_def assms(2))
  show "c < ps_next ?s \<and> counted R' c d" if "ps_heap ?s c = Some d" for c d
    using pool_invD(3) [OF assms(1), of c] pool_invD(3) [OF assms(1), OF assms(2)] that assms(3) assms(4) [of c]
    by (auto simp: put_buffer_def counted_def split: if_splits)
  show "\<exists>b. ps_heap ?s c = Some b" if "c \<in># R'" for c
  proof (cases "c = a")
    case False
    then have "c \<in># R" using that assms(4) by (metis count_greater_zero_iff)
    then show ?thesis using pool_invD(4) [OF assms(1)] False by (simp add: put_buffer_def)
  qed (simp add: put_buffer_def)
qed

lemma pool_inv_inc:
  assumes "pool_inv s R" and "ps_heap s a = Some b"
  shows "pool_inv (inc_buffer a s) (add_mset a R)"
  unfolding inc_buffer_def assms(2) option.sel Let_def
  using assms counted_inc [of R a b] pool_invD(3) [OF assms] by (intro recount_inv) auto

lemma lookup_inv:
  assumes "pool_inv s R" and "crypto_buffer_lookup data st s = (Some a, s')"
  shows "a \<in># lh_contents (ps_bufs s) \<and> cb_data (the (ps_heap s a)) = data \<and>
    (st \<longrightarrow> cb_data_is_static (the (ps_heap s a))) \<and> s' = inc_buffer a s"
proof -
  let ?tmp = "\<lparr>cb_pooled = False, cb_data = data, cb_references = 0, cb_data_is_static = False\<rparr>"
  let ?s = "put_buffer (ps_next s) ?tmp s"
  have fresh: "c \<noteq> ps_next s" if "c \<in># lh_contents (ps_bufs s)" for c
    using pool_invD(2) [OF assms(1) that] pool_invD(3) [OF assms(1), of c] by auto
  have "lh_ok (buf_hash (ps_heap ?s)) (buf_cmp (ps_heap ?s)) (ps_bufs s)"
    using pool_invD(1) [OF assms(1)] by (rule pool_lh_ok_cong) (use fresh in \<open>auto simp: put_buffer_def\<close>)
  then have "lh_ok (buf_hash (ps_heap ?s)) (buf_cmp (ps_heap ?s)) (ps_bufs ?s)" by (simp add: put_buffer_def)
  note r = pool_retrieve_iff [OF this, of "ps_next s" a]
  have "pool_retrieve ?s (ps_next s) = Some a" "st \<longrightarrow> cb_data_is_static (the (ps_heap s a))" "s' = inc_buffer a s"
    using assms(2) by (auto simp: crypto_buffer_lookup_def usable_duplicate_def Let_def split: option.splits if_splits)
  then show ?thesis using r fresh [of a] by (simp add: put_buffer_def)
qed

text \<open>Freeing a buffer that is not, or no longer, in the table.\<close>

lemma drop_inv:
  assumes "pool_inv s R" and "lh_ok (buf_hash (ps_heap s)) (buf_cmp (ps_heap s)) lh"
    and "\<And>c. c \<in># lh_contents lh \<Longrightarrow> c \<in># lh_contents (ps_bufs s) \<and> c \<noteq> a"
    and "count R' a = 0" and "\<And>c. c \<noteq> a \<Longrightarrow> count R' c = count R c"
    and "ps_heap t = (ps_heap s)(a := None)" and "ps_next t = ps_next s" and "ps_bufs t = lh"
  shows "pool_inv t R'"
proof (rule pool_invI)
  show "lh_ok (buf_hash (ps_heap t)) (buf_cmp (ps_heap t)) (ps_bufs t)"
    unfolding assms(8) using assms(2) by (rule pool_lh_ok_cong) (use assms(3,6) in auto)
  show "\<exists>b. ps_heap t c = Some b \<and> cb_pooled b" if "c \<in># lh_contents (ps_bufs t)" for c
    using pool_invD(2) [OF assms(1), of c] assms(3) [of c] that by (simp add: assms(6,8))
  show "c < ps_next t \<and> counted R' c b" if "ps_heap t c = Some b" for c b
    using pool_invD(3) [OF assms(1), of c b] that assms(5) [of c] by (auto simp: assms(6,7) counted_def split: if_splits)
  show "\<exists>b. ps_heap t c = Some b" if "c \<in># R'" for c
  proof -
    have "c \<noteq> a" using that assms(4) by (auto simp: count_eq_zero_iff)
    then have "c \<in># R" using that assms(5) by (metis count_greater_zero_iff)
    then show ?thesis using pool_invD(4) [OF assms(1)] \<open>c \<noteq> a\<close> by (simp add: assms(6))
  qed
qed

lemma fresh_inv:
  assumes "pool_inv s R" and "cb_references b = 1" and "ps_heap t = (ps_heap s)(ps_next s \<mapsto> b)"
    and "ps_next t = ps_next s + 1" and "ps_bufs t = ps_bufs s"
  shows "pool_inv t (add_mset (ps_next s) R)"
proof (rule pool_invI)
  have none: "ps_heap s (ps_next s) = None"
    using pool_invD(3) [OF assms(1), of "ps_next s"] by (cases "ps_heap s (ps_next s)") auto
  show "lh_ok (buf_hash (ps_heap t)) (buf_cmp (ps_heap t)) (ps_bufs t)"
    unfolding assms(5) using pool_invD(1) [OF assms(1)]
    by (rule pool_lh_ok_cong) (use pool_invD(2) [OF assms(1)] none in \<open>fastforce simp: assms(3)\<close>)
  show "\<exists>b. ps_heap t c = Some b \<and> cb_pooled b" if "c \<in># lh_contents (ps_bufs t)" for c
    using pool_invD(2) [OF assms(1), of c] that none by (auto simp: assms(3,5))
  have "ps_next s \<notin># R" using pool_invD(4) [OF assms(1), of "ps_next s"] none by auto
  then show "c < ps_next t \<and> counted (add_mset (ps_next s) R) c d" if "ps_heap t c = Some d" for c d
    using pool_invD(3) [OF assms(1), of c d] that assms(2)
    by (auto simp: assms(3,4) counted_def count_eq_zero_iff split: if_splits)
  show "\<exists>b. ps_heap t c = Some b" if "c \<in># add_mset (ps_next s) R" for c
    using that pool_invD(4) [OF assms(1), of c] by (auto simp: assms(3))
qed

definition returned :: "nat option \<Rightarrow> nat multiset" where
  "returned r = (case r of None \<Rightarrow> {#} | Some a \<Rightarrow> {#a#})"

text \<open>What the second section does: nothing is lost, and the result represents its data.\<close>

lemma insert_inv:
  assumes "pool_inv s R" and "length data < 2 ^ 64" and "crypto_buffer_insert al data st pool s = (r, s')"
  shows "pool_inv s' (R + returned r) \<and>
    (\<forall>a. r = Some a \<longrightarrow> cb_data (the (ps_heap s' a)) = data \<and> (st \<longrightarrow> cb_data_is_static (the (ps_heap s' a))) \<and>
      (pool \<longrightarrow> a \<in># lh_contents (ps_bufs s')))"
proof (cases "\<exists>blk copy. OPENSSL_malloc al 32 = Some blk \<and>
    (if st then Some data else case OPENSSL_memdup al data of Some copy \<Rightarrow> Some copy
      | None \<Rightarrow> if length data \<noteq> 0 then None else Some []) = Some copy")
  case False
  then have "r = None \<and> s' = s"
    using assms(3) by (auto simp: crypto_buffer_insert_def split: option.splits)
  then show ?thesis using assms(1) by (simp add: returned_def)
next
  case True
  let ?a = "ps_next s"
  define b where "b = \<lparr>cb_pooled = pool, cb_data = data, cb_references = 1, cb_data_is_static = st\<rparr>"
  define t where "t = (put_buffer ?a b s)\<lparr>ps_next := ?a + 1\<rparr>"
  have "(if st then Some data else case OPENSSL_memdup al data of Some copy \<Rightarrow> Some copy
      | None \<Rightarrow> if length data \<noteq> 0 then None else Some []) = Some data"
    using True OPENSSL_memdup_Some [OF _ assms(2)] by (auto split: option.splits if_splits)
  then have e: "(if \<not> pool then (Some ?a, t) else crypto_buffer_publish al st ?a t) = (r, s')"
    using assms(3) True by (auto simp: crypto_buffer_insert_def t_def b_def Let_def simp del: if_split)
  have t: "ps_heap t = (ps_heap s)(?a \<mapsto> b)" "ps_next t = ?a + 1" "ps_bufs t = ps_bufs s"
    by (simp_all add: t_def put_buffer_def)
  have inv: "pool_inv t (add_mset ?a R)" by (rule fresh_inv [OF assms(1) _ t]) (simp add: b_def)
  have fresh: "c \<noteq> ?a" if "c \<in># lh_contents (ps_bufs t)" for c
    using that pool_invD(2) [OF assms(1), of c] pool_invD(3) [OF assms(1), of c] by (auto simp: t)
  have zero: "count R ?a = 0"
    using pool_invD(3,4) [OF assms(1), of ?a] by (auto simp: count_eq_zero_iff)
  note lh = pool_invD(1) [OF inv]
  show ?thesis
  proof (cases pool)
    case False
    then show ?thesis using e inv t by (auto simp: returned_def b_def)
  next
    case True
    show ?thesis
    proof (cases "usable_duplicate st (ps_heap t) (pool_retrieve t ?a)")
      case (Some c)
      then have c: "pool_retrieve t ?a = Some c" "st \<longrightarrow> cb_data_is_static (the (ps_heap t c))"
        by (auto simp: usable_duplicate_def split: option.splits if_splits)
      then have in_c: "c \<in># lh_contents (ps_bufs t)" "cb_data (the (ps_heap t c)) = data"
        using pool_retrieve_iff [OF lh, of ?a c] by (auto simp: t b_def)
      obtain d where d: "ps_heap t c = Some d" using pool_invD(2) [OF inv in_c(1)] by blast
      have r: "r = Some c" "s' = crypto_buffer_free_object ?a (inc_buffer c t)" using e True Some by (auto simp: crypto_buffer_publish_def)
      note inv2 = pool_inv_inc [OF inv d]
      have "pool_inv s' (R + returned r)"
        unfolding r
      proof (rule drop_inv [OF inv2 pool_invD(1) [OF inv2], where a = ?a])
        show "count (R + returned (Some c)) ?a = 0" using zero fresh [OF in_c(1)] by (simp add: returned_def)
        show "x \<in># lh_contents (ps_bufs (inc_buffer c t)) \<and> x \<noteq> ?a" if "x \<in># lh_contents (ps_bufs (inc_buffer c t))" for x
          using that fresh [of x] by (simp add: inc_buffer_def put_buffer_def Let_def)
      qed (simp_all add: crypto_buffer_free_object_def returned_def)
      then show ?thesis using r c in_c fresh [OF in_c(1)] d
        by (simp add: crypto_buffer_free_object_def inc_buffer_def put_buffer_def Let_def)
    next
      case None
      obtain inserted old bufs where i: "OPENSSL_lh_insert al (\<lambda>_. buf_hash (ps_heap t)) (\<lambda>_. buf_cmp (ps_heap t)) (ps_bufs t) ?a
          = (inserted, old, bufs)" by (metis prod_cases3)
      note ok = pool.insert_ok [OF lh refl refl i]
      show ?thesis
      proof (cases inserted)
        case False
        then have r: "r = None" "s' = crypto_buffer_free_object ?a t" using e True None i ok by (auto simp: crypto_buffer_publish_def)
        have "pool_inv s' (R + returned r)"
          unfolding r by (rule drop_inv [OF inv lh, where a = ?a])
            (use zero fresh in \<open>auto simp: returned_def crypto_buffer_free_object_def\<close>)
        then show ?thesis using r by simp
      next
        case inserted: True
        then have r: "r = Some ?a" "s' = t\<lparr>ps_bufs := bufs\<rparr>" using e True None i by (auto simp: crypto_buffer_publish_def)
        have c: "lh_contents bufs = add_mset ?a {#e \<in># lh_contents (ps_bufs t). buf_cmp (ps_heap t) e ?a \<noteq> 0#}"
          using ok inserted by simp
        have "pool_inv s' (add_mset ?a R)"
        proof (rule pool_invI)
          show "lh_ok (buf_hash (ps_heap s')) (buf_cmp (ps_heap s')) (ps_bufs s')" using ok by (simp add: r)
          show "\<exists>b. ps_heap s' x = Some b \<and> cb_pooled b" if "x \<in># lh_contents (ps_bufs s')" for x
            using that pool_invD(2) [OF inv, of x] True by (auto simp: r c t b_def)
        qed (use pool_invD(3,4) [OF inv] in \<open>auto simp: r\<close>)
        then show ?thesis using r c t by (auto simp: returned_def b_def)
      qed
    qed
  qed
qed

lemma free_inv:
  assumes "pool_inv s R" and "a \<in># R"
  shows "\<exists>s'. CRYPTO_BUFFER_free al (Some a) s = Some s' \<and> pool_inv s' (R - {#a#})"
proof -
  obtain b where b: "ps_heap s a = Some b" using pool_invD(4) [OF assms] by blast
  have c: "counted R a b" using pool_invD(3) [OF assms(1) b] by blast
  let ?n = "cb_references b"
  show ?thesis
  proof (cases "?n = CRYPTO_REFCOUNT_MAX")
    case True
    then have "CRYPTO_BUFFER_free al (Some a) s = Some (put_buffer a (b\<lparr>cb_references := CRYPTO_REFCOUNT_MAX\<rparr>) s)"
      by (simp add: CRYPTO_BUFFER_free_def b CRYPTO_refcount_dec_and_test_zero_def CRYPTO_REFCOUNT_MAX_def)
    moreover have "pool_inv (put_buffer a (b\<lparr>cb_references := CRYPTO_REFCOUNT_MAX\<rparr>) s) (R - {#a#})"
      by (rule recount_inv [OF assms(1) b]) (simp_all add: counted_def CRYPTO_REFCOUNT_MAX_def)
    ultimately show ?thesis by blast
  next
    case False
    then have n: "unat ?n = count R a" "?n \<noteq> 0" "?n < CRYPTO_REFCOUNT_MAX"
      using c u32_below_max [of ?n] by (auto simp: counted_def CRYPTO_REFCOUNT_MAX_def)
    have "1 \<le> ?n" using n(2) by (simp add: word_le_nat_alt Suc_le_eq unat_gt_0)
    then have pred: "unat (?n - 1) = count R a - 1" using n(1) by (simp add: unat_sub)
    have dec: "CRYPTO_refcount_dec_and_test_zero ?n = Some (?n - 1 = 0, ?n - 1)"
      using n by (simp add: CRYPTO_refcount_dec_and_test_zero_def)
    let ?t = "put_buffer a (b\<lparr>cb_references := ?n - 1\<rparr>) s"
    show ?thesis
    proof (cases "?n - 1 = 0")
      case more: False
      then have "CRYPTO_BUFFER_free al (Some a) s = Some ?t" by (simp add: CRYPTO_BUFFER_free_def b dec)
      moreover have "pool_inv ?t (R - {#a#})"
        using more pred by (intro recount_inv [OF assms(1) b]) (auto simp: counted_def)
      ultimately show ?thesis by blast
    next
      case last: True
      have zero: "count (R - {#a#}) a = 0" using last pred n(1) by (simp add: unat_eq_0)
      have other: "count (R - {#a#}) c = count R c" if "c \<noteq> a" for c using that by simp
      have same: "cb_data (the (ps_heap ?t c)) = cb_data (the (ps_heap s c))" for c by (simp add: put_buffer_def b)
      have lh: "lh_ok (buf_hash (ps_heap ?t)) (buf_cmp (ps_heap ?t)) (ps_bufs s)"
        using pool_invD(1) [OF assms(1)] by (rule pool_lh_ok_cong) (rule same)
      then have lh': "lh_ok (buf_hash (ps_heap ?t)) (buf_cmp (ps_heap ?t)) (ps_bufs ?t)" by (simp add: put_buffer_def)
      show ?thesis
      proof (cases "cb_pooled b \<and> pool_retrieve ?t a = Some a")
        case False
        have out: "c \<noteq> a" if "c \<in># lh_contents (ps_bufs s)" for c
        proof
          assume "c = a"
          then have "cb_pooled b" "pool_retrieve ?t a = Some a"
            using that pool_invD(2) [OF assms(1), of c] b pool_retrieve_iff [OF lh', of a a] by (auto simp: put_buffer_def)
          then show False using False by simp
        qed
        have "CRYPTO_BUFFER_free al (Some a) s = Some (crypto_buffer_free_object a ?t)"
          using False last by (auto simp: CRYPTO_BUFFER_free_def Let_def b CRYPTO_refcount_dec_and_test_zero_def CRYPTO_REFCOUNT_MAX_def)
        moreover have "pool_inv (crypto_buffer_free_object a ?t) (R - {#a#})"
          by (rule drop_inv [OF assms(1) pool_invD(1) [OF assms(1)] _ zero other])
            (use out in \<open>auto simp: crypto_buffer_free_object_def put_buffer_def\<close>)
        ultimately show ?thesis by blast
      next
        case True
        obtain r bufs where d: "OPENSSL_lh_delete al (\<lambda>_. buf_hash (ps_heap ?t)) (\<lambda>_. buf_cmp (ps_heap ?t)) (ps_bufs ?t) a = (r, bufs)"
          by fastforce
        note ok = pool.delete_ok [OF lh' refl refl d]
        have bufs: "lh_ok (buf_hash (ps_heap s)) (buf_cmp (ps_heap s)) bufs"
          using conjunct1 [OF ok] by (rule pool_lh_ok_cong) (simp add: same)
        have dec0: "CRYPTO_refcount_dec_and_test_zero ?n = Some (True, ?n - 1)" using dec last by simp
        have bufs_eq: "snd (OPENSSL_lh_delete al (\<lambda>_. buf_hash (ps_heap ?t)) (\<lambda>_. buf_cmp (ps_heap ?t)) (ps_bufs ?t) a) = bufs"
          unfolding d by simp
        have free: "CRYPTO_BUFFER_free al (Some a) s = Some (crypto_buffer_free_object a (?t\<lparr>ps_bufs := bufs\<rparr>))"
          unfolding CRYPTO_BUFFER_free_def option.case b dec0 prod.case Let_def bufs_eq using True by simp
        have mem: "c \<in># lh_contents (ps_bufs s) \<and> c \<noteq> a" if "c \<in># lh_contents bufs" for c
        proof -
          have "c \<in># {#e \<in># lh_contents (ps_bufs ?t). buf_cmp (ps_heap ?t) e a \<noteq> 0#}"
            using that conjunct1 [OF conjunct2 [OF ok]] by metis
          moreover have "ps_bufs ?t = ps_bufs s" by (simp add: put_buffer_def)
          ultimately show ?thesis using pool.eq_refl [of "ps_heap ?t" a] by auto
        qed
        have "pool_inv (crypto_buffer_free_object a (?t\<lparr>ps_bufs := bufs\<rparr>)) (R - {#a#})"
          by (rule drop_inv [OF assms(1) bufs mem zero other])
            (simp_all add: crypto_buffer_free_object_def put_buffer_def)
        with free show ?thesis by blast
      qed
    qed
  qed
qed

section \<open>Threads\<close>

text \<open>
  The states that interleaved callers can reach: each step is one critical section, and a caller
  gives up or copies only references it holds.
\<close>

inductive pool_reach :: "pool_st \<Rightarrow> nat multiset \<Rightarrow> bool" where
  pool_reach_new: "CRYPTO_BUFFER_POOL_new al = Some s \<Longrightarrow> pool_reach s {#}"
| pool_reach_lookup: "pool_reach s R \<Longrightarrow> crypto_buffer_lookup data st s = (r, s') \<Longrightarrow> pool_reach s' (R + returned r)"
| pool_reach_insert: "pool_reach s R \<Longrightarrow> length data < 2 ^ 64 \<Longrightarrow>
    crypto_buffer_insert al data st pool s = (r, s') \<Longrightarrow> pool_reach s' (R + returned r)"
| pool_reach_up_ref: "pool_reach s R \<Longrightarrow> a \<in># R \<Longrightarrow> CRYPTO_BUFFER_up_ref a s = Some s' \<Longrightarrow> pool_reach s' (add_mset a R)"
| pool_reach_free: "pool_reach s R \<Longrightarrow> a \<in># R \<Longrightarrow> CRYPTO_BUFFER_free al (Some a) s = Some s' \<Longrightarrow> pool_reach s' (R - {#a#})"

lemma lookup_None: "crypto_buffer_lookup data st s = (None, s') \<Longrightarrow> s' = s"
  by (auto simp: crypto_buffer_lookup_def Let_def split: option.splits)

lemma pool_reach_inv: "pool_reach s R \<Longrightarrow> pool_inv s R"
proof (induction rule: pool_reach.induct)
  case (pool_reach_new al s)
  then obtain lh where lh: "OPENSSL_lh_new al () () = Some lh" "s = \<lparr>ps_heap = (\<lambda>_. None), ps_next = 0, ps_bufs = lh\<rparr>"
    by (auto simp: CRYPTO_BUFFER_POOL_new_def split: option.splits)
  show ?case using pool.new_ok [OF lh(1)] by (intro pool_invI) (simp_all add: lh(2))
next
  case (pool_reach_lookup s R data st r s')
  show ?case
  proof (cases r)
    case None
    then show ?thesis using pool_reach_lookup lookup_None by (auto simp: returned_def)
  next
    case (Some a)
    note l = lookup_inv [OF pool_reach_lookup.IH pool_reach_lookup.hyps(2) [unfolded Some]]
    then obtain b where "ps_heap s a = Some b" using pool_invD(2) [OF pool_reach_lookup.IH] by blast
    from pool_inv_inc [OF pool_reach_lookup.IH this] l Some show ?thesis by (simp add: returned_def)
  qed
next
  case (pool_reach_insert s R data al st pool r s')
  then show ?case using insert_inv by blast
next
  case (pool_reach_up_ref s R a s')
  then show ?case by (auto simp: CRYPTO_BUFFER_up_ref_def pool_inv_inc split: option.splits)
next
  case (pool_reach_free s R a al s')
  then show ?case using free_inv [OF pool_reach_free.IH pool_reach_free.hyps(2), of al] by auto
qed

text \<open>
  C10: Whatever threads did, every held reference is to a live buffer whose count is the number of
  references held, or is saturated, the table refers to live pooled buffers only, and giving up or
  copying a held reference neither aborts nor touches freed memory.
\<close>

theorem pool_references_safe:
  assumes "pool_reach s R" and "a \<in># R"
  shows "(\<exists>b. ps_heap s a = Some b \<and> (cb_references b = CRYPTO_REFCOUNT_MAX \<or> unat (cb_references b) = count R a)) \<and>
    CRYPTO_BUFFER_free al (Some a) s \<noteq> None \<and> CRYPTO_BUFFER_up_ref a s \<noteq> None"
proof -
  have inv: "pool_inv s R" using assms(1) by (rule pool_reach_inv)
  obtain b where b: "ps_heap s a = Some b" using pool_invD(4) [OF inv assms(2)] by blast
  then show ?thesis using pool_invD(3) [OF inv b] free_inv [OF inv assms(2), of al]
    by (auto simp: counted_def CRYPTO_BUFFER_up_ref_def)
qed

text \<open>
  C24: A buffer made in a pool holds the data asked for, and from then on a lookup of the same data
  finds that buffer: equal data is shared.
\<close>

theorem pool_shares:
  assumes "pool_reach s R" and "length data < 2 ^ 64" and "crypto_buffer_new al data st True s = (Some a, s')"
  shows "CRYPTO_BUFFER_data a s' = data \<and> fst (CRYPTO_BUFFER_new al' data True s') = Some a"
proof -
  have inv: "pool_inv s R" using assms(1) by (rule pool_reach_inv)
  have "pool_inv s' (R + {#a#}) \<and> a \<in># lh_contents (ps_bufs s') \<and> cb_data (the (ps_heap s' a)) = data"
  proof (cases "crypto_buffer_lookup data st s")
    case (Pair r t)
    show ?thesis
    proof (cases r)
      case None
      then have "crypto_buffer_insert al data st True s = (Some a, s')"
        using assms(3) Pair lookup_None by (auto simp: crypto_buffer_new_def)
      from insert_inv [OF inv assms(2) this] show ?thesis by (simp add: returned_def)
    next
      case (Some c)
      then have r: "c = a" "t = s'" using assms(3) Pair by (auto simp: crypto_buffer_new_def)
      note l = lookup_inv [OF inv Pair [unfolded Some r]]
      then obtain b where b: "ps_heap s a = Some b" using pool_invD(2) [OF inv] by blast
      from pool_inv_inc [OF inv b] l show ?thesis by (simp add: inc_buffer_def put_buffer_def b Let_def)
    qed
  qed
  then have inv': "pool_inv s' (R + {#a#})" and a: "a \<in># lh_contents (ps_bufs s')" "cb_data (the (ps_heap s' a)) = data"
    by auto
  let ?tmp = "\<lparr>cb_pooled = False, cb_data = data, cb_references = 0, cb_data_is_static = False\<rparr>"
  let ?s = "put_buffer (ps_next s') ?tmp s'"
  have fresh: "c \<noteq> ps_next s'" if "c \<in># lh_contents (ps_bufs s')" for c
    using pool_invD(2) [OF inv' that] pool_invD(3) [OF inv', of c] by auto
  have "lh_ok (buf_hash (ps_heap ?s)) (buf_cmp (ps_heap ?s)) (ps_bufs s')"
    using pool_invD(1) [OF inv'] by (rule pool_lh_ok_cong) (use fresh in \<open>auto simp: put_buffer_def\<close>)
  then have "lh_ok (buf_hash (ps_heap ?s)) (buf_cmp (ps_heap ?s)) (ps_bufs ?s)" by (simp add: put_buffer_def)
  from pool_retrieve_iff [OF this, of "ps_next s'" a]
  have "pool_retrieve ?s (ps_next s') = Some a" using a fresh [OF a(1)] by (simp add: put_buffer_def)
  then have "crypto_buffer_lookup data False s' = (Some a, inc_buffer a s')"
    by (simp add: crypto_buffer_lookup_def usable_duplicate_def Let_def)
  then show ?thesis using a(2) by (simp add: CRYPTO_BUFFER_data_def CRYPTO_BUFFER_new_def crypto_buffer_new_def)
qed

lemma zero_alloc_pool: "\<exists>s. CRYPTO_BUFFER_POOL_new zero_alloc = Some s"
  using zero_alloc_malloc [of 64] zero_alloc_malloc [of 48] zero_alloc_malloc [of "8 * kMinNumBuckets"]
  by (auto simp: CRYPTO_BUFFER_POOL_new_def OPENSSL_lh_new_def kMinNumBuckets_def)

text \<open>A buffer for static data, in an empty pool.\<close>

lemma first_buffer:
  assumes "CRYPTO_BUFFER_POOL_new zero_alloc = Some s"
  shows "\<exists>s'. crypto_buffer_new zero_alloc data True True s = (Some 0, s') \<and>
    crypto_buffer_insert zero_alloc data True True s = (Some 0, s')"
proof -
  obtain lh where lh: "OPENSSL_lh_new zero_alloc () () = Some lh" "s = \<lparr>ps_heap = (\<lambda>_. None), ps_next = 0, ps_bufs = lh\<rparr>"
    using assms by (auto simp: CRYPTO_BUFFER_POOL_new_def split: option.splits)
  have none: "pool_retrieve t x = None" if "ps_bufs t = lh" for t x
    using pool.empty_retrieve [OF lh(1)] that by (simp add: pool_retrieve_def)
  have l: "crypto_buffer_lookup data True s = (None, s)"
    by (simp add: crypto_buffer_lookup_def Let_def usable_duplicate_def none put_buffer_def lh(2))
  let ?b = "\<lparr>cb_pooled = True, cb_data = data, cb_references = 1, cb_data_is_static = True\<rparr>"
  let ?t = "(put_buffer 0 ?b s)\<lparr>ps_next := 1\<rparr>"
  obtain i old bufs where ins: "OPENSSL_lh_insert zero_alloc (\<lambda>_. buf_hash (ps_heap ?t)) (\<lambda>_. buf_cmp (ps_heap ?t)) lh 0
      = (i, old, bufs)" by (metis prod_cases3)
  have "i"
  proof (rule ccontr)
    assume "\<not> i"
    moreover have "lh_ok (buf_hash (ps_heap ?t)) (buf_cmp (ps_heap ?t)) lh" using pool.new_ok [OF lh(1)] by blast
    ultimately show False using pool.insert_ok [OF _ refl refl ins] zero_alloc_malloc [of 24] by simp
  qed
  then have "crypto_buffer_publish zero_alloc True 0 ?t = (Some 0, ?t\<lparr>ps_bufs := bufs\<rparr>)"
    using ins none [of ?t] by (simp add: crypto_buffer_publish_def usable_duplicate_def lh(2) put_buffer_def)
  then have "crypto_buffer_insert zero_alloc data True True s = (Some 0, ?t\<lparr>ps_bufs := bufs\<rparr>)"
    using zero_alloc_malloc [of 32] by (auto simp: crypto_buffer_insert_def Let_def lh(2))
  with l show ?thesis by (auto simp: crypto_buffer_new_def)
qed

theorem pool_references_witness:
  "\<exists>s s'. CRYPTO_BUFFER_POOL_new zero_alloc = Some s \<and>
     crypto_buffer_insert zero_alloc [1, 2] True True s = (Some 0, s') \<and> CRYPTO_BUFFER_free zero_alloc (Some 0) s' \<noteq> None"
proof -
  obtain s where s: "CRYPTO_BUFFER_POOL_new zero_alloc = Some s" using zero_alloc_pool by blast
  then obtain s' where s': "crypto_buffer_insert zero_alloc [1, 2] True True s = (Some 0, s')"
    using first_buffer by blast
  have "pool_reach s' ({#} + returned (Some 0))"
    by (rule pool_reach_insert [OF pool_reach_new [OF s] _ s']) simp
  then have "CRYPTO_BUFFER_free zero_alloc (Some 0) s' \<noteq> None"
    using pool_references_safe [of s' "{#0#}" 0 zero_alloc] by (simp add: returned_def)
  with s s' show ?thesis by blast
qed

theorem pool_shares_witness:
  "\<exists>s s'. CRYPTO_BUFFER_POOL_new zero_alloc = Some s \<and> crypto_buffer_new zero_alloc [1, 2] True True s = (Some 0, s') \<and>
     fst (CRYPTO_BUFFER_new zero_alloc [1, 2] True s') = Some 0"
proof -
  obtain s where s: "CRYPTO_BUFFER_POOL_new zero_alloc = Some s" using zero_alloc_pool by blast
  then obtain s' where s': "crypto_buffer_new zero_alloc [1, 2] True True s = (Some 0, s')"
    using first_buffer by blast
  with pool_shares [OF pool_reach_new [OF s] _ s', of zero_alloc] s show ?thesis by auto
qed

text \<open>The table on its own: an insertion into the table of a pool, then a lookup.\<close>

definition two_buffers :: buf_heap where
  "two_buffers a = Some \<lparr>cb_pooled = True, cb_data = (if a < 2 then [7] else [8]), cb_references = 1, cb_data_is_static = False\<rparr>"

theorem lh_refines_map_witness:
  "\<exists>lh rs lh'. OPENSSL_lh_new zero_alloc () () = Some lh \<and>
     lh_run zero_alloc (\<lambda>_. buf_hash two_buffers) (\<lambda>_. buf_cmp two_buffers)
       [Lh_Insert 0, Lh_Insert 1, Lh_Retrieve 2, Lh_Delete 0] lh = (rs, lh') \<and>
     rs = [(True, None), (True, Some 0), (True, None), (True, Some 1)]"
proof -
  obtain lh :: "(nat, unit, unit) lhash_st" where lh: "OPENSSL_lh_new zero_alloc () () = Some lh"
    using zero_alloc_malloc [of 48] zero_alloc_malloc [of "8 * kMinNumBuckets"]
    by (auto simp: OPENSSL_lh_new_def kMinNumBuckets_def)
  obtain rs lh' where run: "lh_run zero_alloc (\<lambda>_. buf_hash two_buffers) (\<lambda>_. buf_cmp two_buffers)
      [Lh_Insert 0, Lh_Insert 1, Lh_Retrieve 2, Lh_Delete 0] lh = (rs, lh')" by fastforce
  have "rs = [(True, None), (True, Some 0), (True, None), (True, Some 1)]"
    using lh_refines_map [OF pool.hashing_axioms lh run] zero_alloc_malloc [of 24]
    by (auto simp: buf_cmp_eq two_buffers_def Let_def)
  with lh run show ?thesis by blast
qed

end
