(* ===== verification/Constant_Time.thy ===== *)
theory Constant_Time
  imports Prelude
begin

text \<open>
  The branch-free comparisons and selections of crypto/internal.h: a truth value is a word of all
  ones or all zeros. Each is equal to the comparison it stands for. \<open>crypto_word_t\<close> is 64 bits
  wide; \<open>value_barrier_w\<close> returns its argument.
\<close>

definition mask_w :: "bool \<Rightarrow> u64" where
  "mask_w P = (if P then -1 else 0)"

definition mask_8 :: "bool \<Rightarrow> u8" where
  "mask_8 P = (if P then 0xff else 0)"

section \<open>Definitions\<close>

definition constant_time_msb_w :: "u64 \<Rightarrow> u64" where
  "constant_time_msb_w a = 0 - drop_bit 63 a"

definition constant_time_lt_w :: "u64 \<Rightarrow> u64 \<Rightarrow> u64" where
  "constant_time_lt_w a b = constant_time_msb_w (a XOR ((a XOR b) OR ((a - b) XOR a)))"

definition constant_time_lt_8 :: "u64 \<Rightarrow> u64 \<Rightarrow> u8" where
  "constant_time_lt_8 a b = ucast (constant_time_lt_w a b)"

definition constant_time_ge_w :: "u64 \<Rightarrow> u64 \<Rightarrow> u64" where
  "constant_time_ge_w a b = NOT (constant_time_lt_w a b)"

definition constant_time_ge_8 :: "u64 \<Rightarrow> u64 \<Rightarrow> u8" where
  "constant_time_ge_8 a b = ucast (constant_time_ge_w a b)"

definition constant_time_is_zero_w :: "u64 \<Rightarrow> u64" where
  "constant_time_is_zero_w a = constant_time_msb_w (NOT a AND (a - 1))"

definition constant_time_is_zero_8 :: "u64 \<Rightarrow> u8" where
  "constant_time_is_zero_8 a = ucast (constant_time_is_zero_w a)"

definition constant_time_eq_w :: "u64 \<Rightarrow> u64 \<Rightarrow> u64" where
  "constant_time_eq_w a b = constant_time_is_zero_w (a XOR b)"

definition constant_time_eq_8 :: "u64 \<Rightarrow> u64 \<Rightarrow> u8" where
  "constant_time_eq_8 a b = ucast (constant_time_eq_w a b)"

definition constant_time_eq_int :: "32 word \<Rightarrow> 32 word \<Rightarrow> u64" where
  "constant_time_eq_int a b = constant_time_eq_w (scast a) (scast b)"

definition constant_time_eq_int_8 :: "32 word \<Rightarrow> 32 word \<Rightarrow> u8" where
  "constant_time_eq_int_8 a b = constant_time_eq_8 (scast a) (scast b)"

definition constant_time_select_w :: "u64 \<Rightarrow> u64 \<Rightarrow> u64 \<Rightarrow> u64" where
  "constant_time_select_w m a b = (m AND a) OR (NOT m AND b)"

definition constant_time_select_8 :: "u8 \<Rightarrow> u8 \<Rightarrow> u8 \<Rightarrow> u8" where
  "constant_time_select_8 m a b = ucast (constant_time_select_w (ucast m) (ucast a) (ucast b))"

definition constant_time_select_int :: "u64 \<Rightarrow> 32 word \<Rightarrow> 32 word \<Rightarrow> 32 word" where
  "constant_time_select_int m a b = ucast (constant_time_select_w m (scast a) (scast b))"

section \<open>They are the comparisons\<close>

lemma bit_63: "bit (w :: u64) 63 \<longleftrightarrow> 2 ^ 63 \<le> unat w"
proof
  assume "bit w 63"
  then have "bit (unat w) 63" by (simp add: bit_unsigned_iff)
  then have "odd (unat w div 2 ^ 63)" by (simp add: bit_iff_odd)
  then have "unat w div 2 ^ 63 \<noteq> 0" by (metis even_zero)
  then show "2 ^ 63 \<le> unat w" by (metis div_less not_less)
next
  assume le: "2 ^ 63 \<le> unat w"
  show "bit w 63"
  proof (rule ccontr)
    assume "\<not> bit w 63"
    then have "\<not> bit (unat w) 63" by (simp add: bit_unsigned_iff)
    then have even: "even (unat w div 2 ^ 63)" by (simp add: bit_iff_odd)
    have "unat w div 2 ^ 63 < 2" by (rule less_mult_imp_div_less) simp
    moreover have "unat w div 2 ^ 63 \<noteq> 0" using le by (simp add: div_eq_0_iff)
    ultimately have "unat w div 2 ^ 63 = 1" by linarith
    with even show False by simp
  qed
qed

lemma msb_w_eq: "constant_time_msb_w a = mask_w (bit a 63)"
proof -
  have "drop_bit 63 a = of_bool (bit a 63)"
    by (intro bit_word_eqI, case_tac n) (auto simp: bit_simps dest: bit_imp_le_length)
  then show ?thesis by (simp add: constant_time_msb_w_def mask_w_def)
qed

lemma unat_u64_diff:
  "unat (a - b :: u64) = (if unat b \<le> unat a then unat a - unat b else 2 ^ 64 + unat a - unat b)"
  using unat_sub_if_size [of a b] by (auto simp: word_size)

lemma lt_w_eq: "constant_time_lt_w a b = mask_w (a < b)"
proof -
  have "bit (a XOR ((a XOR b) OR ((a - b) XOR a))) 63 \<longleftrightarrow> (if bit a 63 = bit b 63 then bit (a - b) 63 else bit b 63)"
    by (auto simp: bit_simps)
  also have "\<dots> \<longleftrightarrow> a < b"
    using unat_u64_less [of a] unat_u64_less [of b]
    by (auto simp: bit_63 unat_u64_diff word_less_nat_alt simp del: unat_u64_less)
  finally show ?thesis by (simp add: constant_time_lt_w_def msb_w_eq)
qed

lemma ge_w_eq: "constant_time_ge_w a b = mask_w (a \<ge> b)"
  by (auto simp: constant_time_ge_w_def lt_w_eq mask_w_def not_less)

lemma is_zero_w_eq: "constant_time_is_zero_w a = mask_w (a = 0)"
proof (cases "a = 0")
  case False
  then have "1 \<le> unat a" by (simp add: Suc_le_eq unat_gt_0)
  then have "unat (a - 1) = unat a - 1" by (simp add: unat_sub word_le_nat_alt)
  then have "\<not> (\<not> bit a 63 \<and> bit (a - 1) 63)" by (auto simp: bit_63)
  then show ?thesis using False by (auto simp: constant_time_is_zero_w_def msb_w_eq bit_simps mask_w_def)
qed (simp add: constant_time_is_zero_w_def constant_time_msb_w_def mask_w_def)

lemma eq_w_eq: "constant_time_eq_w a b = mask_w (a = b)"
proof -
  have "a XOR b = 0 \<longleftrightarrow> a = b" by (auto simp: bit_eq_iff bit_simps)
  then show ?thesis by (simp add: constant_time_eq_w_def is_zero_w_eq)
qed

lemma mask_8_alt: "mask_8 P = (if P then -1 else 0)"
  by (simp add: mask_8_def)

lemma ucast_mask [simp]: "ucast (mask_w P) = mask_8 P"
  by (rule bit_word_eqI) (auto simp: mask_w_def mask_8_alt bit_simps)

lemma eq_8_eq: "constant_time_eq_8 a b = mask_8 (a = b)"
  by (simp add: constant_time_eq_8_def eq_w_eq)

lemma lt_8_eq: "constant_time_lt_8 a b = mask_8 (a < b)"
  by (simp add: constant_time_lt_8_def lt_w_eq)

lemma ge_8_eq: "constant_time_ge_8 a b = mask_8 (a \<ge> b)"
  by (simp add: constant_time_ge_8_def ge_w_eq)

lemma select_w_eq: "constant_time_select_w (mask_w P) a b = (if P then a else b)"
  by (simp add: constant_time_select_w_def mask_w_def)

lemma select_8_eq: "constant_time_select_8 (mask_8 P) a b = (if P then a else b)"
  by (rule bit_word_eqI)
    (auto simp: constant_time_select_8_def constant_time_select_w_def mask_8_alt bit_simps)

lemma select_int_eq: "constant_time_select_int (mask_w P) a b = (if P then a else b)"
  by (rule bit_word_eqI) (auto simp: constant_time_select_int_def select_w_eq bit_simps)

lemma mask_8_or [simp]: "mask_8 P OR mask_8 Q = mask_8 (P \<or> Q)"
  by (simp add: mask_8_def)

lemma mask_8_and [simp]: "mask_8 P AND x = (if P then x else 0)"
proof -
  have "(0xff :: u8) = -1" by simp
  then have "0xff AND x = x" by (simp only: and.left_neutral)
  then show ?thesis by (simp add: mask_8_def)
qed

lemma mask_8_not [simp]: "NOT (mask_8 P) = mask_8 (\<not> P)"
  by (simp add: mask_8_def)

end
