(* ===== verification/Base64.thy ===== *)
theory Base64
  imports Constant_Time Mem
begin

text \<open>
  crypto/base64/base64.c: block and streaming base64. Characters are bytes; an output buffer is the
  list of the bytes written to it, without the terminating NUL the encoder adds after them. The
  size of the output buffer is the caller's business, as in the code.
\<close>

section \<open>Characters\<close>

definition constant_time_lt_args_8 :: "u8 \<Rightarrow> u8 \<Rightarrow> u8" where
  "constant_time_lt_args_8 a b = ucast (constant_time_msb_w (ucast a - ucast b))"

definition constant_time_in_range_8 :: "u8 \<Rightarrow> u8 \<Rightarrow> u8 \<Rightarrow> u8" where
  "constant_time_in_range_8 a lo hi = constant_time_lt_args_8 (a - lo) (hi - lo + 1)"

definition conv_bin2ascii :: "u8 \<Rightarrow> u8" where
  "conv_bin2ascii a =
     (let a = a AND 0x3f;
          ret = constant_time_select_8 (constant_time_eq_8 (ucast a) 62) 0x2b 0x2f;
          ret = constant_time_select_8 (constant_time_lt_args_8 a 62) (a - 52 + 0x30) ret;
          ret = constant_time_select_8 (constant_time_lt_args_8 a 52) (a - 26 + 0x61) ret
      in constant_time_select_8 (constant_time_lt_args_8 a 26) (a + 0x41) ret)"

definition base64_ascii_to_bin :: "u8 \<Rightarrow> u8" where
  "base64_ascii_to_bin a =
     (let is_upper = constant_time_in_range_8 a 0x41 0x5a;
          is_lower = constant_time_in_range_8 a 0x61 0x7a;
          is_digit = constant_time_in_range_8 a 0x30 0x39;
          is_plus = constant_time_eq_8 (ucast a) 0x2b;
          is_slash = constant_time_eq_8 (ucast a) 0x2f;
          is_equals = constant_time_eq_8 (ucast a) 0x3d;
          ret = 0 OR (is_upper AND (a - 0x41));
          ret = ret OR (is_lower AND (a - 0x61 + 26));
          ret = ret OR (is_digit AND (a - 0x30 + 52));
          ret = ret OR (is_plus AND 62);
          ret = ret OR (is_slash AND 63);
          is_valid = is_upper OR is_lower OR is_digit OR is_plus OR is_slash OR is_equals
      in ret OR NOT is_valid)"

section \<open>Encoding\<close>

definition EVP_EncodedLength :: "u64 \<Rightarrow> u64 option" where
  "EVP_EncodedLength len =
     (if len + 2 < len then None
      else
        let len = (len + 2) div 3
        in if drop_bit 2 (push_bit 2 len) \<noteq> len then None
           else
             let len = push_bit 2 len
             in if len + 1 < len then None else Some (len + 1))"

fun encode_block :: "u8 list \<Rightarrow> u8 list" where
  "encode_block [] = []"
| "encode_block [a] =
     (let l = push_bit 16 (ucast a :: u32)
      in [conv_bin2ascii (ucast (drop_bit 18 l)), conv_bin2ascii (ucast (drop_bit 12 l)), 0x3d, 0x3d])"
| "encode_block [a, b] =
     (let l = push_bit 16 (ucast a :: u32) OR push_bit 8 (ucast b)
      in [conv_bin2ascii (ucast (drop_bit 18 l)), conv_bin2ascii (ucast (drop_bit 12 l)),
          conv_bin2ascii (ucast (drop_bit 6 l)), 0x3d])"
| "encode_block (a # b # c # src) =
     (let l = push_bit 16 (ucast a :: u32) OR push_bit 8 (ucast b) OR ucast c
      in [conv_bin2ascii (ucast (drop_bit 18 l)), conv_bin2ascii (ucast (drop_bit 12 l)),
          conv_bin2ascii (ucast (drop_bit 6 l)), conv_bin2ascii (ucast l)] @ encode_block src)"

text \<open>The bytes written before the NUL, and the value returned.\<close>

definition EVP_EncodeBlock :: "u8 list \<Rightarrow> u8 list \<times> u64" where
  "EVP_EncodeBlock src = (encode_block src, of_nat (length (encode_block src)))"

record evp_encode_ctx =
  ec_data_used :: u32
  ec_data :: "u8 list"
  ec_eof_seen :: bool
  ec_error_encountered :: bool

definition EVP_EncodeInit :: evp_encode_ctx where
  "EVP_EncodeInit = \<lparr>ec_data_used = 0, ec_data = replicate 48 0, ec_eof_seen = False, ec_error_encountered = False\<rparr>"

definition EVP_ENCODE_CTX_new :: "allocator \<Rightarrow> evp_encode_ctx option" where
  "EVP_ENCODE_CTX_new al = map_option (\<lambda>_. EVP_EncodeInit) (OPENSSL_malloc al 56)"

definition INT_MAX :: u64 where
  "INT_MAX = 0x7fffffff"





section \<open>Decoding\<close>

definition EVP_DecodedLength :: "u64 \<Rightarrow> u64 option" where
  "EVP_DecodedLength len = (if len mod 4 \<noteq> 0 then None else Some (len div 4 * 3))"


definition base64_decode_quad :: "u8 list \<Rightarrow> u8 list option" where
  "base64_decode_quad inp =
     (let a = base64_ascii_to_bin (inp ! 0); b = base64_ascii_to_bin (inp ! 1);
          c = base64_ascii_to_bin (inp ! 2); d = base64_ascii_to_bin (inp ! 3)
      in if a = 0xff \<or> b = 0xff \<or> c = 0xff \<or> d = 0xff then None
         else
           let v = push_bit 18 (ucast a :: u32) OR push_bit 12 (ucast b) OR push_bit 6 (ucast c) OR ucast d
           in (case (inp ! 0 = 0x3d, inp ! 1 = 0x3d, inp ! 2 = 0x3d, inp ! 3 = 0x3d) of
                 (False, False, False, False) \<Rightarrow> Some [ucast (drop_bit 16 v), ucast (drop_bit 8 v), ucast v]
               | (False, False, False, True) \<Rightarrow> Some [ucast (drop_bit 16 v), ucast (drop_bit 8 v)]
               | (False, False, True, True) \<Rightarrow> Some [ucast (drop_bit 16 v)]
               | _ \<Rightarrow> None))"

definition is_base64_space :: "u8 \<Rightarrow> bool" where
  "is_base64_space c \<longleftrightarrow> c = 0x20 \<or> c = 0x09 \<or> c = 0x0d \<or> c = 0x0a"

fun decode_update_loop :: "evp_encode_ctx \<Rightarrow> u8 list \<Rightarrow> u64 \<Rightarrow> u8 list \<Rightarrow> bool \<times> evp_encode_ctx \<times> u8 list \<times> u64" where
  "decode_update_loop ctx out n [] = (True, ctx, out, n)"
| "decode_update_loop ctx out n (c # inp) =
     (if is_base64_space c then decode_update_loop ctx out n inp
      else if ec_eof_seen ctx then (False, ctx\<lparr>ec_error_encountered := True\<rparr>, out, n)
      else
        let ctx = ctx\<lparr>ec_data := (ec_data ctx)[unat (ec_data_used ctx) := c], ec_data_used := ec_data_used ctx + 1\<rparr>
        in if ec_data_used ctx = 4 then
             (case base64_decode_quad (take 4 (ec_data ctx)) of
                None \<Rightarrow> (False, ctx\<lparr>ec_error_encountered := True\<rparr>, out, n)
              | Some bytes \<Rightarrow>
                  let ctx = ctx\<lparr>ec_data_used := 0, ec_eof_seen := ec_eof_seen ctx \<or> length bytes < 3\<rparr>
                  in decode_update_loop ctx (out @ bytes) (n + of_nat (length bytes)) inp)
           else decode_update_loop ctx out n inp)"



text \<open>The loop over quads; \<open>last\<close> is whether the next quad is the last.\<close>

function decode_quads :: "u8 list \<Rightarrow> u8 list option" where
  "decode_quads inp =
     (if inp = [] then Some []
      else
        case base64_decode_quad (take 4 inp) of
          None \<Rightarrow> None
        | Some bytes \<Rightarrow>
            if length bytes \<noteq> 3 \<and> length inp \<noteq> 4 then None
            else map_option ((@) bytes) (decode_quads (drop 4 inp)))"
  by pat_completeness auto
termination by (relation "measure length") auto

declare decode_quads.simps [simp del]

definition EVP_DecodeBase64 :: "u64 \<Rightarrow> u8 list \<Rightarrow> u8 list option" where
  "EVP_DecodeBase64 max_out inp =
     (if length inp mod 4 \<noteq> 0 then None
      else
        case EVP_DecodedLength (of_nat (length inp)) of
          None \<Rightarrow> None
        | Some max_len \<Rightarrow> if max_out < max_len then None else decode_quads inp)"

definition trim_start :: "u8 list \<Rightarrow> u8 list" where
  "trim_start src = dropWhile (\<lambda>c. c = 0x20 \<or> c = 0x09) src"

definition trim_end :: "u8 list \<Rightarrow> u8 list" where
  "trim_end src = rev (dropWhile is_base64_space (rev src))"

definition EVP_DecodeBlock :: "u8 list \<Rightarrow> u8 list option" where
  "EVP_DecodeBlock src =
     (let src = trim_end (trim_start src)
      in case EVP_DecodedLength (of_nat (length src)) of
           None \<Rightarrow> None
         | Some dst_len \<Rightarrow>
             if dst_len > INT_MAX then None
             else
               case EVP_DecodeBase64 dst_len src of
                 None \<Rightarrow> None
               | Some dst \<Rightarrow> Some (dst @ replicate ((3 - length dst mod 3) mod 3) 0))"

section \<open>One quad\<close>

lemma lt_args_8_eq: "constant_time_lt_args_8 a b = mask_8 (a < b)"
proof -
  have "bit (ucast a - ucast b :: u64) 63 \<longleftrightarrow> a < b"
    using unat_u8_less [of a] unat_u8_less [of b]
    by (auto simp: bit_63 unat_u64_diff word_less_nat_alt simp del: unat_u8_less unat_u8_le)
  then show ?thesis by (simp add: constant_time_lt_args_8_def msb_w_eq)
qed

lemma unat_u8_diff: "unat (a - b :: u8) = (if unat b \<le> unat a then unat a - unat b else 256 + unat a - unat b)"
  using unat_sub_if_size [of a b] by (auto simp: word_size)

lemma in_range_8_eq:
  assumes "lo \<le> hi" and "unat hi - unat lo < 255"
  shows "constant_time_in_range_8 a lo hi = mask_8 (lo \<le> a \<and> a \<le> hi)"
proof -
  have d: "unat (hi - lo) = unat hi - unat lo" using assms(1) by (simp add: unat_sub)
  have "unat (hi - lo + 1) = unat (hi - lo) + 1" using assms(2) by (simp add: unat_word_ariths d)
  then have "a - lo < hi - lo + 1 \<longleftrightarrow> unat (a - lo) \<le> unat hi - unat lo"
    by (simp add: word_less_nat_alt d less_Suc_eq_le)
  also have "\<dots> \<longleftrightarrow> lo \<le> a \<and> a \<le> hi"
    using assms unat_u8_less [of a] unat_u8_less [of lo] unat_u8_less [of hi]
    by (auto simp: unat_u8_diff word_le_nat_alt simp del: unat_u8_less unat_u8_le)
  finally show ?thesis by (simp add: constant_time_in_range_8_def lt_args_8_eq)
qed

lemma ucast_u8_eq_numeral: "ucast (a :: u8) = (ucast (b :: u8) :: u64) \<longleftrightarrow> a = b"
  by (metis unat_ucast_u8_u64 word_unat_eq_iff)

lemma eq_8_numeral:
  "constant_time_eq_8 (ucast (a :: u8)) 0x2b = mask_8 (a = 0x2b)"
  "constant_time_eq_8 (ucast a) 0x2f = mask_8 (a = 0x2f)"
  "constant_time_eq_8 (ucast a) 0x3d = mask_8 (a = 0x3d)"
  "constant_time_eq_8 (ucast a) 62 = mask_8 (a = 62)"
  using ucast_u8_eq_numeral [of a "0x2b"] ucast_u8_eq_numeral [of a "0x2f"] ucast_u8_eq_numeral [of a "0x3d"]
    ucast_u8_eq_numeral [of a 62]
  by (simp_all add: eq_8_eq)

lemma conv_eq:
  "conv_bin2ascii a =
     (let a = a AND 0x3f
      in if a < 26 then a + 0x41 else if a < 52 then a - 26 + 0x61 else if a < 62 then a - 52 + 0x30
         else if a = 62 then 0x2b else 0x2f)"
  by (simp only: conv_bin2ascii_def Let_def lt_args_8_eq eq_8_numeral select_8_eq)

lemma ascii_eq:
  "base64_ascii_to_bin a =
     (if 0x41 \<le> a \<and> a \<le> 0x5a then a - 0x41 else if 0x61 \<le> a \<and> a \<le> 0x7a then a - 0x61 + 26
      else if 0x30 \<le> a \<and> a \<le> 0x39 then a - 0x30 + 52 else if a = 0x2b then 62 else if a = 0x2f then 63
      else if a = 0x3d then 0 else 0xff)"
proof -
  have r: "constant_time_in_range_8 a 0x41 0x5a = mask_8 (0x41 \<le> a \<and> a \<le> 0x5a)"
    "constant_time_in_range_8 a 0x61 0x7a = mask_8 (0x61 \<le> a \<and> a \<le> 0x7a)"
    "constant_time_in_range_8 a 0x30 0x39 = mask_8 (0x30 \<le> a \<and> a \<le> 0x39)"
    by (rule in_range_8_eq; simp)+
  have x: "\<not> (0x61 \<le> a \<and> a \<le> 0x5a)" "\<not> (0x61 \<le> a \<and> a \<le> 0x39)" "\<not> (0x41 \<le> a \<and> a \<le> 0x39)"
    by (auto simp: word_le_nat_alt)
  show ?thesis
    unfolding base64_ascii_to_bin_def Let_def r eq_8_numeral mask_8_and mask_8_or mask_8_not
    using x by (auto simp: mask_8_def)
qed

lemma and_3f: "unat (a AND 0x3f :: u8) = unat a mod 64"
proof -
  have "a AND 0x3f = take_bit 6 a" by (simp add: take_bit_eq_mask mask_eq_exp_minus_1)
  then show ?thesis by (simp add: unsigned_take_bit_eq take_bit_eq_mod unat_mod)
qed

lemma conv_range:
  assumes "y = a AND 0x3f"
  shows "y < 26 \<and> unat (conv_bin2ascii a) = unat y + 65 \<or> 26 \<le> y \<and> y < 52 \<and> unat (conv_bin2ascii a) = unat y + 71 \<or>
    52 \<le> y \<and> y < 62 \<and> unat (conv_bin2ascii a) = unat y - 4 \<or> y = 62 \<and> conv_bin2ascii a = 0x2b \<or>
    y = 63 \<and> conv_bin2ascii a = 0x2f"
proof -
  have y: "unat y < 64" using assms by (simp add: and_3f)
  have conv: "conv_bin2ascii a = (if y < 26 then y + 0x41 else if y < 52 then y - 26 + 0x61
      else if y < 62 then y - 52 + 0x30 else if y = 62 then 0x2b else 0x2f)"
    unfolding assms by (simp add: conv_eq Let_def)
  have "y = 63" if "\<not> y < 62" "y \<noteq> 62" using that y by (simp add: word_less_nat_alt word_unat_eq_iff)
  moreover have "unat (y + 0x41) = unat y + 65" if "y < 26" using y by (simp add: unat_word_ariths)
  moreover have "unat (y - 26 + 0x61) = unat y + 71" if "\<not> y < 26" "y < 52"
    using that y by (simp add: unat_word_ariths(1) unat_u8_diff word_less_nat_alt)
  moreover have "unat (y - 52 + 0x30) = unat y - 4" if "\<not> y < 52" "y < 62"
    using that y by (simp add: unat_word_ariths(1) unat_u8_diff word_less_nat_alt)
  ultimately show ?thesis by (auto simp: conv not_less)
qed

lemma ascii_conv: "base64_ascii_to_bin (conv_bin2ascii a) = a AND 0x3f"
  and conv_not_pad: "conv_bin2ascii a \<noteq> 0x3d" and conv_not_space: "\<not> is_base64_space (conv_bin2ascii a)"
proof -
  let ?y = "a AND 0x3f" and ?c = "conv_bin2ascii a"
  have bnd: "?y < 26 \<longleftrightarrow> unat ?y < 26" "26 \<le> ?y \<longleftrightarrow> 26 \<le> unat ?y" "?y < 52 \<longleftrightarrow> unat ?y < 52"
    "52 \<le> ?y \<longleftrightarrow> 52 \<le> unat ?y" "?y < 62 \<longleftrightarrow> unat ?y < 62"
    by (simp_all add: word_less_nat_alt word_le_nat_alt)
  note r = conv_range [OF refl, of a, unfolded bnd]
  show "base64_ascii_to_bin ?c = ?y" "?c \<noteq> 0x3d" "\<not> is_base64_space ?c"
    using r by (auto simp: ascii_eq is_base64_space_def word_unat_eq_iff word_le_nat_alt unat_word_ariths(1) unat_u8_diff)
qed

text \<open>Concatenating bit fields.\<close>

lemma field_or:
  assumes "unat (b :: u32) < 2 ^ n" and "unat a * 2 ^ n + unat b < 2 ^ 32"
  shows "unat (push_bit n a OR b) = unat a * 2 ^ n + unat b"
proof -
  have a: "unat (push_bit n a) = unat a * 2 ^ n"
    using assms(2) by (subst unsigned_push_bit_eq) (simp add: push_bit_eq_mult take_bit_nat_eq_self)
  have "push_bit n a OR b = push_bit n a + b" using assms(1) by (rule word_or_push_bit_add)
  then show ?thesis using assms(2) by (simp add: unat_word_ariths a)
qed

lemma unat_drop_bit_u32: "unat (drop_bit k (w :: u32)) = unat w div 2 ^ k"
proof -
  have "unat w < 4294967296" using unsigned_less [of w] by simp
  then show ?thesis by (subst unsigned_drop_bit_eq) (simp add: drop_bit_eq_div take_bit_nat_eq_self)
qed

lemma unat_byte_of: "unat (ucast (w :: u32) :: u8) = unat w mod 256"
  by (simp add: unsigned_ucast_eq take_bit_eq_mod)

lemma three_bytes:
  "unat (push_bit 16 (ucast a :: u32) OR push_bit 8 (ucast b) OR ucast c) = unat (a :: u8) * 65536 + unat (b :: u8) * 256 + unat (c :: u8)"
proof -
  have "unat a < 256" "unat b < 256" "unat c < 256" by simp_all
  then have small: "unat b * 256 + unat c < 65536" "unat a * 65536 + (unat b * 256 + unat c) < 4294967296" by linarith+
  have bc: "unat (push_bit 8 (ucast b :: u32) OR ucast c) = unat b * 256 + unat c"
    using small(1) by (subst field_or) simp_all
  then have "unat (push_bit 16 (ucast a :: u32) OR (push_bit 8 (ucast b) OR ucast c)) = unat a * 65536 + (unat b * 256 + unat c)"
    using small by (subst field_or) simp_all
  then show ?thesis by (simp add: or.assoc)
qed

lemma four_sextets:
  assumes "unat a < 64" and "unat b < 64" and "unat c < 64" and "unat d < 64"
  shows "unat (push_bit 18 (ucast a :: u32) OR push_bit 12 (ucast b) OR push_bit 6 (ucast c) OR ucast d) =
    unat (a :: u8) * 262144 + unat (b :: u8) * 4096 + unat (c :: u8) * 64 + unat (d :: u8)"
proof -
  have cd: "unat (push_bit 6 (ucast c :: u32) OR ucast d) = unat c * 64 + unat d"
    using assms by (subst field_or) simp_all
  then have bcd: "unat (push_bit 12 (ucast b :: u32) OR (push_bit 6 (ucast c) OR ucast d)) = unat b * 4096 + (unat c * 64 + unat d)"
    using assms by (subst field_or) simp_all
  then have "unat (push_bit 18 (ucast a :: u32) OR (push_bit 12 (ucast b) OR (push_bit 6 (ucast c) OR ucast d))) =
      unat a * 262144 + (unat b * 4096 + (unat c * 64 + unat d))"
    using assms by (subst field_or) simp_all
  then show ?thesis by (simp add: or.assoc)
qed

lemma sextet: "unat (base64_ascii_to_bin (conv_bin2ascii (ucast (l :: u32)))) = unat l mod 64"
  by (simp add: ascii_conv and_3f unat_byte_of mod_mod_cancel)

lemma sextet_valid: "base64_ascii_to_bin (conv_bin2ascii a) \<noteq> 0xff"
proof
  assume e: "base64_ascii_to_bin (conv_bin2ascii a) = 0xff"
  have "unat (0xff :: u8) = unat a mod 64" unfolding e [symmetric] by (simp add: ascii_conv and_3f)
  moreover have "unat a mod 64 < 64" by simp
  ultimately have "unat (0xff :: u8) < 64" by metis
  then show False by simp
qed

lemma digits_64: "n = 64 * q + x \<Longrightarrow> q = 64 * r + y \<Longrightarrow> r = 64 * s + z \<Longrightarrow>
    s * 262144 + z * 4096 + y * 64 + x = (n :: nat)"
  by simp

lemma regroup:
  assumes "(n :: nat) < 16777216"
  shows "n div 262144 mod 64 * 262144 + n div 4096 mod 64 * 4096 + n div 64 mod 64 * 64 + n mod 64 = n"
proof -
  let ?q = "n div 64"
  have "n div 262144 < 64" using assms by (simp add: less_mult_imp_div_less)
  then have s: "n div 262144 mod 64 = n div 4096 div 64" by (simp add: div_mult2_eq [symmetric])
  have r: "n div 4096 = ?q div 64" by (simp add: div_mult2_eq [symmetric])
  show ?thesis unfolding s
    by (rule digits_64 [where q = ?q and r = "?q div 64"]) (simp_all only: r mult_div_mod_eq)
qed

lemma byte_digits:
  assumes "x < 256" and "y < 256" and "z < (256 :: nat)"
  shows "(x * 65536 + y * 256 + z) div 65536 mod 256 = x" and "(x * 65536 + y * 256 + z) div 256 mod 256 = y"
    and "(x * 65536 + y * 256 + z) mod 256 = z"
proof -
  have e: "x * 65536 + y * 256 + z = (x * 256 + y) * 256 + z" by simp
  have d: "((x * 256 + y) * 256 + z) div 256 = x * 256 + y" using assms(3) by simp
  have "((x * 256 + y) * 256 + z) div 65536 = (x * 256 + y) div 256"
    using d by (simp add: div_mult2_eq [of _ 256 256, simplified])
  then show "(x * 65536 + y * 256 + z) div 65536 mod 256 = x" using assms by (simp add: e)
  show "(x * 65536 + y * 256 + z) div 256 mod 256 = y" unfolding e d using assms by simp
  show "(x * 65536 + y * 256 + z) mod 256 = z"
    unfolding e mod_mult_self3 using assms(3) by (rule mod_less)
qed

text \<open>The four characters of the 24-bit value \<open>l\<close> give the value back.\<close>

definition quad_value :: "u8 \<Rightarrow> u8 \<Rightarrow> u8 \<Rightarrow> u8 \<Rightarrow> u32" where
  "quad_value a b c d = push_bit 18 (ucast a) OR push_bit 12 (ucast b) OR push_bit 6 (ucast c) OR ucast d"

lemma quad_value_bytes:
  assumes "unat (quad_value p q r t) = unat a * 65536 + unat b * 256 + unat c"
  shows "ucast (drop_bit 16 (quad_value p q r t)) = (a :: u8)" and "ucast (drop_bit 8 (quad_value p q r t)) = (b :: u8)"
    and "ucast (quad_value p q r t) = (c :: u8)"
  using byte_digits [of "unat a" "unat b" "unat c"] unat_byte_of [of "drop_bit 16 (quad_value p q r t)"]
    unat_byte_of [of "drop_bit 8 (quad_value p q r t)"] unat_byte_of [of "quad_value p q r t"]
  by (simp_all add: word_unat_eq_iff unat_drop_bit_u32 assms)

section \<open>Blocks\<close>

lemma pad_bin: "base64_ascii_to_bin 0x3d = 0"
  by (simp add: ascii_eq)

lemma unat_fits: "unat (a :: u8) * 65536 + unat (b :: u8) * 256 + unat (c :: u8) < 16777216"
proof -
  have "unat a < 256" "unat b < 256" "unat c < 256" by simp_all
  then show ?thesis by linarith
qed

lemma quad_3:
  assumes "l = push_bit 16 (ucast a :: u32) OR push_bit 8 (ucast b) OR ucast c"
  shows "base64_decode_quad [conv_bin2ascii (ucast (drop_bit 18 l)), conv_bin2ascii (ucast (drop_bit 12 l)),
    conv_bin2ascii (ucast (drop_bit 6 l)), conv_bin2ascii (ucast l)] = Some [a, b, c]"
proof -
  have l: "unat l = unat a * 65536 + unat b * 256 + unat c" by (simp only: assms three_bytes)
  have lt: "unat l < 16777216" unfolding l by (rule unat_fits)
  let ?s = "\<lambda>x. base64_ascii_to_bin (conv_bin2ascii (ucast (x :: u32)))"
  let ?v = "quad_value (?s (drop_bit 18 l)) (?s (drop_bit 12 l)) (?s (drop_bit 6 l)) (?s l)"
  have "unat ?v = unat l div 262144 mod 64 * 262144 + unat l div 4096 mod 64 * 4096 + unat l div 64 mod 64 * 64 + unat l mod 64"
    unfolding quad_value_def by (subst four_sextets) (simp_all add: sextet unat_drop_bit_u32)
  then have "unat ?v = unat l" using regroup [OF lt] by (rule trans)
  then have "unat ?v = unat a * 65536 + unat b * 256 + unat c" using l by (rule trans)
  note quad_value_bytes [OF this]
  then show ?thesis
    by (simp add: base64_decode_quad_def Let_def sextet_valid conv_not_pad flip: quad_value_def)
qed

lemma quad_2:
  assumes "l = push_bit 16 (ucast a :: u32) OR push_bit 8 (ucast b)"
  shows "base64_decode_quad [conv_bin2ascii (ucast (drop_bit 18 l)), conv_bin2ascii (ucast (drop_bit 12 l)),
    conv_bin2ascii (ucast (drop_bit 6 l)), 0x3d] = Some [a, b]"
proof -
  have l: "unat l = unat a * 65536 + unat b * 256 + unat (0 :: u8)" using three_bytes [of a b 0] by (simp add: assms)
  have lt: "unat l < 16777216" unfolding l by (rule unat_fits)
  have low: "unat l mod 64 = 0" unfolding l by (simp add: mod_add_eq [symmetric])
  let ?s = "\<lambda>x. base64_ascii_to_bin (conv_bin2ascii (ucast (x :: u32)))"
  let ?v = "quad_value (?s (drop_bit 18 l)) (?s (drop_bit 12 l)) (?s (drop_bit 6 l)) 0"
  have "unat ?v = unat l div 262144 mod 64 * 262144 + unat l div 4096 mod 64 * 4096 + unat l div 64 mod 64 * 64 + unat l mod 64"
    unfolding quad_value_def by (subst four_sextets) (simp_all add: sextet unat_drop_bit_u32 low)
  then have "unat ?v = unat l" using regroup [OF lt] by (rule trans)
  then have "unat ?v = unat a * 65536 + unat b * 256 + unat (0 :: u8)" using l by (rule trans)
  note quad_value_bytes [OF this]
  then show ?thesis
    by (simp add: base64_decode_quad_def Let_def sextet_valid conv_not_pad pad_bin quad_value_def)
qed

lemma quad_1:
  assumes "l = push_bit 16 (ucast a :: u32)"
  shows "base64_decode_quad [conv_bin2ascii (ucast (drop_bit 18 l)), conv_bin2ascii (ucast (drop_bit 12 l)), 0x3d, 0x3d] = Some [a]"
proof -
  have l: "unat l = unat a * 65536 + unat (0 :: u8) * 256 + unat (0 :: u8)" using three_bytes [of a 0 0] by (simp add: assms)
  have lt: "unat l < 16777216" unfolding l by (rule unat_fits)
  have low: "unat l mod 64 = 0" "unat l div 64 mod 64 = 0" unfolding l by simp_all
  let ?s = "\<lambda>x. base64_ascii_to_bin (conv_bin2ascii (ucast (x :: u32)))"
  let ?v = "quad_value (?s (drop_bit 18 l)) (?s (drop_bit 12 l)) 0 0"
  have "unat ?v = unat l div 262144 mod 64 * 262144 + unat l div 4096 mod 64 * 4096 + unat l div 64 mod 64 * 64 + unat l mod 64"
    unfolding quad_value_def by (subst four_sextets) (simp_all add: sextet unat_drop_bit_u32 low)
  then have "unat ?v = unat l" using regroup [OF lt] by (rule trans)
  then have "unat ?v = unat a * 65536 + unat (0 :: u8) * 256 + unat (0 :: u8)" using l by (rule trans)
  note quad_value_bytes [OF this]
  then show ?thesis
    by (simp add: base64_decode_quad_def Let_def sextet_valid conv_not_pad pad_bin quad_value_def)
qed

lemma encode_block_length: "length (encode_block src) = 4 * ((length src + 2) div 3)"
proof (induction src rule: encode_block.induct)
  case (4 a b c src)
  have "length (a # b # c # src) + 2 = length src + 2 + 3" by simp
  then have "(length (a # b # c # src) + 2) div 3 = (length src + 2) div 3 + 1" by (simp only: div_add_self2)
  with 4 show ?case by (simp add: Let_def)
qed (simp_all add: Let_def)

lemma decode_quads_encode: "decode_quads (encode_block src) = Some src"
proof (induction src rule: encode_block.induct)
  case 1
  show ?case by (simp add: decode_quads.simps)
next
  case (2 a)
  have "decode_quads [] = Some []" by (simp add: decode_quads.simps)
  then show ?case by (subst decode_quads.simps) (simp add: Let_def quad_1 [OF refl])
next
  case (3 a b)
  have "decode_quads [] = Some []" by (simp add: decode_quads.simps)
  then show ?case by (subst decode_quads.simps) (simp add: Let_def quad_2 [OF refl] del: drop_bit_or)
next
  case (4 a b c src)
  then show ?case by (subst decode_quads.simps) (simp add: Let_def quad_3 [OF refl] del: drop_bit_or)
qed

section \<open>Lengths\<close>

lemma shift_2: "drop_bit 2 (push_bit 2 (n :: u64)) = n \<longleftrightarrow> 4 * unat n < 2 ^ 64"
proof -
  have "drop_bit 2 (push_bit 2 n) = take_bit 62 n" by (rule bit_word_eqI) (auto simp: bit_simps)
  moreover have "take_bit 62 n = n \<longleftrightarrow> unat n < 2 ^ 62"
    by (metis take_bit_nat_eq_self_iff unsigned_take_bit_eq word_unat_eq_iff take_bit_nat_eq_self)
  ultimately show ?thesis by simp
qed

lemma encoded_length_eq:
  "EVP_EncodedLength n = (if 4 * ((unat n + 2) div 3) + 1 < 2 ^ 64 then Some (of_nat (4 * ((unat n + 2) div 3) + 1)) else None)"
proof (cases "n + 2 < n")
  case True
  then have "2 ^ 64 \<le> unat n + 2" by (simp add: u64_add_overflow)
  then show ?thesis using True by (simp add: EVP_EncodedLength_def)
next
  case False
  then have "unat (n + 2) = unat n + 2" by (simp add: u64_add_overflow unat_u64_add)
  then have d: "unat ((n + 2) div 3) = (unat n + 2) div 3" by (simp add: unat_div)
  let ?m = "(n + 2) div 3"
  show ?thesis
  proof (cases "4 * unat ?m < 2 ^ 64")
    case True
    then have "unat (push_bit 2 ?m) = 4 * unat ?m"
      by (subst unsigned_push_bit_eq) (simp add: push_bit_eq_mult take_bit_nat_eq_self)
    moreover have "4 * unat ?m \<noteq> 2 ^ 64 - 1"
    proof
      assume "4 * unat ?m = 2 ^ 64 - 1"
      then have "(4 * unat ?m) mod 4 = (2 ^ 64 - 1) mod 4" by (rule arg_cong)
      then show False by simp
    qed
    ultimately show ?thesis using True False d shift_2 [of ?m]
      by (auto simp: EVP_EncodedLength_def Let_def u64_add_overflow word_unat_eq_iff unat_u64_add unat_of_nat_u64_small simp del: of_nat_add of_nat_mult)
  next
    case False
    then show ?thesis using \<open>\<not> n + 2 < n\<close> d shift_2 [of ?m] by (simp add: EVP_EncodedLength_def Let_def)
  qed
qed

section \<open>Streaming encoder\<close>





















section \<open>Streaming decoder\<close>





definition quad_state :: "evp_encode_ctx \<Rightarrow> bool" where
  "quad_state ctx \<longleftrightarrow> unat (ec_data_used ctx) < 4 \<and> length (ec_data ctx) = 48 \<and> \<not> ec_error_encountered ctx"


text \<open>Between quads: nothing is held, and the end was seen or not.\<close>

definition ready :: "evp_encode_ctx \<Rightarrow> bool \<Rightarrow> bool" where
  "ready ctx e \<longleftrightarrow> quad_state ctx \<and> ec_data_used ctx = 0 \<and> ec_eof_seen ctx = e"

definition decodes :: "evp_encode_ctx \<Rightarrow> u8 list \<Rightarrow> u8 list \<Rightarrow> bool \<Rightarrow> bool" where
  "decodes ctx xs bytes e \<longleftrightarrow>
     (\<exists>ctx'. ready ctx' e \<and> decode_update_loop ctx [] 0 xs = (True, ctx', bytes, of_nat (length bytes)))"


lemma decodes_space: "is_base64_space c \<Longrightarrow> ready ctx e \<Longrightarrow> decodes ctx [c] [] e"
  by (auto simp: decodes_def)











section \<open>Properties\<close>

text \<open>
  C23: Base64 decoding undoes encoding: \<open>EVP_DecodeBase64\<close> given room for the decoded length returns
  exactly the bytes that \<open>EVP_EncodeBlock\<close> was given.
\<close>

theorem base64_roundtrip:
  assumes "length src < 2 ^ 61" and "3 * ((length src + 2) div 3) \<le> unat max_out"
  shows "EVP_DecodeBase64 max_out (fst (EVP_EncodeBlock src)) = Some src"
proof -
  let ?q = "(length src + 2) div 3"
  define N where "N = (of_nat (4 * ?q) :: u64)"
  have "3 * ?q \<le> length src + 2" by simp
  then have q: "4 * ?q < 2 ^ 64" using assms(1) by simp
  then have n: "unat N = 4 * ?q" unfolding N_def by (rule unat_of_nat_u64_small)
  then have "unat (N mod 4) = 0" by (simp add: unat_mod)
  then have m: "N mod 4 = 0" by (simp only: unat_eq_0)
  have d: "unat (N div 4) = ?q" unfolding unat_div n by simp
  have "unat (N div 4 * 3) = 3 * ?q"
    using q by (subst unat_mult_lem [THEN iffD1]) (simp_all add: d)
  then have "\<not> max_out < N div 4 * 3" using assms(2) by (simp add: word_less_nat_alt)
  moreover have "of_nat (length (encode_block src)) = N" "length (encode_block src) mod 4 = 0"
    by (simp_all only: encode_block_length N_def mod_mult_self1_is_0)
  ultimately show ?thesis
    using m by (simp add: EVP_DecodeBase64_def EVP_EncodeBlock_def EVP_DecodedLength_def decode_quads_encode)
qed

theorem base64_roundtrip_witness:
  "EVP_DecodeBase64 3 [0x51, 0x51, 0x3d, 0x3d] = Some [0x41]"
proof -
  have "fst (EVP_EncodeBlock [0x41]) = [0x51, 0x51, 0x3d, 0x3d]"
    by (simp add: EVP_EncodeBlock_def conv_eq Let_def)
  then show ?thesis using base64_roundtrip [of "[0x41]" 3] by simp
qed



text \<open>
  C27: \<open>EVP_EncodedLength\<close> returns the room the encoding and its NUL need, and fails exactly when
  that does not fit in a \<open>size_t\<close>.
\<close>

theorem encoded_length_exact:
  assumes "length src < 2 ^ 64"
  shows "EVP_EncodedLength (of_nat (length src)) =
    (if length (fst (EVP_EncodeBlock src)) + 1 < 2 ^ 64
     then Some (of_nat (length (fst (EVP_EncodeBlock src)) + 1)) else None)"
  unfolding encoded_length_eq unat_of_nat_u64_small [OF assms] by (simp add: EVP_EncodeBlock_def encode_block_length)

theorem encoded_length_witness:
  "EVP_EncodedLength 1 = Some 5"
  using encoded_length_exact [of "[0x41]"] by (simp add: EVP_EncodeBlock_def Let_def)

text \<open>
  The comment on \<open>EVP_DecodeBlock\<close> in base64.h says that trailing minuses are stripped; they are
  refused.
\<close>

theorem decode_block_keeps_minus:
  "EVP_DecodeBlock [0x51, 0x51, 0x3d, 0x3d, 0x2d] = None"
  by (simp add: EVP_DecodeBlock_def EVP_DecodedLength_def trim_start_def trim_end_def is_base64_space_def Let_def)

end
