(* ===== verification/Err.thy ===== *)
theory Err
  imports Mem
begin

text \<open>
  crypto/err/err.c: the error queue of a thread, a ring of 16 slots that keeps the 15 most recent
  errors, with marks, saving and restoring. A string is the list of its bytes with its NUL; a
  pointer is an option. The thread's state is an option, absent until the first call.
\<close>

section \<open>State\<close>

record err_error =
  ee_file :: "u8 list option"
  ee_data :: "u8 list option"
  ee_packed :: u32
  ee_line :: u16
  ee_mark :: bool

definition ERR_NUM_ERRORS :: u32 where
  "ERR_NUM_ERRORS = 16"

record err_state =
  es_errors :: "err_error list"
  es_top :: u32
  es_bottom :: u32
  es_to_free :: "u8 list option"

definition ERR_PACK :: "u32 \<Rightarrow> u32 \<Rightarrow> u32" where
  "ERR_PACK lib reason = push_bit 24 (lib AND 0xff) OR (reason AND 0xfff)"

definition ERR_GET_LIB :: "u32 \<Rightarrow> u32" where
  "ERR_GET_LIB packed = drop_bit 24 packed AND 0xff"

definition ERR_GET_REASON :: "u32 \<Rightarrow> u32" where
  "ERR_GET_REASON packed = packed AND 0xfff"

definition ERR_LIB_SYS :: u32 where
  "ERR_LIB_SYS = 2"

section \<open>Operations\<close>

definition err_clear :: err_error where
  "err_clear = \<lparr>ee_file = None, ee_data = None, ee_packed = 0, ee_line = 0, ee_mark = False\<rparr>"

definition err_copy :: "allocator \<Rightarrow> err_error \<Rightarrow> err_error" where
  "err_copy al src =
     err_clear\<lparr>ee_file := ee_file src, ee_data := OPENSSL_strdup al (ee_data src),
               ee_packed := ee_packed src, ee_line := ee_line src\<rparr>"

definition err_get_state :: "allocator \<Rightarrow> err_state option \<Rightarrow> err_state option" where
  "err_get_state al st =
     (case st of
        Some s \<Rightarrow> Some s
      | None \<Rightarrow>
          (case OPENSSL_malloc al 400 of
             None \<Rightarrow> None
           | Some _ \<Rightarrow> Some \<lparr>es_errors = replicate 16 err_clear, es_top = 0, es_bottom = 0, es_to_free = None\<rparr>))"

definition set_slot :: "u32 \<Rightarrow> err_error \<Rightarrow> err_state \<Rightarrow> err_state" where
  "set_slot i e s = s\<lparr>es_errors := (es_errors s)[unat i := e]\<rparr>"

text \<open>What a caller may ask for, and what it then gets: file, line, data and flags.\<close>

record err_values =
  ev_packed :: u32
  ev_file :: "u8 list"
  ev_line :: u16
  ev_data :: "u8 list"
  ev_flags :: int

definition no_values :: err_values where
  "no_values = \<lparr>ev_packed = 0, ev_file = [], ev_line = 0, ev_data = [], ev_flags = 0\<rparr>"

definition error_values :: "bool \<Rightarrow> bool \<Rightarrow> err_error \<Rightarrow> err_values" where
  "error_values want_line want_data error =
     (let v = no_values\<lparr>ev_packed := ee_packed error\<rparr>;
          v = (if want_line then
                 (case ee_file error of
                    None \<Rightarrow> v\<lparr>ev_file := [0x4e, 0x41, 0], ev_line := 0\<rparr>
                  | Some f \<Rightarrow> v\<lparr>ev_file := f, ev_line := ee_line error\<rparr>)
               else v)
      in if want_data then
           (case ee_data error of
              None \<Rightarrow> v\<lparr>ev_data := [0], ev_flags := 0\<rparr>
            | Some d \<Rightarrow> v\<lparr>ev_data := d, ev_flags := 1\<rparr>)
         else v)"

definition get_error_values ::
  "allocator \<Rightarrow> bool \<Rightarrow> bool \<Rightarrow> bool \<Rightarrow> bool \<Rightarrow> err_state option \<Rightarrow> err_values \<times> err_state option" where
  "get_error_values al inc use_top want_line want_data st =
     (case err_get_state al st of
        None \<Rightarrow> (no_values, None)
      | Some s \<Rightarrow>
          if es_bottom s = es_top s then (no_values, Some s)
          else
            let i = (if use_top then es_top s else (es_bottom s + 1) mod ERR_NUM_ERRORS);
                error = es_errors s ! unat i;
                s = (if want_data \<and> inc \<and> ee_data error \<noteq> None
                     then (set_slot i (error\<lparr>ee_data := None\<rparr>) s)\<lparr>es_to_free := ee_data error\<rparr> else s);
                s = (if inc then (set_slot i err_clear s)\<lparr>es_bottom := i\<rparr> else s)
            in (error_values want_line want_data error, Some s))"

definition ERR_get_error :: "allocator \<Rightarrow> err_state option \<Rightarrow> u32 \<times> err_state option" where
  "ERR_get_error al st = (let (v, st) = get_error_values al True False False False st in (ev_packed v, st))"

definition ERR_get_error_line :: "allocator \<Rightarrow> err_state option \<Rightarrow> err_values \<times> err_state option" where
  "ERR_get_error_line al st = get_error_values al True False True False st"

definition ERR_get_error_line_data :: "allocator \<Rightarrow> err_state option \<Rightarrow> err_values \<times> err_state option" where
  "ERR_get_error_line_data al st = get_error_values al True False True True st"

definition ERR_peek_error :: "allocator \<Rightarrow> err_state option \<Rightarrow> u32 \<times> err_state option" where
  "ERR_peek_error al st = (let (v, st) = get_error_values al False False False False st in (ev_packed v, st))"

definition ERR_peek_error_line :: "allocator \<Rightarrow> err_state option \<Rightarrow> err_values \<times> err_state option" where
  "ERR_peek_error_line al st = get_error_values al False False True False st"

definition ERR_peek_error_line_data :: "allocator \<Rightarrow> err_state option \<Rightarrow> err_values \<times> err_state option" where
  "ERR_peek_error_line_data al st = get_error_values al False False True True st"

definition ERR_peek_last_error :: "allocator \<Rightarrow> err_state option \<Rightarrow> u32 \<times> err_state option" where
  "ERR_peek_last_error al st = (let (v, st) = get_error_values al False True False False st in (ev_packed v, st))"

definition ERR_peek_last_error_line :: "allocator \<Rightarrow> err_state option \<Rightarrow> err_values \<times> err_state option" where
  "ERR_peek_last_error_line al st = get_error_values al False True True False st"

definition ERR_peek_last_error_line_data :: "allocator \<Rightarrow> err_state option \<Rightarrow> err_values \<times> err_state option" where
  "ERR_peek_last_error_line_data al st = get_error_values al False True True True st"

definition ERR_clear_error :: "allocator \<Rightarrow> err_state option \<Rightarrow> err_state option" where
  "ERR_clear_error al st =
     map_option (\<lambda>s. s\<lparr>es_errors := map (\<lambda>_. err_clear) (es_errors s), es_to_free := None, es_top := 0, es_bottom := 0\<rparr>)
       (err_get_state al st)"

definition err_set_error_data :: "allocator \<Rightarrow> u8 list option \<Rightarrow> err_state option \<Rightarrow> err_state option" where
  "err_set_error_data al data st =
     map_option (\<lambda>s. if es_top s = es_bottom s then s
       else set_slot (es_top s) ((es_errors s ! unat (es_top s))\<lparr>ee_data := data\<rparr>) s) (err_get_state al st)"

text \<open>Advancing the ring over the oldest error when it is full.\<close>

definition err_push :: "err_error \<Rightarrow> err_state \<Rightarrow> err_state" where
  "err_push e s =
     (let s = s\<lparr>es_top := (es_top s + 1) mod ERR_NUM_ERRORS\<rparr>;
          s = (if es_top s = es_bottom s then s\<lparr>es_bottom := (es_bottom s + 1) mod ERR_NUM_ERRORS\<rparr> else s)
      in set_slot (es_top s) e s)"

text \<open>\<open>errno\<close> is the thread's error number at the call.\<close>

definition ERR_put_error ::
  "allocator \<Rightarrow> u32 \<Rightarrow> u32 \<Rightarrow> u32 \<Rightarrow> u8 list option \<Rightarrow> u32 \<Rightarrow> err_state option \<Rightarrow> err_state option" where
  "ERR_put_error al errno library reason file line st =
     map_option (\<lambda>s.
       let reason = (if library = ERR_LIB_SYS \<and> reason = 0 then errno else reason)
       in err_push (err_clear\<lparr>ee_file := file, ee_line := ucast line, ee_packed := ERR_PACK library reason\<rparr>) s)
       (err_get_state al st)"

text \<open>
  The buffer of \<open>err_add_error_vdata\<close>: its capacity \<open>alloced\<close> without the NUL, and the bytes
  written so far.
\<close>

fun add_vdata_loop :: "allocator \<Rightarrow> u64 \<Rightarrow> u8 list \<Rightarrow> u64 \<Rightarrow> u8 list option list \<Rightarrow> (u8 list \<times> u64) option" where
  "add_vdata_loop al alloced buf len [] = Some (buf, len)"
| "add_vdata_loop al alloced buf len (None # args) = add_vdata_loop al alloced buf len args"
| "add_vdata_loop al alloced buf len (Some substr # args) =
     (let substr_len = of_nat (strlen substr);
          new_len = len + substr_len
      in if new_len > alloced then
           if alloced + 20 + 1 < alloced then None
           else
             let alloced = new_len + 20
             in (case OPENSSL_realloc al (Some buf) (alloced + 1) of
                   None \<Rightarrow> None
                 | Some buf \<Rightarrow> add_vdata_loop al alloced (write_at (unat len) (take (strlen substr) substr) buf) new_len args)
         else add_vdata_loop al alloced (write_at (unat len) (take (strlen substr) substr) buf) new_len args)"

definition err_add_error_vdata :: "allocator \<Rightarrow> u8 list option list \<Rightarrow> err_state option \<Rightarrow> err_state option" where
  "err_add_error_vdata al args st =
     (case OPENSSL_malloc al 81 of
        None \<Rightarrow> st
      | Some buf \<Rightarrow>
          (case add_vdata_loop al 80 buf 0 args of
             None \<Rightarrow> st
           | Some (buf, len) \<Rightarrow> err_set_error_data al (Some (buf[unat len := 0])) st))"

definition ERR_add_error_data :: "allocator \<Rightarrow> u8 list option list \<Rightarrow> err_state option \<Rightarrow> err_state option" where
  "ERR_add_error_data al args st = err_add_error_vdata al args st"

definition ERR_set_mark :: "allocator \<Rightarrow> err_state option \<Rightarrow> bool \<times> err_state option" where
  "ERR_set_mark al st =
     (case err_get_state al st of
        None \<Rightarrow> (False, None)
      | Some s \<Rightarrow>
          if es_bottom s = es_top s then (False, Some s)
          else (True, Some (set_slot (es_top s) ((es_errors s ! unat (es_top s))\<lparr>ee_mark := True\<rparr>) s)))"

text \<open>The distance between the indices decreases, so 16 rounds are enough.\<close>

fun pop_to_mark_loop :: "nat \<Rightarrow> err_state \<Rightarrow> (bool \<times> err_state) option" where
  "pop_to_mark_loop 0 s = None"
| "pop_to_mark_loop (Suc fuel) s =
     (if es_bottom s \<noteq> es_top s then
        let error = es_errors s ! unat (es_top s)
        in if ee_mark error then Some (True, set_slot (es_top s) (error\<lparr>ee_mark := False\<rparr>) s)
           else
             let s = set_slot (es_top s) err_clear s
             in pop_to_mark_loop fuel (s\<lparr>es_top := (if es_top s = 0 then ERR_NUM_ERRORS - 1 else es_top s - 1)\<rparr>)
      else Some (False, s))"

definition ERR_pop_to_mark :: "allocator \<Rightarrow> err_state option \<Rightarrow> (bool \<times> err_state option) option" where
  "ERR_pop_to_mark al st =
     (case err_get_state al st of
        None \<Rightarrow> Some (False, None)
      | Some s \<Rightarrow> map_option (\<lambda>(r, s). (r, Some s)) (pop_to_mark_loop 16 s))"

type_synonym err_save_state = "err_error list"

definition ERR_save_state :: "allocator \<Rightarrow> err_state option \<Rightarrow> err_save_state option \<times> err_state option" where
  "ERR_save_state al st =
     (case err_get_state al st of
        None \<Rightarrow> (None, None)
      | Some s \<Rightarrow>
          if es_top s = es_bottom s then (None, Some s)
          else
            (case OPENSSL_malloc al 16 of
               None \<Rightarrow> (None, Some s)
             | Some _ \<Rightarrow>
                 let num_errors = (if es_top s \<ge> es_bottom s then es_top s - es_bottom s
                                   else ERR_NUM_ERRORS + es_top s - es_bottom s)
                 in (case OPENSSL_malloc al (ucast num_errors * 24) of
                       None \<Rightarrow> (None, Some s)
                     | Some _ \<Rightarrow>
                         (Some (map (\<lambda>i. err_copy al (es_errors s ! unat ((es_bottom s + of_nat i + 1) mod ERR_NUM_ERRORS)))
                            [0..<unat num_errors]), Some s))))"

definition ERR_restore_state :: "allocator \<Rightarrow> err_save_state option \<Rightarrow> err_state option \<Rightarrow> err_state option" where
  "ERR_restore_state al saved st =
     (case saved of
        None \<Rightarrow> ERR_clear_error al st
      | Some es \<Rightarrow>
          if length es = 0 then ERR_clear_error al st
          else
            map_option (\<lambda>dst. dst\<lparr>es_errors := map (err_copy al) es @ drop (length es) (es_errors dst),
                               es_top := of_nat (length es) - 1, es_bottom := ERR_NUM_ERRORS - 1\<rparr>)
              (err_get_state al st))"

section \<open>The ring\<close>

definition slot :: "nat \<Rightarrow> nat \<Rightarrow> nat" where
  "slot b k = (b + 1 + k) mod 16"

definition ring :: "'a list \<Rightarrow> nat \<Rightarrow> nat \<Rightarrow> 'a list" where
  "ring E b n = map (\<lambda>k. E ! slot b k) [0..<n]"

lemma slot_less [simp]: "slot b k < 16"
  by (simp add: slot_def)

lemma mod16: "x < 32 \<Longrightarrow> x mod 16 = (if x < 16 then x else x - (16 :: nat))"
  by (simp add: le_mod_geq)

lemma slot_inj_le:
  assumes "k < 16" and "j \<le> k" and "slot b k = slot b j"
  shows "k = j"
proof -
  have "16 dvd (b + 1 + k) - (b + 1 + j)"
    using assms(2,3) mod_eq_dvd_iff_nat [of "b + 1 + j" "b + 1 + k" 16] by (simp add: slot_def)
  then have "16 dvd k - j" by simp
  then have "k - j = 0" using assms(1) by (meson dvd_imp_le less_imp_diff_less not_gr_zero not_less)
  with assms(2) show ?thesis by simp
qed

lemma slot_inj: "k < 16 \<Longrightarrow> j < 16 \<Longrightarrow> slot b k = slot b j \<Longrightarrow> k = j"
  using slot_inj_le [of k j b] slot_inj_le [of j k b] by (cases "j \<le> k") auto

lemma slot_slot: "slot (slot b 0) k = slot b (Suc k)"
  unfolding slot_def by (simp add: mod_add_left_eq [symmetric]) (metis Suc_eq_plus1 add.assoc add.commute mod_add_left_eq mod_Suc_eq plus_1_eq_Suc)

lemma length_ring [simp]: "length (ring E b n) = n"
  by (simp add: ring_def)

lemma ring_0 [simp]: "ring E b 0 = []"
  by (simp add: ring_def)

lemma ring_Suc: "ring E b (Suc n) = ring E b n @ [E ! slot b n]"
  by (simp add: ring_def)

lemma ring_Cons: "ring E b (Suc n) = E ! slot b 0 # ring E (slot b 0) n"
proof -
  have "[0..<Suc n] = 0 # map Suc [0..<n]" by (simp add: upt_conv_Cons map_Suc_upt del: upt_Suc)
  then show ?thesis by (simp add: ring_def slot_slot comp_def del: upt_Suc)
qed

lemma ring_update_other: "n \<le> m \<Longrightarrow> m < 16 \<Longrightarrow> ring (E[slot b m := e]) b n = ring E b n"
proof (unfold ring_def, rule map_cong)
  fix k assume "n \<le> m" "m < 16" "k \<in> set [0..<n]"
  then have "slot b m \<noteq> slot b k" using slot_inj [of k m b] by auto
  then show "E[slot b m := e] ! slot b k = E ! slot b k" by simp
qed simp

lemma ring_update_last: "length E = 16 \<Longrightarrow> n < 16 \<Longrightarrow> ring (E[slot b n := e]) b (Suc n) = ring E b n @ [e]"
  by (simp add: ring_Suc ring_update_other)

section \<open>The queue\<close>

definition err_ok :: "err_state \<Rightarrow> bool" where
  "err_ok s \<longleftrightarrow> length (es_errors s) = 16 \<and> unat (es_top s) < 16 \<and> unat (es_bottom s) < 16"

definition err_len :: "err_state \<Rightarrow> nat" where
  "err_len s = (unat (es_top s) + 16 - unat (es_bottom s)) mod 16"

definition err_queue :: "err_state \<Rightarrow> err_error list" where
  "err_queue s = ring (es_errors s) (unat (es_bottom s)) (err_len s)"

text \<open>What is pending in a thread; a thread with no state yet has no errors.\<close>

definition pending :: "err_state option \<Rightarrow> err_error list" where
  "pending st = (case st of None \<Rightarrow> [] | Some s \<Rightarrow> err_queue s)"

definition thread_ok :: "err_state option \<Rightarrow> bool" where
  "thread_ok st \<longleftrightarrow> (case st of None \<Rightarrow> True | Some s \<Rightarrow> err_ok s)"

lemma err_len_less [simp]: "err_len s < 16"
  by (simp add: err_len_def)

lemma length_err_queue [simp]: "length (err_queue s) = err_len s"
  by (simp add: err_queue_def)

lemma top_eq: "err_ok s \<Longrightarrow> unat (es_top s) = (unat (es_bottom s) + err_len s) mod 16"
  by (auto simp: err_ok_def err_len_def mod16)

lemma err_lenI: "t < 16 \<Longrightarrow> b < 16 \<Longrightarrow> n < 16 \<Longrightarrow> t = (b + n) mod 16 \<Longrightarrow> (t + 16 - b) mod 16 = (n :: nat)"
  by (auto simp: mod16 split: if_splits)

lemma ring_empty: "t < 16 \<Longrightarrow> b < 16 \<Longrightarrow> (t + 16 - b) mod 16 = 0 \<longleftrightarrow> b = (t :: nat)"
proof -
  assume *: "t < 16" "b < 16"
  have "(t + 16 - b) mod 16 = (if t < b then t + 16 - b else t - b)" using * mod16 [of "t + 16 - b"] by auto
  with * show ?thesis by auto
qed

lemma empty_iff: "err_ok s \<Longrightarrow> es_bottom s = es_top s \<longleftrightarrow> err_len s = 0"
  using ring_empty [of "unat (es_top s)" "unat (es_bottom s)"]
  by (simp only: err_ok_def err_len_def word_unat_eq_iff)

lemma top_slot: "err_ok s \<Longrightarrow> err_len s = Suc n \<Longrightarrow> unat (es_top s) = slot (unat (es_bottom s)) n"
  by (simp add: top_eq slot_def)

lemma unat_next: "unat (i :: u32) < 16 \<Longrightarrow> unat ((i + 1) mod ERR_NUM_ERRORS) = (unat i + 1) mod 16"
  by (simp add: ERR_NUM_ERRORS_def unat_mod unat_word_ariths)

lemma next_top_slot: "err_ok s \<Longrightarrow> unat ((es_top s + 1) mod ERR_NUM_ERRORS) = slot (unat (es_bottom s)) (err_len s)"
  using unat_next [of "es_top s"] top_eq [of s] by (simp add: err_ok_def slot_def mod_simps)

lemma get_state_pending:
  assumes "thread_ok st" and "err_get_state al st = Some s"
  shows "err_ok s \<and> err_queue s = pending st"
proof (cases st)
  case None
  then show ?thesis using assms
    by (auto simp: err_get_state_def pending_def err_ok_def err_queue_def err_len_def split: option.splits)
qed (use assms in \<open>auto simp: err_get_state_def pending_def thread_ok_def\<close>)

lemma get_state_None: "err_get_state al st = None \<Longrightarrow> st = None"
  by (cases st) (auto simp: err_get_state_def)

section \<open>The operations on the queue\<close>

text \<open>The queue keeps the 15 most recent errors.\<close>

definition enqueue :: "'a \<Rightarrow> 'a list \<Rightarrow> 'a list" where
  "enqueue e q = (if length q = 15 then tl q else q) @ [e]"

lemma put_queue:
  assumes "err_ok s"
  shows "err_ok (err_push e s) \<and> err_queue (err_push e s) = enqueue e (err_queue s)"
proof -
  define t where "t = (es_top s + 1) mod ERR_NUM_ERRORS"
  define s' where "s' = err_push e s"
  note def = s'_def [unfolded err_push_def]
  let ?b = "unat (es_bottom s)" and ?n = "err_len s" and ?E = "es_errors s"
  have E: "length ?E = 16" and b: "?b < 16" using assms(1) by (auto simp: err_ok_def)
  have t: "unat t = slot ?b ?n" using next_top_slot [OF assms(1)] by (simp add: t_def)
  have full: "t = es_bottom s \<longleftrightarrow> ?n = 15"
    using b err_len_less [of s] mod16 [of "?b + 1 + ?n"] unfolding word_unat_eq_iff t slot_def
    by (simp split: if_splits del: err_len_less, linarith+)
  have "err_ok s' \<and> err_queue s' = enqueue e (err_queue s)"
  proof (cases "?n = 15")
    case False
    then have s': "s' = set_slot t e (s\<lparr>es_top := t\<rparr>)" using full by (simp add: def Let_def t_def)
    have "?n < 15" using False err_len_less [of s] by linarith
    then have "err_len s' = Suc ?n"
      using t b by (simp add: s' err_len_def set_slot_def) (rule err_lenI; simp add: slot_def)
    then show ?thesis using False E b t
      by (simp add: s' err_ok_def err_queue_def set_slot_def enqueue_def ring_update_last)
  next
    case True
    then have s': "s' = set_slot t e (s\<lparr>es_top := t, es_bottom := (es_bottom s + 1) mod ERR_NUM_ERRORS\<rparr>)"
      using full by (simp add: def Let_def t_def)
    have b': "unat (es_bottom s') = slot ?b 0" using unat_next [of "es_bottom s"] b by (simp add: s' set_slot_def slot_def)
    have t': "unat t = slot (slot ?b 0) 14" by (simp add: t True slot_slot)
    have "err_len s' = Suc 14"
      unfolding err_len_def b' by (rule err_lenI) (simp_all add: s' set_slot_def t' slot_def add.commute)
    moreover have "err_queue s = ?E ! slot ?b 0 # ring ?E (slot ?b 0) 14"
      using True ring_Cons [of ?E ?b 14] by (simp add: err_queue_def)
    ultimately show ?thesis using True E t' b' ring_update_last [of ?E 14 "slot ?b 0" e]
      by (simp add: err_queue_def enqueue_def err_ok_def s' set_slot_def)
  qed
  then show ?thesis by (simp add: s'_def)
qed

lemma put_error_queue:
  assumes "thread_ok st" and "ERR_put_error al errno library reason file line st = Some s'"
  shows "err_ok s' \<and> err_queue s' = enqueue
    (err_clear\<lparr>ee_file := file, ee_line := ucast line,
       ee_packed := ERR_PACK library (if library = ERR_LIB_SYS \<and> reason = 0 then errno else reason)\<rparr>) (pending st)"
proof -
  obtain s where s: "err_get_state al st = Some s" using assms(2) by (auto simp: ERR_put_error_def)
  note ok = get_state_pending [OF assms(1) s]
  show ?thesis
    using put_queue [OF conjunct1 [OF ok]] assms(2) ok by (auto simp: ERR_put_error_def s Let_def)
qed

text \<open>Changing the most recent error.\<close>

lemma queue_snoc:
  assumes "err_ok s" and "err_len s = Suc n"
  shows "err_queue s = ring (es_errors s) (unat (es_bottom s)) n @ [es_errors s ! unat (es_top s)]"
  using assms top_slot [OF assms] by (simp add: err_queue_def ring_Suc)

lemma set_top_queue:
  assumes "err_ok s" and "es_bottom s \<noteq> es_top s"
  shows "err_ok (set_slot (es_top s) e s) \<and> err_queue (set_slot (es_top s) e s) = butlast (err_queue s) @ [e] \<and>
    last (err_queue s) = es_errors s ! unat (es_top s) \<and> err_queue s \<noteq> []"
proof -
  obtain n where n: "err_len s = Suc n" using empty_iff [OF assms(1)] assms(2) by (cases "err_len s") auto
  then have "n < 16" using err_len_less [of s] by simp
  moreover have "err_len (set_slot (es_top s) e s) = Suc n" using n by (simp add: err_len_def set_slot_def)
  ultimately show ?thesis
    using assms(1) queue_snoc [OF assms(1) n] top_slot [OF assms(1) n] ring_update_last [of "es_errors s" n "unat (es_bottom s)" e]
    by (simp add: err_ok_def err_queue_def set_slot_def)
qed

lemma queue_empty: "err_ok s \<Longrightarrow> es_bottom s = es_top s \<longleftrightarrow> err_queue s = []"
  using empty_iff [of s] length_err_queue [of s] by (metis length_0_conv)

text \<open>Removing the oldest error.\<close>

lemma pop_queue:
  assumes "err_ok s" and "es_bottom s \<noteq> es_top s" and "i = (es_bottom s + 1) mod ERR_NUM_ERRORS"
    and "length E = 16" and "\<And>j. j \<noteq> unat i \<Longrightarrow> E ! j = es_errors s ! j"
  shows "err_ok (s\<lparr>es_errors := E, es_bottom := i\<rparr>) \<and> err_queue (s\<lparr>es_errors := E, es_bottom := i\<rparr>) = tl (err_queue s) \<and>
    hd (err_queue s) = es_errors s ! unat i \<and> err_queue s \<noteq> []"
proof -
  let ?b = "unat (es_bottom s)"
  obtain n where n: "err_len s = Suc n" using empty_iff [OF assms(1)] assms(2) by (cases "err_len s") auto
  have b: "?b < 16" "unat (es_top s) < 16" using assms(1) by (auto simp: err_ok_def)
  have i: "unat i = slot ?b 0" using unat_next [of "es_bottom s"] b assms(3) by (simp add: slot_def)
  have q: "err_queue s = es_errors s ! slot ?b 0 # ring (es_errors s) (slot ?b 0) n"
    using n by (simp add: err_queue_def ring_Cons)
  have lt: "Suc n < 16" using n err_len_less [of s] by simp
  have "err_len (s\<lparr>es_errors := E, es_bottom := i\<rparr>) = n"
    using top_slot [OF assms(1) n] b lt by (simp add: err_len_def i) (rule err_lenI; simp add: slot_def mod_simps)
  moreover have "ring E (slot ?b 0) n = ring (es_errors s) (slot ?b 0) n"
    unfolding ring_def
  proof (rule map_cong)
    fix k assume "k \<in> set [0..<n]"
    then have "slot ?b (Suc k) \<noteq> slot ?b 0" using slot_inj [of "Suc k" 0 ?b] lt by auto
    then show "E ! slot (slot ?b 0) k = es_errors s ! slot (slot ?b 0) k" using assms(5) i by (simp add: slot_slot)
  qed simp
  ultimately show ?thesis using assms(1,4) q i b by (simp add: err_queue_def err_ok_def)
qed

lemma get_values_queue:
  assumes "thread_ok st" and "get_error_values al inc use_top wl wd st = (v, st')" and "\<not> (inc \<and> use_top)"
  shows "thread_ok st' \<and> pending st' = (if inc then tl (pending st) else pending st) \<and>
    v = (if pending st = [] then no_values else error_values wl wd ((if use_top then last else hd) (pending st)))"
proof (cases "err_get_state al st")
  case None
  then show ?thesis using assms(2) get_state_None [OF None]
    by (simp add: get_error_values_def pending_def thread_ok_def)
next
  case (Some s)
  note ok = get_state_pending [OF assms(1) Some]
  then have s: "err_ok s" and q: "pending st = err_queue s" by auto
  show ?thesis
  proof (cases "es_bottom s = es_top s")
    case True
    then show ?thesis using assms(2) s q queue_empty [OF s]
      by (auto simp: get_error_values_def Some pending_def thread_ok_def)
  next
    case False
    define i where "i = (if use_top then es_top s else (es_bottom s + 1) mod ERR_NUM_ERRORS)"
    let ?e = "es_errors s ! unat i"
    have v: "v = error_values wl wd ?e"
      using assms(2) False by (auto simp: get_error_values_def Some Let_def i_def)
    have i: "?e = (if use_top then last else hd) (err_queue s)" "err_queue s \<noteq> []"
      using set_top_queue [OF s False] pop_queue [OF s False refl, of "es_errors s"] s by (auto simp: i_def err_ok_def)
    show ?thesis
    proof (cases inc)
      case False
      then have "st' = Some s" using assms(2) \<open>es_bottom s \<noteq> es_top s\<close> by (auto simp: get_error_values_def Some Let_def)
      then show ?thesis using False v i s q by (simp add: thread_ok_def pending_def)
    next
      case True
      then have ut: "i = (es_bottom s + 1) mod ERR_NUM_ERRORS" using assms(3) by (simp add: i_def)
      obtain E x where st': "st' = Some (s\<lparr>es_errors := E, es_bottom := i, es_to_free := x\<rparr>)"
        and E: "length E = 16" "\<And>j. j \<noteq> unat i \<Longrightarrow> E ! j = es_errors s ! j"
      proof (rule that)
        let ?E = "(if wd \<and> ee_data ?e \<noteq> None then (es_errors s)[unat i := ?e\<lparr>ee_data := None\<rparr>] else es_errors s)[unat i := err_clear]"
        show "st' = Some (s\<lparr>es_errors := ?E, es_bottom := i, es_to_free := (if wd \<and> ee_data ?e \<noteq> None then ee_data ?e else es_to_free s)\<rparr>)"
          using assms(2,3) \<open>es_bottom s \<noteq> es_top s\<close> True
          by (auto simp: get_error_values_def Some Let_def i_def set_slot_def split: if_splits)
      qed (use s in \<open>auto simp: err_ok_def\<close>)
      have r: "err_queue (s\<lparr>es_errors := E, es_bottom := i, es_to_free := x\<rparr>) = err_queue (s\<lparr>es_errors := E, es_bottom := i\<rparr>)"
        "err_ok (s\<lparr>es_errors := E, es_bottom := i, es_to_free := x\<rparr>) = err_ok (s\<lparr>es_errors := E, es_bottom := i\<rparr>)"
        by (simp_all add: err_queue_def err_len_def err_ok_def)
      have "thread_ok st' \<and> pending st' = tl (err_queue s)"
        using pop_queue [OF s False ut E] by (simp add: thread_ok_def pending_def st' r)
      then show ?thesis using True v i q by simp
    qed
  qed
qed

text \<open>Removing the most recent error.\<close>

lemma drop_top_queue:
  assumes "err_ok s" and "es_bottom s \<noteq> es_top s"
    and "t = (if es_top s = 0 then ERR_NUM_ERRORS - 1 else es_top s - 1)"
  shows "err_ok ((set_slot (es_top s) e s)\<lparr>es_top := t\<rparr>) \<and>
    err_queue ((set_slot (es_top s) e s)\<lparr>es_top := t\<rparr>) = butlast (err_queue s) \<and>
    err_len ((set_slot (es_top s) e s)\<lparr>es_top := t\<rparr>) = err_len s - 1"
proof -
  let ?b = "unat (es_bottom s)" and ?s = "(set_slot (es_top s) e s)\<lparr>es_top := t\<rparr>"
  obtain n where n: "err_len s = Suc n" using empty_iff [OF assms(1)] assms(2) by (cases "err_len s") auto
  have lt: "Suc n < 16" using n err_len_less [of s] by simp
  have b: "?b < 16" "unat (es_top s) < 16" "length (es_errors s) = 16" using assms(1) by (auto simp: err_ok_def)
  have top: "unat (es_top s) = slot ?b n" using assms(1) n by (rule top_slot)
  have t: "unat t = (?b + n) mod 16"
  proof (cases "es_top s = 0")
    case True
    then have "slot ?b n = 0" using top by simp
    then have "?b + n = 15" using b(1) lt by (simp add: slot_def mod16 split: if_splits)
    then show ?thesis using True assms(3) by (simp add: ERR_NUM_ERRORS_def)
  next
    case False
    then have "1 \<le> es_top s" by (simp add: word_le_nat_alt Suc_le_eq unat_gt_0)
    then have "unat t = slot ?b n - 1" using top assms(3) False by (simp add: unat_sub)
    moreover have "slot ?b n \<noteq> 0" using False top by (metis unat_eq_0)
    ultimately show ?thesis using b(1) lt by (auto simp: slot_def mod16 split: if_splits)
  qed
  have "err_len ?s = n"
    using b(1) t lt by (simp add: err_len_def set_slot_def) (rule err_lenI; simp)
  moreover have "ring ((es_errors s)[slot ?b n := e]) ?b n = ring (es_errors s) ?b n"
    using lt by (intro ring_update_other) simp_all
  ultimately show ?thesis using queue_snoc [OF assms(1) n] b t n
    by (simp add: err_queue_def err_ok_def set_slot_def top)
qed

text \<open>Popping to a mark, from the most recent error on.\<close>

fun pop_marked :: "err_error list \<Rightarrow> err_error list" where
  "pop_marked [] = []"
| "pop_marked (e # q) = (if ee_mark e then e\<lparr>ee_mark := False\<rparr> # q else pop_marked q)"

lemma pop_to_mark_queue:
  "err_ok s \<Longrightarrow> err_len s < fuel \<Longrightarrow>
     \<exists>s'. pop_to_mark_loop fuel s = Some (\<exists>e \<in> set (err_queue s). ee_mark e, s') \<and> err_ok s' \<and>
       err_queue s' = rev (pop_marked (rev (err_queue s)))"
proof (induction fuel arbitrary: s)
  case (Suc fuel)
  show ?case
  proof (cases "es_bottom s = es_top s")
    case True
    then show ?thesis using Suc.prems(1) queue_empty by simp
  next
    case False
    let ?e = "es_errors s ! unat (es_top s)"
    have q: "err_queue s = butlast (err_queue s) @ [?e]"
      using set_top_queue [OF Suc.prems(1) False, of ?e] by (metis append_butlast_last_id)
    show ?thesis
    proof (cases "ee_mark ?e")
      case True
      note ok = set_top_queue [OF Suc.prems(1) False, of "?e\<lparr>ee_mark := False\<rparr>"]
      show ?thesis using True False ok by (subst (1 2) q) (simp add: Let_def)
    next
      case unmarked: False
      let ?s = "(set_slot (es_top s) err_clear s)\<lparr>es_top := (if es_top s = 0 then ERR_NUM_ERRORS - 1 else es_top s - 1)\<rparr>"
      note ok = drop_top_queue [OF Suc.prems(1) False refl, of err_clear]
      have "err_len s \<noteq> 0" using False empty_iff [OF Suc.prems(1)] by simp
      then have "err_len ?s < fuel" using ok Suc.prems(2) by linarith
      from Suc.IH [OF _ this] ok obtain s' where s': "pop_to_mark_loop fuel ?s = Some (\<exists>e \<in> set (butlast (err_queue s)). ee_mark e, s')"
        "err_ok s'" "err_queue s' = rev (pop_marked (rev (butlast (err_queue s))))" by auto
      have "pop_to_mark_loop (Suc fuel) s = pop_to_mark_loop fuel ?s" using False unmarked by (simp add: Let_def set_slot_def)
      moreover have "(\<exists>e \<in> set (err_queue s). ee_mark e) = (\<exists>e \<in> set (butlast (err_queue s)). ee_mark e)"
        using unmarked by (subst q) auto
      moreover have "pop_marked (rev (err_queue s)) = pop_marked (rev (butlast (err_queue s)))"
        using unmarked by (subst q) simp
      ultimately show ?thesis using s' by simp
    qed
  qed
qed simp

section \<open>Saving and restoring\<close>

lemma num_errors:
  assumes "err_ok s"
  shows "unat (if es_top s \<ge> es_bottom s then es_top s - es_bottom s else ERR_NUM_ERRORS + es_top s - es_bottom s) = err_len s"
proof -
  have b: "unat (es_top s) < 16" "unat (es_bottom s) < 16" using assms by (auto simp: err_ok_def)
  show ?thesis
  proof (cases "es_top s \<ge> es_bottom s")
    case True
    then show ?thesis using b by (simp add: unat_sub err_len_def mod16 word_le_nat_alt)
  next
    case False
    have sum: "unat (ERR_NUM_ERRORS + es_top s) = 16 + unat (es_top s)" using b by (simp add: ERR_NUM_ERRORS_def unat_word_ariths)
    then have "unat (ERR_NUM_ERRORS + es_top s - es_bottom s) = 16 + unat (es_top s) - unat (es_bottom s)"
      using b by (subst unat_sub) (simp_all add: word_le_nat_alt)
    then show ?thesis using False b by (auto simp: err_len_def mod16 word_le_nat_alt)
  qed
qed

lemma save_queue:
  assumes "thread_ok st" and "ERR_save_state al st = (saved, st')"
  shows "thread_ok st' \<and> pending st' = pending st \<and>
    (\<forall>es. saved = Some es \<longrightarrow> es = map (err_copy al) (pending st) \<and> es \<noteq> []) \<and>
    (saved = None \<longrightarrow> pending st = [] \<or> OPENSSL_malloc al 16 = None \<or>
      OPENSSL_malloc al (of_nat (length (pending st)) * 24) = None)"
proof (cases "err_get_state al st")
  case None
  then show ?thesis using assms(2) get_state_None [OF None] by (auto simp: ERR_save_state_def pending_def thread_ok_def)
next
  case (Some s)
  note ok = get_state_pending [OF assms(1) Some]
  then have s: "err_ok s" and q: "pending st = err_queue s" by auto
  show ?thesis
  proof (cases "es_top s = es_bottom s")
    case True
    then show ?thesis using assms(2) q s queue_empty [OF s] by (auto simp: ERR_save_state_def Some pending_def thread_ok_def)
  next
    case False
    have idx: "unat ((es_bottom s + of_nat i + 1) mod ERR_NUM_ERRORS) = slot (unat (es_bottom s)) i" if "i < err_len s" for i
    proof -
      have "i < 16" using that err_len_less [of s] by linarith
      then have "unat (es_bottom s + of_nat i + 1) = unat (es_bottom s) + i + 1"
        using s by (simp add: err_ok_def unat_word_ariths unat_of_nat)
      moreover have "unat ERR_NUM_ERRORS = 16" by (simp add: ERR_NUM_ERRORS_def)
      ultimately show ?thesis unfolding unat_mod slot_def by (simp add: ac_simps)
    qed
    have "map (\<lambda>i. err_copy al (es_errors s ! unat ((es_bottom s + of_nat i + 1) mod ERR_NUM_ERRORS))) [0..<err_len s]
        = map (err_copy al) (err_queue s)"
      by (auto simp: err_queue_def ring_def idx)
    moreover have "err_queue s \<noteq> []" using queue_empty [OF s] False by auto
    moreover have "ucast (if es_top s \<ge> es_bottom s then es_top s - es_bottom s else ERR_NUM_ERRORS + es_top s - es_bottom s)
        = (of_nat (err_len s) :: u64)"
      unfolding num_errors [OF s, symmetric] by (simp add: unsigned_ucast_eq)
    ultimately show ?thesis using assms(2) s q False num_errors [OF s]
      by (auto simp: ERR_save_state_def Some pending_def thread_ok_def Let_def split: option.splits)
  qed
qed

lemma clear_queue:
  assumes "thread_ok st"
  shows "thread_ok (ERR_clear_error al st) \<and> pending (ERR_clear_error al st) = []"
proof (cases "err_get_state al st")
  case (Some s)
  then show ?thesis using get_state_pending [OF assms Some]
    by (simp add: ERR_clear_error_def thread_ok_def pending_def err_ok_def err_queue_def err_len_def)
qed (simp add: ERR_clear_error_def thread_ok_def pending_def)

lemma restore_queue:
  assumes "thread_ok st" and "length es < 16" and "err_get_state al st \<noteq> None"
  shows "thread_ok (ERR_restore_state al (Some es) st) \<and> pending (ERR_restore_state al (Some es) st) = map (err_copy al) es"
proof (cases "es = []")
  case True
  then show ?thesis using clear_queue [OF assms(1)] by (simp add: ERR_restore_state_def)
next
  case False
  obtain s where s: "err_get_state al st = Some s" using assms(3) by blast
  have E: "length (es_errors s) = 16" using get_state_pending [OF assms(1) s] by (simp add: err_ok_def)
  let ?n = "length es"
  have top: "unat ((of_nat ?n :: u32) - 1) = ?n - 1"
    using False assms(2) by (subst unat_sub) (simp_all add: word_le_nat_alt unat_of_nat Suc_le_eq)
  let ?s = "s\<lparr>es_errors := map (err_copy al) es @ drop ?n (es_errors s), es_top := of_nat ?n - 1, es_bottom := ERR_NUM_ERRORS - 1\<rparr>"
  have len: "err_len ?s = ?n"
    using top False assms(2) by (simp add: err_len_def ERR_NUM_ERRORS_def)
  have "slot 15 k = k" if "k < 16" for k using that by (simp add: slot_def)
  then have "err_queue ?s = map (err_copy al) es"
    using assms(2) unfolding err_queue_def len
    by (intro nth_equalityI) (auto simp: ring_def ERR_NUM_ERRORS_def nth_append)
  moreover have "err_ok ?s" using top E assms(2) by (simp add: err_ok_def ERR_NUM_ERRORS_def)
  ultimately show ?thesis using False by (simp add: ERR_restore_state_def s thread_ok_def pending_def)
qed

section \<open>Calls and what they denote\<close>

datatype err_cmd =
    Put u32 u32 u32 "u8 list option" u32
  | Get bool bool
  | Peek bool bool
  | Peek_last bool bool
  | Clear
  | Set_data "u8 list option"
  | Mark
  | Pop_to_mark

datatype err_ret = Values err_values | Flag bool | Nothing

text \<open>A call; the code's loop in \<open>ERR_pop_to_mark\<close> always ends, so there is always a result.\<close>

fun err_exec :: "allocator \<Rightarrow> err_cmd \<Rightarrow> err_state option \<Rightarrow> (err_ret \<times> err_state option) option" where
  "err_exec al (Put errno library reason file line) st = Some (Nothing, ERR_put_error al errno library reason file line st)"
| "err_exec al (Get wl wd) st = Some (let (v, st) = get_error_values al True False wl wd st in (Values v, st))"
| "err_exec al (Peek wl wd) st = Some (let (v, st) = get_error_values al False False wl wd st in (Values v, st))"
| "err_exec al (Peek_last wl wd) st = Some (let (v, st) = get_error_values al False True wl wd st in (Values v, st))"
| "err_exec al Clear st = Some (Nothing, ERR_clear_error al st)"
| "err_exec al (Set_data d) st = Some (Nothing, err_set_error_data al d st)"
| "err_exec al Mark st = Some (let (b, st) = ERR_set_mark al st in (Flag b, st))"
| "err_exec al Pop_to_mark st = map_option (\<lambda>(b, st). (Flag b, st)) (ERR_pop_to_mark al st)"

fun err_run :: "allocator \<Rightarrow> err_cmd list \<Rightarrow> err_state option \<Rightarrow> (err_ret list \<times> err_state option) option" where
  "err_run al [] st = Some ([], st)"
| "err_run al (c # cs) st =
     (case err_exec al c st of
        None \<Rightarrow> None
      | Some (r, st) \<Rightarrow> map_option (\<lambda>(rs, st). (r # rs, st)) (err_run al cs st))"

text \<open>The same calls on a list of errors, oldest first.\<close>

fun queue_exec :: "err_cmd \<Rightarrow> err_error list \<Rightarrow> err_ret \<times> err_error list" where
  "queue_exec (Put errno library reason file line) q =
     (Nothing, enqueue (err_clear\<lparr>ee_file := file, ee_line := ucast line,
        ee_packed := ERR_PACK library (if library = ERR_LIB_SYS \<and> reason = 0 then errno else reason)\<rparr>) q)"
| "queue_exec (Get wl wd) q = (Values (if q = [] then no_values else error_values wl wd (hd q)), tl q)"
| "queue_exec (Peek wl wd) q = (Values (if q = [] then no_values else error_values wl wd (hd q)), q)"
| "queue_exec (Peek_last wl wd) q = (Values (if q = [] then no_values else error_values wl wd (last q)), q)"
| "queue_exec Clear q = (Nothing, [])"
| "queue_exec (Set_data d) q = (Nothing, if q = [] then [] else butlast q @ [(last q)\<lparr>ee_data := d\<rparr>])"
| "queue_exec Mark q = (Flag (q \<noteq> []), if q = [] then [] else butlast q @ [(last q)\<lparr>ee_mark := True\<rparr>])"
| "queue_exec Pop_to_mark q = (Flag (\<exists>e \<in> set q. ee_mark e), rev (pop_marked (rev q)))"

fun queue_run :: "err_cmd list \<Rightarrow> err_error list \<Rightarrow> err_ret list \<times> err_error list" where
  "queue_run [] q = ([], q)"
| "queue_run (c # cs) q = (let (r, q) = queue_exec c q; (rs, q) = queue_run cs q in (r # rs, q))"

lemma err_exec_queue:
  assumes "thread_ok st" and "OPENSSL_malloc al 400 \<noteq> None"
  shows "\<exists>r st'. err_exec al c st = Some (r, st') \<and> thread_ok st' \<and> queue_exec c (pending st) = (r, pending st')"
proof -
  obtain s where s: "err_get_state al st = Some s"
    using assms(2) by (cases st) (auto simp: err_get_state_def)
  note ok = get_state_pending [OF assms(1) s]
  have vals: "\<exists>r st'. err_exec al c st = Some (r, st') \<and> thread_ok st' \<and> queue_exec c (pending st) = (r, pending st')"
    if "c = Get wl wd \<or> c = Peek wl wd \<or> c = Peek_last wl wd" for wl wd
  proof -
    obtain v1 st1 where v1: "get_error_values al True False wl wd st = (v1, st1)" by fastforce
    obtain v2 st2 where v2: "get_error_values al False False wl wd st = (v2, st2)" by fastforce
    obtain v3 st3 where v3: "get_error_values al False True wl wd st = (v3, st3)" by fastforce
    show ?thesis
      using that get_values_queue [OF assms(1) v1] get_values_queue [OF assms(1) v2] get_values_queue [OF assms(1) v3]
      by (auto simp: v1 v2 v3)
  qed
  show ?thesis
  proof (cases c)
    case (Put e l r f n)
    obtain s' where s': "ERR_put_error al e l r f n st = Some s'"
      using s by (simp add: ERR_put_error_def)
    then show ?thesis using put_error_queue [OF assms(1) s'] Put by (simp add: thread_ok_def pending_def)
  next
    case Clear
    then show ?thesis using clear_queue [OF assms(1)] by simp
  next
    case (Set_data d)
    then show ?thesis using ok s queue_empty [of s] set_top_queue [of s "(es_errors s ! unat (es_top s))\<lparr>ee_data := d\<rparr>"]
      by (cases "es_bottom s = es_top s") (auto simp: err_set_error_data_def pending_def thread_ok_def)
  next
    case Mark
    then show ?thesis using ok s queue_empty [of s] set_top_queue [of s "(es_errors s ! unat (es_top s))\<lparr>ee_mark := True\<rparr>"]
      by (cases "es_bottom s = es_top s") (auto simp: ERR_set_mark_def pending_def thread_ok_def)
  next
    case Pop_to_mark
    obtain s' where "pop_to_mark_loop 16 s = Some (\<exists>e \<in> set (err_queue s). ee_mark e, s')" "err_ok s'"
      "err_queue s' = rev (pop_marked (rev (err_queue s)))"
      using pop_to_mark_queue [of s 16] ok by auto
    then show ?thesis using ok Pop_to_mark s by (auto simp: ERR_pop_to_mark_def pending_def thread_ok_def)
  qed (use vals in blast)+
qed

lemma err_run_queue:
  "thread_ok st \<Longrightarrow> OPENSSL_malloc al 400 \<noteq> None \<Longrightarrow>
     \<exists>rs st'. err_run al cs st = Some (rs, st') \<and> thread_ok st' \<and> queue_run cs (pending st) = (rs, pending st')"
proof (induction cs arbitrary: st)
  case (Cons c cs)
  obtain r st1 where e: "err_exec al c st = Some (r, st1)" "thread_ok st1" "queue_exec c (pending st) = (r, pending st1)"
    using err_exec_queue [OF Cons.prems] by blast
  from Cons.IH [OF e(2) Cons.prems(2)] e show ?case by auto
qed simp

section \<open>Properties\<close>

text \<open>
  C12: The ring refines a bounded queue: every sequence of calls by a new thread ends and answers as
  the same calls on a list do that drops its oldest error when a sixteenth is put.
\<close>

theorem err_refines_queue:
  assumes "OPENSSL_malloc al 400 \<noteq> None"
  shows "\<exists>rs st. err_run al cs None = Some (rs, st) \<and> queue_run cs [] = (rs, pending st)"
  using err_run_queue [of None al cs] assms by (auto simp: thread_ok_def pending_def)

theorem err_refines_queue_witness:
  "\<exists>rs st. err_run zero_alloc [Put 0 3 1 None 7, Mark, Put 0 4 2 None 8, Pop_to_mark, Get False False] None = Some (rs, st) \<and>
     rs = [Nothing, Flag True, Nothing, Flag True, Values (no_values\<lparr>ev_packed := ERR_PACK 3 1\<rparr>)] \<and> pending st = []"
proof -
  obtain rs st where run: "err_run zero_alloc [Put 0 3 1 None 7, Mark, Put 0 4 2 None 8, Pop_to_mark, Get False False] None = Some (rs, st)"
    "queue_run [Put 0 3 1 None 7, Mark, Put 0 4 2 None 8, Pop_to_mark, Get False False] [] = (rs, pending st)"
    using err_refines_queue [of zero_alloc "[Put 0 3 1 None 7, Mark, Put 0 4 2 None 8, Pop_to_mark, Get False False]"]
      zero_alloc_malloc [of 400] by auto
  have "queue_run [Put 0 3 1 None 7, Mark, Put 0 4 2 None 8, Pop_to_mark, Get False False] [] =
      ([Nothing, Flag True, Nothing, Flag True, Values (no_values\<lparr>ev_packed := ERR_PACK 3 1\<rparr>)], [])"
    by (simp add: enqueue_def err_clear_def error_values_def Let_def ERR_LIB_SYS_def)
  then have "rs = [Nothing, Flag True, Nothing, Flag True, Values (no_values\<lparr>ev_packed := ERR_PACK 3 1\<rparr>)]" "pending st = []"
    unfolding run(2) by simp_all
  with run(1) show ?thesis by blast
qed

text \<open>
  What two copies by \<open>OPENSSL_strdup\<close> leave of the data of an error: the string up to its NUL, or nothing
  when memory is refused for either. The bytes that \<open>ERR_add_error_data\<close> leaves behind the NUL are lost.
\<close>

definition restored_data :: "allocator \<Rightarrow> allocator \<Rightarrow> u8 list option \<Rightarrow> u8 list option" where
  "restored_data al al2 d =
     (case d of
        None \<Rightarrow> None
      | Some s \<Rightarrow>
          if OPENSSL_malloc al (of_nat (strlen s + 1)) = None \<or> OPENSSL_malloc al2 (of_nat (strlen s + 1)) = None then None
          else Some (cstr s @ [0]))"

definition c_string :: "u8 list \<Rightarrow> bool" where
  "c_string s \<longleftrightarrow> 0 \<in> set s \<and> length s < 2 ^ 64"

lemma take_c_string: "0 \<in> set s \<Longrightarrow> take (strlen s + 1) s = cstr s @ [0] \<and> strlen s + 1 \<le> length s"
  by (induction s) auto

lemma strdup_c_string:
  assumes "c_string s"
  shows "OPENSSL_strdup al (Some s) = (if OPENSSL_malloc al (of_nat (strlen s + 1)) = None then None else Some (cstr s @ [0]))"
proof (cases "OPENSSL_malloc al (of_nat (strlen s + 1))")
  case (Some ret)
  have t: "take (strlen s + 1) s = cstr s @ [0]" "strlen s + 1 \<le> length s"
    using take_c_string [of s] assms by (simp_all add: c_string_def)
  then have "strlen s + 1 < 2 ^ 64" using assms unfolding c_string_def by linarith
  then have "length ret = strlen s + 1"
    using OPENSSL_malloc_length [OF Some] unat_of_nat_u64_small [of "strlen s + 1"] by simp
  then show ?thesis using Some t(1) by (simp add: OPENSSL_strdup_def Let_def write_at_def strlen_def)
qed (simp add: OPENSSL_strdup_def)

lemma cstr_terminated [simp]: "cstr (cstr s @ [0]) = cstr s" "strlen (cstr s @ [0]) = strlen s"
  by (induction s) (auto simp: strlen_def)

lemma strdup_twice:
  assumes "\<forall>s. d = Some s \<longrightarrow> c_string s"
  shows "OPENSSL_strdup al2 (OPENSSL_strdup al d) = restored_data al al2 d"
proof (cases d)
  case (Some s)
  then have s: "c_string s" using assms by simp
  then have "c_string (cstr s @ [0])"
    using take_c_string [of s] by (auto simp: c_string_def strlen_def)
  then show ?thesis using Some strdup_c_string [OF s, of al] strdup_c_string [of "cstr s @ [0]" al2]
    by (simp add: restored_data_def OPENSSL_strdup_def [of al2 None])
qed (simp add: restored_data_def OPENSSL_strdup_def)

text \<open>
  C25: When the errors of a thread could be saved, restoring them in any thread, whatever is pending
  there, gives back the same errors in the same order, without their marks. The data of each error, a
  terminated string, comes back cut off behind its NUL, and is missing where memory for one of its
  two copies is refused. The saving thread keeps its errors.
\<close>

theorem err_save_restore:
  assumes "thread_ok st" and "thread_ok st2" and "ERR_save_state al st = (Some es, st')"
    and "err_get_state al2 st2 \<noteq> None" and "\<forall>e \<in> set (pending st). \<forall>s. ee_data e = Some s \<longrightarrow> c_string s"
  shows "pending (ERR_restore_state al2 (Some es) st2) =
      map (\<lambda>e. e\<lparr>ee_mark := False, ee_data := restored_data al al2 (ee_data e)\<rparr>) (pending st) \<and>
    pending st' = pending st"
proof -
  have es: "es = map (err_copy al) (pending st)" "pending st' = pending st" using save_queue [OF assms(1,3)] by auto
  have "length (pending st) < 16" by (cases st) (simp_all add: pending_def)
  then have "pending (ERR_restore_state al2 (Some es) st2) = map (err_copy al2) es"
    using restore_queue [OF assms(2) _ assms(4), of es] es(1) by simp
  moreover have "err_copy al2 (err_copy al e) = e\<lparr>ee_mark := False, ee_data := restored_data al al2 (ee_data e)\<rparr>"
    if "e \<in> set (pending st)" for e
  proof -
    have "\<forall>s. ee_data e = Some s \<longrightarrow> c_string s" using assms(5) that by blast
    note strdup_twice [OF this, of al2 al]
    then show ?thesis by (cases e) (simp add: err_copy_def err_clear_def)
  qed
  ultimately show ?thesis by (simp add: es)
qed

text \<open>Two errors, the first with data that has a byte behind its NUL.\<close>

theorem err_save_restore_witness:
  "\<exists>st es st'. err_run zero_alloc [Put 0 3 1 None 7, Set_data (Some [0x41, 0, 0x42]), Put 0 4 2 None 8] None = Some ([Nothing, Nothing, Nothing], st) \<and>
     ERR_save_state zero_alloc st = (Some es, st') \<and>
     map (\<lambda>e. (ee_packed e, ee_data e)) (pending (ERR_restore_state zero_alloc (Some es) None)) =
       [(ERR_PACK 3 1, Some [0x41, 0]), (ERR_PACK 4 2, None)]"
proof -
  let ?cs = "[Put 0 3 1 None 7, Set_data (Some [0x41, 0, 0x42]), Put 0 4 2 None 8]"
  obtain rs st where st: "err_run zero_alloc ?cs None = Some (rs, st)" "thread_ok st" "queue_run ?cs [] = (rs, pending st)"
    using err_run_queue [of None zero_alloc ?cs] zero_alloc_malloc [of 400] by (auto simp: thread_ok_def pending_def)
  have "queue_run ?cs [] = ([Nothing, Nothing, Nothing],
      [err_clear\<lparr>ee_line := 7, ee_packed := ERR_PACK 3 1, ee_data := Some [0x41, 0, 0x42]\<rparr>, err_clear\<lparr>ee_line := 8, ee_packed := ERR_PACK 4 2\<rparr>])"
    by (simp add: enqueue_def err_clear_def ERR_LIB_SYS_def)
  then have q: "rs = [Nothing, Nothing, Nothing]"
    "pending st = [err_clear\<lparr>ee_line := 7, ee_packed := ERR_PACK 3 1, ee_data := Some [0x41, 0, 0x42]\<rparr>, err_clear\<lparr>ee_line := 8, ee_packed := ERR_PACK 4 2\<rparr>]"
    unfolding st(3) by simp_all
  obtain saved st' where s: "ERR_save_state zero_alloc st = (saved, st')" by fastforce
  have "saved \<noteq> None" using save_queue [OF st(2) s] q(2) zero_alloc_malloc [of 16] zero_alloc_malloc [of 48] by auto
  then obtain es where es: "saved = Some es" by blast
  have "err_get_state zero_alloc None \<noteq> None" using zero_alloc_malloc [of 400] by (auto simp: err_get_state_def)
  from err_save_restore [OF st(2) _ s [unfolded es] this]
  have "pending (ERR_restore_state zero_alloc (Some es) None) =
      map (\<lambda>e. e\<lparr>ee_mark := False, ee_data := restored_data zero_alloc zero_alloc (ee_data e)\<rparr>) (pending st)"
    by (simp add: thread_ok_def q(2) err_clear_def c_string_def)
  moreover have "restored_data zero_alloc zero_alloc (Some [0x41, 0, 0x42]) = Some [0x41, 0]" "restored_data zero_alloc zero_alloc None = None"
    using zero_alloc_malloc [of 2] by (auto simp: restored_data_def)
  ultimately have "map (\<lambda>e. (ee_packed e, ee_data e)) (pending (ERR_restore_state zero_alloc (Some es) None)) =
       [(ERR_PACK 3 1, Some [0x41, 0]), (ERR_PACK 4 2, None)]"
    by (simp add: q(2) err_clear_def)
  with st(1) s q(1) es show ?thesis by (intro exI [of _ st] exI [of _ es] exI [of _ st'] conjI) (simp_all del: err_run.simps)
qed

end
