(* ===== verification/Bio_State.thy ===== *)
theory Bio_State
  imports Err Refcount
begin

text \<open>
  The objects of crypto/bio: what a \<open>BIO\<close> holds (openssl/bio.h), half a BIO pair (bio/pair.c), a
  growable memory buffer (openssl/buf.h), and the state all calls share, a store of \<open>BIO\<close>s and the
  error queue of the calling thread. A call returns nothing where the code would fail an assertion
  or use memory it must not.
\<close>

section \<open>Objects\<close>

type_synonym c_int = "32 word"

record bio_bio_st =
  pr_peer :: "nat option"
  pr_closed :: bool
  pr_len :: u64
  pr_offset :: u64
  pr_size :: u64
  pr_buf :: "u8 list option"
  pr_request :: u64

text \<open>\<open>bm_data\<close> is the block \<open>data\<close> points into, \<open>bm_start\<close> where in the block it points.\<close>

record buf_mem_st =
  bm_length :: u64
  bm_data :: "u8 list option"
  bm_start :: nat
  bm_max :: u64

datatype bio_method = Methods_biop | Mem_method

datatype bio_ptr = No_ptr | Pair_ptr bio_bio_st | Mem_ptr buf_mem_st

record bio_st =
  bio_method :: bio_method
  bio_init :: bool
  bio_shutdown :: int
  bio_flags :: c_int
  bio_retry_reason :: int
  bio_num :: int
  bio_references :: u32
  bio_ptr :: bio_ptr
  bio_next_bio :: "nat option"
  bio_num_read :: u64
  bio_num_write :: u64

record bio_world =
  w_bio :: "nat \<Rightarrow> bio_st option"
  w_next :: nat
  w_err :: "err_state option"

type_synonym 'a bio_io = "bio_world \<Rightarrow> ('a \<times> bio_world) option"

definition io_return :: "'a \<Rightarrow> 'a bio_io" where
  "io_return x w = Some (x, w)"

definition io_bind :: "'a bio_io \<Rightarrow> ('a \<Rightarrow> 'b bio_io) \<Rightarrow> 'b bio_io" where
  "io_bind m f w = (case m w of None \<Rightarrow> None | Some (x, w) \<Rightarrow> f x w)"

definition io_undefined :: "'a bio_io" where
  "io_undefined w = None"

definition io_get :: "nat \<Rightarrow> bio_st bio_io" where
  "io_get a w = map_option (\<lambda>b. (b, w)) (w_bio w a)"

definition io_put :: "nat \<Rightarrow> bio_st \<Rightarrow> unit bio_io" where
  "io_put a b w = Some ((), w\<lparr>w_bio := (w_bio w)(a \<mapsto> b)\<rparr>)"

definition io_modify :: "nat \<Rightarrow> (bio_st \<Rightarrow> bio_st) \<Rightarrow> unit bio_io" where
  "io_modify a f = io_bind (io_get a) (\<lambda>b. io_put a (f b))"

named_theorems io_simps \<open>how the basic actions run\<close>

lemma io_bind_run [io_simps]:
  "io_bind (io_return x) f = f x"
  "io_bind m f w = (case m w of None \<Rightarrow> None | Some (x, w) \<Rightarrow> f x w)"
  by (auto simp: io_bind_def io_return_def)

lemma io_run [io_simps]:
  "io_return x w = Some (x, w)" "io_undefined w = None"
  "io_get a w = map_option (\<lambda>b. (b, w)) (w_bio w a)"
  "io_put a b w = Some ((), w\<lparr>w_bio := (w_bio w)(a \<mapsto> b)\<rparr>)"
  by (simp_all add: io_return_def io_undefined_def io_get_def io_put_def)

lemma io_modify_run [io_simps]:
  "w_bio w a = Some b \<Longrightarrow> io_modify a f w = Some ((), w\<lparr>w_bio := (w_bio w)(a \<mapsto> f b)\<rparr>)"
  by (simp add: io_modify_def io_bind_def io_get_def io_put_def)

section \<open>Errors\<close>

text \<open>The allocator and the names under which the files were compiled.\<close>

record bio_env =
  be_alloc :: allocator
  be_file_bio :: "u8 list option"
  be_file_pair :: "u8 list option"
  be_file_mem :: "u8 list option"
  be_file_buf :: "u8 list option"

definition ERR_LIB_BUF :: u32 where "ERR_LIB_BUF = 7"
definition ERR_LIB_ASN1 :: u32 where "ERR_LIB_ASN1 = 12"
definition ERR_LIB_BIO :: u32 where "ERR_LIB_BIO = 17"

definition ERR_R_MALLOC_FAILURE :: u32 where "ERR_R_MALLOC_FAILURE = 1 OR 64"
definition ERR_R_OVERFLOW :: u32 where "ERR_R_OVERFLOW = 5 OR 64"
definition BIO_R_BROKEN_PIPE :: u32 where "BIO_R_BROKEN_PIPE = 101"
definition BIO_R_IN_USE :: u32 where "BIO_R_IN_USE = 105"
definition BIO_R_NULL_PARAMETER :: u32 where "BIO_R_NULL_PARAMETER = 111"
definition BIO_R_UNINITIALIZED :: u32 where "BIO_R_UNINITIALIZED = 114"
definition BIO_R_UNSUPPORTED_METHOD :: u32 where "BIO_R_UNSUPPORTED_METHOD = 115"
definition BIO_R_WRITE_TO_READ_ONLY_BIO :: u32 where "BIO_R_WRITE_TO_READ_ONLY_BIO = 116"

text \<open>\<open>OPENSSL_PUT_ERROR\<close>; the system error number is used for \<open>ERR_LIB_SYS\<close> only.\<close>

definition OPENSSL_PUT_ERROR ::
  "allocator \<Rightarrow> u8 list option \<Rightarrow> u32 \<Rightarrow> u32 \<Rightarrow> u32 \<Rightarrow> err_state option \<Rightarrow> err_state option" where
  "OPENSSL_PUT_ERROR al name line library reason = ERR_put_error al 0 library reason name line"

definition io_error :: "allocator \<Rightarrow> u8 list option \<Rightarrow> u32 \<Rightarrow> u32 \<Rightarrow> u32 \<Rightarrow> unit bio_io" where
  "io_error al name line library reason w =
     Some ((), w\<lparr>w_err := OPENSSL_PUT_ERROR al name line library reason (w_err w)\<rparr>)"

section \<open>Flags\<close>

definition BIO_FLAGS_READ :: c_int where "BIO_FLAGS_READ = 0x01"
definition BIO_FLAGS_WRITE :: c_int where "BIO_FLAGS_WRITE = 0x02"
definition BIO_FLAGS_IO_SPECIAL :: c_int where "BIO_FLAGS_IO_SPECIAL = 0x04"
definition BIO_FLAGS_RWS :: c_int where "BIO_FLAGS_RWS = BIO_FLAGS_READ OR BIO_FLAGS_WRITE OR BIO_FLAGS_IO_SPECIAL"
definition BIO_FLAGS_SHOULD_RETRY :: c_int where "BIO_FLAGS_SHOULD_RETRY = 0x08"
definition BIO_FLAGS_MEM_RDONLY :: c_int where "BIO_FLAGS_MEM_RDONLY = 0x200"

definition kRetryFlags :: c_int where "kRetryFlags = BIO_FLAGS_RWS OR BIO_FLAGS_SHOULD_RETRY"

definition BIO_set_flags :: "c_int \<Rightarrow> bio_st \<Rightarrow> bio_st" where
  "BIO_set_flags flags bio = bio\<lparr>bio_flags := bio_flags bio OR flags\<rparr>"

definition BIO_clear_flags :: "c_int \<Rightarrow> bio_st \<Rightarrow> bio_st" where
  "BIO_clear_flags flags bio = bio\<lparr>bio_flags := bio_flags bio AND NOT flags\<rparr>"

definition BIO_test_flags :: "bio_st \<Rightarrow> c_int \<Rightarrow> c_int" where
  "BIO_test_flags bio flags = bio_flags bio AND flags"

definition BIO_should_read :: "bio_st \<Rightarrow> c_int" where
  "BIO_should_read bio = BIO_test_flags bio BIO_FLAGS_READ"

definition BIO_should_write :: "bio_st \<Rightarrow> c_int" where
  "BIO_should_write bio = BIO_test_flags bio BIO_FLAGS_WRITE"

definition BIO_should_retry :: "bio_st \<Rightarrow> c_int" where
  "BIO_should_retry bio = BIO_test_flags bio BIO_FLAGS_SHOULD_RETRY"

definition BIO_should_io_special :: "bio_st \<Rightarrow> c_int" where
  "BIO_should_io_special bio = BIO_test_flags bio BIO_FLAGS_IO_SPECIAL"

definition BIO_set_retry_read :: "bio_st \<Rightarrow> bio_st" where
  "BIO_set_retry_read bio = bio\<lparr>bio_flags := bio_flags bio OR (BIO_FLAGS_READ OR BIO_FLAGS_SHOULD_RETRY)\<rparr>"

definition BIO_set_retry_write :: "bio_st \<Rightarrow> bio_st" where
  "BIO_set_retry_write bio = bio\<lparr>bio_flags := bio_flags bio OR (BIO_FLAGS_WRITE OR BIO_FLAGS_SHOULD_RETRY)\<rparr>"

definition BIO_set_retry_special :: "bio_st \<Rightarrow> bio_st" where
  "BIO_set_retry_special bio = bio\<lparr>bio_flags := bio_flags bio OR (BIO_FLAGS_READ OR BIO_FLAGS_IO_SPECIAL)\<rparr>"

definition BIO_get_retry_flags :: "bio_st \<Rightarrow> c_int" where
  "BIO_get_retry_flags bio = bio_flags bio AND kRetryFlags"

definition BIO_clear_retry_flags :: "bio_st \<Rightarrow> bio_st" where
  "BIO_clear_retry_flags bio = bio\<lparr>bio_flags := bio_flags bio AND NOT kRetryFlags, bio_retry_reason := 0\<rparr>"

text \<open>Commands of \<open>BIO_ctrl\<close>.\<close>

definition BIO_CTRL_RESET :: int where "BIO_CTRL_RESET = 1"
definition BIO_CTRL_EOF :: int where "BIO_CTRL_EOF = 2"
definition BIO_CTRL_INFO :: int where "BIO_CTRL_INFO = 3"
definition BIO_CTRL_GET_CLOSE :: int where "BIO_CTRL_GET_CLOSE = 8"
definition BIO_CTRL_SET_CLOSE :: int where "BIO_CTRL_SET_CLOSE = 9"
definition BIO_CTRL_PENDING :: int where "BIO_CTRL_PENDING = 10"
definition BIO_CTRL_FLUSH :: int where "BIO_CTRL_FLUSH = 11"
definition BIO_CTRL_WPENDING :: int where "BIO_CTRL_WPENDING = 13"
definition BIO_C_SET_BUF_MEM_EOF_RETURN :: int where "BIO_C_SET_BUF_MEM_EOF_RETURN = 130"
definition BIO_C_GET_WRITE_BUF_SIZE :: int where "BIO_C_GET_WRITE_BUF_SIZE = 137"
definition BIO_C_GET_WRITE_GUARANTEE :: int where "BIO_C_GET_WRITE_GUARANTEE = 140"
definition BIO_C_GET_READ_REQUEST :: int where "BIO_C_GET_READ_REQUEST = 141"
definition BIO_C_SHUTDOWN_WR :: int where "BIO_C_SHUTDOWN_WR = 142"
definition BIO_C_RESET_READ_REQUEST :: int where "BIO_C_RESET_READ_REQUEST = 147"

lemmas bio_cmds = BIO_CTRL_RESET_def BIO_CTRL_EOF_def BIO_CTRL_INFO_def BIO_CTRL_GET_CLOSE_def
  BIO_CTRL_SET_CLOSE_def BIO_CTRL_PENDING_def BIO_CTRL_FLUSH_def BIO_CTRL_WPENDING_def
  BIO_C_SET_BUF_MEM_EOF_RETURN_def BIO_C_GET_WRITE_BUF_SIZE_def BIO_C_GET_WRITE_GUARANTEE_def
  BIO_C_GET_READ_REQUEST_def BIO_C_SHUTDOWN_WR_def BIO_C_RESET_READ_REQUEST_def

text \<open>Casts between \<open>int\<close> and \<open>size_t\<close>.\<close>

definition size_of_int :: "int \<Rightarrow> u64" where
  "size_of_int n = word_of_int n"

definition int_of_size :: "u64 \<Rightarrow> int" where
  "int_of_size n = sint (ucast n :: c_int)"

definition INT_MAX :: int where
  "INT_MAX = 0x7fffffff"

lemma unat_size_of_int: "0 \<le> n \<Longrightarrow> n < 2 ^ 64 \<Longrightarrow> unat (size_of_int n) = nat n"
  by (simp add: size_of_int_def unat_eq_nat_uint uint_word_of_int)

lemma int_of_size_small: "unat n < 2 ^ 31 \<Longrightarrow> int_of_size n = int (unat n)"
proof -
  assume n: "unat n < 2 ^ 31"
  have "int (unat n) < int (2 ^ 31)" using n by (simp only: of_nat_less_iff)
  then have u: "uint n < 2 ^ 31" by simp
  have "uint (ucast n :: c_int) = int (unat n)" unfolding uint_nat using n by (simp add: unat_ucast_small)
  then have c: "uint (ucast n :: c_int) = uint n" by simp
  have "signed_take_bit 31 (uint n) = uint n" using u by (intro signed_take_bit_int_eq_self) (simp_all add: order_trans [OF _ uint_ge_0])
  with c show ?thesis by (simp add: int_of_size_def sint_uint)
qed

end
