(* ===== verification/Bio_Pair.thy ===== *)
theory Bio_Pair
  imports Bio_State
begin

text \<open>
  crypto/bio/pair.c: two \<open>BIO\<close>s of which each reads what the other writes, through one ring buffer
  for each direction. The ring that a \<open>BIO\<close> writes to is its own; it reads from its peer's.
\<close>

section \<open>The rings\<close>

text \<open>
  One iteration of the copying loop of \<open>bio_read\<close>: the ring, the bytes copied so far and the rest
  to be copied; nothing where an assertion fails.
\<close>

definition ring_read_step :: "bio_bio_st \<Rightarrow> u64 \<Rightarrow> u8 list \<Rightarrow> (bio_bio_st \<times> u64 \<times> u8 list) option" where
  "ring_read_step peer_b rest out =
     (let chunk = (if pr_offset peer_b + rest \<le> pr_size peer_b then rest
                   else pr_size peer_b - pr_offset peer_b)
      in case pr_buf peer_b of
           None \<Rightarrow> None
         | Some buf \<Rightarrow>
             if \<not> rest \<le> pr_len peer_b \<or> \<not> pr_offset peer_b + chunk \<le> pr_size peer_b then None
             else
               let out = out @ take (unat chunk) (drop (unat (pr_offset peer_b)) buf);
                   peer_b = peer_b\<lparr>pr_len := pr_len peer_b - chunk\<rparr>
               in if pr_len peer_b \<noteq> 0 then
                    let peer_b = peer_b\<lparr>pr_offset := pr_offset peer_b + chunk\<rparr>
                    in if \<not> pr_offset peer_b \<le> pr_size peer_b then None
                       else Some (if pr_offset peer_b = pr_size peer_b then peer_b\<lparr>pr_offset := 0\<rparr> else peer_b,
                                  rest - chunk, out)
                  else if chunk \<noteq> rest then None
                  else Some (peer_b\<lparr>pr_offset := 0\<rparr>, rest - chunk, out))"

partial_function (option) ring_read_loop :: "bio_bio_st \<Rightarrow> u64 \<Rightarrow> u8 list \<Rightarrow> (bio_bio_st \<times> u8 list) option" where
  "ring_read_loop peer_b rest out =
     (case ring_read_step peer_b rest out of
        None \<Rightarrow> None
      | Some (peer_b, rest, out) \<Rightarrow> if rest \<noteq> 0 then ring_read_loop peer_b rest out else Some (peer_b, out))"

definition ring_write_step :: "bio_bio_st \<Rightarrow> u64 \<Rightarrow> u8 list \<Rightarrow> (bio_bio_st \<times> u64 \<times> u8 list) option" where
  "ring_write_step b rest inp =
     (let write_offset = pr_offset b + pr_len b;
          write_offset = (if write_offset \<ge> pr_size b then write_offset - pr_size b else write_offset);
          chunk = (if write_offset + rest \<le> pr_size b then rest else pr_size b - write_offset)
      in case pr_buf b of
           None \<Rightarrow> None
         | Some buf \<Rightarrow>
             if \<not> pr_len b + rest \<le> pr_size b then None
             else
               let b = b\<lparr>pr_buf := Some (write_at (unat write_offset) (take (unat chunk) inp) buf),
                         pr_len := pr_len b + chunk\<rparr>
               in if \<not> pr_len b \<le> pr_size b then None
                  else Some (b, rest - chunk, drop (unat chunk) inp))"

partial_function (option) ring_write_loop :: "bio_bio_st \<Rightarrow> u64 \<Rightarrow> u8 list \<Rightarrow> bio_bio_st option" where
  "ring_write_loop b rest inp =
     (case ring_write_step b rest inp of
        None \<Rightarrow> None
      | Some (b, rest, inp) \<Rightarrow> if rest \<noteq> 0 then ring_write_loop b rest inp else Some b)"

section \<open>The methods\<close>

text \<open>\<open>bio->ptr\<close> of a \<open>BIO\<close> of this type.\<close>

definition io_pair :: "nat \<Rightarrow> bio_bio_st bio_io" where
  "io_pair a = io_bind (io_get a) (\<lambda>b. case bio_ptr b of Pair_ptr p \<Rightarrow> io_return p | _ \<Rightarrow> io_undefined)"

definition io_put_pair :: "nat \<Rightarrow> bio_bio_st \<Rightarrow> unit bio_io" where
  "io_put_pair a p = io_modify a (\<lambda>b. b\<lparr>bio_ptr := Pair_ptr p\<rparr>)"

definition bio_new :: "bio_env \<Rightarrow> bio_st \<Rightarrow> bio_st option" where
  "bio_new env bio =
     (case OPENSSL_malloc (be_alloc env) 56 of
        None \<Rightarrow> None
      | Some _ \<Rightarrow>
          Some (bio\<lparr>bio_ptr := Pair_ptr \<lparr>pr_peer = None, pr_closed = False, pr_len = 0, pr_offset = 0,
                                       pr_size = 17 * 1024, pr_buf = None, pr_request = 0\<rparr>\<rparr>))"

definition bio_destroy_pair :: "nat \<Rightarrow> unit bio_io" where
  "bio_destroy_pair bio = io_bind (io_get bio) (\<lambda>self.
     case bio_ptr self of
       No_ptr \<Rightarrow> io_return ()
     | Mem_ptr _ \<Rightarrow> io_undefined
     | Pair_ptr b \<Rightarrow>
         (case pr_peer b of
            None \<Rightarrow> io_return ()
          | Some peer_bio \<Rightarrow> io_bind (io_pair peer_bio) (\<lambda>peer_b.
              if pr_peer peer_b \<noteq> Some bio \<or> pr_buf peer_b = None \<or> pr_buf b = None then io_undefined
              else
                io_bind (io_modify peer_bio (\<lambda>x. x\<lparr>bio_init := False,
                    bio_ptr := Pair_ptr (peer_b\<lparr>pr_peer := None, pr_len := 0, pr_offset := 0\<rparr>)\<rparr>)) (\<lambda>_.
                io_modify bio (\<lambda>x. x\<lparr>bio_init := False,
                    bio_ptr := Pair_ptr (b\<lparr>pr_peer := None, pr_len := 0, pr_offset := 0\<rparr>)\<rparr>)))))"

text \<open>\<open>destroy\<close>, with the \<open>OPENSSL_free\<close> of the \<open>BIO\<close> itself left to the caller.\<close>

definition bio_free :: "nat \<Rightarrow> int bio_io" where
  "bio_free bio = io_bind (io_pair bio) (\<lambda>b.
     io_bind (if pr_peer b \<noteq> None then bio_destroy_pair bio else io_return ()) (\<lambda>_.
     io_bind (io_modify bio (\<lambda>x. x\<lparr>bio_ptr := No_ptr\<rparr>)) (\<lambda>_. io_return 1)))"

text \<open>The result and the bytes stored at \<open>buf\<close>, which is NULL if \<open>has_buf\<close> is false.\<close>

definition bio_read :: "nat \<Rightarrow> bool \<Rightarrow> int \<Rightarrow> (int \<times> u8 list) bio_io" where
  "bio_read bio has_buf requested = io_bind (io_modify bio BIO_clear_retry_flags) (\<lambda>_. io_bind (io_get bio) (\<lambda>self.
     let size = size_of_int requested
     in if \<not> bio_init self then io_return (0, [])
        else io_bind (io_pair bio) (\<lambda>b. case pr_peer b of None \<Rightarrow> io_undefined | Some peer \<Rightarrow> io_bind (io_pair peer) (\<lambda>peer_b.
          if pr_buf peer_b = None then io_undefined
          else
            let peer_b = peer_b\<lparr>pr_request := 0\<rparr>
            in io_bind (io_put_pair peer peer_b) (\<lambda>_.
                 if \<not> has_buf \<or> size = 0 then io_return (0, [])
                 else if pr_len peer_b = 0 then
                   (if pr_closed peer_b then io_return (0, [])
                    else io_bind (io_modify bio BIO_set_retry_read) (\<lambda>_. io_bind
                      (io_put_pair peer (peer_b\<lparr>pr_request := (if size \<le> pr_size peer_b then size else pr_size peer_b)\<rparr>)) (\<lambda>_.
                      io_return (-1, []))))
                 else
                   let size = (if pr_len peer_b < size then pr_len peer_b else size)
                   in if \<not> size > 0 then io_undefined
                      else case ring_read_loop peer_b size [] of
                        None \<Rightarrow> io_undefined
                      | Some (peer_b, out) \<Rightarrow> io_bind (io_put_pair peer peer_b) (\<lambda>_. io_return (int_of_size size, out)))))))"

definition bio_write :: "bio_env \<Rightarrow> nat \<Rightarrow> u8 list option \<Rightarrow> int \<Rightarrow> int bio_io" where
  "bio_write env bio buf requested = io_bind (io_modify bio BIO_clear_retry_flags) (\<lambda>_. io_bind (io_get bio) (\<lambda>self.
     let num = size_of_int requested
     in case buf of
          None \<Rightarrow> io_return 0
        | Some data \<Rightarrow>
            if \<not> bio_init self \<or> num = 0 then io_return 0
            else io_bind (io_pair bio) (\<lambda>b.
              if pr_peer b = None \<or> pr_buf b = None then io_undefined
              else
                let b = b\<lparr>pr_request := 0\<rparr>
                in io_bind (io_put_pair bio b) (\<lambda>_.
                     if pr_closed b
                     then io_bind (io_error (be_alloc env) (be_file_pair env) 246 ERR_LIB_BIO BIO_R_BROKEN_PIPE) (\<lambda>_.
                            io_return (-1))
                     else if \<not> pr_len b \<le> pr_size b then io_undefined
                     else if pr_len b = pr_size b
                     then io_bind (io_modify bio BIO_set_retry_write) (\<lambda>_. io_return (-1))
                     else
                       let num = (if num > pr_size b - pr_len b then pr_size b - pr_len b else num)
                       in if \<not> num > 0 then io_undefined
                          else case ring_write_loop b num data of
                            None \<Rightarrow> io_undefined
                          | Some b \<Rightarrow> io_bind (io_put_pair bio b) (\<lambda>_. io_return (int_of_size num))))))"

text \<open>Giving a \<open>BIO\<close> its ring, unless it has one; nothing when memory is short.\<close>

definition pair_buffer :: "bio_env \<Rightarrow> bio_bio_st \<Rightarrow> u64 \<Rightarrow> bio_bio_st option" where
  "pair_buffer env b writebuf_len =
     (if pr_buf b \<noteq> None then Some b
      else
        let b = (if writebuf_len \<noteq> 0 then b\<lparr>pr_size := writebuf_len\<rparr> else b)
        in case OPENSSL_malloc (be_alloc env) (pr_size b) of
             None \<Rightarrow> None
           | Some buf \<Rightarrow> Some (b\<lparr>pr_buf := Some buf, pr_len := 0, pr_offset := 0\<rparr>))"

definition bio_make_pair :: "bio_env \<Rightarrow> nat \<Rightarrow> nat \<Rightarrow> u64 \<Rightarrow> u64 \<Rightarrow> int bio_io" where
  "bio_make_pair env bio1 bio2 writebuf1_len writebuf2_len =
     (let malloc_failure = (\<lambda>line. io_bind (io_error (be_alloc env) (be_file_pair env) line ERR_LIB_BIO ERR_R_MALLOC_FAILURE)
            (\<lambda>_. io_return 0))
      in io_bind (io_pair bio1) (\<lambda>b1. io_bind (io_pair bio2) (\<lambda>b2.
        if pr_peer b1 \<noteq> None \<or> pr_peer b2 \<noteq> None
        then io_bind (io_error (be_alloc env) (be_file_pair env) 310 ERR_LIB_BIO BIO_R_IN_USE) (\<lambda>_. io_return 0)
        else case pair_buffer env b1 writebuf1_len of
          None \<Rightarrow>
            io_bind (io_put_pair bio1 (if writebuf1_len \<noteq> 0 then b1\<lparr>pr_size := writebuf1_len\<rparr> else b1)) (\<lambda>_.
            malloc_failure 320)
        | Some b1 \<Rightarrow> io_bind (io_put_pair bio1 b1) (\<lambda>_. io_bind (io_pair bio2) (\<lambda>b2.
            case pair_buffer env b2 writebuf2_len of
              None \<Rightarrow>
                io_bind (io_put_pair bio2 (if writebuf2_len \<noteq> 0 then b2\<lparr>pr_size := writebuf2_len\<rparr> else b2)) (\<lambda>_.
                malloc_failure 333)
            | Some b2 \<Rightarrow>
                io_bind (io_put_pair bio2 b2) (\<lambda>_.
                io_bind (io_modify bio1 (\<lambda>x. x\<lparr>bio_init := True,
                    bio_ptr := Pair_ptr (b1\<lparr>pr_peer := Some bio2, pr_closed := False, pr_request := 0\<rparr>)\<rparr>)) (\<lambda>_.
                io_bind (io_modify bio2 (\<lambda>x. x\<lparr>bio_init := True,
                    bio_ptr := Pair_ptr (b2\<lparr>pr_peer := Some bio1, pr_closed := False, pr_request := 0\<rparr>)\<rparr>)) (\<lambda>_.
                io_return 1))))))))"

text \<open>\<open>ptr\<close> is used as a \<open>BIO *\<close> by \<open>BIO_CTRL_EOF\<close> only; \<open>long\<close> has 64 bits.\<close>

definition bio_ctrl :: "nat \<Rightarrow> int \<Rightarrow> int \<Rightarrow> nat option \<Rightarrow> int bio_io" where
  "bio_ctrl bio cmd num ptr = io_bind (io_pair bio) (\<lambda>b.
     if cmd = BIO_C_GET_WRITE_BUF_SIZE then io_return (sint (pr_size b))
     else if cmd = BIO_C_GET_WRITE_GUARANTEE then
       io_return (if pr_peer b = None \<or> pr_closed b then 0 else sint (pr_size b - pr_len b))
     else if cmd = BIO_C_GET_READ_REQUEST then io_return (sint (pr_request b))
     else if cmd = BIO_C_RESET_READ_REQUEST then
       io_bind (io_put_pair bio (b\<lparr>pr_request := 0\<rparr>)) (\<lambda>_. io_return 1)
     else if cmd = BIO_C_SHUTDOWN_WR then
       io_bind (io_put_pair bio (b\<lparr>pr_closed := True\<rparr>)) (\<lambda>_. io_return 1)
     else if cmd = BIO_CTRL_GET_CLOSE then io_bind (io_get bio) (\<lambda>x. io_return (bio_shutdown x))
     else if cmd = BIO_CTRL_SET_CLOSE then
       io_bind (io_modify bio (\<lambda>x. x\<lparr>bio_shutdown := sint (word_of_int num :: c_int)\<rparr>)) (\<lambda>_. io_return 1)
     else if cmd = BIO_CTRL_PENDING then
       (case pr_peer b of
          None \<Rightarrow> io_return 0
        | Some peer \<Rightarrow> io_bind (io_pair peer) (\<lambda>peer_b. io_return (sint (pr_len peer_b))))
     else if cmd = BIO_CTRL_WPENDING then io_return (if pr_buf b = None then 0 else sint (pr_len b))
     else if cmd = BIO_CTRL_FLUSH then io_return 1
     else if cmd = BIO_CTRL_EOF then
       (case ptr of
          None \<Rightarrow> io_return 1
        | Some other_bio \<Rightarrow> io_bind (io_pair other_bio) (\<lambda>other_b.
            io_return (if pr_len other_b = 0 \<and> pr_closed other_b then 1 else 0)))
     else io_return 0)"

section \<open>What a ring holds\<close>

definition ring_ok :: "bio_bio_st \<Rightarrow> bool" where
  "ring_ok b \<longleftrightarrow> 0 < unat (pr_size b) \<and> unat (pr_size b) \<le> 2 ^ 62 \<and> pr_offset b < pr_size b \<and> pr_len b \<le> pr_size b \<and>
     (pr_len b = 0 \<longrightarrow> pr_offset b = 0) \<and> (\<exists>buf. pr_buf b = Some buf \<and> length buf = unat (pr_size b))"

definition ring_data :: "bio_bio_st \<Rightarrow> u8 list" where
  "ring_data b = (case pr_buf b of None \<Rightarrow> [] | Some buf \<Rightarrow> take (unat (pr_len b)) (rotate (unat (pr_offset b)) buf))"

lemma length_ring_data: "ring_ok b \<Longrightarrow> length (ring_data b) = unat (pr_len b)"
  by (auto simp: ring_ok_def ring_data_def word_le_nat_alt word_less_nat_alt)

lemma ring_window:
  assumes "c \<le> l" and "l \<le> length buf"
  shows "take (l - c) (rotate (o' + c) buf) = drop c (take l (rotate o' buf))"
proof -
  let ?x = "rotate o' buf"
  have "rotate (o' + c) buf = rotate c ?x" by (simp add: rotate_rotate add.commute)
  also have "\<dots> = drop c ?x @ take c ?x"
    using assms rotate_drop_take [of c ?x] by (cases "c = length buf") simp_all
  finally have "take (l - c) (rotate (o' + c) buf) = take (l - c) (drop c ?x)" using assms by simp
  then show ?thesis by (simp add: drop_take)
qed

lemma ring_extend:
  assumes "o' < length buf" and "l + length bs \<le> length buf" and "w = (if o' + l < length buf then o' + l else o' + l - length buf)"
    and "w + length bs \<le> length buf"
  shows "take (l + length bs) (rotate o' (write_at w bs buf)) = take l (rotate o' buf) @ bs"
proof (rule nth_equalityI)
  have len: "length (write_at w bs buf) = length buf" using assms(4) by (simp add: write_at_def)
  then show "length (take (l + length bs) (rotate o' (write_at w bs buf))) = length (take l (rotate o' buf) @ bs)"
    using assms(2) by simp
  fix i assume "i < length (take (l + length bs) (rotate o' (write_at w bs buf)))"
  then have i: "i < l + length bs" "i < length buf" using len assms(2) by simp_all
  define k where "k = (o' + i) mod length buf"
  have k: "k = (if o' + i < length buf then o' + i else o' + i - length buf)"
    using assms(1) i(2) by (simp add: k_def mod_if)
  then have k_less: "k < length buf" using assms(1) i(2) by (auto split: if_splits)
  have new: "rotate o' (write_at w bs buf) ! i = write_at w bs buf ! k"
    using nth_rotate [of i "write_at w bs buf" o'] i by (simp add: len k_def)
  have old: "rotate o' buf ! i = buf ! k" using nth_rotate i(2) by (simp add: k_def)
  show "take (l + length bs) (rotate o' (write_at w bs buf)) ! i = (take l (rotate o' buf) @ bs) ! i"
  proof (cases "i < l")
    case True
    then have "\<not> (w \<le> k \<and> k < w + length bs)"
      unfolding k using assms by (cases "o' + l < length buf"; cases "o' + i < length buf") (simp_all, linarith+)
    then have "write_at w bs buf ! k = buf ! k" using nth_write_at [OF assms(4) k_less] by argo
    then show ?thesis using True i old by (simp add: new nth_append)
  next
    case False
    then have "w \<le> k \<and> k < w + length bs \<and> k - w = i - l"
      unfolding k using assms i by (cases "o' + l < length buf"; cases "o' + i < length buf") (simp_all, linarith+)
    then show ?thesis using False i by (simp add: new nth_append nth_write_at [OF assms(4) k_less])
  qed
qed

text \<open>Reading a chunk moves it from the front of the data to the output.\<close>

lemma ring_read_step_ok:
  assumes ok: "ring_ok b" and rest: "0 < unat rest" "unat rest \<le> unat (pr_len b)"
  obtains b' chunk where "ring_read_step b rest out = Some (b', rest - chunk, out @ take (unat chunk) (ring_data b))"
    and "ring_ok b'" and "ring_data b' = drop (unat chunk) (ring_data b)"
    and "0 < unat chunk" and "unat chunk \<le> unat rest"
    and "b' = b\<lparr>pr_len := pr_len b - chunk, pr_offset := pr_offset b'\<rparr>"
    and "unat rest \<noteq> unat chunk \<longrightarrow> pr_offset b' = 0"
    and "pr_offset b = 0 \<longrightarrow> chunk = rest"
proof -
  let ?o = "unat (pr_offset b)" and ?l = "unat (pr_len b)" and ?n = "unat (pr_size b)"
  obtain buf where buf: "pr_buf b = Some buf" "length buf = ?n"
    and sz: "?n \<le> 4611686018427387904" and o: "?o < ?n" and l: "?l \<le> ?n"
    using ok by (auto simp: ring_ok_def word_le_nat_alt word_less_nat_alt)
  define chunk where "chunk = (if pr_offset b + rest \<le> pr_size b then rest else pr_size b - pr_offset b)"
  have sum: "unat (pr_offset b + rest) = ?o + unat rest"
    using o l sz rest by (simp add: unat_u64_add)
  have chunk: "unat chunk = (if ?o + unat rest \<le> ?n then unat rest else ?n - ?o)"
    using o by (simp add: chunk_def word_le_nat_alt sum unat_sub)
  then have c: "0 < unat chunk" "unat chunk \<le> unat rest" "?o + unat chunk \<le> ?n" using o rest by auto
  have sum': "unat (pr_offset b + chunk) = ?o + unat chunk" using c(3) sz by (simp add: unat_u64_add)
  have len: "unat (pr_len b - chunk) = ?l - unat chunk" using c rest by (simp add: unat_sub word_le_nat_alt)
  have copied: "take (unat chunk) (drop ?o buf) = take (unat chunk) (ring_data b)"
    using c rest o l buf by (simp add: ring_data_def rotate_drop_take)
  define off where "off = (if pr_len b - chunk = 0 \<or> pr_offset b + chunk = pr_size b then 0 else pr_offset b + chunk)"
  let ?b' = "b\<lparr>pr_len := pr_len b - chunk, pr_offset := off\<rparr>"
  have last: "chunk = rest" if "pr_len b - chunk = 0"
    using that len c(2) rest(2) by (simp add: word_unat_eq_iff)
  have step: "ring_read_step b rest out = Some (?b', rest - chunk, out @ take (unat chunk) (ring_data b))"
    unfolding ring_read_step_def chunk_def [symmetric] Let_def
    using rest c last by (auto simp: buf(1) copied off_def word_le_nat_alt sum')
  have data: "take (?l - unat chunk) (rotate (unat off) buf) = drop (unat chunk) (ring_data b)"
  proof (cases "pr_len b - chunk = 0")
    case True
    then show ?thesis using len last l buf by (simp add: ring_data_def off_def)
  next
    case False
    then have "rotate (unat off) buf = rotate (?o + unat chunk) buf"
      using sum' buf(2) by (auto simp: off_def rotate_drop_take)
    then show ?thesis using ring_window [of "unat chunk" ?l buf ?o] c rest l buf by (simp add: ring_data_def)
  qed
  have "off < pr_size b" using c(3) o sum' by (auto simp: off_def word_less_nat_alt word_unat_eq_iff)
  moreover have "pr_len b - chunk \<le> pr_size b" using len l by (simp add: word_le_nat_alt)
  ultimately have ok': "ring_ok ?b'" using ok buf by (auto simp: ring_ok_def off_def)
  have "ring_data ?b' = drop (unat chunk) (ring_data b)" using data by (simp add: ring_data_def buf(1) len)
  moreover have "off = 0" if "unat rest \<noteq> unat chunk"
  proof -
    have "?o + unat chunk = ?n" using that chunk o by (auto split: if_splits)
    then show ?thesis using sum' by (simp add: off_def word_unat_eq_iff)
  qed
  moreover have "chunk = rest" if "pr_offset b = 0" using that chunk rest(2) l by (simp add: word_unat_eq_iff)
  ultimately show thesis using that [OF step ok'] c by auto
qed

lemma ring_ok_size: "ring_ok b \<Longrightarrow> 0 < unat (pr_size b) \<and> unat (pr_len b) \<le> unat (pr_size b)"
  by (auto simp: ring_ok_def word_le_nat_alt)

lemma ring_read_ok:
  assumes ok: "ring_ok b" and rest: "0 < unat rest" "unat rest \<le> unat (pr_len b)"
  obtains b' where "ring_read_loop b rest out = Some (b', out @ take (unat rest) (ring_data b))"
    and "ring_ok b'" and "ring_data b' = drop (unat rest) (ring_data b)"
    and "b' = b\<lparr>pr_len := pr_len b - rest, pr_offset := pr_offset b'\<rparr>"
proof -
  obtain b1 c1 where s1: "ring_read_step b rest out = Some (b1, rest - c1, out @ take (unat c1) (ring_data b))"
    and b1: "ring_ok b1" "ring_data b1 = drop (unat c1) (ring_data b)"
      "b1 = b\<lparr>pr_len := pr_len b - c1, pr_offset := pr_offset b1\<rparr>"
    and c1: "0 < unat c1" "unat c1 \<le> unat rest" "unat rest \<noteq> unat c1 \<longrightarrow> pr_offset b1 = 0"
    using ring_read_step_ok [OF assms] by metis
  have left: "unat (rest - c1) = unat rest - unat c1" using c1(2) by (simp add: unat_sub word_le_nat_alt)
  show thesis
  proof (cases "rest = c1")
    case True
    then have "ring_read_loop b rest out = Some (b1, out @ take (unat rest) (ring_data b))"
      using s1 by (simp add: ring_read_loop.simps [of b])
    then show thesis using that [of b1] b1 True by simp
  next
    case False
    then have ne: "unat rest \<noteq> unat c1" by (simp add: word_unat_eq_iff)
    have "unat (pr_len b1) = unat (pr_len b) - unat c1"
      using b1(3) c1(2) rest(2) by (metis bio_bio_st.select_convs(3) bio_bio_st.surjective bio_bio_st.update_convs(3,4)
          le_trans unat_sub word_le_nat_alt)
    then have r2: "0 < unat (rest - c1)" "unat (rest - c1) \<le> unat (pr_len b1)" using left ne c1(2) rest(2) by simp_all
    obtain b2 where s2: "ring_read_step b1 (rest - c1) (out @ take (unat c1) (ring_data b)) =
        Some (b2, 0, (out @ take (unat c1) (ring_data b)) @ take (unat (rest - c1)) (ring_data b1))"
      and b2: "ring_ok b2" "ring_data b2 = drop (unat (rest - c1)) (ring_data b1)"
        "b2 = b1\<lparr>pr_len := pr_len b1 - (rest - c1), pr_offset := pr_offset b2\<rparr>"
      using ring_read_step_ok [OF b1(1) r2] c1(3) ne by (metis diff_self)
    have run: "ring_read_loop b rest out = Some (b2, (out @ take (unat c1) (ring_data b)) @ take (unat (rest - c1)) (ring_data b1))"
      using False s1 s2 by (simp add: ring_read_loop.simps [of b] ring_read_loop.simps [of b1])
    have split: "take (unat rest) (ring_data b) = take (unat c1) (ring_data b) @ take (unat (rest - c1)) (ring_data b1)"
      using c1(2) by (simp add: left b1(2) flip: take_add)
    have "pr_len b1 = pr_len b - c1" using b1(3) by (metis bio_bio_st.select_convs(3) bio_bio_st.surjective bio_bio_st.update_convs(3,4))
    then have "b2 = b\<lparr>pr_len := pr_len b - rest, pr_offset := pr_offset b2\<rparr>"
      using b2(3) b1(3) by (cases b; cases b1; cases b2) auto
    then show thesis using that [of b2] run b2(1,2) c1(2) by (simp add: split b1(2) left)
  qed
qed

lemma ring_write_step_ok:
  assumes ok: "ring_ok b" and rest: "0 < unat rest" "unat rest \<le> unat (pr_size b) - unat (pr_len b)" "unat rest \<le> length inp"
  obtains b' chunk where "ring_write_step b rest inp = Some (b', rest - chunk, drop (unat chunk) inp)"
    and "ring_ok b'" and "ring_data b' = ring_data b @ take (unat chunk) inp"
    and "0 < unat chunk" and "unat chunk \<le> unat rest"
    and "b' = b\<lparr>pr_len := pr_len b + chunk, pr_buf := pr_buf b'\<rparr>" and "unat (pr_len b') = unat (pr_len b) + unat chunk"
    and "chunk \<noteq> rest \<longrightarrow> unat (pr_offset b) + unat (pr_len b') = unat (pr_size b)"
    and "unat (pr_size b) \<le> unat (pr_offset b) + unat (pr_len b) \<longrightarrow> chunk = rest"
proof -
  let ?o = "unat (pr_offset b)" and ?l = "unat (pr_len b)" and ?n = "unat (pr_size b)"
  obtain buf where buf: "pr_buf b = Some buf" "length buf = ?n"
    and sz: "?n \<le> 4611686018427387904" and o: "?o < ?n" and l: "?l \<le> ?n"
    using ok by (auto simp: ring_ok_def word_le_nat_alt word_less_nat_alt)
  define w where "w = (if pr_offset b + pr_len b \<ge> pr_size b then pr_offset b + pr_len b - pr_size b else pr_offset b + pr_len b)"
  define chunk where "chunk = (if w + rest \<le> pr_size b then rest else pr_size b - w)"
  have sum: "unat (pr_offset b + pr_len b) = ?o + ?l" using o l sz by (simp add: unat_u64_add)
  then have w: "unat w = (if ?o + ?l < ?n then ?o + ?l else ?o + ?l - ?n)"
    by (auto simp: w_def word_le_nat_alt unat_sub)
  then have w_less: "unat w < ?n" using o l by (auto split: if_splits)
  have "unat (w + rest) = unat w + unat rest" using w_less rest(2) sz by (simp add: unat_u64_add)
  then have chunk: "unat chunk = (if unat w + unat rest \<le> ?n then unat rest else ?n - unat w)"
    using w_less by (simp add: chunk_def word_le_nat_alt unat_sub)
  then have c: "0 < unat chunk" "unat chunk \<le> unat rest" "unat w + unat chunk \<le> ?n" using w_less rest by auto
  have len: "unat (pr_len b + chunk) = ?l + unat chunk" "unat (pr_len b + rest) = ?l + unat rest"
    using c rest l sz by (simp_all add: unat_u64_add)
  let ?bs = "take (unat chunk) inp"
  have bs: "length ?bs = unat chunk" using c(2) rest(3) by simp
  let ?b' = "b\<lparr>pr_buf := Some (write_at (unat w) ?bs buf), pr_len := pr_len b + chunk\<rparr>"
  have step: "ring_write_step b rest inp = Some (?b', rest - chunk, drop (unat chunk) inp)"
    unfolding ring_write_step_def Let_def w_def [symmetric] chunk_def [symmetric]
    using rest(2) c(2) l len by (simp add: buf(1) word_le_nat_alt)
  have wr: "length (write_at (unat w) ?bs buf) = ?n" using c(3) buf(2) bs by (simp add: write_at_def)
  have "ring_ok ?b'" using ok len(1) rest(2) c l wr o by (auto simp: ring_ok_def word_le_nat_alt word_less_nat_alt unat_eq_0)
  moreover have "ring_data ?b' = ring_data b @ ?bs"
  proof -
    have "take (?l + length ?bs) (rotate ?o (write_at (unat w) ?bs buf)) = take ?l (rotate ?o buf) @ ?bs"
    proof (rule ring_extend)
      show "?o < length buf" "?l + length ?bs \<le> length buf" "unat w + length ?bs \<le> length buf"
        "unat w = (if ?o + ?l < length buf then ?o + ?l else ?o + ?l - length buf)"
        unfolding bs buf(2) using o l c rest(2) w by (linarith, linarith, linarith, blast)
    qed
    then show ?thesis unfolding bs by (simp add: ring_data_def buf(1) len(1))
  qed
  moreover have "?o + unat (pr_len ?b') = ?n" if "chunk \<noteq> rest"
  proof -
    have "unat chunk \<noteq> unat rest" using that by (simp add: word_unat_eq_iff)
    then show ?thesis using chunk w w_less rest(2) len(1) l o by (auto split: if_splits)
  qed
  moreover have "chunk = rest" if "?n \<le> ?o + ?l"
    using that chunk w rest(2) o by (auto simp: word_unat_eq_iff split: if_splits)
  ultimately show thesis using that [OF step] c len(1) by simp
qed

lemma ring_write_ok:
  assumes ok: "ring_ok b" and rest: "0 < unat rest" "unat rest \<le> unat (pr_size b) - unat (pr_len b)" "unat rest \<le> length inp"
  obtains b' where "ring_write_loop b rest inp = Some b'" and "ring_ok b'"
    and "ring_data b' = ring_data b @ take (unat rest) inp"
    and "b' = b\<lparr>pr_len := pr_len b + rest, pr_buf := pr_buf b'\<rparr>"
proof -
  obtain b1 c1 where s1: "ring_write_step b rest inp = Some (b1, rest - c1, drop (unat c1) inp)"
    and b1: "ring_ok b1" "ring_data b1 = ring_data b @ take (unat c1) inp"
      "b1 = b\<lparr>pr_len := pr_len b + c1, pr_buf := pr_buf b1\<rparr>" "unat (pr_len b1) = unat (pr_len b) + unat c1"
    and c1: "0 < unat c1" "unat c1 \<le> unat rest" "c1 \<noteq> rest \<longrightarrow> unat (pr_offset b) + unat (pr_len b1) = unat (pr_size b)"
    using ring_write_step_ok [OF assms] by metis
  have left: "unat (rest - c1) = unat rest - unat c1" using c1(2) by (simp add: unat_sub word_le_nat_alt)
  have same: "pr_offset b1 = pr_offset b" "pr_size b1 = pr_size b" by (subst b1(3), simp)+
  show thesis
  proof (cases "rest = c1")
    case True
    then have "ring_write_loop b rest inp = Some b1" using s1 by (simp add: ring_write_loop.simps [of b])
    then show thesis using that [of b1] b1 True by simp
  next
    case False
    then have ne: "unat rest \<noteq> unat c1" by (simp add: word_unat_eq_iff)
    have r2: "0 < unat (rest - c1)" "unat (rest - c1) \<le> unat (pr_size b1) - unat (pr_len b1)"
      "unat (rest - c1) \<le> length (drop (unat c1) inp)"
      using left ne c1(2) rest b1(4) same(2) by simp_all
    obtain b2 where s2: "ring_write_step b1 (rest - c1) (drop (unat c1) inp) =
        Some (b2, 0, drop (unat (rest - c1)) (drop (unat c1) inp))"
      and b2: "ring_ok b2" "ring_data b2 = ring_data b1 @ take (unat (rest - c1)) (drop (unat c1) inp)"
        "b2 = b1\<lparr>pr_len := pr_len b1 + (rest - c1), pr_buf := pr_buf b2\<rparr>"
      using ring_write_step_ok [OF b1(1) r2] c1(3) False same by (metis diff_self order_refl)
    have run: "ring_write_loop b rest inp = Some b2"
      using False s1 s2 by (simp add: ring_write_loop.simps [of b] ring_write_loop.simps [of b1])
    have split: "take (unat rest) inp = take (unat c1) inp @ take (unat (rest - c1)) (drop (unat c1) inp)"
      using c1(2) by (simp add: left flip: take_add)
    have "pr_len b1 = pr_len b + c1" by (subst b1(3)) simp
    then have "b2 = b\<lparr>pr_len := pr_len b + rest, pr_buf := pr_buf b2\<rparr>"
      using b2(3) b1(3) by (cases b; cases b1; cases b2) auto
    then show thesis using that [of b2] run b2(1,2) by (simp add: split b1(2))
  qed
qed

section \<open>The interface of a byte queue\<close>

text \<open>
  What the methods of a pair rely on: as long as there is room, what is put comes out in order. The
  bytes got in any run are a prefix of those there were and those put.
\<close>

datatype fifo_op = Put_bytes "u8 list" | Get_bytes nat

locale byte_fifo =
  fixes ok :: "'b \<Rightarrow> bool"
    and contents :: "'b \<Rightarrow> u8 list"
    and capacity :: "'b \<Rightarrow> nat"
    and put :: "u8 list \<Rightarrow> 'b \<Rightarrow> 'b option"
    and get :: "nat \<Rightarrow> 'b \<Rightarrow> ('b \<times> u8 list) option"
  assumes bounded: "ok b \<Longrightarrow> length (contents b) \<le> capacity b"
    and put_law: "ok b \<Longrightarrow> 0 < length bs \<Longrightarrow> length (contents b) + length bs \<le> capacity b \<Longrightarrow>
      \<exists>b'. put bs b = Some b' \<and> ok b' \<and> contents b' = contents b @ bs \<and> capacity b' = capacity b"
    and get_law: "ok b \<Longrightarrow> 0 < n \<Longrightarrow> n \<le> length (contents b) \<Longrightarrow>
      \<exists>b'. get n b = Some (b', take n (contents b)) \<and> ok b' \<and> contents b' = drop n (contents b) \<and> capacity b' = capacity b"
begin

fun run :: "fifo_op list \<Rightarrow> 'b \<Rightarrow> (u8 list \<times> u8 list \<times> 'b) option" where
  "run [] b = Some ([], [], b)"
| "run (Put_bytes bs # ops) b =
     (if bs = [] \<or> capacity b < length (contents b) + length bs then run ops b
      else case put bs b of None \<Rightarrow> None
        | Some b \<Rightarrow> map_option (\<lambda>(i, u, b). (bs @ i, u, b)) (run ops b))"
| "run (Get_bytes n # ops) b =
     (if n = 0 \<or> contents b = [] then run ops b
      else case get (min n (length (contents b))) b of None \<Rightarrow> None
        | Some (b, bs) \<Rightarrow> map_option (\<lambda>(i, u, b). (i, bs @ u, b)) (run ops b))"

lemma run_in_order:
  "ok b \<Longrightarrow> \<exists>i u b'. run ops b = Some (i, u, b') \<and> ok b' \<and> contents b @ i = u @ contents b'"
proof (induction ops arbitrary: b)
  case (Cons x ops)
  show ?case
  proof (cases x)
    case (Put_bytes bs)
    then show ?thesis using Cons.IH [OF Cons.prems] Cons.IH put_law [OF Cons.prems, of bs] by fastforce
  next
    case (Get_bytes n)
    show ?thesis
    proof (cases "n = 0 \<or> contents b = []")
      case False
      then obtain b1 where b1: "get (min n (length (contents b))) b = Some (b1, take (min n (length (contents b))) (contents b))"
        "ok b1" "contents b1 = drop (min n (length (contents b))) (contents b)"
        using get_law [OF Cons.prems, of "min n (length (contents b))"] by auto
      obtain i u b' where r: "run ops b1 = Some (i, u, b')" "ok b'" "contents b1 @ i = u @ contents b'"
        using Cons.IH [OF b1(2)] by blast
      then have "contents b @ i = (take (min n (length (contents b))) (contents b) @ u) @ contents b'"
        using b1(3) by (metis append.assoc append_take_drop_id)
      then show ?thesis using False b1(1) r(1,2) Get_bytes by simp
    qed (use Cons.IH [OF Cons.prems] Get_bytes in simp)
  qed
qed simp

end

definition ring_capacity :: "bio_bio_st \<Rightarrow> nat" where
  "ring_capacity b = unat (pr_size b)"

definition ring_put :: "u8 list \<Rightarrow> bio_bio_st \<Rightarrow> bio_bio_st option" where
  "ring_put bs b = ring_write_loop b (of_nat (length bs)) bs"

definition ring_get :: "nat \<Rightarrow> bio_bio_st \<Rightarrow> (bio_bio_st \<times> u8 list) option" where
  "ring_get n b = ring_read_loop b (of_nat n) []"

interpretation ring: byte_fifo ring_ok ring_data ring_capacity ring_put ring_get
proof
  fix b :: bio_bio_st and bs :: "u8 list" assume b: "ring_ok b"
  note len = length_ring_data [OF b] and size = ring_ok_size [OF b]
  have big: "unat (pr_size b) < 2 ^ 64" by simp
  show "length (ring_data b) \<le> ring_capacity b" using len size by (simp add: ring_capacity_def)
  {
    assume "0 < length bs" and room: "length (ring_data b) + length bs \<le> ring_capacity b"
    moreover have "unat (of_nat (length bs) :: u64) = length bs"
      using le_less_trans [OF _ big, of "length bs"] room by (intro unat_of_nat_u64_small) (simp add: ring_capacity_def)
    moreover have "length bs \<le> unat (pr_size b) - unat (pr_len b)" using room len by (simp add: ring_capacity_def)
    ultimately obtain b' where "ring_put bs b = Some b'" "ring_ok b'" "ring_data b' = ring_data b @ bs"
      "b' = b\<lparr>pr_len := pr_len b + of_nat (length bs), pr_buf := pr_buf b'\<rparr>"
      using ring_write_ok [OF b, of "of_nat (length bs)" bs] len by (auto simp: ring_put_def ring_capacity_def)
    moreover from this(4) have "pr_size b' = pr_size b" by (metis bio_bio_st.select_convs(5) bio_bio_st.surjective bio_bio_st.update_convs(3,6))
    ultimately show "\<exists>b'. ring_put bs b = Some b' \<and> ring_ok b' \<and> ring_data b' = ring_data b @ bs \<and> ring_capacity b' = ring_capacity b"
      by (simp add: ring_capacity_def)
  }
  fix n :: nat assume n: "0 < n" "n \<le> length (ring_data b)"
  then have "unat (of_nat n :: u64) = n" using le_less_trans [OF _ big, of n] len size by (intro unat_of_nat_u64_small) simp
  then obtain b' where "ring_get n b = Some (b', take n (ring_data b))" "ring_ok b'" "ring_data b' = drop n (ring_data b)"
    "b' = b\<lparr>pr_len := pr_len b - of_nat n, pr_offset := pr_offset b'\<rparr>"
    using ring_read_ok [OF b, of "of_nat n" "[]"] n len by (auto simp: ring_get_def)
  moreover from this(4) have "pr_size b' = pr_size b" by (metis bio_bio_st.select_convs(5) bio_bio_st.surjective bio_bio_st.update_convs(3,4))
  ultimately show "\<exists>b'. ring_get n b = Some (b', take n (ring_data b)) \<and> ring_ok b' \<and> ring_data b' = drop n (ring_data b) \<and> ring_capacity b' = ring_capacity b"
    by (simp add: ring_capacity_def)
qed

declare ring_read_loop.simps [code]
  ring_write_loop.simps [code]

end
