(* ===== verification/Buf.thy ===== *)
theory Buf
  imports Bio_State
begin

text \<open>
  crypto/buf/buf.c: the growable buffer \<open>BUF_MEM\<close>. The functions that may change it are called on
  buffers that own their block, where \<open>data\<close> points to its start. A call returns its result, the
  buffer and the error queue.
\<close>

section \<open>Operations\<close>

type_synonym err_queue_st = "err_state option"

definition BUF_MEM_zero :: buf_mem_st where
  "BUF_MEM_zero = \<lparr>bm_length = 0, bm_data = None, bm_start = 0, bm_max = 0\<rparr>"

definition BUF_MEM_new :: "bio_env \<Rightarrow> err_queue_st \<Rightarrow> buf_mem_st option \<times> err_queue_st" where
  "BUF_MEM_new env q =
     (case OPENSSL_malloc (be_alloc env) 24 of
        None \<Rightarrow> (None, OPENSSL_PUT_ERROR (be_alloc env) (be_file_buf env) 72 ERR_LIB_BUF ERR_R_MALLOC_FAILURE q)
      | Some _ \<Rightarrow> (Some BUF_MEM_zero, q))"

definition BUF_MEM_reserve :: "bio_env \<Rightarrow> u64 \<Rightarrow> buf_mem_st \<Rightarrow> err_queue_st \<Rightarrow> bool \<times> buf_mem_st \<times> err_queue_st" where
  "BUF_MEM_reserve env cap buf q =
     (let fail = (\<lambda>line. (False, buf, OPENSSL_PUT_ERROR (be_alloc env) (be_file_buf env) line ERR_LIB_BUF ERR_R_MALLOC_FAILURE q));
          n = cap + 3
      in if bm_max buf \<ge> cap then (True, buf, q)
         else if n < cap then fail 97
         else
           let n = n div 3; alloc_size = n * 4
           in if alloc_size div 4 \<noteq> n then fail 104
              else case OPENSSL_realloc (be_alloc env) (bm_data buf) alloc_size of
                     None \<Rightarrow> fail 110
                   | Some new_buf \<Rightarrow> (True, buf\<lparr>bm_data := Some new_buf, bm_max := alloc_size\<rparr>, q))"

definition BUF_MEM_grow :: "bio_env \<Rightarrow> u64 \<Rightarrow> buf_mem_st \<Rightarrow> err_queue_st \<Rightarrow> u64 \<times> buf_mem_st \<times> err_queue_st" where
  "BUF_MEM_grow env len buf q =
     (case BUF_MEM_reserve env len buf q of
        (False, buf, q) \<Rightarrow> (0, buf, q)
      | (True, buf, q) \<Rightarrow>
          let buf = (if bm_length buf < len
                     then buf\<lparr>bm_data := map_option (write_at (unat (bm_length buf)) (replicate (unat (len - bm_length buf)) 0)) (bm_data buf)\<rparr>
                     else buf)
          in (len, buf\<lparr>bm_length := len\<rparr>, q))"

definition BUF_MEM_grow_clean :: "bio_env \<Rightarrow> u64 \<Rightarrow> buf_mem_st \<Rightarrow> err_queue_st \<Rightarrow> u64 \<times> buf_mem_st \<times> err_queue_st" where
  "BUF_MEM_grow_clean env len buf q = BUF_MEM_grow env len buf q"

definition BUF_MEM_append :: "bio_env \<Rightarrow> u8 list \<Rightarrow> buf_mem_st \<Rightarrow> err_queue_st \<Rightarrow> bool \<times> buf_mem_st \<times> err_queue_st" where
  "BUF_MEM_append env inp buf q =
     (let len = of_nat (length inp) :: u64
      in if len = 0 then (True, buf, q)
         else
           let new_len = bm_length buf + len
           in if new_len < len
              then (False, buf, OPENSSL_PUT_ERROR (be_alloc env) (be_file_buf env) 141 ERR_LIB_BUF ERR_R_OVERFLOW q)
              else case BUF_MEM_reserve env new_len buf q of
                     (False, buf, q) \<Rightarrow> (False, buf, q)
                   | (True, buf, q) \<Rightarrow>
                       (True, buf\<lparr>bm_data := map_option (write_at (unat (bm_length buf)) inp) (bm_data buf), bm_length := new_len\<rparr>, q))"

section \<open>The contents of a buffer\<close>

definition buf_mem_ok :: "buf_mem_st \<Rightarrow> bool" where
  "buf_mem_ok b \<longleftrightarrow> bm_start b = 0 \<and> bm_length b \<le> bm_max b \<and>
     (case bm_data b of None \<Rightarrow> bm_max b = 0 | Some d \<Rightarrow> length d = unat (bm_max b))"

definition buf_mem_contents :: "buf_mem_st \<Rightarrow> u8 list" where
  "buf_mem_contents b = (case bm_data b of None \<Rightarrow> [] | Some d \<Rightarrow> take (unat (bm_length b)) (drop (bm_start b) d))"

lemma length_buf_mem_contents: "buf_mem_ok b \<Longrightarrow> length (buf_mem_contents b) = unat (bm_length b)"
  by (auto simp: buf_mem_ok_def buf_mem_contents_def word_le_nat_alt split: option.splits)

lemma div_4_times_4: "(n * 4 :: u64) div 4 = n \<Longrightarrow> unat (n * 4) = 4 * unat n"
proof -
  assume n: "n * 4 div 4 = n"
  have "unat n = unat (n * 4) div 4" using arg_cong [OF n, of unat] by (simp add: unat_div)
  moreover have "unat (n * 4) < 18446744073709551616" by simp
  ultimately have "4 * unat n < 18446744073709551616" by linarith
  then show ?thesis by (subst unat_mult_lem [THEN iffD1]) (simp_all add: mult.commute)
qed

lemma buf_reserve_ok:
  assumes "buf_mem_ok b" and "BUF_MEM_reserve env cap b q = (True, b', q')"
  shows "buf_mem_ok b' \<and> buf_mem_contents b' = buf_mem_contents b \<and> bm_length b' = bm_length b \<and> cap \<le> bm_max b' \<and> q' = q"
proof (cases "bm_max b \<ge> cap")
  case False
  define n where "n = (cap + 3) div 3"
  obtain new where new: "OPENSSL_realloc (be_alloc env) (bm_data b) (n * 4) = Some new"
    and big: "\<not> cap + 3 < cap" "n * 4 div 4 = n" and b': "b' = b\<lparr>bm_data := Some new, bm_max := n * 4\<rparr>" "q' = q"
    using assms(2) False by (auto simp: BUF_MEM_reserve_def Let_def n_def split: if_splits option.splits)
  have "unat (cap + 3) = unat cap + 3" using big(1) by (simp add: word_less_nat_alt unat_u64_add split: if_splits)
  then have "unat n = (unat cap + 3) div 3" by (simp add: n_def unat_div)
  then have size: "unat (n * 4) = 4 * ((unat cap + 3) div 3)" using div_4_times_4 [OF big(2)] by simp
  then have cap: "cap \<le> n * 4" by (simp add: word_le_nat_alt)
  have new_len: "length new = unat (n * 4)" using OPENSSL_realloc_length [OF new] .
  have len: "unat (bm_length b) \<le> unat (bm_max b)" "unat (bm_max b) < unat cap"
    using assms(1) False by (auto simp: buf_mem_ok_def word_le_nat_alt)
  have "take (unat (bm_length b)) new = buf_mem_contents b"
  proof (cases "bm_data b")
    case None
    then show ?thesis using assms(1) len(1) by (simp add: buf_mem_ok_def buf_mem_contents_def)
  next
    case (Some d)
    then have d: "length d = unat (bm_max b)" "bm_start b = 0" using assms(1) by (auto simp: buf_mem_ok_def)
    then have "take (length d) new = d" using new Some cap len OPENSSL_realloc_keeps [of "be_alloc env" d "n * 4" new]
      by (simp add: word_le_nat_alt)
    then have "take (unat (bm_length b)) d = take (unat (bm_length b)) new" using len(1) d(1) by (metis min.absorb1 take_take)
    then show ?thesis using Some d by (simp add: buf_mem_contents_def)
  qed
  moreover have "bm_length b \<le> n * 4" using len cap by (simp add: word_le_nat_alt)
  ultimately show ?thesis using assms(1) new_len cap by (simp add: b' buf_mem_ok_def buf_mem_contents_def)
qed (use assms in \<open>simp add: BUF_MEM_reserve_def\<close>)

lemma append_ok:
  assumes "buf_mem_ok b" and "length inp < 2 ^ 64" and "BUF_MEM_append env inp b q = (True, b', q')"
  shows "buf_mem_ok b' \<and> buf_mem_contents b' = buf_mem_contents b @ inp"
proof (cases "inp = []")
  case False
  define n where "n = (of_nat (length inp) :: u64)"
  have n: "unat n = length inp" unfolding n_def using assms(2) by (rule unat_of_nat_u64_small)
  have n0: "n \<noteq> 0" using n False by (simp add: unat_eq_0 [symmetric])
  obtain b1 q1 where r: "BUF_MEM_reserve env (bm_length b + n) b q = (True, b1, q1)" "\<not> bm_length b + n < n"
    "b' = b1\<lparr>bm_data := map_option (write_at (unat (bm_length b1)) inp) (bm_data b1), bm_length := bm_length b + n\<rparr>"
    using assms(3) n0 by (auto simp: BUF_MEM_append_def Let_def simp flip: n_def split: if_splits prod.splits bool.splits)
  note b1 = buf_reserve_ok [OF assms(1) r(1)]
  have sum: "unat (bm_length b + n) = unat (bm_length b) + length inp"
    using r(2) n unat_u64_less [of "bm_length b"] by (simp add: word_less_nat_alt unat_u64_add split: if_splits del: unat_u64_less)
  then have room: "unat (bm_length b) + length inp \<le> unat (bm_max b1)" using b1 by (simp add: word_le_nat_alt)
  then obtain d where d: "bm_data b1 = Some d" "length d = unat (bm_max b1)" "bm_start b1 = 0"
    using b1 False by (cases "bm_data b1") (auto simp: buf_mem_ok_def)
  have "take (unat (bm_length b) + length inp) (write_at (unat (bm_length b)) inp d) = take (unat (bm_length b)) d @ inp"
    using room d(2) by (intro take_write_at_end) simp
  moreover have "take (unat (bm_length b)) d = buf_mem_contents b" using b1 d by (auto simp: buf_mem_contents_def [of b1])
  moreover have "length (write_at (unat (bm_length b)) inp d) = unat (bm_max b1)" using room d(2) by (simp add: write_at_def)
  ultimately show ?thesis using b1 d r(3) by (simp add: buf_mem_ok_def buf_mem_contents_def sum)
qed (use assms in \<open>simp add: BUF_MEM_append_def\<close>)

lemma grow_ok:
  assumes "buf_mem_ok b" and "BUF_MEM_grow env len b q = (r, b', q')" and "r = len" and "0 < len"
  shows "buf_mem_ok b' \<and> q' = q \<and> bm_length b' = len \<and>
    buf_mem_contents b' = take (unat len) (buf_mem_contents b) @ replicate (unat len - unat (bm_length b)) 0"
proof -
  obtain b1 where res: "BUF_MEM_reserve env len b q = (True, b1, q')"
    and b': "b' = (if bm_length b1 < len
                     then b1\<lparr>bm_data := map_option (write_at (unat (bm_length b1)) (replicate (unat (len - bm_length b1)) 0)) (bm_data b1)\<rparr>
                     else b1)\<lparr>bm_length := len\<rparr>"
    using assms(2-4) by (auto simp: BUF_MEM_grow_def Let_def split: prod.splits bool.splits)
  note b1 = buf_reserve_ok [OF assms(1) res]
  have max: "unat len \<le> unat (bm_max b1)" using b1 by (simp add: word_le_nat_alt)
  moreover have "0 < unat len" using assms(4) by (simp add: word_gt_0 unat_gt_0)
  ultimately obtain d where d: "bm_data b1 = Some d" "length d = unat (bm_max b1)" "bm_start b1 = 0"
    using b1 by (cases "bm_data b1") (auto simp: buf_mem_ok_def)
  have old: "take (unat (bm_length b)) d = buf_mem_contents b" using b1 d by (auto simp: buf_mem_contents_def [of b1])
  have l: "unat (bm_length b) \<le> length d" using b1 d by (auto simp: buf_mem_ok_def word_le_nat_alt)
  show ?thesis
  proof (cases "bm_length b < len")
    case True
    let ?z = "replicate (unat len - unat (bm_length b)) (0 :: u8)"
    have gap: "unat (len - bm_length b) = unat len - unat (bm_length b)" using True by (simp add: unat_sub)
    have le: "unat (bm_length b) + length ?z = unat len" using True by (simp add: word_less_nat_alt)
    have "take (unat len) (write_at (unat (bm_length b)) ?z d) = buf_mem_contents b @ ?z"
      using take_write_at_end [OF l, of ?z] by (simp only: le old)
    moreover have "length (write_at (unat (bm_length b)) ?z d) = length d" using le max d(2) by (simp add: write_at_def)
    moreover have "length (buf_mem_contents b) \<le> unat len"
      using True length_buf_mem_contents [OF assms(1)] by (simp add: word_less_nat_alt)
    ultimately show ?thesis unfolding buf_mem_contents_def [of b'] using True b1 d gap by (simp add: b' buf_mem_ok_def)
  next
    case False
    then have "take (unat len) d = take (unat len) (buf_mem_contents b)"
      unfolding old [symmetric] by (simp add: word_less_nat_alt not_less min_absorb1)
    then show ?thesis unfolding buf_mem_contents_def [of b']
      using False b1 d by (simp add: b' buf_mem_ok_def word_less_nat_alt)
  qed
qed

section \<open>Well-formedness\<close>

lemma reserve_well_formed: "buf_mem_ok b \<Longrightarrow> buf_mem_ok (fst (snd (BUF_MEM_reserve env cap b q)))"
proof -
  assume b: "buf_mem_ok b"
  obtain r b' q' where r: "BUF_MEM_reserve env cap b q = (r, b', q')" by (rule prod_cases3)
  show ?thesis
  proof (cases r)
    case True
    then show ?thesis using buf_reserve_ok [OF b] r by simp
  next
    case False
    then have "b' = b" using r by (auto simp: BUF_MEM_reserve_def Let_def split: if_splits option.splits)
    then show ?thesis using b r by simp
  qed
qed

lemma append_well_formed:
  assumes b: "buf_mem_ok b" and "length inp < 2 ^ 64"
  shows "buf_mem_ok (fst (snd (BUF_MEM_append env inp b q)))"
proof -
  obtain r b' q' where r: "BUF_MEM_append env inp b q = (r, b', q')" by (rule prod_cases3)
  show ?thesis
  proof (cases r)
    case True
    then show ?thesis using append_ok [OF assms] r by simp
  next
    case False
    then have "b' = b \<or> BUF_MEM_reserve env (bm_length b + of_nat (length inp)) b q = (False, b', q')"
      using r by (auto simp: BUF_MEM_append_def Let_def split: if_splits prod.splits bool.splits)
    then show ?thesis using b r reserve_well_formed [OF b, of env "bm_length b + of_nat (length inp)" q] by auto
  qed
qed

lemma grow_well_formed:
  assumes b: "buf_mem_ok b"
  shows "buf_mem_ok (fst (snd (BUF_MEM_grow env len b q)))"
proof -
  obtain r b' q' where r: "BUF_MEM_reserve env len b q = (r, b', q')" by (rule prod_cases3)
  have b': "buf_mem_ok b'" using reserve_well_formed [OF b, of env len q] r by simp
  show ?thesis
  proof (cases "r \<and> 0 < len")
    case True
    moreover obtain s c p where "BUF_MEM_grow env len b q = (s, c, p)" by (rule prod_cases3)
    moreover from this True r have "s = len" by (auto simp: BUF_MEM_grow_def Let_def)
    ultimately show ?thesis using grow_ok [OF b, of env len q] by simp
  next
    case False
    then show ?thesis using r b' by (cases r) (auto simp: BUF_MEM_grow_def Let_def buf_mem_ok_def word_gt_0 split: option.splits)
  qed
qed

text \<open>
  C35: A \<open>BUF_MEM\<close> that owns its block (the length within the capacity, the block as long as the
  capacity, no block when it is zero) still does after any call, whether the call succeeds or not.
\<close>

theorem buf_mem_well_formed:
  assumes "buf_mem_ok b" and "length inp < 2 ^ 64"
  shows "buf_mem_ok BUF_MEM_zero \<and> buf_mem_ok (fst (snd (BUF_MEM_reserve env cap b q))) \<and>
    buf_mem_ok (fst (snd (BUF_MEM_grow_clean env len b q))) \<and> buf_mem_ok (fst (snd (BUF_MEM_append env inp b q)))"
  using reserve_well_formed [OF assms(1)] grow_well_formed [OF assms(1)] append_well_formed [OF assms]
  by (simp add: BUF_MEM_grow_clean_def) (simp add: BUF_MEM_zero_def buf_mem_ok_def)

theorem buf_mem_well_formed_witness:
  "buf_mem_ok (fst (snd (BUF_MEM_append \<lparr>be_alloc = zero_alloc, be_file_bio = None, be_file_pair = None, be_file_mem = None, be_file_buf = None\<rparr>
     [1, 2] BUF_MEM_zero None)))"
  using buf_mem_well_formed [of BUF_MEM_zero "[1, 2]"] by (simp add: BUF_MEM_zero_def buf_mem_ok_def)

end
