(* ===== verification/Bio_Mem.thy ===== *)
theory Bio_Mem
  imports Buf
begin

text \<open>
  crypto/bio/bio_mem.c: the memory \<open>BIO\<close>, a queue of bytes in a \<open>BUF_MEM\<close>. A read-only one points into
  the caller's block and advances that pointer; any other owns its block and moves what is left to
  its start.
\<close>

definition io_mem :: "nat \<Rightarrow> buf_mem_st bio_io" where
  "io_mem a = io_bind (io_get a) (\<lambda>b. case bio_ptr b of Mem_ptr m \<Rightarrow> io_return m | _ \<Rightarrow> io_undefined)"

definition io_put_mem :: "nat \<Rightarrow> buf_mem_st \<Rightarrow> unit bio_io" where
  "io_put_mem a m = io_modify a (\<lambda>b. b\<lparr>bio_ptr := Mem_ptr m\<rparr>)"

definition io_err :: "err_queue_st \<Rightarrow> unit bio_io" where
  "io_err q w = Some ((), w\<lparr>w_err := q\<rparr>)"

definition io_err_get :: "err_queue_st bio_io" where
  "io_err_get w = Some (w_err w, w)"

section \<open>The methods\<close>

definition mem_new :: "bio_env \<Rightarrow> bio_st \<Rightarrow> bio_st option bio_io" where
  "mem_new env bio = io_bind io_err_get (\<lambda>q. case BUF_MEM_new env q of
     (None, q) \<Rightarrow> io_bind (io_err q) (\<lambda>_. io_return None)
   | (Some b, q) \<Rightarrow> io_bind (io_err q) (\<lambda>_.
       io_return (Some (bio\<lparr>bio_shutdown := 1, bio_init := True, bio_num := -1, bio_ptr := Mem_ptr b\<rparr>))))"

definition mem_free :: "nat \<Rightarrow> int bio_io" where
  "mem_free bio = io_bind (io_get bio) (\<lambda>self.
     if bio_shutdown self = 0 \<or> \<not> bio_init self \<or> bio_ptr self = No_ptr then io_return 1
     else io_bind (io_modify bio (\<lambda>x. x\<lparr>bio_ptr := No_ptr\<rparr>)) (\<lambda>_. io_return 1))"

definition mem_read :: "nat \<Rightarrow> bool \<Rightarrow> int \<Rightarrow> (int \<times> u8 list) bio_io" where
  "mem_read bio has_out outl = io_bind (io_mem bio) (\<lambda>b. io_bind (io_modify bio BIO_clear_retry_flags) (\<lambda>_. io_bind (io_get bio) (\<lambda>self.
     let ret = (if bm_length b < word_of_int INT_MAX \<and> outl > int_of_size (bm_length b) then int_of_size (bm_length b) else outl)
     in if ret > 0 then
          (case bm_data b of
             None \<Rightarrow> io_undefined
           | Some data \<Rightarrow>
               if \<not> has_out \<or> length data < bm_start b + nat ret then io_undefined
               else
                 let out = take (nat ret) (drop (bm_start b) data);
                     b = b\<lparr>bm_length := bm_length b - size_of_int ret\<rparr>;
                     b = (if bio_flags self AND BIO_FLAGS_MEM_RDONLY \<noteq> 0 then b\<lparr>bm_start := bm_start b + nat ret\<rparr>
                          else b\<lparr>bm_data := Some (write_at (bm_start b)
                                 (take (unat (bm_length b)) (drop (bm_start b + nat ret) data)) data)\<rparr>)
                 in io_bind (io_put_mem bio b) (\<lambda>_. io_return (ret, out)))
        else if bm_length b = 0 then
          io_bind (if bio_num self \<noteq> 0 then io_modify bio BIO_set_retry_read else io_return ()) (\<lambda>_.
          io_return (bio_num self, []))
        else io_return (ret, []))))"

definition mem_write :: "bio_env \<Rightarrow> nat \<Rightarrow> u8 list option \<Rightarrow> int \<Rightarrow> int bio_io" where
  "mem_write env bio inp inl = io_bind (io_mem bio) (\<lambda>b. io_bind (io_get bio) (\<lambda>self.
     if bio_flags self AND BIO_FLAGS_MEM_RDONLY \<noteq> 0 then
       io_bind (io_error (be_alloc env) (be_file_mem env) 167 ERR_LIB_BIO BIO_R_WRITE_TO_READ_ONLY_BIO) (\<lambda>_. io_return (-1))
     else io_bind (io_modify bio BIO_clear_retry_flags) (\<lambda>_.
       let blen = int_of_size (bm_length b)
       in if blen < 0 then io_undefined
          else if INT_MAX - blen < inl then io_return (-1)
          else io_bind io_err_get (\<lambda>q. case BUF_MEM_grow_clean env (size_of_int (blen + inl)) b q of
            (r, b, q) \<Rightarrow> io_bind (io_err q) (\<lambda>_. io_bind (io_put_mem bio b) (\<lambda>_.
              if r \<noteq> size_of_int blen + size_of_int inl then io_return (-1)
              else case (inp, bm_data b) of
                (Some inp, Some data) \<Rightarrow>
                  io_bind (io_put_mem bio (b\<lparr>bm_data := Some (write_at (nat blen) (take (nat inl) inp) data)\<rparr>)) (\<lambda>_.
                  io_return inl)
              | _ \<Rightarrow> if inl = 0 then io_return inl else io_undefined))))))"

text \<open>The number of bytes up to and including the first newline, at most \<open>j\<close>.\<close>

fun line_scan :: "u8 list \<Rightarrow> nat \<Rightarrow> nat" where
  "line_scan p 0 = 0"
| "line_scan p (Suc j) = (case p of [] \<Rightarrow> Suc j | c # p \<Rightarrow> if c = 0x0a then 1 else Suc (line_scan p j))"

text \<open>The bytes stored at \<open>buf\<close> include the NUL.\<close>

definition mem_gets :: "nat \<Rightarrow> int \<Rightarrow> (int \<times> u8 list) bio_io" where
  "mem_gets bio n = io_bind (io_mem bio) (\<lambda>b. io_bind (io_modify bio BIO_clear_retry_flags) (\<lambda>_.
     let j = int_of_size (bm_length b); j = (if n - 1 < j then n - 1 else j)
     in if j \<le> 0 then io_return (0, if n > 0 then [0] else [])
        else case bm_data b of
          None \<Rightarrow> io_undefined
        | Some data \<Rightarrow>
            io_bind (mem_read bio True (int (line_scan (drop (bm_start b) data) (nat j)))) (\<lambda>(i, out).
            io_return (i, if i > 0 then out @ [0] else out))))"

text \<open>\<open>BIO_C_SET_BUF_MEM\<close> and \<open>BIO_C_GET_BUF_MEM_PTR\<close>, which share the buffer with the caller, are left out.\<close>

definition mem_ctrl :: "nat \<Rightarrow> int \<Rightarrow> int \<Rightarrow> int bio_io" where
  "mem_ctrl bio cmd num = io_bind (io_mem bio) (\<lambda>b. io_bind (io_get bio) (\<lambda>self.
     if cmd = BIO_CTRL_RESET then
       io_bind (if bm_data b = None then io_return ()
                else if bio_flags self AND BIO_FLAGS_MEM_RDONLY \<noteq> 0 then
                  io_put_mem bio (b\<lparr>bm_start := bm_start b - unat (bm_max b - bm_length b), bm_length := bm_max b\<rparr>)
                else io_put_mem bio (b\<lparr>bm_data := map_option (write_at (bm_start b) (replicate (unat (bm_max b)) 0)) (bm_data b),
                                      bm_length := 0\<rparr>)) (\<lambda>_.
       io_return 1)
     else if cmd = BIO_CTRL_EOF then io_return (if bm_length b = 0 then 1 else 0)
     else if cmd = BIO_C_SET_BUF_MEM_EOF_RETURN then
       io_bind (io_modify bio (\<lambda>x. x\<lparr>bio_num := sint (word_of_int num :: c_int)\<rparr>)) (\<lambda>_. io_return 1)
     else if cmd = BIO_CTRL_INFO then io_return (sint (bm_length b))
     else if cmd = BIO_CTRL_GET_CLOSE then io_return (bio_shutdown self)
     else if cmd = BIO_CTRL_SET_CLOSE then
       io_bind (io_modify bio (\<lambda>x. x\<lparr>bio_shutdown := sint (word_of_int num :: c_int)\<rparr>)) (\<lambda>_. io_return 1)
     else if cmd = BIO_CTRL_WPENDING then io_return 0
     else if cmd = BIO_CTRL_PENDING then io_return (sint (bm_length b))
     else if cmd = BIO_CTRL_FLUSH then io_return 1
     else io_return 0))"

end
