(* ===== verification/Bio.thy ===== *)
theory Bio
  imports Bio_Pair Bio_Mem
begin

text \<open>
  crypto/bio/bio.c: the calls on any \<open>BIO\<close>, which dispatch to the methods of its type, chains of
  \<open>BIO\<close>s with their reference counts, and the reader of one ASN.1 element. A loop that does not end
  has no result.
\<close>

section \<open>Creation and release\<close>

definition bio_put_error :: "bio_env \<Rightarrow> u32 \<Rightarrow> u32 \<Rightarrow> unit bio_io" where
  "bio_put_error env line reason = io_error (be_alloc env) (be_file_bio env) line ERR_LIB_BIO reason"

text \<open>\<open>create\<close> of the method.\<close>

definition method_create :: "bio_env \<Rightarrow> bio_method \<Rightarrow> bio_st \<Rightarrow> bio_st option bio_io" where
  "method_create env m bio = (case m of Methods_biop \<Rightarrow> io_return (bio_new env bio) | Mem_method \<Rightarrow> mem_new env bio)"

definition BIO_new :: "bio_env \<Rightarrow> bio_method \<Rightarrow> nat option bio_io" where
  "BIO_new env m =
     (case OPENSSL_malloc (be_alloc env) 80 of
        None \<Rightarrow> io_bind (bio_put_error env 75 ERR_R_MALLOC_FAILURE) (\<lambda>_. io_return None)
      | Some _ \<Rightarrow>
          io_bind (method_create env m \<lparr>bio_method = m, bio_init = False, bio_shutdown = 1, bio_flags = 0,
              bio_retry_reason = 0, bio_num = 0, bio_references = 1, bio_ptr = No_ptr, bio_next_bio = None,
              bio_num_read = 0, bio_num_write = 0\<rparr>) (\<lambda>r. case r of
            None \<Rightarrow> io_return None
          | Some ret \<Rightarrow> (\<lambda>w. Some (Some (w_next w), w\<lparr>w_bio := (w_bio w)(w_next w \<mapsto> ret), w_next := w_next w + 1\<rparr>))))"

definition BIO_new_mem_buf :: "bio_env \<Rightarrow> u8 list option \<Rightarrow> int \<Rightarrow> nat option bio_io" where
  "BIO_new_mem_buf env buf len =
     (let sz = (if len < 0 then of_nat (strlen (the buf)) else size_of_int len)
      in if buf = None \<and> len \<noteq> 0
         then if len < 0 then io_undefined
              else io_bind (io_error (be_alloc env) (be_file_mem env) 75 ERR_LIB_BIO BIO_R_NULL_PARAMETER) (\<lambda>_. io_return None)
         else io_bind (BIO_new env Mem_method) (\<lambda>ret. case ret of
           None \<Rightarrow> io_return None
         | Some a \<Rightarrow> io_bind (io_mem a) (\<lambda>b.
             io_bind (io_modify a (\<lambda>x. x\<lparr>bio_ptr := Mem_ptr (b\<lparr>bm_data := buf, bm_length := sz, bm_max := sz\<rparr>),
               bio_flags := bio_flags x OR BIO_FLAGS_MEM_RDONLY, bio_num := 0\<rparr>)) (\<lambda>_. io_return (Some a)))))"

definition BIO_up_ref :: "nat \<Rightarrow> int bio_io" where
  "BIO_up_ref bio = io_bind (io_modify bio (\<lambda>x. x\<lparr>bio_references := CRYPTO_refcount_inc (bio_references x)\<rparr>)) (\<lambda>_. io_return 1)"

definition BIO_pop :: "nat option \<Rightarrow> nat option bio_io" where
  "BIO_pop bio = (case bio of None \<Rightarrow> io_return None | Some a \<Rightarrow>
     io_bind (io_get a) (\<lambda>x. io_bind (io_put a (x\<lparr>bio_next_bio := None\<rparr>)) (\<lambda>_. io_return (bio_next_bio x))))"

definition BIO_next :: "nat option \<Rightarrow> nat option bio_io" where
  "BIO_next bio = (case bio of None \<Rightarrow> io_return None | Some a \<Rightarrow> io_bind (io_get a) (\<lambda>x. io_return (bio_next_bio x)))"

definition method_destroy :: "nat \<Rightarrow> int bio_io" where
  "method_destroy a = io_bind (io_get a) (\<lambda>x. case bio_method x of Methods_biop \<Rightarrow> bio_free a | Mem_method \<Rightarrow> mem_free a)"

text \<open>One turn of the loop: the next \<open>BIO\<close> to free, or nothing when this one is still referenced.\<close>

definition bio_free_step :: "nat \<Rightarrow> nat option option bio_io" where
  "bio_free_step a = io_bind (io_get a) (\<lambda>x. case CRYPTO_refcount_dec_and_test_zero (bio_references x) of
     None \<Rightarrow> io_undefined
   | Some (is_zero, n) \<Rightarrow> io_bind (io_put a (x\<lparr>bio_references := n\<rparr>)) (\<lambda>_.
       if \<not> is_zero then io_return None
       else io_bind (BIO_pop (Some a)) (\<lambda>next_bio. io_bind (method_destroy a) (\<lambda>_.
         (\<lambda>w. Some (Some next_bio, w\<lparr>w_bio := (w_bio w)(a := None)\<rparr>))))))"

partial_function (option) BIO_free :: "nat option \<Rightarrow> bio_world \<Rightarrow> (int \<times> bio_world) option" where
  "BIO_free bio w =
     (case bio of
        None \<Rightarrow> Some (1, w)
      | Some a \<Rightarrow>
          (case bio_free_step a w of
             None \<Rightarrow> None
           | Some (None, w) \<Rightarrow> Some (0, w)
           | Some (Some next_bio, w) \<Rightarrow> BIO_free next_bio w))"

text \<open>The last \<open>BIO\<close> of a chain.\<close>

partial_function (option) bio_last :: "nat \<Rightarrow> bio_world \<Rightarrow> (nat \<times> bio_world) option" where
  "bio_last a w =
     (case w_bio w a of
        None \<Rightarrow> None
      | Some x \<Rightarrow> (case bio_next_bio x of None \<Rightarrow> Some (a, w) | Some b \<Rightarrow> bio_last b w))"

definition BIO_push :: "nat option \<Rightarrow> nat option \<Rightarrow> nat option bio_io" where
  "BIO_push bio appended_bio =
     (case bio of
        None \<Rightarrow> io_return None
      | Some a \<Rightarrow> io_bind (bio_last a) (\<lambda>last_bio.
          io_bind (io_modify last_bio (\<lambda>x. x\<lparr>bio_next_bio := appended_bio\<rparr>)) (\<lambda>_. io_return (Some a))))"

section \<open>Dispatch\<close>

definition method_bread :: "nat \<Rightarrow> bool \<Rightarrow> int \<Rightarrow> (int \<times> u8 list) bio_io" where
  "method_bread a has_buf len = io_bind (io_get a) (\<lambda>x.
     case bio_method x of Methods_biop \<Rightarrow> bio_read a has_buf len | Mem_method \<Rightarrow> mem_read a has_buf len)"

definition BIO_read :: "bio_env \<Rightarrow> nat option \<Rightarrow> bool \<Rightarrow> int \<Rightarrow> (int \<times> u8 list) bio_io" where
  "BIO_read env bio has_buf len =
     (case bio of
        None \<Rightarrow> io_bind (bio_put_error env 126 BIO_R_UNSUPPORTED_METHOD) (\<lambda>_. io_return (-2, []))
      | Some a \<Rightarrow> io_bind (io_get a) (\<lambda>x.
          if \<not> bio_init x then io_bind (bio_put_error env 130 BIO_R_UNINITIALIZED) (\<lambda>_. io_return (-2, []))
          else if len \<le> 0 then io_return (0, [])
          else io_bind (method_bread a has_buf len) (\<lambda>(ret, out).
            io_bind (if ret > 0 then io_modify a (\<lambda>x. x\<lparr>bio_num_read := bio_num_read x + size_of_int ret\<rparr>) else io_return ()) (\<lambda>_.
            io_return (ret, out)))))"

text \<open>A pair has no \<open>bgets\<close>.\<close>

definition BIO_gets :: "bio_env \<Rightarrow> nat option \<Rightarrow> int \<Rightarrow> (int \<times> u8 list) bio_io" where
  "BIO_gets env bio len =
     (let unsupported = io_bind (bio_put_error env 145 BIO_R_UNSUPPORTED_METHOD) (\<lambda>_. io_return (-2, []))
      in case bio of
        None \<Rightarrow> unsupported
      | Some a \<Rightarrow> io_bind (io_get a) (\<lambda>x.
          if bio_method x = Methods_biop then unsupported
          else if \<not> bio_init x then io_bind (bio_put_error env 149 BIO_R_UNINITIALIZED) (\<lambda>_. io_return (-2, []))
          else if len \<le> 0 then io_return (0, [])
          else io_bind (mem_gets a len) (\<lambda>(ret, out).
            io_bind (if ret > 0 then io_modify a (\<lambda>x. x\<lparr>bio_num_read := bio_num_read x + size_of_int ret\<rparr>) else io_return ()) (\<lambda>_.
            io_return (ret, out)))))"

definition method_bwrite :: "bio_env \<Rightarrow> nat \<Rightarrow> u8 list option \<Rightarrow> int \<Rightarrow> int bio_io" where
  "method_bwrite env a inp inl = io_bind (io_get a) (\<lambda>x.
     case bio_method x of Methods_biop \<Rightarrow> bio_write env a inp inl | Mem_method \<Rightarrow> mem_write env a inp inl)"

definition BIO_write :: "bio_env \<Rightarrow> nat option \<Rightarrow> u8 list option \<Rightarrow> int \<Rightarrow> int bio_io" where
  "BIO_write env bio inp inl =
     (case bio of
        None \<Rightarrow> io_bind (bio_put_error env 164 BIO_R_UNSUPPORTED_METHOD) (\<lambda>_. io_return (-2))
      | Some a \<Rightarrow> io_bind (io_get a) (\<lambda>x.
          if \<not> bio_init x then io_bind (bio_put_error env 168 BIO_R_UNINITIALIZED) (\<lambda>_. io_return (-2))
          else if inl \<le> 0 then io_return 0
          else io_bind (method_bwrite env a inp inl) (\<lambda>ret.
            io_bind (if ret > 0 then io_modify a (\<lambda>x. x\<lparr>bio_num_write := bio_num_write x + size_of_int ret\<rparr>) else io_return ()) (\<lambda>_.
            io_return ret))))"

definition BIO_ctrl :: "bio_env \<Rightarrow> nat option \<Rightarrow> int \<Rightarrow> int \<Rightarrow> nat option \<Rightarrow> int bio_io" where
  "BIO_ctrl env bio cmd larg parg =
     (case bio of
        None \<Rightarrow> io_return 0
      | Some a \<Rightarrow> io_bind (io_get a) (\<lambda>x.
          case bio_method x of Methods_biop \<Rightarrow> bio_ctrl a cmd larg parg | Mem_method \<Rightarrow> mem_ctrl a cmd larg))"

text \<open>Results of type \<open>int\<close> are truncated from \<open>long\<close>; \<open>assert\<close> and test of the pending counts.\<close>

definition io_int :: "int bio_io \<Rightarrow> int bio_io" where
  "io_int m = io_bind m (\<lambda>r. io_return (sint (word_of_int r :: c_int)))"

definition BIO_flush :: "bio_env \<Rightarrow> nat option \<Rightarrow> int bio_io" where
  "BIO_flush env bio = io_int (BIO_ctrl env bio BIO_CTRL_FLUSH 0 None)"

definition BIO_reset :: "bio_env \<Rightarrow> nat option \<Rightarrow> int bio_io" where
  "BIO_reset env bio = io_int (BIO_ctrl env bio BIO_CTRL_RESET 0 None)"

definition BIO_eof :: "bio_env \<Rightarrow> nat option \<Rightarrow> int bio_io" where
  "BIO_eof env bio = io_int (BIO_ctrl env bio BIO_CTRL_EOF 0 None)"

definition BIO_set_close :: "bio_env \<Rightarrow> nat option \<Rightarrow> int \<Rightarrow> int bio_io" where
  "BIO_set_close env bio close_flag = io_int (BIO_ctrl env bio BIO_CTRL_SET_CLOSE close_flag None)"

definition BIO_pending :: "bio_env \<Rightarrow> nat option \<Rightarrow> u64 bio_io" where
  "BIO_pending env bio = io_bind (BIO_ctrl env bio BIO_CTRL_PENDING 0 None) (\<lambda>r.
     if r < 0 then io_undefined else io_return (size_of_int r))"

definition BIO_wpending :: "bio_env \<Rightarrow> nat option \<Rightarrow> u64 bio_io" where
  "BIO_wpending env bio = io_bind (BIO_ctrl env bio BIO_CTRL_WPENDING 0 None) (\<lambda>r.
     if r < 0 then io_undefined else io_return (size_of_int r))"

definition BIO_number_read :: "nat \<Rightarrow> u64 bio_io" where
  "BIO_number_read a = io_bind (io_get a) (\<lambda>x. io_return (bio_num_read x))"

definition BIO_number_written :: "nat \<Rightarrow> u64 bio_io" where
  "BIO_number_written a = io_bind (io_get a) (\<lambda>x. io_return (bio_num_write x))"

definition BIO_set_mem_eof_return :: "bio_env \<Rightarrow> nat option \<Rightarrow> int \<Rightarrow> int bio_io" where
  "BIO_set_mem_eof_return env bio eof_value = io_int (BIO_ctrl env bio BIO_C_SET_BUF_MEM_EOF_RETURN eof_value None)"

definition BIO_mem_contents :: "nat \<Rightarrow> u8 list option bio_io" where
  "BIO_mem_contents a = io_bind (io_get a) (\<lambda>x.
     if bio_method x \<noteq> Mem_method then io_return None
     else io_bind (io_mem a) (\<lambda>b. io_return (Some (buf_mem_contents b))))"

definition BIO_ctrl_get_read_request :: "bio_env \<Rightarrow> nat option \<Rightarrow> u64 bio_io" where
  "BIO_ctrl_get_read_request env bio = io_bind (BIO_ctrl env bio BIO_C_GET_READ_REQUEST 0 None) (\<lambda>r. io_return (size_of_int r))"

definition BIO_ctrl_get_write_guarantee :: "bio_env \<Rightarrow> nat option \<Rightarrow> u64 bio_io" where
  "BIO_ctrl_get_write_guarantee env bio = io_bind (BIO_ctrl env bio BIO_C_GET_WRITE_GUARANTEE 0 None) (\<lambda>r. io_return (size_of_int r))"

definition BIO_shutdown_wr :: "bio_env \<Rightarrow> nat option \<Rightarrow> int bio_io" where
  "BIO_shutdown_wr env bio = io_int (BIO_ctrl env bio BIO_C_SHUTDOWN_WR 0 None)"

definition BIO_new_bio_pair :: "bio_env \<Rightarrow> u64 \<Rightarrow> u64 \<Rightarrow> (nat \<times> nat) option bio_io" where
  "BIO_new_bio_pair env writebuf1_len writebuf2_len =
     io_bind (BIO_new env Methods_biop) (\<lambda>bio1. io_bind (BIO_new env Methods_biop) (\<lambda>bio2.
       io_bind (case (bio1, bio2) of (Some a, Some b) \<Rightarrow> bio_make_pair env a b writebuf1_len writebuf2_len | _ \<Rightarrow> io_return 0) (\<lambda>ok.
         case (bio1, bio2) of
           (Some a, Some b) \<Rightarrow>
             if ok \<noteq> 0 then io_return (Some (a, b))
             else io_bind (BIO_free bio1) (\<lambda>_. io_bind (BIO_free bio2) (\<lambda>_. io_return None))
         | _ \<Rightarrow> io_bind (BIO_free bio1) (\<lambda>_. io_bind (BIO_free bio2) (\<lambda>_. io_return None)))))"

section \<open>Accessors and chains\<close>

definition BIO_TYPE_MEM :: c_int where "BIO_TYPE_MEM = 1 OR 0x0400"
definition BIO_TYPE_BIO :: c_int where "BIO_TYPE_BIO = 19 OR 0x0400"

definition BIO_method_type :: "bio_st \<Rightarrow> c_int" where
  "BIO_method_type bio = (case bio_method bio of Methods_biop \<Rightarrow> BIO_TYPE_BIO | Mem_method \<Rightarrow> BIO_TYPE_MEM)"

definition BIO_get_retry_reason :: "bio_st \<Rightarrow> int" where "BIO_get_retry_reason bio = bio_retry_reason bio"
definition BIO_set_retry_reason :: "int \<Rightarrow> bio_st \<Rightarrow> bio_st" where "BIO_set_retry_reason reason bio = bio\<lparr>bio_retry_reason := reason\<rparr>"
definition BIO_get_init :: "bio_st \<Rightarrow> bool" where "BIO_get_init bio = bio_init bio"
definition BIO_set_init :: "bool \<Rightarrow> bio_st \<Rightarrow> bio_st" where "BIO_set_init init bio = bio\<lparr>bio_init := init\<rparr>"
definition BIO_get_shutdown :: "bio_st \<Rightarrow> int" where "BIO_get_shutdown bio = bio_shutdown bio"
definition BIO_set_shutdown :: "int \<Rightarrow> bio_st \<Rightarrow> bio_st" where "BIO_set_shutdown shutdown bio = bio\<lparr>bio_shutdown := shutdown\<rparr>"

definition BIO_copy_next_retry :: "nat \<Rightarrow> unit bio_io" where
  "BIO_copy_next_retry a = io_bind (io_modify a BIO_clear_retry_flags) (\<lambda>_. io_bind (io_get a) (\<lambda>bio.
     case bio_next_bio bio of
       None \<Rightarrow> io_undefined
     | Some next_bio \<Rightarrow> io_bind (io_get next_bio) (\<lambda>x.
         io_modify a (\<lambda>bio. (BIO_set_flags (BIO_get_retry_flags x) bio)\<lparr>bio_retry_reason := bio_retry_reason x\<rparr>))))"

definition BIO_vfree :: "nat option \<Rightarrow> unit bio_io" where
  "BIO_vfree bio = io_bind (BIO_free bio) (\<lambda>_. io_return ())"

definition BIO_free_all :: "nat option \<Rightarrow> unit bio_io" where
  "BIO_free_all bio = io_bind (BIO_free bio) (\<lambda>_. io_return ())"

text \<open>The length of the string is converted to \<open>int\<close>.\<close>

definition BIO_puts :: "bio_env \<Rightarrow> nat option \<Rightarrow> u8 list \<Rightarrow> int bio_io" where
  "BIO_puts env bio inp = BIO_write env bio (Some inp) (sint (of_nat (strlen inp) :: c_int))"

partial_function (option) BIO_find_type :: "nat option \<Rightarrow> c_int \<Rightarrow> bio_world \<Rightarrow> (nat option \<times> bio_world) option" where
  "BIO_find_type bio type w =
     (case bio of
        None \<Rightarrow> Some (None, w)
      | Some a \<Rightarrow>
          (case w_bio w a of
             None \<Rightarrow> None
           | Some x \<Rightarrow>
               if (if type AND 0xff = 0 then BIO_method_type x AND type \<noteq> 0 else BIO_method_type x = type)
               then Some (Some a, w) else BIO_find_type (bio_next_bio x) type w))"

fun indent_loop :: "bio_env \<Rightarrow> nat option \<Rightarrow> nat \<Rightarrow> int bio_io" where
  "indent_loop env bio 0 = io_return 1"
| "indent_loop env bio (Suc n) = io_bind (BIO_puts env bio [0x20, 0]) (\<lambda>r. if r \<noteq> 1 then io_return 0 else indent_loop env bio n)"

definition BIO_indent :: "bio_env \<Rightarrow> nat option \<Rightarrow> u32 \<Rightarrow> u32 \<Rightarrow> int bio_io" where
  "BIO_indent env bio indent max_indent =
     (let indent = (if indent > max_indent then max_indent else indent) in indent_loop env bio (unat indent))"

section \<open>A state to start from\<close>

definition env0 :: bio_env where
  "env0 = \<lparr>be_alloc = zero_alloc, be_file_bio = None, be_file_pair = None, be_file_mem = None, be_file_buf = None\<rparr>"

definition world0 :: bio_world where
  "world0 = \<lparr>w_bio = Map.empty, w_next = 0, w_err = None\<rparr>"

lemma env0_malloc: "unat n < 2 ^ 63 \<Longrightarrow> OPENSSL_malloc (be_alloc env0) n \<noteq> None"
  using zero_alloc_malloc by (simp add: env0_def)

declare BIO_free.simps [code]
  bio_last.simps [code]
  BIO_find_type.simps [code]

end
