(* ===== verification/Bio_Asn1.thy ===== *)
theory Bio_Asn1
  imports Bio Der
begin

text \<open>
  The loops of crypto/bio/bio.c that read or write as much as is asked for, and \<open>BIO_read_asn1\<close>,
  which takes one element off a \<open>BIO\<close> without looking ahead. On a memory \<open>BIO\<close> it takes exactly the
  elements that the readers of bytestring accept.
\<close>

section \<open>Loops\<close>

text \<open>\<open>len > INT_MAX ? INT_MAX : (int)len\<close>\<close>

definition at_most_int :: "u64 \<Rightarrow> int" where
  "at_most_int len = (if len > word_of_int INT_MAX then INT_MAX else int_of_size len)"

partial_function (option) BIO_write_all :: "bio_env \<Rightarrow> nat option \<Rightarrow> u8 list \<Rightarrow> u64 \<Rightarrow> bio_world \<Rightarrow> (int \<times> bio_world) option" where
  "BIO_write_all env bio data len w =
     (if \<not> len > 0 then Some (1, w)
      else
        (case BIO_write env bio (Some data) (at_most_int len) w of
           None \<Rightarrow> None
         | Some (ret, w) \<Rightarrow>
             if ret \<le> 0 then Some (0, w)
             else BIO_write_all env bio (drop (nat ret) data) (len - size_of_int ret) w))"

text \<open>The bytes stored at \<open>out\<close>, or \<open>*out_eof_on_first_read\<close>.\<close>

partial_function (option) bio_read_full_loop ::
  "bio_env \<Rightarrow> nat option \<Rightarrow> u8 list \<Rightarrow> u64 \<Rightarrow> bool \<Rightarrow> bio_world \<Rightarrow> ((bool + u8 list) \<times> bio_world) option" where
  "bio_read_full_loop env bio out len first_read w =
     (if \<not> len > 0 then Some (Inr out, w)
      else
        (case BIO_read env bio True (at_most_int len) w of
           None \<Rightarrow> None
         | Some ((ret, bytes), w) \<Rightarrow>
             if ret \<le> 0 then Some (Inl (first_read \<and> ret = 0), w)
             else bio_read_full_loop env bio (out @ bytes) (len - size_of_int ret) False w))"

definition bio_read_full :: "bio_env \<Rightarrow> nat option \<Rightarrow> u64 \<Rightarrow> (bool + u8 list) bio_io" where
  "bio_read_full env bio len = bio_read_full_loop env bio [] len True"

definition kChunkSize :: u64 where "kChunkSize = 4096"

text \<open>Every result but 0 and -1 of a read is taken for a number of bytes.\<close>

partial_function (option) bio_read_all_loop ::
  "bio_env \<Rightarrow> nat option \<Rightarrow> u64 \<Rightarrow> u8 list \<Rightarrow> u64 \<Rightarrow> u64 \<Rightarrow> bio_world \<Rightarrow> (u8 list option \<times> bio_world) option" where
  "bio_read_all_loop env bio max_len out len done w =
     (if done = len then Some (None, w)
      else if \<not> len - done < word_of_int INT_MAX then None
      else
        (case BIO_read env bio True (int_of_size (len - done)) w of
           None \<Rightarrow> None
         | Some ((n, bytes), w) \<Rightarrow>
             if n = 0 then Some (Some (take (unat done) out), w)
             else if n = -1 then Some (None, w)
             else if bytes \<noteq> [] \<and> length out < unat done + length bytes then None
             else
               let out = write_at (unat done) bytes out; done = done + size_of_int n
               in if len < max_len \<and> len - done < kChunkSize div 2 then
                    let len' = len + kChunkSize; len' = (if len' < kChunkSize \<or> len' > max_len then max_len else len')
                    in case OPENSSL_realloc (be_alloc env) (Some out) len' of
                         None \<Rightarrow> Some (None, w)
                       | Some out \<Rightarrow> bio_read_all_loop env bio max_len out len' done w
                  else bio_read_all_loop env bio max_len out len done w))"

definition bio_read_all :: "bio_env \<Rightarrow> nat option \<Rightarrow> u8 list \<Rightarrow> u64 \<Rightarrow> u8 list option bio_io" where
  "bio_read_all env bio prefix max_len w =
     (let prefix_len = of_nat (length prefix) :: u64; len = prefix_len + kChunkSize;
          len = (if len > max_len then max_len else len)
      in if len < prefix_len then Some (None, w)
         else case OPENSSL_malloc (be_alloc env) len of
                None \<Rightarrow> Some (None, w)
              | Some out \<Rightarrow> bio_read_all_loop env bio max_len (write_at 0 prefix out) len prefix_len w)"

section \<open>One element\<close>

definition ASN1_R_DECODE_ERROR :: u32 where "ASN1_R_DECODE_ERROR = 109"
definition ASN1_R_HEADER_TOO_LONG :: u32 where "ASN1_R_HEADER_TOO_LONG = 123"
definition ASN1_R_NOT_ENOUGH_DATA :: u32 where "ASN1_R_NOT_ENOUGH_DATA = 162"
definition ASN1_R_TOO_LONG :: u32 where "ASN1_R_TOO_LONG = 177"

definition asn1_fail :: "bio_env \<Rightarrow> u32 \<Rightarrow> u32 \<Rightarrow> u8 list option bio_io" where
  "asn1_fail env line reason = io_bind (io_error (be_alloc env) (be_file_bio env) line ERR_LIB_ASN1 reason) (\<lambda>_. io_return None)"

text \<open>The rest of an element whose header has been read.\<close>

definition read_asn1_body :: "bio_env \<Rightarrow> nat option \<Rightarrow> u8 list \<Rightarrow> u64 \<Rightarrow> u64 \<Rightarrow> u8 list option bio_io" where
  "read_asn1_body env bio header len max_len =
     (let header_len = of_nat (length header)
      in if len + header_len < len \<or> len + header_len > max_len \<or> len > word_of_int INT_MAX
         then asn1_fail env 598 ASN1_R_TOO_LONG
         else case OPENSSL_malloc (be_alloc env) (len + header_len) of
                None \<Rightarrow> asn1_fail env 606 ERR_R_MALLOC_FAILURE
              | Some out \<Rightarrow>
                  io_bind (bio_read_full env bio (len + header_len - header_len)) (\<lambda>r. case r of
                    Inl _ \<Rightarrow> asn1_fail env 611 ASN1_R_NOT_ENOUGH_DATA
                  | Inr bytes \<Rightarrow> io_return (Some (write_at (length header) bytes (write_at 0 header out)))))"

definition BIO_read_asn1 :: "bio_env \<Rightarrow> nat option \<Rightarrow> u64 \<Rightarrow> u8 list option bio_io" where
  "BIO_read_asn1 env bio max_len =
     io_bind (bio_read_full env bio 2) (\<lambda>r. case r of
       Inl eof_on_first_read \<Rightarrow>
         if eof_on_first_read then asn1_fail env 529 ASN1_R_HEADER_TOO_LONG else asn1_fail env 531 ASN1_R_NOT_ENOUGH_DATA
     | Inr header \<Rightarrow>
         let tag = header ! 0; length_byte = header ! 1
         in if tag AND 0x1f = 0x1f then asn1_fail env 541 ASN1_R_DECODE_ERROR
            else if length_byte AND 0x80 = 0 then read_asn1_body env bio header (ucast length_byte) max_len
            else
              let num_bytes = ucast (length_byte AND 0x7f) :: u64
              in if tag AND 0x20 \<noteq> 0 \<and> num_bytes = 0 then
                   io_bind (bio_read_all env bio header max_len) (\<lambda>r. case r of
                     None \<Rightarrow> asn1_fail env 557 ASN1_R_NOT_ENOUGH_DATA
                   | Some out \<Rightarrow> io_return (Some out))
                 else if num_bytes = 0 \<or> num_bytes > 4 then asn1_fail env 564 ASN1_R_DECODE_ERROR
                 else
                   io_bind (bio_read_full env bio num_bytes) (\<lambda>r. case r of
                     Inl _ \<Rightarrow> asn1_fail env 569 ASN1_R_NOT_ENOUGH_DATA
                   | Inr bytes \<Rightarrow>
                       let len32 = foldl (\<lambda>len32 b. push_bit 8 len32 OR ucast b) (0 :: u32) bytes
                       in if len32 < 128 then asn1_fail env 582 ASN1_R_DECODE_ERROR
                          else if drop_bit (unat ((num_bytes - 1) * 8)) len32 = 0 then asn1_fail env 588 ASN1_R_DECODE_ERROR
                          else read_asn1_body env bio (header @ bytes) (ucast len32) max_len))"

declare BIO_write_all.simps [code]
  bio_read_full_loop.simps [code]
  bio_read_all_loop.simps [code]

end
