(* ===== verification/Bio_Run.thy ===== *)
theory Bio_Run
  imports Bio_Asn1
begin

text \<open>
  What a BIO pair promises: two bounded byte queues. Any sequence of calls on the two ends of a new
  pair is answered as the queues answer it, and no assertion of the code fails on the way.
\<close>

section \<open>Two queues\<close>

text \<open>
  An end: the queue it writes to, the number of bytes its peer asked for in vain, its flags, its
  counters and the errors of the thread, which both ends share, on the side.
\<close>

record pipe_end =
  pe_queue :: "u8 list"
  pe_capacity :: nat
  pe_closed :: bool
  pe_request :: nat
  pe_flags :: c_int
  pe_read :: u64
  pe_written :: u64

datatype side = Left | Right

fun other :: "side \<Rightarrow> side" where
  "other Left = Right"
| "other Right = Left"

lemma other_other [simp]: "other (other s) = s" "other s \<noteq> s" "s \<noteq> other s"
  by (cases s; simp)+

datatype pipe_cmd =
    Write side "u8 list"
  | Read side int
  | Shutdown side
  | Pending side
  | Guarantee side
  | Request side

datatype pipe_ret = Wrote int | Got int "u8 list" | Number u64

type_synonym pipe = "side \<Rightarrow> pipe_end"

definition no_retry :: "pipe_end \<Rightarrow> pipe_end" where
  "no_retry e = e\<lparr>pe_flags := pe_flags e AND NOT kRetryFlags\<rparr>"

fun pipe_exec :: "bio_env \<Rightarrow> pipe_cmd \<Rightarrow> pipe \<times> err_queue_st \<Rightarrow> pipe_ret \<times> pipe \<times> err_queue_st" where
  "pipe_exec env (Write s bs) (p, q) =
     (if bs = [] then (Wrote 0, p, q)
      else
        let e = (no_retry (p s))\<lparr>pe_request := 0\<rparr>
        in if pe_closed e
           then (Wrote (-1), p(s := e), OPENSSL_PUT_ERROR (be_alloc env) (be_file_pair env) 246 ERR_LIB_BIO BIO_R_BROKEN_PIPE q)
           else if length (pe_queue e) = pe_capacity e
           then (Wrote (-1), p(s := e\<lparr>pe_flags := pe_flags e OR (BIO_FLAGS_WRITE OR BIO_FLAGS_SHOULD_RETRY)\<rparr>), q)
           else
             let n = min (length bs) (pe_capacity e - length (pe_queue e))
             in (Wrote (int n), p(s := e\<lparr>pe_queue := pe_queue e @ take n bs, pe_written := pe_written e + of_nat n\<rparr>), q))"
| "pipe_exec env (Read s n) (p, q) =
     (if n \<le> 0 then (Got 0 [], p, q)
      else
        let e = no_retry (p s); f = (p (other s))\<lparr>pe_request := 0\<rparr>; k = min (nat n) (length (pe_queue f))
        in if pe_queue f = [] then
             (if pe_closed f then (Got 0 [], p(s := e, other s := f), q)
              else (Got (-1) [], p(s := e\<lparr>pe_flags := pe_flags e OR (BIO_FLAGS_READ OR BIO_FLAGS_SHOULD_RETRY)\<rparr>,
                      other s := f\<lparr>pe_request := min (nat n) (pe_capacity f)\<rparr>), q))
           else (Got (int k) (take k (pe_queue f)),
                 p(s := e\<lparr>pe_read := pe_read e + of_nat k\<rparr>, other s := f\<lparr>pe_queue := drop k (pe_queue f)\<rparr>), q))"
| "pipe_exec env (Shutdown s) (p, q) = (Wrote 1, p(s := (p s)\<lparr>pe_closed := True\<rparr>), q)"
| "pipe_exec env (Pending s) (p, q) = (Number (of_nat (length (pe_queue (p (other s))))), p, q)"
| "pipe_exec env (Guarantee s) (p, q) =
     (Number (if pe_closed (p s) then 0 else of_nat (pe_capacity (p s) - length (pe_queue (p s)))), p, q)"
| "pipe_exec env (Request s) (p, q) = (Number (of_nat (pe_request (p s))), p, q)"

fun pipe_run :: "bio_env \<Rightarrow> pipe_cmd list \<Rightarrow> pipe \<times> err_queue_st \<Rightarrow> pipe_ret list \<times> pipe \<times> err_queue_st" where
  "pipe_run env [] pq = ([], pq)"
| "pipe_run env (c # cs) pq = (let (r, pq) = pipe_exec env c pq; (rs, pq) = pipe_run env cs pq in (r # rs, pq))"

section \<open>The calls\<close>

type_synonym ends = "side \<Rightarrow> nat"

fun bio_exec :: "bio_env \<Rightarrow> ends \<Rightarrow> pipe_cmd \<Rightarrow> pipe_ret bio_io" where
  "bio_exec env at (Write s bs) =
     io_bind (BIO_write env (Some (at s)) (Some bs) (int (length bs))) (\<lambda>r. io_return (Wrote r))"
| "bio_exec env at (Read s n) = io_bind (BIO_read env (Some (at s)) True n) (\<lambda>(r, bs). io_return (Got r bs))"
| "bio_exec env at (Shutdown s) = io_bind (BIO_shutdown_wr env (Some (at s))) (\<lambda>r. io_return (Wrote r))"
| "bio_exec env at (Pending s) = io_bind (BIO_pending env (Some (at s))) (\<lambda>n. io_return (Number n))"
| "bio_exec env at (Guarantee s) = io_bind (BIO_ctrl_get_write_guarantee env (Some (at s))) (\<lambda>n. io_return (Number n))"
| "bio_exec env at (Request s) = io_bind (BIO_ctrl_get_read_request env (Some (at s))) (\<lambda>n. io_return (Number n))"

fun bio_run :: "bio_env \<Rightarrow> ends \<Rightarrow> pipe_cmd list \<Rightarrow> pipe_ret list bio_io" where
  "bio_run env at [] = io_return []"
| "bio_run env at (c # cs) = io_bind (bio_exec env at c) (\<lambda>r. io_bind (bio_run env at cs) (\<lambda>rs. io_return (r # rs)))"

text \<open>\<open>int\<close> lengths.\<close>

fun pipe_cmd_ok :: "pipe_cmd \<Rightarrow> bool" where
  "pipe_cmd_ok (Write s bs) = (length bs < 2 ^ 31)"
| "pipe_cmd_ok (Read s n) = (n < 2 ^ 31)"
| "pipe_cmd_ok _ = True"

section \<open>Representation\<close>

definition end_view :: "bio_st \<Rightarrow> bio_bio_st \<Rightarrow> pipe_end" where
  "end_view x b = \<lparr>pe_queue = ring_data b, pe_capacity = ring_capacity b, pe_closed = pr_closed b,
     pe_request = unat (pr_request b), pe_flags = bio_flags x, pe_read = bio_num_read x, pe_written = bio_num_write x\<rparr>"

definition end_ok :: "ends \<Rightarrow> bio_world \<Rightarrow> side \<Rightarrow> pipe_end \<Rightarrow> bool" where
  "end_ok at w s e \<longleftrightarrow> (\<exists>x b. w_bio w (at s) = Some x \<and> bio_method x = Methods_biop \<and> bio_init x \<and>
     bio_ptr x = Pair_ptr b \<and> pr_peer b = Some (at (other s)) \<and> ring_ok b \<and> unat (pr_request b) \<le> ring_capacity b \<and> e = end_view x b)"

definition pair_repr :: "ends \<Rightarrow> bio_world \<Rightarrow> pipe \<times> err_queue_st \<Rightarrow> bool" where
  "pair_repr at w pq \<longleftrightarrow> at Left \<noteq> at Right \<and> (\<forall>s. end_ok at w s (fst pq s)) \<and> snd pq = w_err w"

lemma pair_repr_sides: "pair_repr at w pq \<Longrightarrow> at s \<noteq> at (other s)"
  by (cases s) (auto simp: pair_repr_def)

section \<open>Running the methods\<close>

lemma io_pair_run [io_simps]: "w_bio w a = Some x \<Longrightarrow> bio_ptr x = Pair_ptr b \<Longrightarrow> io_pair a w = Some (b, w)"
  by (simp add: io_pair_def io_simps)

lemma io_put_pair_run [io_simps]:
  "w_bio w a = Some x \<Longrightarrow> io_put_pair a b w = Some ((), w\<lparr>w_bio := (w_bio w)(a \<mapsto> x\<lparr>bio_ptr := Pair_ptr b\<rparr>)\<rparr>)"
  by (simp add: io_put_pair_def io_simps)

lemma io_error_run [io_simps]:
  "io_error al name line library reason w =
     Some ((), w\<lparr>w_err := OPENSSL_PUT_ERROR al name line library reason (w_err w)\<rparr>)"
  by (simp add: io_error_def)

lemma retry_flags_select [simp]:
  "bio_init (BIO_clear_retry_flags x) = bio_init x" "bio_ptr (BIO_clear_retry_flags x) = bio_ptr x"
  "bio_method (BIO_clear_retry_flags x) = bio_method x" "bio_flags (BIO_clear_retry_flags x) = bio_flags x AND NOT kRetryFlags"
  "bio_num_read (BIO_clear_retry_flags x) = bio_num_read x" "bio_num_write (BIO_clear_retry_flags x) = bio_num_write x"
  by (simp_all add: BIO_clear_retry_flags_def)

lemma size_of_length: "length bs < 2 ^ 31 \<Longrightarrow> size_of_int (int (length bs)) = of_nat (length bs)"
  by (simp add: size_of_int_def)

lemma bio_write_full:
  assumes x: "w_bio w a = Some x" "bio_init x" "bio_ptr x = Pair_ptr b" "pr_peer b \<noteq> None" "ring_ok b"
    and bs: "bs \<noteq> []" "length bs < 2 ^ 31" and full: "pr_closed b \<or> pr_len b = pr_size b"
  shows "bio_write env a (Some bs) (int (length bs)) w =
    (let x = (BIO_clear_retry_flags x)\<lparr>bio_ptr := Pair_ptr (b\<lparr>pr_request := 0\<rparr>)\<rparr>
     in if pr_closed b
        then Some (-1, w\<lparr>w_bio := (w_bio w)(a \<mapsto> x),
               w_err := OPENSSL_PUT_ERROR (be_alloc env) (be_file_pair env) 246 ERR_LIB_BIO BIO_R_BROKEN_PIPE (w_err w)\<rparr>)
        else Some (-1, w\<lparr>w_bio := (w_bio w)(a \<mapsto> BIO_set_retry_write x)\<rparr>))"
proof -
  have n: "size_of_int (int (length bs)) \<noteq> 0"
    using bs by (simp add: size_of_length word_unat_eq_iff unat_of_nat_u64_small)
  have "pr_buf b \<noteq> None" "pr_len b \<le> pr_size b" using x(5) by (auto simp: ring_ok_def)
  then show ?thesis using assms n by (auto simp: bio_write_def io_simps Let_def)
qed

lemma bio_write_room:
  assumes x: "w_bio w a = Some x" "bio_init x" "bio_ptr x = Pair_ptr b" "pr_peer b \<noteq> None" "ring_ok b"
    and bs: "bs \<noteq> []" "length bs < 2 ^ 31" and room: "\<not> pr_closed b" "pr_len b \<noteq> pr_size b"
    and n: "n = min (length bs) (unat (pr_size b) - unat (pr_len b))"
  shows "\<exists>b'. bio_write env a (Some bs) (int (length bs)) w =
      Some (int n, w\<lparr>w_bio := (w_bio w)(a \<mapsto> (BIO_clear_retry_flags x)\<lparr>bio_ptr := Pair_ptr b'\<rparr>)\<rparr>) \<and>
    ring_ok b' \<and> ring_data b' = ring_data b @ take n bs \<and> pr_request b' = 0 \<and> pr_closed b' = pr_closed b \<and>
    pr_size b' = pr_size b \<and> pr_peer b' = pr_peer b"
proof -
  let ?b = "b\<lparr>pr_request := 0\<rparr>" and ?num = "of_nat (length bs) :: u64"
  let ?rest = "if ?num > pr_size b - pr_len b then pr_size b - pr_len b else ?num"
  have buf: "pr_buf b \<noteq> None" "pr_len b \<le> pr_size b" using x(5) by (auto simp: ring_ok_def)
  have num: "unat ?num = length bs" using bs(2) by (intro unat_of_nat_u64_small) simp
  have free: "unat (pr_size b - pr_len b) = unat (pr_size b) - unat (pr_len b)" using buf(2) by (simp add: unat_sub)
  have pos: "0 < unat (pr_size b) - unat (pr_len b)"
    using buf(2) room(2) by (simp add: word_le_nat_alt word_unat_eq_iff)
  have rest: "unat ?rest = n" using num free by (auto simp: n word_less_nat_alt)
  have n_pos: "0 < n" "n \<le> length bs" using bs(1) pos by (auto simp: n)
  then have gt: "?rest > 0" "?num \<noteq> 0" using rest num bs(1) by (simp_all add: word_less_nat_alt word_unat_eq_iff del: of_nat_eq_0_iff)
  have ok: "ring_ok ?b" "ring_data ?b = ring_data b" using x(5) by (auto simp: ring_ok_def ring_data_def)
  obtain b' where b': "ring_write_loop ?b ?rest bs = Some b'" "ring_ok b'" "ring_data b' = ring_data ?b @ take (unat ?rest) bs"
    "b' = ?b\<lparr>pr_len := pr_len ?b + ?rest, pr_buf := pr_buf b'\<rparr>"
    using ring_write_ok [OF ok(1), of ?rest bs] rest n_pos n by auto
  have "int_of_size ?rest = int n" using rest n_pos(2) bs(2) by (simp add: int_of_size_small)
  then have "bio_write env a (Some bs) (int (length bs)) w =
      Some (int n, w\<lparr>w_bio := (w_bio w)(a \<mapsto> (BIO_clear_retry_flags x)\<lparr>bio_ptr := Pair_ptr b'\<rparr>)\<rparr>)"
    using assms(1-5) buf gt room b'(1)
    by (cases "pr_size b - pr_len b < ?num") (simp_all add: bio_write_def io_simps Let_def size_of_length [OF bs(2)])
  moreover have "pr_request b' = 0 \<and> pr_closed b' = pr_closed b \<and> pr_size b' = pr_size b \<and> pr_peer b' = pr_peer b"
    by (subst (1 2 3 4) b'(4)) simp
  ultimately show ?thesis using b'(2,3) ok(2) rest by auto
qed

lemma bio_read_empty:
  assumes x: "w_bio w a = Some x" "bio_init x" "bio_ptr x = Pair_ptr b" "pr_peer b = Some a'" "a' \<noteq> a"
    and y: "w_bio w a' = Some y" "bio_ptr y = Pair_ptr c" "ring_ok c" "pr_len c = 0" and n: "0 < n" "n < 2 ^ 31"
  shows "bio_read a True n w =
    (let x = BIO_clear_retry_flags x; c = c\<lparr>pr_request := 0\<rparr>
     in if pr_closed c
        then Some ((0, []), w\<lparr>w_bio := (w_bio w)(a \<mapsto> x, a' \<mapsto> y\<lparr>bio_ptr := Pair_ptr c\<rparr>)\<rparr>)
        else Some ((-1, []), w\<lparr>w_bio := (w_bio w)(a \<mapsto> BIO_set_retry_read x,
               a' \<mapsto> y\<lparr>bio_ptr := Pair_ptr (c\<lparr>pr_request := (if size_of_int n \<le> pr_size c then size_of_int n else pr_size c)\<rparr>)\<rparr>)\<rparr>))"
proof -
  have "size_of_int n \<noteq> 0" using n unat_size_of_int [of n] by (auto simp: unat_eq_0 [symmetric])
  moreover have "pr_buf c \<noteq> None" using y(3) by (auto simp: ring_ok_def)
  ultimately show ?thesis using x y by (auto simp: bio_read_def io_simps Let_def fun_upd_twist)
qed

lemma bio_read_some:
  assumes x: "w_bio w a = Some x" "bio_init x" "bio_ptr x = Pair_ptr b" "pr_peer b = Some a'" "a' \<noteq> a"
    and y: "w_bio w a' = Some y" "bio_ptr y = Pair_ptr c" "ring_ok c" "pr_len c \<noteq> 0" and n: "0 < n" "n < 2 ^ 31"
    and k: "k = min (nat n) (unat (pr_len c))"
  shows "\<exists>c'. bio_read a True n w =
      Some ((int k, take k (ring_data c)), w\<lparr>w_bio := (w_bio w)(a \<mapsto> BIO_clear_retry_flags x, a' \<mapsto> y\<lparr>bio_ptr := Pair_ptr c'\<rparr>)\<rparr>) \<and>
    ring_ok c' \<and> ring_data c' = drop k (ring_data c) \<and> pr_request c' = 0 \<and> pr_closed c' = pr_closed c \<and>
    pr_size c' = pr_size c \<and> pr_peer c' = pr_peer c"
proof -
  let ?c = "c\<lparr>pr_request := 0\<rparr>"
  let ?rest = "if pr_len c < size_of_int n then pr_len c else size_of_int n"
  have buf: "pr_buf c \<noteq> None" using y(3) by (auto simp: ring_ok_def)
  have num: "unat (size_of_int n) = nat n" using n by (intro unat_size_of_int) simp_all
  have rest: "unat ?rest = k" using num by (auto simp: k word_less_nat_alt)
  have "0 < unat (pr_len c)" using y(4) by (simp add: unat_gt_0)
  then have k_pos: "0 < k" "k \<le> unat (pr_len c)" "k < 2 ^ 31" using n by (auto simp: k)
  then have gt: "?rest > 0" "size_of_int n \<noteq> 0" using rest num n by (auto simp: word_less_nat_alt unat_eq_0 [symmetric])
  have ok: "ring_ok ?c" "ring_data ?c = ring_data c" using y(3) by (auto simp: ring_ok_def ring_data_def)
  obtain c' where c': "ring_read_loop ?c ?rest [] = Some (c', [] @ take (unat ?rest) (ring_data ?c))" "ring_ok c'"
    "ring_data c' = drop (unat ?rest) (ring_data ?c)" "c' = ?c\<lparr>pr_len := pr_len ?c - ?rest, pr_offset := pr_offset c'\<rparr>"
    using ring_read_ok [OF ok(1), of ?rest "[]"] rest k_pos by auto
  have "int_of_size ?rest = int k" using rest k_pos(3) by (simp add: int_of_size_small)
  then have "bio_read a True n w =
      Some ((int k, take k (ring_data c)), w\<lparr>w_bio := (w_bio w)(a \<mapsto> BIO_clear_retry_flags x, a' \<mapsto> y\<lparr>bio_ptr := Pair_ptr c'\<rparr>)\<rparr>)"
    using x y(1,2,4) buf gt c'(1) ok(2) rest
    by (cases "pr_len c < size_of_int n") (simp_all add: bio_read_def io_simps Let_def)
  moreover have "pr_request c' = 0 \<and> pr_closed c' = pr_closed c \<and> pr_size c' = pr_size c \<and> pr_peer c' = pr_peer c"
    by (subst (1 2 3 4) c'(4)) simp
  ultimately show ?thesis using c'(2,3) ok(2) rest by auto
qed

section \<open>Simulation\<close>

lemma end_okI:
  "w_bio w (at s) = Some x \<Longrightarrow> bio_method x = Methods_biop \<Longrightarrow> bio_init x \<Longrightarrow> bio_ptr x = Pair_ptr b \<Longrightarrow>
   pr_peer b = Some (at (other s)) \<Longrightarrow> ring_ok b \<Longrightarrow> unat (pr_request b) \<le> ring_capacity b \<Longrightarrow> e = end_view x b \<Longrightarrow> end_ok at w s e"
  by (auto simp: end_ok_def)

lemma all_sides: "(\<forall>t. P t) \<longleftrightarrow> P s \<and> P (other s)"
  by (metis other.simps side.exhaust)

lemma pair_reprI:
  assumes "at s \<noteq> at (other s)" and "end_ok at w s (p s)" and "end_ok at w (other s) (p (other s))" and "q = w_err w"
  shows "pair_repr at w (p, q)"
proof -
  have "at Left \<noteq> at Right" using assms(1) by (cases s) auto
  then show ?thesis using assms(2-4) by (simp add: pair_repr_def all_sides [of _ s])
qed

lemma pair_reprE:
  assumes "pair_repr at w (p, q)"
  obtains x b where "w_bio w (at s) = Some x" and "bio_method x = Methods_biop" and "bio_init x"
    and "bio_ptr x = Pair_ptr b" and "pr_peer b = Some (at (other s))" and "ring_ok b"
    and "unat (pr_request b) \<le> ring_capacity b" and "p s = end_view x b"
proof -
  have "end_ok at w s (p s)" using assms by (simp add: pair_repr_def)
  then show thesis using that unfolding end_ok_def by blast
qed

lemma ring_len_iff:
  assumes "ring_ok b"
  shows "pr_len b = pr_size b \<longleftrightarrow> length (ring_data b) = ring_capacity b" "pr_len b = 0 \<longleftrightarrow> ring_data b = []"
proof -
  note len = length_ring_data [OF assms]
  show "pr_len b = pr_size b \<longleftrightarrow> length (ring_data b) = ring_capacity b" by (simp add: len ring_capacity_def word_unat_eq_iff)
  have "ring_data b = [] \<longleftrightarrow> length (ring_data b) = 0" by simp
  then show "pr_len b = 0 \<longleftrightarrow> ring_data b = []" by (simp only: len unat_eq_0)
qed

lemmas retry_defs = BIO_set_retry_read_def BIO_set_retry_write_def no_retry_def

text \<open>The counting that \<open>BIO_write\<close> and \<open>BIO_read\<close> add to the methods.\<close>

lemma BIO_write_run:
  assumes "w_bio w a = Some x" and "bio_init x" and "bio_method x = Methods_biop" and "bs \<noteq> []"
    and "bio_write env a (Some bs) (int (length bs)) w = Some (r, w')" and "w_bio w' a = Some x'"
  shows "BIO_write env (Some a) (Some bs) (int (length bs)) w =
    Some (r, if r > 0 then w'\<lparr>w_bio := (w_bio w')(a \<mapsto> x'\<lparr>bio_num_write := bio_num_write x' + size_of_int r\<rparr>)\<rparr> else w')"
  using assms by (simp add: BIO_write_def method_bwrite_def io_simps)

lemma BIO_read_run:
  assumes "w_bio w a = Some x" and "bio_init x" and "bio_method x = Methods_biop" and "0 < n"
    and "bio_read a True n w = Some ((r, out), w')" and "w_bio w' a = Some x'"
  shows "BIO_read env (Some a) True n w =
    Some ((r, out), if r > 0 then w'\<lparr>w_bio := (w_bio w')(a \<mapsto> x'\<lparr>bio_num_read := bio_num_read x' + size_of_int r\<rparr>)\<rparr> else w')"
  using assms by (simp add: BIO_read_def method_bread_def io_simps)

definition simulates :: "bio_env \<Rightarrow> ends \<Rightarrow> pipe_cmd \<Rightarrow> bio_world \<Rightarrow> pipe \<times> err_queue_st \<Rightarrow> bool" where
  "simulates env at c w pq \<longleftrightarrow> (\<exists>w'. bio_exec env at c w = Some (fst (pipe_exec env c pq), w') \<and> pair_repr at w' (snd (pipe_exec env c pq)))"

lemma simulatesI:
  "bio_exec env at c w = Some (r, w') \<Longrightarrow> pipe_exec env c pq = (r, pq') \<Longrightarrow> pair_repr at w' pq' \<Longrightarrow> simulates env at c w pq"
  by (simp add: simulates_def)

lemma end_ok_frame: "w_bio w' (at s) = w_bio w (at s) \<Longrightarrow> end_ok at w' s e = end_ok at w s e"
  by (simp add: end_ok_def)

text \<open>A step that changes one end.\<close>

lemma one_end:
  assumes "pair_repr at w (p, q)" and "w_bio w' = (w_bio w)(at s \<mapsto> x)" and "bio_method x = Methods_biop" and "bio_init x"
    and "bio_ptr x = Pair_ptr b" and "pr_peer b = Some (at (other s))" and "ring_ok b"
    and "unat (pr_request b) \<le> ring_capacity b" and "e = end_view x b" and "q' = w_err w'"
  shows "pair_repr at w' (p(s := e), q')"
proof (rule pair_reprI [of _ s])
  note ne = pair_repr_sides [OF assms(1), of s]
  show "at s \<noteq> at (other s)" using ne .
  show "end_ok at w' s ((p(s := e)) s)" using assms(2-9) by (intro end_okI [of _ _ _ x b]) simp_all
  have "end_ok at w (other s) (p (other s))" using assms(1) by (simp add: pair_repr_def)
  moreover have "w_bio w' (at (other s)) = w_bio w (at (other s))" using assms(2) ne by simp
  ultimately show "end_ok at w' (other s) ((p(s := e)) (other s))" by (simp add: end_ok_frame [of w' at "other s" w])
qed (use assms in simp)

text \<open>A step of one end that changes the ring of the other.\<close>

lemma both_ends:
  assumes "at s \<noteq> at (other s)" and "w_bio w' = (w_bio w)(at s \<mapsto> x, at (other s) \<mapsto> y)"
    and "bio_method x = Methods_biop" and "bio_init x"
    and "bio_ptr x = Pair_ptr b" and "pr_peer b = Some (at (other s))" and "ring_ok b"
    and "unat (pr_request b) \<le> ring_capacity b" and "e = end_view x b"
    and "bio_method y = Methods_biop" and "bio_init y"
    and "bio_ptr y = Pair_ptr c" and "pr_peer c = Some (at s)" and "ring_ok c"
    and "unat (pr_request c) \<le> ring_capacity c" and "f = end_view y c" and "q' = w_err w'"
  shows "pair_repr at w' (p(s := e, other s := f), q')"
proof (rule pair_reprI [of _ s])
  show "at s \<noteq> at (other s)" by fact
  show "end_ok at w' s ((p(s := e, other s := f)) s)" using assms(1-9) by (intro end_okI [of _ _ _ x b]) simp_all
  show "end_ok at w' (other s) ((p(s := e, other s := f)) (other s))"
    using assms(2,10-16) by (intro end_okI [of _ _ _ y c]) simp_all
qed fact

lemma ring_reset:
  assumes "ring_ok b"
  shows "ring_ok (b\<lparr>pr_request := n\<rparr>)" "ring_data (b\<lparr>pr_request := n\<rparr>) = ring_data b"
    "ring_capacity (b\<lparr>pr_request := n\<rparr>) = ring_capacity b"
    "ring_ok (b\<lparr>pr_closed := t\<rparr>)" "ring_data (b\<lparr>pr_closed := t\<rparr>) = ring_data b"
    "ring_capacity (b\<lparr>pr_closed := t\<rparr>) = ring_capacity b"
  using assms by (auto simp: ring_ok_def ring_data_def ring_capacity_def)

lemma write_ok:
  assumes P: "pair_repr at w (p, q)" and len: "length bs < 2 ^ 31"
  shows "simulates env at (Write s bs) w (p, q)"
proof (cases "bs = []")
  case True
  from P obtain x b where "w_bio w (at s) = Some x" "bio_init x" by (rule pair_reprE [where s = s])
  with True P show ?thesis by (simp add: simulates_def BIO_write_def io_simps)
next
  case False
  from P obtain x b where x: "w_bio w (at s) = Some x" "bio_method x = Methods_biop" "bio_init x"
    "bio_ptr x = Pair_ptr b" "pr_peer b = Some (at (other s))" "ring_ok b" and ps: "p s = end_view x b"
    by (rule pair_reprE [where s = s])
  have q: "q = w_err w" using P by (simp add: pair_repr_def)
  have peer: "pr_peer b \<noteq> None" using x(5) by simp
  note eqs = ring_len_iff [OF x(6)] and reset = ring_reset [OF x(6)]
  note run = BIO_write_run [OF x(1,3,2) False]
  have view: "pe_queue (p s) = ring_data b" "pe_capacity (p s) = ring_capacity b" "pe_closed (p s) = pr_closed b"
    by (simp_all add: ps end_view_def)
  let ?x = "(BIO_clear_retry_flags x)\<lparr>bio_ptr := Pair_ptr (b\<lparr>pr_request := 0\<rparr>)\<rparr>"
  show ?thesis
  proof (cases "pr_closed b \<or> pr_len b = pr_size b")
    case full: True
    let ?x' = "if pr_closed b then ?x else BIO_set_retry_write ?x"
    let ?q = "if pr_closed b then OPENSSL_PUT_ERROR (be_alloc env) (be_file_pair env) 246 ERR_LIB_BIO BIO_R_BROKEN_PIPE (w_err w) else w_err w"
    let ?w = "w\<lparr>w_bio := (w_bio w)(at s \<mapsto> ?x'), w_err := ?q\<rparr>"
    have call: "bio_write env (at s) (Some bs) (int (length bs)) w = Some (-1, ?w)"
      using bio_write_full [OF x(1,3,4) peer x(6) False len full, of env] by (simp add: Let_def)
    have "pipe_exec env (Write s bs) (p, q) = (Wrote (-1), p(s := end_view ?x' (b\<lparr>pr_request := 0\<rparr>)), ?q)"
      using \<open>bs \<noteq> []\<close> full eqs by (cases "pr_closed b") (simp_all add: q view Let_def ps end_view_def retry_defs reset ring_capacity_def)
    moreover have "pair_repr at ?w (p(s := end_view ?x' (b\<lparr>pr_request := 0\<rparr>)), ?q)"
      by (rule one_end [OF P, of _ _ ?x' "b\<lparr>pr_request := 0\<rparr>"]) (use x reset in \<open>simp_all add: retry_defs\<close>)
    ultimately show ?thesis by (intro simulatesI) (simp_all add: run [OF call] io_simps)
  next
    case False
    then have room: "\<not> pr_closed b" "pr_len b \<noteq> pr_size b" by simp_all
    define n where "n = min (length bs) (ring_capacity b - length (ring_data b))"
    have n: "n = min (length bs) (unat (pr_size b) - unat (pr_len b))"
      by (simp add: n_def ring_capacity_def length_ring_data [OF x(6)])
    have n_pos: "0 < n"
      using \<open>bs \<noteq> []\<close> room(2) ring_ok_size [OF x(6)] by (simp add: n word_unat_eq_iff)
    have n_small: "n < 2 ^ 31" using len by (simp add: n)
    obtain b' where b': "bio_write env (at s) (Some bs) (int (length bs)) w =
        Some (int n, w\<lparr>w_bio := (w_bio w)(at s \<mapsto> (BIO_clear_retry_flags x)\<lparr>bio_ptr := Pair_ptr b'\<rparr>)\<rparr>)"
      and c': "ring_ok b'" "ring_data b' = ring_data b @ take n bs" "pr_request b' = 0" "pr_closed b' = pr_closed b"
        "pr_size b' = pr_size b" "pr_peer b' = pr_peer b"
      using bio_write_room [OF x(1,3,4) peer x(6) \<open>bs \<noteq> []\<close> len room n] by blast
    let ?x' = "(BIO_clear_retry_flags x)\<lparr>bio_ptr := Pair_ptr b', bio_num_write := bio_num_write x + of_nat n\<rparr>"
    let ?w = "w\<lparr>w_bio := (w_bio w)(at s \<mapsto> ?x')\<rparr>"
    have "pipe_exec env (Write s bs) (p, q) = (Wrote (int n), p(s := end_view ?x' b'), w_err w)"
      using \<open>bs \<noteq> []\<close> room eqs c'
      by (simp add: q view Let_def ps end_view_def retry_defs ring_capacity_def n_def)
    moreover have "pair_repr at ?w (p(s := end_view ?x' b'), w_err w)"
      by (rule one_end [OF P, of _ _ ?x' b']) (use x c' in simp_all)
    moreover have "bio_exec env at (Write s bs) w = Some (Wrote (int n), ?w)"
      using n_pos n_small by (simp add: run [OF b'] io_simps size_of_int_def)
    ultimately show ?thesis by (intro simulatesI)
  qed
qed

lemma read_ok:
  assumes P: "pair_repr at w (p, q)" and len: "n < 2 ^ 31"
  shows "simulates env at (Read s n) w (p, q)"
proof (cases "n \<le> 0")
  case True
  from P obtain x b where "w_bio w (at s) = Some x" "bio_init x" by (rule pair_reprE [where s = s])
  with True P show ?thesis by (simp add: simulates_def BIO_read_def io_simps)
next
  case False
  then have n: "0 < n" by simp
  from P obtain x b where x: "w_bio w (at s) = Some x" "bio_method x = Methods_biop" "bio_init x"
    "bio_ptr x = Pair_ptr b" "pr_peer b = Some (at (other s))" and b: "ring_ok b" "unat (pr_request b) \<le> ring_capacity b"
    and ps: "p s = end_view x b"
    by (rule pair_reprE [where s = s])
  from P obtain y c where y: "w_bio w (at (other s)) = Some y" "bio_method y = Methods_biop" "bio_init y"
    "bio_ptr y = Pair_ptr c" "pr_peer c = Some (at s)" "ring_ok c" and po: "p (other s) = end_view y c"
    by (rule pair_reprE [where s = "other s", unfolded other_other])
  have q: "q = w_err w" using P by (simp add: pair_repr_def)
  note ne = pair_repr_sides [OF P, of s] and eqs = ring_len_iff [OF y(6)] and reset = ring_reset [OF y(6)]
  note run = BIO_read_run [OF x(1,3,2) n]
  note defs = q Let_def ps po end_view_def retry_defs
  let ?x = "BIO_clear_retry_flags x"
  note pair = both_ends [OF ne, where b = b]
  show ?thesis
  proof (cases "pr_len c = 0")
    case True
    then have empty: "ring_data c = []" using eqs by simp
    show ?thesis
    proof (cases "pr_closed c")
      case True
      let ?c = "c\<lparr>pr_request := 0\<rparr>"
      let ?w = "w\<lparr>w_bio := (w_bio w)(at s \<mapsto> ?x, at (other s) \<mapsto> y\<lparr>bio_ptr := Pair_ptr ?c\<rparr>)\<rparr>"
      have call: "bio_read (at s) True n w = Some ((0, []), ?w)"
        using bio_read_empty [OF x(1,3,4,5) ne [symmetric] y(1,4,6) \<open>pr_len c = 0\<close> n len] True by (simp add: Let_def)
      have "pipe_exec env (Read s n) (p, q) =
          (Got 0 [], p(s := end_view ?x b, other s := end_view (y\<lparr>bio_ptr := Pair_ptr ?c\<rparr>) ?c), w_err w)"
        using n True empty by (simp add: defs reset)
      moreover have "pair_repr at ?w (p(s := end_view ?x b, other s := end_view (y\<lparr>bio_ptr := Pair_ptr ?c\<rparr>) ?c), w_err w)"
        by (rule pair [where c = ?c]) (use x y b reset in simp_all)
      moreover have "bio_exec env at (Read s n) w = Some (Got 0 [], ?w)" using ne by (simp add: run [OF call] io_simps)
      ultimately show ?thesis by (intro simulatesI)
    next
      case False
      let ?c = "c\<lparr>pr_request := (if size_of_int n \<le> pr_size c then size_of_int n else pr_size c)\<rparr>"
      let ?x' = "BIO_set_retry_read ?x"
      let ?w = "w\<lparr>w_bio := (w_bio w)(at s \<mapsto> ?x', at (other s) \<mapsto> y\<lparr>bio_ptr := Pair_ptr ?c\<rparr>)\<rparr>"
      have call: "bio_read (at s) True n w = Some ((-1, []), ?w)"
        using bio_read_empty [OF x(1,3,4,5) ne [symmetric] y(1,4,6) \<open>pr_len c = 0\<close> n len] False by (simp add: Let_def)
      have request: "unat (if size_of_int n \<le> pr_size c then size_of_int n else pr_size c) = min (nat n) (ring_capacity c)"
        using n len by (simp add: word_le_nat_alt unat_size_of_int ring_capacity_def)
      have "pipe_exec env (Read s n) (p, q) =
          (Got (-1) [], p(s := end_view ?x' b, other s := end_view (y\<lparr>bio_ptr := Pair_ptr ?c\<rparr>) ?c), w_err w)"
        using n False empty by (simp add: defs reset request)
      moreover have "pair_repr at ?w (p(s := end_view ?x' b, other s := end_view (y\<lparr>bio_ptr := Pair_ptr ?c\<rparr>) ?c), w_err w)"
        by (rule pair [where c = ?c]) (use x y b reset request in \<open>simp_all add: retry_defs\<close>)
      moreover have "bio_exec env at (Read s n) w = Some (Got (-1) [], ?w)" using ne by (simp add: run [OF call] io_simps)
      ultimately show ?thesis by (intro simulatesI)
    qed
  next
    case False
    define k where "k = min (nat n) (length (ring_data c))"
    have k: "k = min (nat n) (unat (pr_len c))" by (simp add: k_def length_ring_data [OF y(6)])
    have k_pos: "0 < k" "k < 2 ^ 31" using n len False by (simp_all add: k unat_gt_0)
    obtain c' where call: "bio_read (at s) True n w =
        Some ((int k, take k (ring_data c)), w\<lparr>w_bio := (w_bio w)(at s \<mapsto> ?x, at (other s) \<mapsto> y\<lparr>bio_ptr := Pair_ptr c'\<rparr>)\<rparr>)"
      and c': "ring_ok c'" "ring_data c' = drop k (ring_data c)" "pr_request c' = 0" "pr_closed c' = pr_closed c"
        "pr_size c' = pr_size c" "pr_peer c' = pr_peer c"
      using bio_read_some [OF x(1,3,4,5) ne [symmetric] y(1,4,6) False n len k] by blast
    let ?x' = "?x\<lparr>bio_num_read := bio_num_read x + of_nat k\<rparr>" and ?y = "y\<lparr>bio_ptr := Pair_ptr c'\<rparr>"
    let ?w = "w\<lparr>w_bio := (w_bio w)(at s \<mapsto> ?x', at (other s) \<mapsto> ?y)\<rparr>"
    have "pipe_exec env (Read s n) (p, q) =
        (Got (int k) (take k (ring_data c)), p(s := end_view ?x' b, other s := end_view ?y c'), w_err w)"
      using n False eqs c' by (simp add: defs ring_capacity_def k_def)
    moreover have "pair_repr at ?w (p(s := end_view ?x' b, other s := end_view ?y c'), w_err w)"
      by (rule pair [where c = c']) (use x y b c' in simp_all)
    moreover have "bio_exec env at (Read s n) w = Some (Got (int k) (take k (ring_data c)), ?w)"
      using k_pos ne by (simp add: run [OF call] io_simps size_of_int_def fun_upd_twist [of "at s"])
    ultimately show ?thesis by (intro simulatesI)
  qed
qed

lemma size_of_sint: "size_of_int (sint (n :: u64)) = n"
  by (simp add: size_of_int_def)

lemma sint_small: "unat (n :: u64) \<le> 2 ^ 62 \<Longrightarrow> sint n = int (unat n)"
proof -
  assume "unat n \<le> 2 ^ 62"
  then have "int (unat n) \<le> int (2 ^ 62)" by (simp only: of_nat_le_iff)
  then have "uint n < 2 ^ 63" by simp
  then have "signed_take_bit 63 (uint n) = uint n"
    by (intro signed_take_bit_int_eq_self) (simp_all add: order_trans [OF _ uint_ge_0])
  then show ?thesis by (simp add: sint_uint)
qed

lemma pending_ok:
  assumes P: "pair_repr at w pq"
  shows "BIO_pending env (Some (at s)) w = Some (of_nat (length (pe_queue (fst pq (other s)))), w)"
proof -
  obtain p q where pq: "pq = (p, q)" by (rule prod.exhaust)
  from P obtain x b where x: "w_bio w (at s) = Some x" "bio_method x = Methods_biop" "bio_ptr x = Pair_ptr b"
    "pr_peer b = Some (at (other s))"
    unfolding pq by (rule pair_reprE [where s = s])
  from P obtain y c where y: "w_bio w (at (other s)) = Some y" "bio_ptr y = Pair_ptr c" "ring_ok c"
    and po: "p (other s) = end_view y c"
    unfolding pq by (rule pair_reprE [where s = "other s", unfolded other_other])
  have "unat (pr_len c) \<le> 2 ^ 62" using y(3) by (auto simp: ring_ok_def word_le_nat_alt)
  then have "BIO_pending env (Some (at s)) w = Some (pr_len c, w)"
    using x y sint_small by (simp add: BIO_pending_def BIO_ctrl_def bio_ctrl_def io_simps bio_cmds) (simp add: size_of_int_def)
  then show ?thesis by (simp add: pq po end_view_def length_ring_data [OF y(3)])
qed

lemma control_ok:
  assumes P: "pair_repr at w (p, q)" and c: "c = Shutdown s \<or> c = Pending s \<or> c = Guarantee s \<or> c = Request s"
  shows "simulates env at c w (p, q)"
proof -
  from P obtain x b where x: "w_bio w (at s) = Some x" "bio_method x = Methods_biop" "bio_init x"
    "bio_ptr x = Pair_ptr b" "pr_peer b = Some (at (other s))" "ring_ok b" "unat (pr_request b) \<le> ring_capacity b"
    and ps: "p s = end_view x b"
    by (rule pair_reprE [where s = s])
  have q: "q = w_err w" using P by (simp add: pair_repr_def)
  note reset = ring_reset [OF x(6)]
  note ctrl = BIO_ctrl_def bio_ctrl_def io_simps bio_cmds io_int_def
  have free: "of_nat (ring_capacity b - length (ring_data b)) = pr_size b - pr_len b"
    using ring_ok_size [OF x(6)] by (simp add: ring_capacity_def length_ring_data [OF x(6)] flip: unat_sub [unfolded word_le_nat_alt])
  from c show ?thesis
  proof (elim disjE)
    assume c: "c = Shutdown s"
    let ?b = "b\<lparr>pr_closed := True\<rparr>"
    let ?x = "x\<lparr>bio_ptr := Pair_ptr ?b\<rparr>"
    let ?w = "w\<lparr>w_bio := (w_bio w)(at s \<mapsto> ?x)\<rparr>"
    have "bio_exec env at c w = Some (Wrote 1, ?w)" using x by (simp add: c BIO_shutdown_wr_def ctrl)
    moreover have "pair_repr at ?w (p(s := end_view ?x ?b), w_err w)"
      by (rule one_end [OF P, of _ _ ?x ?b]) (use x reset in simp_all)
    moreover have "pipe_exec env c (p, q) = (Wrote 1, p(s := end_view ?x ?b), w_err w)"
      by (simp add: c q ps end_view_def reset)
    ultimately show ?thesis by (intro simulatesI)
  next
    assume c: "c = Pending s"
    show ?thesis using P pending_ok [OF P, of env s] by (simp add: simulates_def c io_simps)
  next
    assume c: "c = Guarantee s"
    have "bio_exec env at c w = Some (Number (if pr_closed b then 0 else pr_size b - pr_len b), w)"
      using x by (simp add: c BIO_ctrl_get_write_guarantee_def ctrl size_of_sint) (simp add: size_of_int_def)
    then show ?thesis using P by (simp add: simulates_def c ps end_view_def free)
  next
    assume c: "c = Request s"
    have "bio_exec env at c w = Some (Number (pr_request b), w)"
      using x by (simp add: c BIO_ctrl_get_read_request_def ctrl size_of_sint)
    then show ?thesis using P by (simp add: simulates_def c ps end_view_def)
  qed
qed

lemma step_ok: "pair_repr at w pq \<Longrightarrow> pipe_cmd_ok c \<Longrightarrow> simulates env at c w pq"
  using write_ok read_ok control_ok by (cases pq; cases c) auto

lemma run_ok:
  "pair_repr at w pq \<Longrightarrow> list_all pipe_cmd_ok cs \<Longrightarrow>
   \<exists>w'. bio_run env at cs w = Some (fst (pipe_run env cs pq), w') \<and> pair_repr at w' (snd (pipe_run env cs pq))"
proof (induction cs arbitrary: w pq)
  case (Cons c cs)
  then obtain w1 where 1: "bio_exec env at c w = Some (fst (pipe_exec env c pq), w1)" "pair_repr at w1 (snd (pipe_exec env c pq))"
    using step_ok [OF Cons.prems(1), of c env] by (auto simp: simulates_def)
  then show ?case using Cons.IH [OF 1(2)] Cons.prems(2) by (auto simp: io_simps split_beta Let_def)
qed (simp add: io_simps)

section \<open>A new pair\<close>

definition new_ends :: "nat \<Rightarrow> nat \<Rightarrow> ends" where
  "new_ends a b s = (case s of Left \<Rightarrow> a | Right \<Rightarrow> b)"

definition new_pipe :: "u64 \<Rightarrow> u64 \<Rightarrow> pipe" where
  "new_pipe n1 n2 s =
     (let n = (case s of Left \<Rightarrow> n1 | Right \<Rightarrow> n2)
      in \<lparr>pe_queue = [], pe_capacity = (if n = 0 then 17 * 1024 else unat n), pe_closed = False, pe_request = 0,
          pe_flags = 0, pe_read = 0, pe_written = 0\<rparr>)"

lemma BIO_free_single:
  assumes "w_bio w a = Some x" and "bio_method x = Methods_biop" and "bio_references x = 1" and "bio_ptr x = Pair_ptr b"
    and "pr_peer b = None" and "bio_next_bio x = None"
  shows "BIO_free (Some a) w = Some (1, w\<lparr>w_bio := (w_bio w)(a := None)\<rparr>)"
proof -
  have "CRYPTO_refcount_dec_and_test_zero 1 = Some (True, 0)"
    by (simp add: CRYPTO_refcount_dec_and_test_zero_def CRYPTO_REFCOUNT_MAX_def)
  then have "bio_free_step a w = Some (Some None, w\<lparr>w_bio := (w_bio w)(a := None)\<rparr>)"
    using assms by (simp add: bio_free_step_def BIO_pop_def method_destroy_def bio_free_def io_simps)
  then show ?thesis by (simp add: BIO_free.simps [of "Some a"] BIO_free.simps [of None])
qed

definition fresh_pair :: "bio_st" where
  "fresh_pair = \<lparr>bio_method = Methods_biop, bio_init = False, bio_shutdown = 1, bio_flags = 0,
     bio_retry_reason = 0, bio_num = 0, bio_references = 1,
     bio_ptr = Pair_ptr \<lparr>pr_peer = None, pr_closed = False, pr_len = 0, pr_offset = 0, pr_size = 17 * 1024, pr_buf = None, pr_request = 0\<rparr>,
     bio_next_bio = None, bio_num_read = 0, bio_num_write = 0\<rparr>"

lemma BIO_new_pair_end:
  "BIO_new env Methods_biop w =
     (if OPENSSL_malloc (be_alloc env) 80 = None
      then Some (None, w\<lparr>w_err := OPENSSL_PUT_ERROR (be_alloc env) (be_file_bio env) 75 ERR_LIB_BIO ERR_R_MALLOC_FAILURE (w_err w)\<rparr>)
      else if OPENSSL_malloc (be_alloc env) 56 = None then Some (None, w)
      else Some (Some (w_next w), w\<lparr>w_bio := (w_bio w)(w_next w \<mapsto> fresh_pair), w_next := w_next w + 1\<rparr>))"
  by (auto simp: BIO_new_def method_create_def bio_new_def bio_put_error_def fresh_pair_def io_simps split: option.split)

lemma pair_buffer_ok:
  assumes "pair_buffer env b n = Some b'" and "pr_buf b = None" and "unat n \<le> 2 ^ 62" and "pr_size b = 17 * 1024"
  shows "ring_ok b' \<and> ring_data b' = [] \<and> ring_capacity b' = (if n = 0 then 17 * 1024 else unat n) \<and>
    b' = b\<lparr>pr_len := 0, pr_offset := 0, pr_size := pr_size b', pr_buf := pr_buf b'\<rparr>"
proof -
  let ?n = "if n = 0 then 17 * 1024 else n"
  obtain buf where buf: "OPENSSL_malloc (be_alloc env) ?n = Some buf"
    "b' = b\<lparr>pr_len := 0, pr_offset := 0, pr_size := ?n, pr_buf := Some buf\<rparr>"
    using assms(1,2,4) by (auto simp: pair_buffer_def Let_def split: if_splits option.splits)
  then have "length buf = unat ?n" by (auto dest: OPENSSL_malloc_length)
  moreover have "unat ?n = (if n = 0 then 17 * 1024 else unat n)" by simp
  ultimately show ?thesis using assms(3)
    by (auto simp: buf(2) ring_ok_def ring_data_def ring_capacity_def unat_gt_0 word_gt_0)
qed

definition fresh_ring :: "bio_bio_st" where
  "fresh_ring = \<lparr>pr_peer = None, pr_closed = False, pr_len = 0, pr_offset = 0, pr_size = 17 * 1024, pr_buf = None, pr_request = 0\<rparr>"

lemma fresh_pair_ptr: "fresh_pair = fresh_pair\<lparr>bio_ptr := Pair_ptr fresh_ring\<rparr>" "bio_ptr fresh_pair = Pair_ptr fresh_ring"
  "pr_peer fresh_ring = None"
  by (simp_all add: fresh_pair_def fresh_ring_def)

text \<open>A pair is made, or both ends are left as they can be freed.\<close>

lemma make_pair_fail:
  assumes w: "w_bio w a = Some fresh_pair" "w_bio w b = Some fresh_pair" "a \<noteq> b"
    and none: "pair_buffer env fresh_ring n1 = None \<or> pair_buffer env fresh_ring n2 = None"
  shows "\<exists>b1 b2 q. bio_make_pair env a b n1 n2 w =
      Some (0, w\<lparr>w_bio := (w_bio w)(a \<mapsto> fresh_pair\<lparr>bio_ptr := Pair_ptr b1\<rparr>, b \<mapsto> fresh_pair\<lparr>bio_ptr := Pair_ptr b2\<rparr>), w_err := q\<rparr>) \<and>
    pr_peer b1 = None \<and> pr_peer b2 = None"
proof (cases "pair_buffer env fresh_ring n1")
  case None
  have same: "(w_bio w)(b \<mapsto> fresh_pair\<lparr>bio_ptr := Pair_ptr fresh_ring\<rparr>) = w_bio w"
    using w(2) fresh_pair_ptr(1) by (simp add: fun_upd_idem)
  show ?thesis
    by (rule exI [of _ "if n1 \<noteq> 0 then fresh_ring\<lparr>pr_size := n1\<rparr> else fresh_ring"], rule exI [of _ fresh_ring],
        rule exI [of _ "OPENSSL_PUT_ERROR (be_alloc env) (be_file_pair env) 320 ERR_LIB_BIO ERR_R_MALLOC_FAILURE (w_err w)"])
      (use w None same in \<open>auto simp: bio_make_pair_def Let_def io_simps fresh_pair_ptr(2,3) fun_upd_twist\<close>)
next
  case (Some b1)
  then have "pr_peer b1 = None" by (auto simp: pair_buffer_def Let_def fresh_pair_ptr split: if_splits option.splits)
  moreover have "pair_buffer env fresh_ring n2 = None" using none Some by simp
  ultimately show ?thesis
    by (intro exI [of _ b1] exI [of _ "if n2 \<noteq> 0 then fresh_ring\<lparr>pr_size := n2\<rparr> else fresh_ring"]
          exI [of _ "OPENSSL_PUT_ERROR (be_alloc env) (be_file_pair env) 333 ERR_LIB_BIO ERR_R_MALLOC_FAILURE (w_err w)"])
      (use w Some in \<open>auto simp: bio_make_pair_def Let_def io_simps fresh_pair_ptr(2,3)\<close>)
qed

lemma make_pair_done:
  assumes w: "w_bio w a = Some fresh_pair" "w_bio w b = Some fresh_pair" "a \<noteq> b"
    and some: "pair_buffer env fresh_ring n1 = Some b1" "pair_buffer env fresh_ring n2 = Some b2"
  shows "bio_make_pair env a b n1 n2 w = Some (1, w\<lparr>w_bio := (w_bio w)(
      a \<mapsto> fresh_pair\<lparr>bio_init := True, bio_ptr := Pair_ptr (b1\<lparr>pr_peer := Some b, pr_closed := False, pr_request := 0\<rparr>)\<rparr>,
      b \<mapsto> fresh_pair\<lparr>bio_init := True, bio_ptr := Pair_ptr (b2\<lparr>pr_peer := Some a, pr_closed := False, pr_request := 0\<rparr>)\<rparr>)\<rparr>)"
  using assms by (simp add: bio_make_pair_def Let_def io_simps fresh_pair_ptr(2,3) fun_upd_twist)

lemma new_pair_repr:
  assumes "a \<noteq> b" and "pair_buffer env fresh_ring n1 = Some b1" "pair_buffer env fresh_ring n2 = Some b2"
    and "unat n1 \<le> 2 ^ 62" and "unat n2 \<le> 2 ^ 62"
    and w: "w_bio w a = Some (fresh_pair\<lparr>bio_init := True, bio_ptr := Pair_ptr (b1\<lparr>pr_peer := Some b, pr_closed := False, pr_request := 0\<rparr>)\<rparr>)"
      "w_bio w b = Some (fresh_pair\<lparr>bio_init := True, bio_ptr := Pair_ptr (b2\<lparr>pr_peer := Some a, pr_closed := False, pr_request := 0\<rparr>)\<rparr>)"
  shows "pair_repr (new_ends a b) w (new_pipe n1 n2, w_err w)"
proof -
  have buf: "pr_buf fresh_ring = None" "pr_size fresh_ring = 17 * 1024" by (simp_all add: fresh_ring_def)
  have upd: "ring_ok (c\<lparr>pr_peer := z, pr_closed := False, pr_request := 0\<rparr>) = ring_ok c"
    "ring_data (c\<lparr>pr_peer := z, pr_closed := False, pr_request := 0\<rparr>) = ring_data c"
    "ring_capacity (c\<lparr>pr_peer := z, pr_closed := False, pr_request := 0\<rparr>) = ring_capacity c" for c z
    by (simp_all add: ring_ok_def ring_data_def ring_capacity_def split: option.split)
  note b1 = pair_buffer_ok [OF assms(2) buf(1) assms(4) buf(2)] and b2 = pair_buffer_ok [OF assms(3) buf(1) assms(5) buf(2)]
  show ?thesis
  proof (rule pair_reprI [of _ Left])
    show "end_ok (new_ends a b) w Left (new_pipe n1 n2 Left)"
      by (rule end_okI [where b = "b1\<lparr>pr_peer := Some b, pr_closed := False, pr_request := 0\<rparr>"])
        (use w(1) b1 in \<open>auto simp: upd new_ends_def new_pipe_def end_view_def fresh_pair_def\<close>)
    show "end_ok (new_ends a b) w (other Left) (new_pipe n1 n2 (other Left))"
      by (rule end_okI [where b = "b2\<lparr>pr_peer := Some a, pr_closed := False, pr_request := 0\<rparr>"])
        (use w(2) b2 in \<open>auto simp: upd new_ends_def new_pipe_def end_view_def fresh_pair_def\<close>)
  qed (use assms(1) in \<open>simp_all add: new_ends_def\<close>)
qed

definition ring_size :: "u64 \<Rightarrow> u64" where
  "ring_size n = (if n = 0 then 17 * 1024 else n)"

definition pair_refused :: "bio_env \<Rightarrow> u64 \<Rightarrow> u64 \<Rightarrow> bool" where
  "pair_refused env n1 n2 \<longleftrightarrow> list_ex (\<lambda>n. OPENSSL_malloc (be_alloc env) n = None) [80, 56, ring_size n1, ring_size n2]"

lemma pair_buffer_none: "pair_buffer env fresh_ring n = None \<longleftrightarrow> OPENSSL_malloc (be_alloc env) (ring_size n) = None"
  by (auto simp: pair_buffer_def fresh_ring_def ring_size_def Let_def split: option.split)

lemma new_pair_ok:
  assumes "unat n1 \<le> 2 ^ 62" and "unat n2 \<le> 2 ^ 62" and "\<forall>a \<ge> w_next w. w_bio w a = None"
  shows "\<exists>r w'. BIO_new_bio_pair env n1 n2 w = Some (r, w') \<and>
    (r = None \<longleftrightarrow> pair_refused env n1 n2) \<and>
    (case r of None \<Rightarrow> w_bio w' = w_bio w
     | Some (a, b) \<Rightarrow> pair_repr (new_ends a b) w' (new_pipe n1 n2, w_err w) \<and>
         (\<forall>c. c \<noteq> a \<longrightarrow> c \<noteq> b \<longrightarrow> w_bio w' c = w_bio w c))"
proof -
  let ?a = "w_next w" and ?b = "Suc (w_next w)"
  note new = BIO_new_pair_end [of env]
  have fresh: "w_bio w ?a = None" "w_bio w ?b = None" using assms(3) by simp_all
  show ?thesis
  proof (cases "OPENSSL_malloc (be_alloc env) 80 = None \<or> OPENSSL_malloc (be_alloc env) 56 = None")
    case True
    moreover from True have "pair_refused env n1 n2" by (auto simp: pair_refused_def)
    ultimately show ?thesis by (auto simp: BIO_new_bio_pair_def new io_simps BIO_free.simps [of None])
  next
    case False
    then have ok: "OPENSSL_malloc (be_alloc env) 80 \<noteq> None" "OPENSSL_malloc (be_alloc env) 56 \<noteq> None" by simp_all
    let ?w = "w\<lparr>w_bio := (w_bio w)(?a \<mapsto> fresh_pair, ?b \<mapsto> fresh_pair), w_next := w_next w + 2\<rparr>"
    have start: "BIO_new_bio_pair env n1 n2 w = io_bind (bio_make_pair env ?a ?b n1 n2) (\<lambda>ok.
        if ok \<noteq> 0 then io_return (Some (?a, ?b))
        else io_bind (BIO_free (Some ?a)) (\<lambda>_. io_bind (BIO_free (Some ?b)) (\<lambda>_. io_return None))) ?w"
      using ok by (simp add: BIO_new_bio_pair_def new io_simps del: not_None_eq)
    have two: "w_bio ?w ?a = Some fresh_pair" "w_bio ?w ?b = Some fresh_pair" "?a \<noteq> ?b" by simp_all
    show ?thesis
    proof (cases "pair_buffer env fresh_ring n1 = None \<or> pair_buffer env fresh_ring n2 = None")
      case True
      then obtain b1 b2 q where "bio_make_pair env ?a ?b n1 n2 ?w = Some (0, ?w\<lparr>w_bio := (w_bio ?w)
          (?a \<mapsto> fresh_pair\<lparr>bio_ptr := Pair_ptr b1\<rparr>, ?b \<mapsto> fresh_pair\<lparr>bio_ptr := Pair_ptr b2\<rparr>), w_err := q\<rparr>)"
        "pr_peer b1 = None" "pr_peer b2 = None"
        using make_pair_fail [OF two] by blast
      moreover from True have "pair_refused env n1 n2" by (auto simp: pair_refused_def pair_buffer_none)
      ultimately show ?thesis using fresh
        by (simp add: start io_simps BIO_free_single fresh_pair_def fun_upd_idem fun_upd_twist)
    next
      case False
      then obtain b1 b2 where b: "pair_buffer env fresh_ring n1 = Some b1" "pair_buffer env fresh_ring n2 = Some b2" by auto
      define w1 where "w1 = ?w\<lparr>w_bio := (w_bio ?w)(
        ?a \<mapsto> fresh_pair\<lparr>bio_init := True, bio_ptr := Pair_ptr (b1\<lparr>pr_peer := Some ?b, pr_closed := False, pr_request := 0\<rparr>)\<rparr>,
        ?b \<mapsto> fresh_pair\<lparr>bio_init := True, bio_ptr := Pair_ptr (b2\<lparr>pr_peer := Some ?a, pr_closed := False, pr_request := 0\<rparr>)\<rparr>)\<rparr>"
      have "bio_make_pair env ?a ?b n1 n2 ?w = Some (1, w1)" unfolding w1_def by (rule make_pair_done [OF two b])
      moreover have "pair_repr (new_ends ?a ?b) w1 (new_pipe n1 n2, w_err w1)"
        by (rule new_pair_repr [OF two(3) b assms(1,2)]) (simp_all add: w1_def)
      moreover have "w_err w1 = w_err w" "\<forall>c. c \<noteq> ?a \<longrightarrow> c \<noteq> ?b \<longrightarrow> w_bio w1 c = w_bio w c" by (simp_all add: w1_def)
      moreover have "\<not> pair_refused env n1 n2" using ok False by (auto simp: pair_refused_def pair_buffer_none)
      ultimately show ?thesis by (simp add: start io_simps)
    qed
  qed
qed

section \<open>Bytes accepted and delivered\<close>

fun accepted :: "side \<Rightarrow> pipe_cmd list \<Rightarrow> pipe_ret list \<Rightarrow> u8 list" where
  "accepted s (Write t bs # cs) (Wrote n # rs) = (if t = s then take (nat n) bs else []) @ accepted s cs rs"
| "accepted s (c # cs) (r # rs) = accepted s cs rs"
| "accepted s _ _ = []"

fun delivered :: "side \<Rightarrow> pipe_cmd list \<Rightarrow> pipe_ret list \<Rightarrow> u8 list" where
  "delivered s (Read t n # cs) (Got r bs # rs) = (if t = s then bs else []) @ delivered s cs rs"
| "delivered s (c # cs) (r # rs) = delivered s cs rs"
| "delivered s _ _ = []"

lemma pipe_exec_fifo:
  assumes "pipe_exec env c pq = (r, pq')"
  shows "pe_queue (fst pq s) @ accepted s [c] [r] = delivered (other s) [c] [r] @ pe_queue (fst pq' s)"
proof -
  obtain p q where pq: "pq = (p, q)" by force
  show ?thesis
  proof (cases c)
    case (Write t bs)
    then show ?thesis using assms by (cases "t = s") (auto simp: pq no_retry_def Let_def split: if_splits)
  next
    case (Read t n)
    then show ?thesis using assms
      by (cases s; cases t) (auto simp: pq no_retry_def Let_def split: if_splits)
  qed (use assms in \<open>auto simp: pq\<close>)
qed

lemma pipe_run_fifo:
  "pipe_run env cs pq = (rs, pq') \<Longrightarrow> pe_queue (fst pq s) @ accepted s cs rs = delivered (other s) cs rs @ pe_queue (fst pq' s)"
proof (induction cs arbitrary: pq rs)
  case (Cons c cs)
  obtain r pq1 where c: "pipe_exec env c pq = (r, pq1)" by (rule prod.exhaust)
  obtain rs' where cs: "pipe_run env cs pq1 = (rs', pq')" "rs = r # rs'"
    using Cons.prems by (auto simp: c split: prod.splits)
  have acc: "accepted s (c # cs) (r # rs') = accepted s [c] [r] @ accepted s cs rs'" by (cases c; cases r) auto
  have del: "delivered (other s) (c # cs) (r # rs') = delivered (other s) [c] [r] @ delivered (other s) cs rs'"
    by (cases c; cases r) auto
  show ?case using Cons.IH [OF cs(1)] pipe_exec_fifo [OF c, of s] by (simp add: cs(2) acc del) (metis append.assoc)
qed simp

section \<open>Properties\<close>

text \<open>
  C30: For any buffer sizes and any sequence of reads, writes, shutdowns and queries on the two ends of
  a new BIO pair, every call returns what two bounded byte queues return (the bytes, the count, the
  retry flags, the requests and the errors put on the queue); no assertion of the code fails and no
  loop runs on. A pair is refused exactly when one of the blocks it needs is, and nothing is left
  behind then.
\<close>

theorem bio_pair_refines:
  assumes "unat n1 \<le> 2 ^ 62" and "unat n2 \<le> 2 ^ 62" and "\<forall>a \<ge> w_next w. w_bio w a = None" and "list_all pipe_cmd_ok cs"
  shows "\<exists>r w1. BIO_new_bio_pair env n1 n2 w = Some (r, w1) \<and> (r = None \<longleftrightarrow> pair_refused env n1 n2) \<and>
    (case r of
       None \<Rightarrow> w_bio w1 = w_bio w
     | Some (a, b) \<Rightarrow> \<exists>w2. bio_run env (new_ends a b) cs w1 = Some (fst (pipe_run env cs (new_pipe n1 n2, w_err w)), w2) \<and>
         w_err w2 = snd (snd (pipe_run env cs (new_pipe n1 n2, w_err w))))"
proof -
  obtain r w1 where r: "BIO_new_bio_pair env n1 n2 w = Some (r, w1)"
    "r = None \<longleftrightarrow> pair_refused env n1 n2"
    "case r of None \<Rightarrow> w_bio w1 = w_bio w
     | Some (a, b) \<Rightarrow> pair_repr (new_ends a b) w1 (new_pipe n1 n2, w_err w) \<and> (\<forall>c. c \<noteq> a \<longrightarrow> c \<noteq> b \<longrightarrow> w_bio w1 c = w_bio w c)"
    using new_pair_ok [OF assms(1-3)] by blast
  show ?thesis
  proof (cases r)
    case (Some ab)
    then obtain a b where ab: "r = Some (a, b)" by (cases ab) auto
    then obtain w2 where "bio_run env (new_ends a b) cs w1 = Some (fst (pipe_run env cs (new_pipe n1 n2, w_err w)), w2)"
      "pair_repr (new_ends a b) w2 (snd (pipe_run env cs (new_pipe n1 n2, w_err w)))"
      using r(3) run_ok [OF _ assms(4)] by force
    then show ?thesis using r(1,2) ab by (auto simp: pair_repr_def)
  qed (use r in auto)
qed

text \<open>A run that fills a ring of four bytes, wraps around it, and reads to the end of the stream.\<close>

definition cmds0 :: "pipe_cmd list" where
  "cmds0 = [Write Left [1, 2, 3, 4, 5], Read Right 3, Write Left [6, 7, 8], Write Left [9], Shutdown Left, Read Right 100,
     Read Right 1, Guarantee Right]"

definition rets0 :: "pipe_ret list" where
  "rets0 = [Wrote 4, Got 3 [1, 2, 3], Wrote 3, Wrote (-1), Wrote 1, Got 4 [4, 6, 7, 8], Got 0 [], Number 4]"

lemma cmds0_rets0: "fst (pipe_run env0 cmds0 (new_pipe 4 4, None)) = rets0"
  by (simp add: cmds0_def rets0_def new_pipe_def no_retry_def Let_def take_Cons' drop_Cons')

lemma env0_serves: "\<not> pair_refused env0 4 4"
  by (simp add: pair_refused_def ring_size_def env0_malloc [simplified])

lemma start0: "\<forall>a \<ge> w_next world0. w_bio world0 a = None" "list_all pipe_cmd_ok cmds0"
  by (simp_all add: world0_def cmds0_def)

theorem bio_pair_refines_witness:
  "\<exists>a b w1 w2. BIO_new_bio_pair env0 4 4 world0 = Some (Some (a, b), w1) \<and> bio_run env0 (new_ends a b) cmds0 w1 = Some (rets0, w2)"
  using bio_pair_refines [OF _ _ start0, of 4 4 env0] env0_serves cmds0_rets0 by (auto simp: world0_def split: option.splits)

text \<open>
  C31: After any sequence of calls on a new pair, the bytes delivered at one end are a prefix of the
  bytes the other end accepted: none is lost, duplicated or reordered, also where the rings wrap
  around, and \<open>BIO_pending\<close> at the reading end is the number of those not delivered yet.
\<close>

theorem bio_pair_delivers:
  assumes "unat n1 \<le> 2 ^ 62" and "unat n2 \<le> 2 ^ 62" and "\<forall>a \<ge> w_next w. w_bio w a = None" and "list_all pipe_cmd_ok cs"
    and "BIO_new_bio_pair env n1 n2 w = Some (Some (a, b), w1)" and "bio_run env (new_ends a b) cs w1 = Some (rs, w2)"
  shows "\<exists>rest. accepted s cs rs = delivered (other s) cs rs @ rest \<and>
    BIO_pending env (Some (new_ends a b (other s))) w2 = Some (of_nat (length rest), w2)"
proof -
  let ?r = "pipe_run env cs (new_pipe n1 n2, w_err w)"
  have P: "pair_repr (new_ends a b) w1 (new_pipe n1 n2, w_err w)" using new_pair_ok [OF assms(1-3), of env] assms(5) by auto
  have P2: "rs = fst ?r" "pair_repr (new_ends a b) w2 (snd ?r)" using run_ok [OF P assms(4), of env] assms(6) by auto
  have "BIO_pending env (Some (new_ends a b (other s))) w2 = Some (of_nat (length (pe_queue (fst (snd ?r) s))), w2)"
    using pending_ok [OF P2(2), of env "other s"] by simp
  moreover have "pe_queue (new_pipe n1 n2 s) = []" by (simp add: new_pipe_def Let_def)
  then have "accepted s cs rs = delivered (other s) cs rs @ pe_queue (fst (snd ?r) s)"
    using pipe_run_fifo [of env cs "(new_pipe n1 n2, w_err w)" "fst ?r" "snd ?r" s] P2(1) by simp
  ultimately show ?thesis by blast
qed

theorem bio_pair_delivers_witness:
  "\<exists>a b w1 w2 rest. BIO_new_bio_pair env0 4 4 world0 = Some (Some (a, b), w1) \<and> bio_run env0 (new_ends a b) cmds0 w1 = Some (rets0, w2) \<and>
     accepted Left cmds0 rets0 = [1, 2, 3, 4, 6, 7, 8] \<and> accepted Left cmds0 rets0 = delivered Right cmds0 rets0 @ rest \<and>
     BIO_pending env0 (Some b) w2 = Some (of_nat (length rest), w2)"
proof -
  have le: "unat (4 :: u64) \<le> 2 ^ 62" by simp
  obtain r w1 where r: "BIO_new_bio_pair env0 4 4 world0 = Some (r, w1)" "r = None \<longleftrightarrow> pair_refused env0 4 4"
    "case r of None \<Rightarrow> True | Some (a, b) \<Rightarrow> pair_repr (new_ends a b) w1 (new_pipe 4 4, w_err world0)"
    using new_pair_ok [OF le le start0(1), of env0] by (auto split: option.splits)
  then obtain a b where ab: "r = Some (a, b)" using env0_serves by auto
  obtain w2 where w2: "bio_run env0 (new_ends a b) cmds0 w1 = Some (rets0, w2)"
    using run_ok [of "new_ends a b" w1 "(new_pipe 4 4, w_err world0)" cmds0 env0] r(3) start0(2) cmds0_rets0
    by (auto simp: ab world0_def)
  have "accepted Left cmds0 rets0 = [1, 2, 3, 4, 6, 7, 8]" by (simp add: cmds0_def rets0_def take_Cons')
  moreover have "new_ends a b (other Left) = b" by (simp add: new_ends_def)
  ultimately show ?thesis
    using bio_pair_delivers [OF le le start0(1,2) r(1) [unfolded ab] w2, of Left] r(1) w2 by (auto simp: ab)
qed

end
