(* ===== verification/Bio_Mem_Spec.thy ===== *)
theory Bio_Mem_Spec
  imports Bio_Asn1
begin

text \<open>
  What a memory \<open>BIO\<close> promises: it is a queue of bytes. A write puts all of its bytes at the end or,
  when memory is short, changes nothing; a read takes bytes from the front. \<open>BIO_read_asn1\<close> takes one
  DER element from the front and leaves the bytes behind it.
\<close>

section \<open>Contents\<close>

text \<open>
  The \<open>BIO\<close> at \<open>a\<close> is a memory \<open>BIO\<close> that holds \<open>bs\<close>; \<open>ro\<close> says whether it is read-only and \<open>eof\<close>
  what a read returns when there are no bytes.
\<close>

definition mem_buf_ok :: "bool \<Rightarrow> buf_mem_st \<Rightarrow> bool" where
  "mem_buf_ok ro b \<longleftrightarrow> unat (bm_length b) < 2 ^ 31 \<and>
     (if ro then (case bm_data b of None \<Rightarrow> bm_length b = 0 | Some d \<Rightarrow> bm_start b + unat (bm_length b) \<le> length d) else buf_mem_ok b)"

definition mem_bio :: "bio_world \<Rightarrow> nat \<Rightarrow> bool \<Rightarrow> int \<Rightarrow> u8 list \<Rightarrow> bool" where
  "mem_bio w a ro eof bs \<longleftrightarrow> (\<exists>x b. w_bio w a = Some x \<and> bio_method x = Mem_method \<and> bio_init x \<and> bio_ptr x = Mem_ptr b \<and>
     (bio_flags x AND BIO_FLAGS_MEM_RDONLY \<noteq> 0 \<longleftrightarrow> ro) \<and> bio_num x = eof \<and> mem_buf_ok ro b \<and> bs = buf_mem_contents b)"

definition only_at :: "nat \<Rightarrow> bio_world \<Rightarrow> bio_world \<Rightarrow> bool" where
  "only_at a w w' \<longleftrightarrow> (\<forall>c. c \<noteq> a \<longrightarrow> w_bio w' c = w_bio w c) \<and> w_next w' = w_next w"

lemma only_at_refl [simp]: "only_at a w w"
  by (simp add: only_at_def)

lemma only_at_trans: "only_at a w w1 \<Longrightarrow> only_at a w1 w2 \<Longrightarrow> only_at a w w2"
  by (simp add: only_at_def)

lemma mem_bioI:
  "w_bio w a = Some x \<Longrightarrow> bio_method x = Mem_method \<Longrightarrow> bio_init x \<Longrightarrow> bio_ptr x = Mem_ptr b \<Longrightarrow>
   (bio_flags x AND BIO_FLAGS_MEM_RDONLY \<noteq> 0 \<longleftrightarrow> ro) \<Longrightarrow> bio_num x = eof \<Longrightarrow> mem_buf_ok ro b \<Longrightarrow> bs = buf_mem_contents b \<Longrightarrow>
   mem_bio w a ro eof bs"
  by (auto simp: mem_bio_def)

lemma mem_buf_length: "mem_buf_ok ro b \<Longrightarrow> length (buf_mem_contents b) = unat (bm_length b)"
  using length_buf_mem_contents [of b] by (cases ro) (auto simp: mem_buf_ok_def buf_mem_contents_def split: option.splits)

lemma rdonly_flags [simp]:
  "(f AND NOT kRetryFlags) AND BIO_FLAGS_MEM_RDONLY = f AND BIO_FLAGS_MEM_RDONLY"
  "(f OR (BIO_FLAGS_READ OR BIO_FLAGS_SHOULD_RETRY)) AND BIO_FLAGS_MEM_RDONLY = f AND BIO_FLAGS_MEM_RDONLY"
  by (simp_all add: kRetryFlags_def BIO_FLAGS_RWS_def BIO_FLAGS_READ_def BIO_FLAGS_WRITE_def BIO_FLAGS_IO_SPECIAL_def
      BIO_FLAGS_SHOULD_RETRY_def BIO_FLAGS_MEM_RDONLY_def and.assoc bit.conj_disj_distrib2)

lemma clear_retry_select [simp]:
  "bio_init (BIO_clear_retry_flags x) = bio_init x" "bio_ptr (BIO_clear_retry_flags x) = bio_ptr x"
  "bio_method (BIO_clear_retry_flags x) = bio_method x" "bio_num (BIO_clear_retry_flags x) = bio_num x"
  "bio_flags (BIO_clear_retry_flags x) = bio_flags x AND NOT kRetryFlags"
  by (simp_all add: BIO_clear_retry_flags_def)

lemma io_mem_run [io_simps]: "w_bio w a = Some x \<Longrightarrow> bio_ptr x = Mem_ptr b \<Longrightarrow> io_mem a w = Some (b, w)"
  by (simp add: io_mem_def io_simps)

lemma io_put_mem_run [io_simps]:
  "w_bio w a = Some x \<Longrightarrow> io_put_mem a b w = Some ((), w\<lparr>w_bio := (w_bio w)(a \<mapsto> x\<lparr>bio_ptr := Mem_ptr b\<rparr>)\<rparr>)"
  by (simp add: io_put_mem_def io_simps)

lemma io_err_run [io_simps]: "io_err q w = Some ((), w\<lparr>w_err := q\<rparr>)" "io_err_get w = Some (w_err w, w)"
  by (simp_all add: io_err_def io_err_get_def)

section \<open>Reads\<close>

text \<open>The buffer after \<open>k\<close> bytes have been taken.\<close>

definition mem_take :: "bool \<Rightarrow> nat \<Rightarrow> buf_mem_st \<Rightarrow> buf_mem_st" where
  "mem_take ro k b =
     (let b = b\<lparr>bm_length := bm_length b - of_nat k\<rparr>
      in if ro then b\<lparr>bm_start := bm_start b + k\<rparr>
         else b\<lparr>bm_data := map_option (\<lambda>data. write_at (bm_start b) (take (unat (bm_length b)) (drop (bm_start b + k) data)) data) (bm_data b)\<rparr>)"

lemma mem_take_ok:
  assumes ok: "mem_buf_ok ro b" and k: "k \<le> unat (bm_length b)"
  shows "mem_buf_ok ro (mem_take ro k b)" "buf_mem_contents (mem_take ro k b) = drop k (buf_mem_contents b)"
proof -
  have len: "unat (bm_length b - of_nat k) = unat (bm_length b) - k"
    using k by (metis le_unat_uoi unat_sub word_le_nat_alt)
  have "mem_buf_ok ro (mem_take ro k b) \<and> buf_mem_contents (mem_take ro k b) = drop k (buf_mem_contents b)"
  proof (cases "bm_data b")
    case None
    then show ?thesis using ok k len
      by (auto simp: mem_buf_ok_def mem_take_def Let_def buf_mem_contents_def buf_mem_ok_def word_le_nat_alt unat_eq_0 split: if_splits)
  next
    case (Some d)
    show ?thesis
    proof (cases ro)
      case True
      then show ?thesis using ok k len Some
        by (auto simp: mem_buf_ok_def mem_take_def Let_def buf_mem_contents_def drop_take add.commute)
    next
      case False
      have b: "bm_start b = 0" "unat (bm_length b) \<le> length d" "length d = unat (bm_max b)"
        using ok Some False by (auto simp: mem_buf_ok_def buf_mem_ok_def word_le_nat_alt)
      let ?new = "take (unat (bm_length b) - k) (drop k d)"
      have new: "length ?new = unat (bm_length b) - k" using b(2) by simp
      have "length (write_at 0 ?new d) = length d" using b(2) by (simp add: write_at_def)
      moreover have "take (unat (bm_length b) - k) (write_at 0 ?new d) = ?new"
        using new take_write_at_end [of 0 d ?new] by simp
      ultimately show ?thesis using ok False Some len b k
        by (auto simp: mem_buf_ok_def mem_take_def Let_def buf_mem_contents_def buf_mem_ok_def word_le_nat_alt drop_take)
    qed
  qed
  then show "mem_buf_ok ro (mem_take ro k b)" "buf_mem_contents (mem_take ro k b) = drop k (buf_mem_contents b)" by simp_all
qed

lemma mem_read_ok:
  assumes w: "mem_bio w a ro eof bs" and n: "0 < n" "n \<le> INT_MAX"
  shows "\<exists>w'. mem_read a True n w =
      Some ((if bs = [] then eof else int (min (nat n) (length bs)), take (nat n) bs), w') \<and>
    mem_bio w' a ro eof (drop (nat n) bs) \<and> only_at a w w' \<and> w_err w' = w_err w"
proof -
  obtain x b where x: "w_bio w a = Some x" "bio_method x = Mem_method" "bio_init x" "bio_ptr x = Mem_ptr b"
    "bio_flags x AND BIO_FLAGS_MEM_RDONLY \<noteq> 0 \<longleftrightarrow> ro" "bio_num x = eof" and b: "mem_buf_ok ro b" "bs = buf_mem_contents b"
    using w by (auto simp: mem_bio_def)
  have len: "length bs = unat (bm_length b)" using mem_buf_length [OF b(1)] b(2) by simp
  have small: "unat (bm_length b) < 2 ^ 31" using b(1) by (simp add: mem_buf_ok_def)
  have size: "int_of_size (bm_length b) = int (length bs)" using int_of_size_small [OF small] len by simp
  let ?x = "BIO_clear_retry_flags x"
  show ?thesis
  proof (cases "bs = []")
    case True
    then have zero: "bm_length b = 0" using len by (simp add: unat_eq_0)
    let ?x' = "if eof \<noteq> 0 then BIO_set_retry_read ?x else ?x"
    let ?w = "w\<lparr>w_bio := (w_bio w)(a \<mapsto> ?x')\<rparr>"
    have "mem_read a True n w = Some ((eof, []), ?w)"
      using x size n True zero by (simp add: mem_read_def io_simps Let_def INT_MAX_def int_of_size_def)
    moreover have "mem_bio ?w a ro eof []"
      by (rule mem_bioI [where b = b and x = ?x']) (use x b True in \<open>simp_all add: BIO_set_retry_read_def\<close>)
    ultimately show ?thesis using True by (auto simp: only_at_def)
  next
    case False
    define k where "k = min (nat n) (length bs)"
    have "0 < length bs" using False by simp
    then have k: "0 < k" "k \<le> length bs" "int k < 2 ^ 31" "k < 2 ^ 31"
      using n len small by (auto simp: k_def INT_MAX_def simp del: length_greater_0_conv)
    have ret: "(if bm_length b < word_of_int INT_MAX \<and> n > int_of_size (bm_length b) then int_of_size (bm_length b) else n) = int k"
    proof (cases "bm_length b < word_of_int INT_MAX")
      case True
      then show ?thesis using n by (auto simp: size k_def)
    next
      case False
      then have "0x7fffffff \<le> unat (bm_length b)" by (simp add: INT_MAX_def word_less_nat_alt)
      then have "int 0x7fffffff \<le> int (length bs)" unfolding len by (simp only: of_nat_le_iff)
      then have "n \<le> int (length bs)" using n(2) by (simp add: INT_MAX_def)
      then show ?thesis using False n by (simp add: k_def)
    qed
    have conv: "size_of_int (int k) = of_nat k" by (simp add: size_of_int_def)
    obtain d where d: "bm_data b = Some d" using b k(2) len False by (cases "bm_data b") (auto simp: buf_mem_contents_def)
    have room: "bm_start b + unat (bm_length b) \<le> length d"
      using b(1) d by (auto simp: mem_buf_ok_def buf_mem_ok_def word_le_nat_alt split: if_splits)
    have out: "take k (drop (bm_start b) d) = take (nat n) bs"
      using k(2) len by (simp add: b(2) buf_mem_contents_def d k_def min.commute)
    have left: "drop k bs = drop (nat n) bs" by (simp add: k_def min_def)
    let ?w = "w\<lparr>w_bio := (w_bio w)(a \<mapsto> ?x\<lparr>bio_ptr := Mem_ptr (mem_take ro k b)\<rparr>)\<rparr>"
    have "mem_read a True n w = Some ((int k, take (nat n) bs), ?w)"
      using x k(1,2) d room len
      by (simp add: mem_read_def io_simps ret out conv mem_take_def Let_def)
    moreover have "mem_bio ?w a ro eof (drop (nat n) bs)"
      by (rule mem_bioI [where b = "mem_take ro k b" and x = "?x\<lparr>bio_ptr := Mem_ptr (mem_take ro k b)\<rparr>"])
        (use x k(2) b len mem_take_ok [OF b(1), of k] left in \<open>simp_all\<close>)
    ultimately show ?thesis using False by (auto simp: only_at_def k_def)
  qed
qed

lemma mem_bio_count:
  assumes "mem_bio w a ro eof bs"
  shows "\<exists>w'. io_modify a (\<lambda>x. x\<lparr>bio_num_read := bio_num_read x + n\<rparr>) w = Some ((), w') \<and>
      mem_bio w' a ro eof bs \<and> only_at a w w' \<and> w_err w' = w_err w"
    and "\<exists>w'. io_modify a (\<lambda>x. x\<lparr>bio_num_write := bio_num_write x + n\<rparr>) w = Some ((), w') \<and>
      mem_bio w' a ro eof bs \<and> only_at a w w' \<and> w_err w' = w_err w"
  using assms by (auto simp: mem_bio_def only_at_def io_modify_run)

lemma mem_BIO_read:
  assumes w: "mem_bio w a ro eof bs" and n: "0 < n" "n \<le> INT_MAX"
  shows "\<exists>w'. BIO_read env (Some a) True n w =
      Some ((if bs = [] then eof else int (min (nat n) (length bs)), take (nat n) bs), w') \<and>
    mem_bio w' a ro eof (drop (nat n) bs) \<and> only_at a w w' \<and> w_err w' = w_err w"
proof -
  let ?r = "if bs = [] then eof else int (min (nat n) (length bs))"
  obtain x where x: "w_bio w a = Some x" "bio_method x = Mem_method" "bio_init x" using w by (auto simp: mem_bio_def)
  obtain w1 where w1: "mem_read a True n w = Some ((?r, take (nat n) bs), w1)"
    "mem_bio w1 a ro eof (drop (nat n) bs)" "only_at a w w1" "w_err w1 = w_err w"
    using mem_read_ok [OF assms] by blast
  obtain w2 where w2: "io_modify a (\<lambda>x. x\<lparr>bio_num_read := bio_num_read x + size_of_int ?r\<rparr>) w1 = Some ((), w2)"
    "mem_bio w2 a ro eof (drop (nat n) bs)" "only_at a w1 w2" "w_err w2 = w_err w1"
    using mem_bio_count(1) [OF w1(2)] by blast
  have "BIO_read env (Some a) True n w = Some ((?r, take (nat n) bs), if ?r > 0 then w2 else w1)"
    using x n w1(1) w2(1) by (simp add: BIO_read_def method_bread_def io_simps)
  then show ?thesis using w1 w2 only_at_trans [OF w1(3) w2(3)] by (cases "?r > 0") auto
qed

section \<open>Writes\<close>

text \<open>Memory is short when a block of the size of some buffer is refused.\<close>

definition memory_short :: "bio_env \<Rightarrow> bool" where
  "memory_short env \<longleftrightarrow> (\<exists>n. unat n \<le> 2 ^ 33 \<and> OPENSSL_malloc (be_alloc env) n = None)"

lemma realloc_none: "OPENSSL_realloc al old n = None \<Longrightarrow> OPENSSL_malloc al n = None"
  by (auto simp: OPENSSL_realloc_def Let_def split: option.splits)

lemma reserve_fails:
  assumes "BUF_MEM_reserve env cap b q = (False, b', q')" and "unat cap < 2 ^ 31"
  shows "b' = b \<and> memory_short env"
proof -
  define n where "n = (cap + 3) div 3"
  have "unat (cap + 3) = unat cap + 3" using assms(2) by (simp add: unat_u64_add)
  then have n: "unat n = (unat cap + 3) div 3" and big: "\<not> cap + 3 < cap" by (simp_all add: n_def unat_div word_less_nat_alt)
  have n4: "unat (n * 4) = unat n * 4" using n assms(2) by (subst unat_mult_lem [THEN iffD1]) simp_all
  then have div: "n * 4 div 4 = n" by (simp add: word_unat_eq_iff unat_div)
  have "OPENSSL_realloc (be_alloc env) (bm_data b) (n * 4) = None \<and> b' = b"
    using assms(1) big div by (auto simp: BUF_MEM_reserve_def Let_def n_def [symmetric] split: if_splits option.splits)
  moreover have "unat (n * 4) \<le> 2 ^ 33" using n4 n assms(2) by simp
  ultimately show ?thesis using realloc_none by (auto simp: memory_short_def)
qed

lemma mem_write_ok:
  assumes w: "mem_bio w a False eof bs" and inp: "inp \<noteq> []" "int (length inp) \<le> INT_MAX"
  shows "\<exists>r w'. mem_write env a (Some inp) (int (length inp)) w = Some (r, w') \<and> only_at a w w' \<and>
    (if r = int (length inp) then mem_bio w' a False eof (bs @ inp)
     else r = -1 \<and> mem_bio w' a False eof bs \<and> (INT_MAX < int (length bs + length inp) \<or> memory_short env))"
proof -
  obtain x b where x: "w_bio w a = Some x" "bio_method x = Mem_method" "bio_init x" "bio_ptr x = Mem_ptr b"
    "bio_flags x AND BIO_FLAGS_MEM_RDONLY = 0" "bio_num x = eof" and b: "mem_buf_ok False b" "bs = buf_mem_contents b"
    using w by (auto simp: mem_bio_def)
  have len: "length bs = unat (bm_length b)" using mem_buf_length [OF b(1)] b(2) by simp
  have ok: "buf_mem_ok b" and small: "unat (bm_length b) < 2 ^ 31" using b(1) by (simp_all add: mem_buf_ok_def)
  have size: "int_of_size (bm_length b) = int (length bs)" using int_of_size_small [OF small] len by simp
  let ?x = "BIO_clear_retry_flags x" and ?n = "int (length inp)"
  have keep: "mem_bio (w\<lparr>w_bio := (w_bio w)(a \<mapsto> ?x\<lparr>bio_ptr := Mem_ptr b\<rparr>), w_err := q\<rparr>) a False eof bs" for q
    by (rule mem_bioI [where b = b and x = "?x\<lparr>bio_ptr := Mem_ptr b\<rparr>"]) (use x b in simp_all)
  have same: "?x = ?x\<lparr>bio_ptr := Mem_ptr b\<rparr>" using x(4) by (simp add: BIO_clear_retry_flags_def)
  show ?thesis
  proof (cases "INT_MAX - int (length bs) < ?n")
    case True
    let ?w = "w\<lparr>w_bio := (w_bio w)(a \<mapsto> ?x)\<rparr>"
    have "mem_write env a (Some inp) ?n w = Some (-1, ?w)" using x True by (simp add: mem_write_def io_simps size)
    moreover have "mem_bio ?w a False eof bs" using keep [of "w_err w"] same by simp
    ultimately show ?thesis using True by (intro exI [of _ "-1"] exI [of _ ?w]) (simp add: only_at_def)
  next
    case False
    then have fits: "length bs + length inp < 2 ^ 31" by (simp add: INT_MAX_def)
    let ?len = "of_nat (length bs + length inp) :: u64"
    have conv: "size_of_int (int (length bs) + ?n) = ?len" "size_of_int (int (length bs)) + size_of_int ?n = ?len"
      by (simp_all add: size_of_int_def)
    have len2: "unat ?len = length bs + length inp" using fits by (intro unat_of_nat_u64_small) simp
    obtain r b1 q1 where g: "BUF_MEM_grow env ?len b (w_err w) = (r, b1, q1)" by (rule prod_cases3)
    show ?thesis
    proof (cases "r = ?len")
      case False
      then have "BUF_MEM_reserve env ?len b (w_err w) = (False, b1, q1)" "r = 0"
        using g by (auto simp: BUF_MEM_grow_def Let_def split: prod.splits bool.splits)
      then have b1: "b1 = b \<and> memory_short env" using reserve_fails len2 fits by simp
      let ?w = "w\<lparr>w_bio := (w_bio w)(a \<mapsto> ?x\<lparr>bio_ptr := Mem_ptr b\<rparr>), w_err := q1\<rparr>"
      have "mem_write env a (Some inp) ?n w = Some (-1, ?w)"
        using x False \<open>\<not> INT_MAX - int (length bs) < ?n\<close> g b1
        by (simp add: mem_write_def io_simps size conv BUF_MEM_grow_clean_def del: of_nat_add)
      then show ?thesis using keep [of q1] b1 by (intro exI [of _ "-1"] exI [of _ ?w]) (simp add: only_at_def)
    next
      case True
      have "0 < ?len" using len2 inp(1) by (simp add: word_less_nat_alt del: of_nat_add)
      then have b1: "buf_mem_ok b1" "q1 = w_err w" "bm_length b1 = ?len"
        "buf_mem_contents b1 = bs @ replicate (length inp) 0"
        using grow_ok [OF ok g True] len2 len b(2) by (simp_all del: of_nat_add)
      obtain d where d: "bm_data b1 = Some d" using b1(4) inp(1) by (cases "bm_data b1") (auto simp: buf_mem_contents_def)
      have d': "bm_start b1 = 0" "length bs + length inp \<le> length d" "length d = unat (bm_max b1)"
        using b1 d len2 by (auto simp: buf_mem_ok_def word_le_nat_alt simp del: of_nat_add)
      have "take (length bs + length inp) d = bs @ replicate (length inp) 0"
        using b1(3,4) d d'(1) len2 by (simp add: buf_mem_contents_def del: of_nat_add)
      then have "take (length bs) (take (length bs + length inp) d) = bs" by simp
      then have d4: "take (length bs) d = bs" by (simp add: min_def)
      let ?b = "b1\<lparr>bm_data := Some (write_at (length bs) inp d)\<rparr>"
      have "take (length bs + length inp) (write_at (length bs) inp d) = bs @ inp"
        using take_write_at_end [of "length bs" d inp] d' d4 by simp
      moreover have "length (write_at (length bs) inp d) = length d" using d' by (simp add: write_at_def)
      ultimately have new: "mem_buf_ok False ?b" "buf_mem_contents ?b = bs @ inp"
        using b1(1,3) d d' len2 fits by (simp_all add: mem_buf_ok_def buf_mem_ok_def buf_mem_contents_def del: of_nat_add)
      let ?w = "w\<lparr>w_bio := (w_bio w)(a \<mapsto> ?x\<lparr>bio_ptr := Mem_ptr ?b\<rparr>)\<rparr>"
      have "mem_write env a (Some inp) ?n w = Some (?n, ?w)"
        using x True \<open>\<not> INT_MAX - int (length bs) < ?n\<close> g b1 d
        by (simp add: mem_write_def io_simps size conv BUF_MEM_grow_clean_def del: of_nat_add)
      moreover have "mem_bio ?w a False eof (bs @ inp)"
        by (rule mem_bioI [where b = ?b and x = "?x\<lparr>bio_ptr := Mem_ptr ?b\<rparr>"]) (use x new in simp_all)
      ultimately show ?thesis by (intro exI [of _ ?n] exI [of _ ?w]) (simp add: only_at_def)
    qed
  qed
qed

lemma mem_BIO_write:
  assumes w: "mem_bio w a False eof bs" and inp: "inp \<noteq> []" "int (length inp) \<le> INT_MAX"
  shows "\<exists>r w'. BIO_write env (Some a) (Some inp) (int (length inp)) w = Some (r, w') \<and> only_at a w w' \<and>
    (if r = int (length inp) then mem_bio w' a False eof (bs @ inp)
     else r = -1 \<and> mem_bio w' a False eof bs \<and> (INT_MAX < int (length bs + length inp) \<or> memory_short env))"
proof -
  let ?n = "int (length inp)"
  obtain x where x: "w_bio w a = Some x" "bio_method x = Mem_method" "bio_init x" using w by (auto simp: mem_bio_def)
  obtain r w1 where w1: "mem_write env a (Some inp) ?n w = Some (r, w1)" "only_at a w w1"
    "if r = ?n then mem_bio w1 a False eof (bs @ inp)
     else r = -1 \<and> mem_bio w1 a False eof bs \<and> (INT_MAX < int (length bs + length inp) \<or> memory_short env)"
    using mem_write_ok [OF assms] by blast
  show ?thesis
  proof (cases "r = ?n")
    case True
    then obtain w2 where "io_modify a (\<lambda>x. x\<lparr>bio_num_write := bio_num_write x + size_of_int ?n\<rparr>) w1 = Some ((), w2)"
      "mem_bio w2 a False eof (bs @ inp)" "only_at a w1 w2"
      using w1(3) mem_bio_count(2) [of w1 a False eof "bs @ inp"] by auto
    then show ?thesis using x inp(1) w1 True only_at_trans [OF w1(2)]
      by (intro exI [of _ ?n] exI [of _ w2]) (simp add: BIO_write_def method_bwrite_def io_simps)
  next
    case False
    then show ?thesis using x inp(1) w1
      by (intro exI [of _ r] exI [of _ w1]) (simp add: BIO_write_def method_bwrite_def io_simps)
  qed
qed

lemma mem_BIO_write_read_only:
  assumes w: "mem_bio w a True eof bs" and inp: "inp \<noteq> []"
  shows "\<exists>w'. BIO_write env (Some a) (Some inp) (int (length inp)) w = Some (-1, w') \<and> mem_bio w' a True eof bs \<and>
    w_err w' = OPENSSL_PUT_ERROR (be_alloc env) (be_file_mem env) 167 ERR_LIB_BIO BIO_R_WRITE_TO_READ_ONLY_BIO (w_err w)"
proof -
  obtain x b where x: "w_bio w a = Some x" "bio_method x = Mem_method" "bio_init x" "bio_ptr x = Mem_ptr b"
    "bio_flags x AND BIO_FLAGS_MEM_RDONLY \<noteq> 0" using w by (auto simp: mem_bio_def)
  let ?w = "w\<lparr>w_err := OPENSSL_PUT_ERROR (be_alloc env) (be_file_mem env) 167 ERR_LIB_BIO BIO_R_WRITE_TO_READ_ONLY_BIO (w_err w)\<rparr>"
  have "mem_write env a (Some inp) (int (length inp)) w = Some (-1, ?w)" using x by (simp add: mem_write_def io_simps io_error_def)
  then have "BIO_write env (Some a) (Some inp) (int (length inp)) w = Some (-1, ?w)"
    using x inp by (simp add: BIO_write_def method_bwrite_def io_simps)
  moreover have "mem_bio ?w a True eof bs" using w by (simp add: mem_bio_def)
  ultimately show ?thesis by auto
qed

section \<open>Reading a whole\<close>

lemma at_most_int_value: "at_most_int len = int (min (unat len) (2 ^ 31 - 1))"
proof (cases "unat len < 2 ^ 31")
  case True
  then have "int_of_size len = int (unat len)" by (rule int_of_size_small)
  then show ?thesis using True by (auto simp: at_most_int_def INT_MAX_def word_less_nat_alt)
next
  case False
  then show ?thesis by (simp add: at_most_int_def INT_MAX_def word_less_nat_alt)
qed

lemma at_most_int_range: "len > 0 \<Longrightarrow> 0 < at_most_int len \<and> at_most_int len \<le> INT_MAX"
  by (simp add: at_most_int_value INT_MAX_def word_less_nat_alt)

lemma mem_bio_small: "mem_bio w a ro eof bs \<Longrightarrow> length bs < 2 ^ 31"
  unfolding mem_bio_def using mem_buf_length by (force simp: mem_buf_ok_def)

text \<open>One turn of the loop on a memory \<open>BIO\<close>, whose contents are shorter than \<open>INT_MAX\<close>.\<close>

lemma read_full_turn:
  assumes w: "mem_bio w a ro eof bs" and len: "0 < len" and bs: "bs \<noteq> []"
  shows "\<exists>w'. bio_read_full_loop env (Some a) out len fr w =
      bio_read_full_loop env (Some a) (out @ take (unat len) bs) (len - of_nat (min (unat len) (length bs))) False w' \<and>
    mem_bio w' a ro eof (drop (unat len) bs) \<and> only_at a w w' \<and> w_err w' = w_err w"
proof -
  have small: "length bs < 2 ^ 31" using mem_bio_small [OF w] .
  let ?n = "nat (at_most_int len)"
  have n: "?n = min (unat len) (2 ^ 31 - 1)" by (simp add: at_most_int_value)
  have k: "min ?n (length bs) = min (unat len) (length bs)" using small by (auto simp: n min_def)
  have t: "take ?n bs = take (unat len) bs" "drop ?n bs = drop (unat len) bs" using small by (auto simp: n min_def)
  obtain w1 where w1: "BIO_read env (Some a) True (at_most_int len) w =
      Some ((int (min (unat len) (length bs)), take (unat len) bs), w1)"
    "mem_bio w1 a ro eof (drop (unat len) bs)" "only_at a w w1" "w_err w1 = w_err w"
    using mem_BIO_read [OF w, of "at_most_int len" env] at_most_int_range [OF len] bs unfolding k t by auto
  define m where "m = min (unat len) (length bs)"
  have "0 < m" using len bs by (simp add: word_less_nat_alt m_def)
  then have "bio_read_full_loop env (Some a) out len fr w =
      bio_read_full_loop env (Some a) (out @ take (unat len) bs) (len - of_nat (min (unat len) (length bs))) False w1"
    using w1(1) len unfolding m_def [symmetric] by (subst bio_read_full_loop.simps) (simp add: size_of_int_def)
  then show ?thesis using w1 by blast
qed

lemma mem_read_full:
  assumes w: "mem_bio w a ro eof bs" and eof: "eof \<le> 0"
  shows "\<exists>w'. bio_read_full env (Some a) len w =
      Some (if unat len \<le> length bs then Inr (take (unat len) bs) else Inl (bs = [] \<and> eof = 0), w') \<and>
    mem_bio w' a ro eof (drop (unat len) bs) \<and> only_at a w w' \<and> w_err w' = w_err w"
proof -
  have stop: "bio_read_full_loop env (Some a) out 0 fr w = Some (Inr out, w)" for out fr w
    by (subst bio_read_full_loop.simps) simp
  have short: "\<exists>w'. bio_read_full_loop env (Some a) out len fr w = Some (Inl (fr \<and> eof = 0), w') \<and>
      mem_bio w' a ro eof [] \<and> only_at a w w' \<and> w_err w' = w_err w"
    if w: "mem_bio w a ro eof []" and pos: "0 < len" for w out fr len
  proof -
    obtain w1 where "BIO_read env (Some a) True (at_most_int len) w = Some ((eof, []), w1)"
      "mem_bio w1 a ro eof []" "only_at a w w1" "w_err w1 = w_err w"
      using mem_BIO_read [OF w, of "at_most_int len" env] at_most_int_range [OF pos] by auto
    then show ?thesis using pos eof by (subst bio_read_full_loop.simps) auto
  qed
  show ?thesis
  proof (cases "len = 0 \<or> bs = []")
    case True
    then show ?thesis using stop w short [of w len "[]" True]
      by (cases "len = 0") (auto simp: bio_read_full_def word_gt_0 unat_eq_0)
  next
    case False
    then have len: "0 < len" "bs \<noteq> []" by (simp_all add: word_gt_0)
    let ?k = "min (unat len) (length bs)"
    obtain w1 where w1: "bio_read_full env (Some a) len w =
        bio_read_full_loop env (Some a) (take (unat len) bs) (len - of_nat ?k) False w1"
      "mem_bio w1 a ro eof (drop (unat len) bs)" "only_at a w w1" "w_err w1 = w_err w"
      using read_full_turn [OF w len, of env "[]" True] by (auto simp: bio_read_full_def)
    show ?thesis
    proof (cases "unat len \<le> length bs")
      case True
      then have "len - of_nat ?k = 0" by (simp add: min_def)
      then show ?thesis using w1 True stop by auto
    next
      case False
      have "unat (len - of_nat ?k) = unat len - length bs"
        using False unat_u64_less [of len] by (simp add: min_def unat_sub word_le_nat_alt unat_of_nat_u64_small del: unat_u64_less)
      then have pos: "0 < len - of_nat ?k" using False by (simp add: word_less_nat_alt)
      obtain w2 where "bio_read_full_loop env (Some a) (take (unat len) bs) (len - of_nat ?k) False w1 = Some (Inl False, w2)"
        "mem_bio w2 a ro eof []" "only_at a w1 w2" "w_err w2 = w_err w1"
        using short [OF _ pos, of w1 "take (unat len) bs" False] w1(2) False by auto
      then show ?thesis using w1 only_at_trans [OF w1(3)] False len(2) by auto
    qed
  qed
qed

section \<open>One element\<close>

lemma asn1_fail_run: "asn1_fail env line reason w =
    Some (None, w\<lparr>w_err := OPENSSL_PUT_ERROR (be_alloc env) (be_file_bio env) line ERR_LIB_ASN1 reason (w_err w)\<rparr>)"
  by (simp add: asn1_fail_def io_simps io_error_def)

lemma only_at_err [simp]: "only_at a w (w'\<lparr>w_err := q\<rparr>) = only_at a w w'"
  by (simp add: only_at_def)

lemma mem_body:
  assumes w: "mem_bio w a ro eof s" and eof: "eof \<le> 0" and h: "length h \<le> 6"
  shows "\<exists>r w'. read_asn1_body env (Some a) h len max_len w = Some (r, w') \<and> only_at a w w' \<and>
    (if unat len + length h \<le> unat max_len \<and> unat len < 2 ^ 31 \<and> unat len \<le> length s \<and>
        OPENSSL_malloc (be_alloc env) (of_nat (unat len + length h)) \<noteq> None
     then r = Some (h @ take (unat len) s) \<and> mem_bio w' a ro eof (drop (unat len) s) \<and> w_err w' = w_err w
     else r = None)"
proof -
  let ?hl = "of_nat (length h) :: u64"
  have hl: "unat ?hl = length h" using h by (intro unat_of_nat_u64_small) simp
  show ?thesis
  proof (cases "unat len + length h \<le> unat max_len \<and> unat len < 2 ^ 31")
    case False
    then have "len + ?hl < len \<or> len + ?hl > max_len \<or> len > word_of_int INT_MAX"
      using h by (auto simp: INT_MAX_def word_less_nat_alt unat_u64_add hl)
    then show ?thesis using False by (auto simp: read_asn1_body_def Let_def asn1_fail_run)
  next
    case True
    have sum: "len + ?hl = of_nat (unat len + length h)" by simp
    have "unat (len + ?hl) = unat len + length h" using True h by (simp add: unat_u64_add hl)
    then have fits: "\<not> (len + ?hl < len \<or> len + ?hl > max_len \<or> len > word_of_int INT_MAX)" and size: "unat (len + ?hl) = unat len + length h"
      using True by (simp_all add: INT_MAX_def word_less_nat_alt)
    show ?thesis
    proof (cases "OPENSSL_malloc (be_alloc env) (len + ?hl)")
      case None
      then show ?thesis using fits by (auto simp: read_asn1_body_def Let_def asn1_fail_run)
    next
      case (Some out)
      have out: "length out = unat len + length h" using OPENSSL_malloc_length [OF Some] size by simp
      obtain w1 where w1: "bio_read_full env (Some a) len w =
          Some (if unat len \<le> length s then Inr (take (unat len) s) else Inl (s = [] \<and> eof = 0), w1)"
        "mem_bio w1 a ro eof (drop (unat len) s)" "only_at a w w1" "w_err w1 = w_err w"
        using mem_read_full [OF w eof] by blast
      show ?thesis
      proof (cases "unat len \<le> length s")
        case False
        then show ?thesis using w1 fits Some by (auto simp: read_asn1_body_def Let_def io_simps asn1_fail_run)
      next
        case True
        have "write_at (length h) (take (unat len) s) (write_at 0 h out) = h @ take (unat len) s"
          using out True by (simp add: write_at_def)
        then show ?thesis using w1 fits Some True \<open>unat len + length h \<le> unat max_len \<and> unat len < 2 ^ 31\<close>
          by (auto simp: read_asn1_body_def Let_def io_simps)
      qed
    qed
  qed
qed

lemma ucast_foldl_shift_in:
  "foldl (\<lambda>len32 b. push_bit 8 len32 OR ucast b) (ucast r) bs = (ucast (foldl shift_in r bs) :: u32)"
proof (induction bs arbitrary: r)
  case (Cons b bs)
  have "push_bit 8 (ucast r) OR ucast b = (ucast (shift_in r b) :: u32)"
    unfolding shift_in_def by (rule bit_word_eqI) (auto simp: bit_simps)
  then show ?case using Cons.IH [of "shift_in r b"] by simp
qed simp

lemma len32_value:
  assumes "length bs \<le> 4"
  shows "unat (foldl (\<lambda>len32 b. push_bit 8 len32 OR ucast b) (0 :: u32) bs) = be_nat bs"
proof -
  have "be_nat bs < 256 ^ length bs" by (rule be_nat_less)
  also have "\<dots> \<le> 256 ^ 4" using assms by (intro power_increasing) auto
  finally have "be_nat bs < 2 ^ 32" by simp
  moreover have "foldl (\<lambda>len32 b. push_bit 8 len32 OR ucast b) (0 :: u32) bs = ucast (of_nat (be_nat bs) :: u64)"
    using ucast_foldl_shift_in [of 0 bs] by (simp add: foldl_shift_in)
  ultimately show ?thesis by (simp add: unat_ucast_small unat_of_nat_u64_small)
qed

text \<open>The header decides what is read next.\<close>

lemma mem_read_asn1_head:
  assumes w: "mem_bio w a ro eof (t # b # s)" and eof: "eof \<le> 0"
  shows "\<exists>w1. bio_read_full env (Some a) 2 w = Some (Inr [t, b], w1) \<and> mem_bio w1 a ro eof s \<and> only_at a w w1 \<and> w_err w1 = w_err w"
  using mem_read_full [OF w eof, of env 2] by simp

lemma mem_read_asn1_short:
  assumes w: "mem_bio w a ro eof (t # b # s)" and eof: "eof \<le> 0" and t: "t AND 0x1f \<noteq> 0x1f" and b: "b AND 0x80 = 0"
  shows "\<exists>w1. BIO_read_asn1 env (Some a) max_len w = read_asn1_body env (Some a) [t, b] (ucast b) max_len w1 \<and>
    mem_bio w1 a ro eof s \<and> only_at a w w1 \<and> w_err w1 = w_err w"
  using mem_read_asn1_head [OF w eof, of env] t b by (auto simp: BIO_read_asn1_def io_simps Let_def)

definition long_form :: "u8 \<Rightarrow> u8 list \<Rightarrow> bool" where
  "long_form b l \<longleftrightarrow> b AND 0x80 \<noteq> 0 \<and> unat (b AND 0x7f) = length l \<and> 0 < length l \<and> length l \<le> 4"

lemma mem_read_asn1_long:
  assumes w: "mem_bio w a ro eof (t # b # l @ s)" and eof: "eof \<le> 0" and t: "t AND 0x1f \<noteq> 0x1f" and b: "long_form b l"
  shows "\<exists>w1. BIO_read_asn1 env (Some a) max_len w =
      (if be_nat l < 128 \<or> be_nat l < 256 ^ (length l - 1) then Some (None, w1)
       else read_asn1_body env (Some a) (t # b # l) (of_nat (be_nat l)) max_len w1) \<and>
    only_at a w w1 \<and> (128 \<le> be_nat l \<longrightarrow> 256 ^ (length l - 1) \<le> be_nat l \<longrightarrow> mem_bio w1 a ro eof s \<and> w_err w1 = w_err w)"
proof -
  define nb where "nb = (ucast (b AND 0x7f) :: u64)"
  have nb: "unat nb = length l" "length l \<le> 4" "0 < length l" using b by (simp_all add: nb_def long_form_def)
  have nb0: "nb \<noteq> 0" "\<not> nb > 4" using nb by (auto simp: word_less_nat_alt)
  obtain w1 where w1: "bio_read_full env (Some a) 2 w = Some (Inr [t, b], w1)" "mem_bio w1 a ro eof (l @ s)" "only_at a w w1" "w_err w1 = w_err w"
    using mem_read_asn1_head [OF w eof] by blast
  obtain w2 where w2: "bio_read_full env (Some a) nb w1 = Some (Inr l, w2)" "mem_bio w2 a ro eof s" "only_at a w1 w2" "w_err w2 = w_err w1"
    using mem_read_full [OF w1(2) eof, of env nb] nb by auto
  define len32 where "len32 = foldl (\<lambda>len32 b. push_bit 8 len32 OR ucast b) (0 :: u32) l"
  have len32: "unat len32 = be_nat l" unfolding len32_def using nb(2) by (rule len32_value)
  have sub: "unat ((nb - 1) * 8) = (length l - 1) * 8"
  proof -
    have "nb = of_nat (length l)" by (simp flip: nb(1))
    then have "(nb - 1) * 8 = of_nat ((length l - 1) * 8)" using nb(3) by (simp add: of_nat_diff Suc_le_eq)
    moreover have "unat (of_nat ((length l - 1) * 8) :: u64) = (length l - 1) * 8"
      using nb(2) by (intro unat_of_nat_u64_small) simp
    ultimately show ?thesis by simp
  qed
  have min: "len32 < 128 \<longleftrightarrow> be_nat l < 128" by (simp add: word_less_nat_alt len32)
  have top: "drop_bit (unat ((nb - 1) * 8)) len32 = 0 \<longleftrightarrow> be_nat l < 256 ^ (length l - 1)"
    unfolding sub pow256 by (simp add: word_unat_eq_iff unat_drop_bit_eq len32 drop_bit_nat_def div_eq_0_iff)
  have conv: "(ucast len32 :: u64) = of_nat (be_nat l)" by (simp add: word_unat_eq_iff flip: len32)
  have run: "BIO_read_asn1 env (Some a) max_len w =
      (if be_nat l < 128 then asn1_fail env 582 ASN1_R_DECODE_ERROR w2
       else if be_nat l < 256 ^ (length l - 1) then asn1_fail env 588 ASN1_R_DECODE_ERROR w2
       else read_asn1_body env (Some a) (t # b # l) (of_nat (be_nat l)) max_len w2)"
    using w1(1) w2(1) t b nb0
    by (simp add: BIO_read_asn1_def io_simps Let_def long_form_def flip: nb_def len32_def) (simp add: min top [simplified] conv)
  have at: "only_at a w w2" using only_at_trans [OF w1(3) w2(3)] .
  show ?thesis
  proof (cases "be_nat l < 128 \<or> be_nat l < 256 ^ (length l - 1)")
    case True
    then show ?thesis using at run by (auto simp: asn1_fail_run split: if_splits)
  next
    case False
    then show ?thesis using at run w1(4) w2(2,4) by auto
  qed
qed

text \<open>Tags of one byte.\<close>

definition low_tag :: "u32 \<Rightarrow> bool" where
  "low_tag tag \<longleftrightarrow> tag AND CBS_ASN1_TAG_NUMBER_MASK < 0x1f"

lemma low_tag_byte:
  assumes "low_tag tag"
  obtains t where "der_tag tag = [t]" and "t AND 0x1f \<noteq> 0x1f"
proof -
  from assms obtain t where t: "der_tag tag = [t]" by (auto simp: der_tag_def low_tag_def Let_def simp flip: not_less)
  have "parse_asn1_tag [t] = (Some tag, [])" using parse_asn1_tag_der [of tag "[]"] by (simp add: t)
  then have "t AND 0x1f \<noteq> 0x1f"
    by (auto simp: parse_asn1_tag_def rbind_def Let_def parse_base128_integer_def parse_base128_loop.simps)
  with t show thesis by (rule that)
qed

lemma byte_low_tag:
  assumes "t AND 0x1f \<noteq> (0x1f :: u8)"
  obtains tag where "der_tag tag = [t]" and "low_tag tag"
proof -
  have "(ucast (t AND 0x1f) :: u32) \<noteq> 0x1f"
  proof
    assume "(ucast (t AND 0x1f) :: u32) = 0x1f"
    then have "unat (ucast (t AND 0x1f) :: u32) = 31" by simp
    then have "unat (t AND 0x1f) = unat (0x1f :: u8)" by (simp add: unsigned_ucast_eq take_bit_nat_eq_self)
    then show False using assms by (simp add: word_unat_eq_iff)
  qed
  then obtain tag where "parse_asn1_tag [t] = (Some tag, [])"
    by (simp add: parse_asn1_tag_def rbind_def Let_def rreturn_def)
  then have tag: "der_tag tag = [t]" using parse_asn1_tag_SomeE by fastforce
  have "base128_enc v \<noteq> []" for v
    using length_base128_enc [of v] minimal_base128_len [of v] by (auto simp: minimal_len_def)
  with tag have "low_tag tag"
    by (auto simp: der_tag_def low_tag_def Let_def not_le split: if_splits)
  with tag show thesis by (rule that)
qed

definition asn1_room :: "bio_env \<Rightarrow> u64 \<Rightarrow> u8 list \<Rightarrow> u8 list \<Rightarrow> bool" where
  "asn1_room env max_len element contents \<longleftrightarrow> length contents < 2 ^ 31 \<and> length element \<le> unat max_len \<and>
     OPENSSL_malloc (be_alloc env) (of_nat (length element)) \<noteq> None"

lemma read_asn1_der:
  assumes w: "mem_bio w a ro eof (der_element tag c @ rest)" and eof: "eof \<le> 0" and tag: "low_tag tag"
    and room: "asn1_room env max_len (der_element tag c) c"
  shows "\<exists>w'. BIO_read_asn1 env (Some a) max_len w = Some (Some (der_element tag c), w') \<and>
    mem_bio w' a ro eof rest \<and> only_at a w w' \<and> w_err w' = w_err w"
proof -
  let ?n = "length c"
  obtain t where t: "der_tag tag = [t]" "t AND 0x1f \<noteq> 0x1f" using tag by (rule low_tag_byte)
  have n: "?n < 2 ^ 31" "length (der_element tag c) \<le> unat max_len"
    "OPENSSL_malloc (be_alloc env) (of_nat (length (der_element tag c))) \<noteq> None"
    using room by (simp_all add: asn1_room_def)
  have body: ?thesis
    if head: "BIO_read_asn1 env (Some a) max_len w = read_asn1_body env (Some a) (t # der_len ?n) (of_nat ?n) max_len w1"
      "mem_bio w1 a ro eof (c @ rest)" "only_at a w w1" "w_err w1 = w_err w" for w1
  proof -
    have len: "unat (of_nat ?n :: u64) = ?n" using n(1) by (intro unat_of_nat_u64_small) simp
    have e: "der_element tag c = (t # der_len ?n) @ c" by (simp add: der_element_def der_header_def t(1))
    have h: "length (t # der_len ?n) \<le> 6" using length_der_len [of ?n] by simp
    have m: "?n + length (t # der_len ?n) \<le> unat max_len"
      "OPENSSL_malloc (be_alloc env) (of_nat (?n + length (t # der_len ?n))) \<noteq> None"
      using n(2,3) unfolding e by (simp_all add: add.commute add.assoc)
    show ?thesis
      using mem_body [OF head(2) eof h, of env "of_nat ?n" max_len] n(1) m head(1,3,4) only_at_trans [OF head(3)]
      by (auto simp: len e simp del: of_nat_add not_None_eq)
  qed
  show ?thesis
  proof (cases "?n \<le> 0x7f")
    case True
    then have b: "der_len ?n = [of_nat ?n]" "unat (of_nat ?n :: u8) = ?n" by (simp_all add: der_len_def unat_of_nat_u8)
    have "(of_nat ?n :: u8) AND 0x80 = 0"
      using True bits_above [of "of_nat ?n :: u8" 7 7] b(2) by (simp add: u8_and_80)
    moreover have "(ucast (of_nat ?n :: u8) :: u64) = of_nat ?n" using True by (simp add: word_unat_eq_iff b(2) unat_of_nat_u64_small)
    moreover have "mem_bio w a ro eof (t # of_nat ?n # c @ rest)" using w by (simp add: der_element_def der_header_def t(1) b(1))
    ultimately show ?thesis using mem_read_asn1_short [OF _ eof t(2), of w a ro "of_nat ?n" "c @ rest" env max_len] body b(1) by force
  next
    case False
    let ?k = "len_octets ?n" and ?b = "0x80 OR of_nat (len_octets ?n) :: u8"
    have bounds: "?n < 256 ^ ?k" "256 ^ (?k - 1) \<le> ?n" using len_octets_bounds [of ?n] False n(1) by auto
    have k: "1 \<le> ?k" "?k \<le> 4" using len_octets_range by auto
    have b: "der_len ?n = ?b # be_bytes ?k ?n" "be_nat (be_bytes ?k ?n) = ?n" using False bounds(1) by (simp_all add: der_len_def)
    have "long_form ?b (be_bytes ?k ?n)" using len_octet_byte [OF k] k by (simp add: long_form_def Suc_le_eq)
    moreover have "mem_bio w a ro eof (t # ?b # be_bytes ?k ?n @ c @ rest)" using w by (simp add: der_element_def der_header_def t(1) b(1))
    ultimately show ?thesis
      using mem_read_asn1_long [OF _ eof t(2), of w a ro ?b "be_bytes ?k ?n" "c @ rest" env max_len] body False bounds(2) b by force
  qed
qed

text \<open>An element of indefinite length is not DER; the code then reads the rest of the \<open>BIO\<close>.\<close>

definition indefinite :: "u8 list \<Rightarrow> bool" where
  "indefinite bs \<longleftrightarrow> (case bs of t # b # _ \<Rightarrow> t AND 0x20 \<noteq> 0 \<and> b = 0x80 | _ \<Rightarrow> False)"

definition der_prefix :: "bio_env \<Rightarrow> u64 \<Rightarrow> u8 list \<Rightarrow> u8 list \<Rightarrow> u8 list \<Rightarrow> bool" where
  "der_prefix env max_len bs e rest \<longleftrightarrow> (\<exists>tag c. bs = der_element tag c @ rest \<and> e = der_element tag c \<and> low_tag tag \<and> asn1_room env max_len e c)"

lemma body_sound:
  assumes w: "mem_bio w a ro eof s" and eof: "eof \<le> 0" and t: "t AND 0x1f \<noteq> 0x1f" and h: "der_len (unat len) = l"
    and run: "read_asn1_body env (Some a) (t # l) len max_len w = Some (Some e, w')"
  shows "\<exists>rest. der_prefix env max_len (t # l @ s) e rest \<and> mem_bio w' a ro eof rest"
proof -
  obtain tag where tag: "der_tag tag = [t]" "low_tag tag" using t by (rule byte_low_tag)
  have l: "length (t # l) \<le> 6" using length_der_len [of "unat len"] h by simp
  let ?c = "take (unat len) s"
  from mem_body [OF w eof l, of env len max_len] run
  have r: "unat len + length (t # l) \<le> unat max_len" "unat len < 2 ^ 31" "unat len \<le> length s"
    "OPENSSL_malloc (be_alloc env) (of_nat (unat len + length (t # l))) \<noteq> None"
    "e = (t # l) @ ?c" "mem_bio w' a ro eof (drop (unat len) s)"
    by (auto split: if_splits)
  have c: "length ?c = unat len" using r(3) by simp
  have e: "e = der_element tag ?c" using r(5) c h by (simp add: der_element_def der_header_def tag(1))
  have "length e = unat len + length (t # l)" using r(5) c by simp
  then have "asn1_room env max_len e ?c" using r(1,2,4) c by (simp only: asn1_room_def) simp
  moreover have "t # l @ s = der_element tag ?c @ drop (unat len) s" using r(5) e by simp
  ultimately show ?thesis using e tag(2) r(6) by (auto simp: der_prefix_def)
qed

lemma read_asn1_sound:
  assumes w: "mem_bio w a ro eof bs" and eof: "eof \<le> 0" and def: "\<not> indefinite bs"
    and run: "BIO_read_asn1 env (Some a) max_len w = Some (Some e, w')"
  shows "\<exists>rest. der_prefix env max_len bs e rest \<and> mem_bio w' a ro eof rest"
proof -
  note open_def = BIO_read_asn1_def io_simps asn1_fail_run Let_def
  have "2 \<le> length bs"
    using mem_read_full [OF w eof, of env 2] run by (auto simp: open_def split: if_splits)
  then obtain t b s where bs: "bs = t # b # s" by (cases bs; cases "tl bs") auto
  note w = w [unfolded bs]
  note head = mem_read_asn1_head [OF w eof, of env]
  have t: "t AND 0x1f \<noteq> 0x1f" using head run by (auto simp: open_def)
  show ?thesis
  proof (cases "b AND 0x80 = 0")
    case True
    obtain w1 where w1: "read_asn1_body env (Some a) [t, b] (ucast b) max_len w1 = Some (Some e, w')" "mem_bio w1 a ro eof s"
      using mem_read_asn1_short [OF w eof t True, of env max_len] run by auto
    have "der_len (unat (ucast b :: u64)) = [b]" using der_len_short [OF True] by simp
    then show ?thesis using body_sound [OF w1(2) eof t _ w1(1)] bs by simp
  next
    case False
    define nb where "nb = (ucast (b AND 0x7f) :: u64)"
    have k: "unat nb = unat (b AND 0x7f)" by (simp add: nb_def)
    obtain w1 where w1: "bio_read_full env (Some a) 2 w = Some (Inr [t, b], w1)" "mem_bio w1 a ro eof s" using head by blast
    have "nb \<noteq> 0 \<and> \<not> nb > 4 \<and> unat nb \<le> length s"
    proof -
      have "t AND 0x20 = 0" if "nb = 0"
      proof -
        have "b AND 0x7f = 0" using that by (simp add: unat_eq_0 [symmetric] k)
        then have "b = 0x80" using False u8_split_80 [of b] by simp
        then show ?thesis using def bs by (simp add: indefinite_def)
      qed
      then have nb: "nb \<noteq> 0 \<and> \<not> nb > 4"
        using run w1(1) False t by (auto simp: open_def nb_def [symmetric] split: if_splits)
      then show ?thesis
        using run w1(1) False t mem_read_full [OF w1(2) eof, of env nb]
        by (auto simp: open_def nb_def [symmetric] split: if_splits)
    qed
    then have nb: "0 < unat (b AND 0x7f)" "unat (b AND 0x7f) \<le> 4" "unat (b AND 0x7f) \<le> length s"
      using unat_gt_0 [of nb] by (auto simp: word_less_nat_alt k)
    define l where "l = take (unat (b AND 0x7f)) s"
    define s' where "s' = drop (unat (b AND 0x7f)) s"
    have s: "s = l @ s'" by (simp add: l_def s'_def)
    have form: "long_form b l" using False nb by (simp add: long_form_def l_def)
    obtain w2 where w2: "BIO_read_asn1 env (Some a) max_len w =
        (if be_nat l < 128 \<or> be_nat l < 256 ^ (length l - 1) then Some (None, w2)
         else read_asn1_body env (Some a) (t # b # l) (of_nat (be_nat l)) max_len w2)"
      "128 \<le> be_nat l \<longrightarrow> 256 ^ (length l - 1) \<le> be_nat l \<longrightarrow> mem_bio w2 a ro eof s'"
      using mem_read_asn1_long [OF w [unfolded s] eof t form, of env max_len] by blast
    have val: "128 \<le> be_nat l" "256 ^ (length l - 1) \<le> be_nat l"
      and body: "read_asn1_body env (Some a) (t # b # l) (of_nat (be_nat l)) max_len w2 = Some (Some e, w')"
      using w2(1) run by (auto split: if_splits)
    have "be_nat l < 256 ^ length l" by (rule be_nat_less)
    also have "\<dots> \<le> 256 ^ 4" using form by (intro power_increasing) (auto simp: long_form_def)
    finally have "unat (of_nat (be_nat l) :: u64) = be_nat l" by (intro unat_of_nat_u64_small) simp
    then have "der_len (unat (of_nat (be_nat l) :: u64)) = b # l"
      using form val by (simp add: der_len_long long_form_def)
    then show ?thesis using body_sound [OF _ eof t _ body] w2(2) val bs s by simp
  qed
qed

section \<open>New memory BIOs\<close>

lemma BIO_new_mem:
  assumes "BIO_new env Mem_method w = Some (Some a, w1)"
  shows "mem_bio w1 a False (-1) [] \<and> a = w_next w"
proof -
  let ?x = "\<lparr>bio_method = Mem_method, bio_init = True, bio_shutdown = 1, bio_flags = 0, bio_retry_reason = 0, bio_num = -1,
       bio_references = 1, bio_ptr = Mem_ptr BUF_MEM_zero, bio_next_bio = None, bio_num_read = 0, bio_num_write = 0\<rparr>"
  have w1: "a = w_next w \<and> w_bio w1 a = Some ?x"
  proof (cases "OPENSSL_malloc (be_alloc env) 80")
    case (Some blk)
    then show ?thesis using assms
      by (cases "OPENSSL_malloc (be_alloc env) 24")
        (auto simp: BIO_new_def method_create_def mem_new_def BUF_MEM_new_def io_simps)
  qed (use assms in \<open>simp add: BIO_new_def bio_put_error_def io_error_def io_simps\<close>)
  then show ?thesis
    by (auto intro!: mem_bioI [where x = ?x and b = BUF_MEM_zero] simp: BUF_MEM_zero_def mem_buf_ok_def buf_mem_ok_def buf_mem_contents_def)
qed

lemma BIO_new_mem_buf_ok:
  assumes "length bs < 2 ^ 31" and "BIO_new_mem_buf env (Some bs) (int (length bs)) w = Some (Some a, w1)"
  shows "mem_bio w1 a True 0 bs"
proof -
  obtain a' w' where new: "BIO_new env Mem_method w = Some (Some a', w')"
    using assms(2) by (auto simp: BIO_new_mem_buf_def io_simps Let_def split: option.splits)
  obtain x b where x: "w_bio w' a' = Some x" "bio_method x = Mem_method" "bio_init x" "bio_ptr x = Mem_ptr b" "buf_mem_ok b"
    using BIO_new_mem [OF new] by (auto simp: mem_bio_def mem_buf_ok_def)
  let ?n = "of_nat (length bs) :: u64"
  let ?b = "b\<lparr>bm_data := Some bs, bm_length := ?n, bm_max := ?n\<rparr>"
  let ?x = "x\<lparr>bio_ptr := Mem_ptr ?b, bio_flags := bio_flags x OR BIO_FLAGS_MEM_RDONLY, bio_num := 0\<rparr>"
  have n: "unat ?n = length bs" using assms(1) by (intro unat_of_nat_u64_small) simp
  have "a = a'" "w1 = w'\<lparr>w_bio := (w_bio w')(a' \<mapsto> ?x)\<rparr>"
    using assms(2) new x by (auto simp: BIO_new_mem_buf_def io_simps Let_def size_of_int_def)
  moreover have "(bio_flags x OR BIO_FLAGS_MEM_RDONLY) AND BIO_FLAGS_MEM_RDONLY \<noteq> 0"
    by (simp add: and.commute BIO_FLAGS_MEM_RDONLY_def)
  moreover have "bm_start b = 0" using x(5) by (simp add: buf_mem_ok_def)
  ultimately show ?thesis
    using x n assms(1) by (intro mem_bioI [where x = ?x and b = ?b]) (simp_all add: mem_buf_ok_def buf_mem_contents_def)
qed

section \<open>Properties\<close>

text \<open>Calls on one memory \<open>BIO\<close>: the bytes that were accepted and the bytes that were delivered.\<close>

fun mem_run :: "bio_env \<Rightarrow> nat \<Rightarrow> fifo_op list \<Rightarrow> (u8 list \<times> u8 list) bio_io" where
  "mem_run env a [] = io_return ([], [])"
| "mem_run env a (Put_bytes bs # ops) =
     io_bind (BIO_write env (Some a) (Some bs) (int (length bs))) (\<lambda>r.
     io_bind (mem_run env a ops) (\<lambda>(i, u). io_return (take (nat r) bs @ i, u)))"
| "mem_run env a (Get_bytes n # ops) =
     io_bind (BIO_read env (Some a) True (int n)) (\<lambda>(r, out).
     io_bind (mem_run env a ops) (\<lambda>(i, u). io_return (i, take (nat r) out @ u)))"

fun fifo_op_ok :: "fifo_op \<Rightarrow> bool" where
  "fifo_op_ok (Put_bytes bs) = (length bs < 2 ^ 31)"
| "fifo_op_ok (Get_bytes n) = (n < 2 ^ 31)"

lemma mem_run_ok:
  "mem_bio w a False eof bs \<Longrightarrow> list_all fifo_op_ok ops \<Longrightarrow>
   \<exists>i u w'. mem_run env a ops w = Some ((i, u), w') \<and> (\<exists>rest. bs @ i = u @ rest \<and> mem_bio w' a False eof rest)"
proof (induction ops arbitrary: w bs)
  case (Cons x ops)
  show ?case
  proof (cases x)
    case (Put_bytes inp)
    show ?thesis
    proof (cases "inp = []")
      case True
      obtain y where y: "w_bio w a = Some y" "bio_init y" using Cons.prems(1) by (auto simp: mem_bio_def)
      then have "BIO_write env (Some a) (Some []) 0 w = Some (0, w)" by (simp add: BIO_write_def io_simps)
      then show ?thesis using Cons.IH [OF Cons.prems(1)] Cons.prems(2) Put_bytes True by (auto simp: io_simps)
    next
      case False
      obtain r w1 where r: "BIO_write env (Some a) (Some inp) (int (length inp)) w = Some (r, w1)"
        "mem_bio w1 a False eof (bs @ take (nat r) inp)"
        using mem_BIO_write [OF Cons.prems(1) False, of env] Cons.prems(2) Put_bytes
        by (auto simp: INT_MAX_def split: if_splits)
      then show ?thesis using Cons.IH [OF r(2)] Cons.prems(2) Put_bytes by (fastforce simp: io_simps)
    qed
  next
    case (Get_bytes n)
    show ?thesis
    proof (cases "n = 0")
      case True
      obtain y where y: "w_bio w a = Some y" "bio_init y" using Cons.prems(1) by (auto simp: mem_bio_def)
      then have "BIO_read env (Some a) True 0 w = Some ((0, []), w)" by (simp add: BIO_read_def io_simps)
      then show ?thesis using Cons.IH [OF Cons.prems(1)] Cons.prems(2) Get_bytes True by (auto simp: io_simps)
    next
      case False
      define r where "r = (if bs = [] then eof else int (min n (length bs)))"
      obtain w1 where r: "BIO_read env (Some a) True (int n) w = Some ((r, take n bs), w1)" "mem_bio w1 a False eof (drop n bs)"
        using mem_BIO_read [OF Cons.prems(1), of "int n" env] False Cons.prems(2) Get_bytes by (auto simp: INT_MAX_def r_def)
      have out: "take (nat r) (take n bs) = take n bs" by (simp add: r_def min_def)
      then obtain i u w' rest where "mem_run env a ops w1 = Some ((i, u), w')" "drop n bs @ i = u @ rest" "mem_bio w' a False eof rest"
        using Cons.IH [OF r(2)] Cons.prems(2) by auto
      moreover from this(2) have "bs @ i = (take n bs @ u) @ rest" by (metis append.assoc append_take_drop_id)
      ultimately show ?thesis using r(1) Get_bytes out
        by (intro exI [of _ i] exI [of _ "take n bs @ u"] exI [of _ w'] exI [of _ rest]) (simp add: io_simps del: take_take)
    qed
  qed
qed (simp add: io_simps)

text \<open>
  C33: After any sequence of \<open>BIO_write\<close> and \<open>BIO_read\<close> calls on a new memory \<open>BIO\<close> (of less than 2^31
  bytes each; no \<open>BIO_reset\<close>, \<open>BIO_gets\<close> or \<open>BIO_read_asn1\<close>), with an allocator that may refuse any
  of them, the bytes that were delivered followed by the bytes the \<open>BIO\<close> holds are the bytes that were
  accepted.
\<close>

theorem mem_bio_fifo:
  assumes "BIO_new env Mem_method w = Some (Some a, w1)" and "list_all fifo_op_ok ops"
  shows "\<exists>i u rest w2. mem_run env a ops w1 = Some ((i, u), w2) \<and> i = u @ rest \<and> BIO_mem_contents a w2 = Some (Some rest, w2)"
proof -
  have "mem_bio w1 a False (-1) []" using BIO_new_mem [OF assms(1)] by blast
  then obtain i u w2 rest where r: "mem_run env a ops w1 = Some ((i, u), w2)" "[] @ i = u @ rest" "mem_bio w2 a False (-1) rest"
    using mem_run_ok [OF _ assms(2), of w1 a "-1" "[]" env] by blast
  moreover from r(3) have "BIO_mem_contents a w2 = Some (Some rest, w2)" by (auto simp: mem_bio_def BIO_mem_contents_def io_simps)
  ultimately show ?thesis by auto
qed

text \<open>
  C34: A write to a memory \<open>BIO\<close> either appends all the bytes or returns -1 and leaves its contents as
  they were. It succeeds on no read-only \<open>BIO\<close> (one made by \<open>BIO_new_mem_buf\<close>), where it reports
  \<open>BIO_R_WRITE_TO_READ_ONLY_BIO\<close>; on a writable one it fails only when the contents would exceed
  \<open>INT_MAX\<close> or a block is refused.
\<close>

theorem mem_bio_write:
  assumes "mem_bio w a ro eof bs" and "inp \<noteq> []" and "int (length inp) \<le> INT_MAX"
  shows "\<exists>r w'. BIO_write env (Some a) (Some inp) (int (length inp)) w = Some (r, w') \<and>
    (if r = int (length inp) then \<not> ro \<and> mem_bio w' a ro eof (bs @ inp)
     else r = -1 \<and> mem_bio w' a ro eof bs \<and>
       (if ro then w_err w' = OPENSSL_PUT_ERROR (be_alloc env) (be_file_mem env) 167 ERR_LIB_BIO BIO_R_WRITE_TO_READ_ONLY_BIO (w_err w)
        else INT_MAX < int (length bs + length inp) \<or> memory_short env))"
proof (cases ro)
  case True
  then show ?thesis using mem_BIO_write_read_only [OF _ assms(2), of w a eof bs env] assms(1) by force
next
  case False
  then obtain r w' where "BIO_write env (Some a) (Some inp) (int (length inp)) w = Some (r, w')"
    "if r = int (length inp) then mem_bio w' a False eof (bs @ inp)
     else r = -1 \<and> mem_bio w' a False eof bs \<and> (INT_MAX < int (length bs + length inp) \<or> memory_short env)"
    using mem_BIO_write [OF _ assms(2,3), of w a eof bs env] assms(1) by auto
  then show ?thesis using False by (intro exI [of _ r] exI [of _ w']) (simp del: of_nat_add)
qed

text \<open>
  C32: On a memory \<open>BIO\<close>, outside the indefinite form, \<open>BIO_read_asn1\<close> returns an element and leaves the
  rest exactly when \<open>CBS_get_any_asn1_element\<close> reads that element off the contents and leaves that rest,
  the tag number is below 31, and the element is within \<open>max_len\<close>, \<open>INT_MAX\<close> and memory: the two parsers
  of the library agree.
\<close>

theorem bio_read_asn1_iff:
  assumes "mem_bio w a ro eof bs" and "eof \<le> 0" and "\<not> indefinite bs"
  shows "(\<exists>w'. BIO_read_asn1 env (Some a) max_len w = Some (Some e, w') \<and> mem_bio w' a ro eof rest) \<longleftrightarrow>
    (\<exists>el. CBS_get_any_asn1_element bs = (Some el, rest) \<and> el_out el = e \<and> low_tag (el_tag el) \<and>
       asn1_room env max_len e (drop (unat (el_header_len el)) e))" (is "?L \<longleftrightarrow> ?R")
proof -
  have el: "drop (unat (of_nat (length (der_header tag (length c))) :: u64)) (der_element tag c) = c" for tag c
    using length_der_header [of tag "length c"] by (simp add: der_element_def unat_of_nat_u64_small)
  show ?thesis
  proof
    assume ?L
    then obtain w' rest' where r: "der_prefix env max_len bs e rest'" "mem_bio w' a ro eof rest'" "mem_bio w' a ro eof rest"
      using read_asn1_sound [OF assms] by blast
    then have "rest' = rest" by (auto simp: mem_bio_def)
    then obtain tag c where e: "bs = der_element tag c @ rest" "e = der_element tag c" "low_tag tag" "asn1_room env max_len e c"
      using r(1) by (auto simp: der_prefix_def)
    then have "length c < 2 ^ 32" by (simp add: asn1_room_def)
    then show ?R using get_element_der [of c False tag rest] e el [of tag c] by (simp add: CBS_get_any_asn1_element_def)
  next
    assume ?R
    then obtain x where x: "CBS_get_any_asn1_element bs = (Some x, rest)" "el_out x = e" "low_tag (el_tag x)"
      "asn1_room env max_len e (drop (unat (el_header_len x)) e)" by blast
    obtain tag c where c: "bs = der_element tag c @ rest" "x = \<lparr>el_out = der_element tag c, el_tag = tag,
        el_header_len = of_nat (length (der_header tag (length c))), el_ber_found = False\<rparr>"
      using x(1) by (rule get_element_canonical)
    with x have "e = der_element tag c" "low_tag tag" "asn1_room env max_len (der_element tag c) c"
      using el [of tag c] by auto
    then show ?L using read_asn1_der [of w a ro eof tag c rest env max_len] assms(1,2) c(1) by blast
  qed
qed

text \<open>Results of a read that are neither a count, 0 nor -1.\<close>

lemma read_all_minus_two:
  assumes "mem_bio w a ro (-2) []" and "0 < unat (max_len - done)" and "unat (max_len - done) < 2 ^ 31"
  shows "bio_read_all_loop env (Some a) max_len out max_len done w = None"
  using assms
proof (induction "2 ^ 31 - unat (max_len - done)" arbitrary: w "done" rule: less_induct)
  case less
  let ?d = "unat (max_len - done)"
  have ne: "done \<noteq> max_len" using less.prems(2) by auto
  show ?case
  proof (cases "max_len - done < word_of_int INT_MAX")
    case False
    then show ?thesis using ne by (subst bio_read_all_loop.simps) simp
  next
    case True
    have d: "int_of_size (max_len - done) = int ?d" using less.prems(3) by (rule int_of_size_small)
    have "?d \<le> 0x7fffffff" using less.prems(3) by simp
    then have range: "0 < int ?d" "int ?d \<le> INT_MAX" unfolding INT_MAX_def using less.prems(2) by linarith+
    obtain w1 where w1: "BIO_read env (Some a) True (int ?d) w = Some ((-2, []), w1)" "mem_bio w1 a ro (-2) []"
      using mem_BIO_read [OF less.prems(1) range, of env] unfolding take_Nil drop_Nil by auto
    let ?done = "done + size_of_int (-2)"
    have eq: "max_len - ?done = (max_len - done) + 2" by (simp add: size_of_int_def)
    have "?d < 0x7fffffff" using True by (simp add: INT_MAX_def word_less_nat_alt)
    then have d2: "unat (max_len - ?done) = ?d + 2" unfolding eq by (simp add: unat_u64_add)
    have "bio_read_all_loop env (Some a) max_len out max_len ?done w1 = None"
    proof (cases "?d + 2 < 2 ^ 31")
      case True
      show ?thesis
        by (rule less.hyps) (use True d2 w1(2) less.prems(3) in simp_all)
    next
      case False
      then have "?done \<noteq> max_len" "\<not> max_len - ?done < word_of_int INT_MAX"
        using d2 by (auto simp: INT_MAX_def word_less_nat_alt)
      then show ?thesis by (subst bio_read_all_loop.simps) simp
    qed
    then show ?thesis using ne True w1(1) by (subst bio_read_all_loop.simps) (simp add: d)
  qed
qed

text \<open>
  On a memory \<open>BIO\<close> that returns -2 at its end, a value \<open>BIO_set_mem_eof_return\<close> accepts, reading an
  element of indefinite length of which only the header is there has no result: the loop counts the
  -2 as bytes until the space left is no longer below \<open>INT_MAX\<close>, and its assertion fails.
\<close>

lemma bio_read_asn1_minus_two:
  assumes "mem_bio w a ro (-2) [t, 0x80]" and "t AND 0x1f \<noteq> 0x1f" and "t AND 0x20 \<noteq> 0"
    and "2 < unat max_len" and "unat max_len \<le> 4098" and "OPENSSL_malloc (be_alloc env) max_len \<noteq> None"
  shows "BIO_read_asn1 env (Some a) max_len w = None"
proof -
  obtain w1 where w1: "bio_read_full env (Some a) 2 w = Some (Inr [t, 0x80], w1)" "mem_bio w1 a ro (-2) []"
    using mem_read_asn1_head [OF assms(1)] by auto
  obtain out where out: "OPENSSL_malloc (be_alloc env) max_len = Some out" using assms(6) by auto
  have size: "max_len \<le> 4098" "\<not> max_len < 2" using assms(4,5) by (simp_all add: word_le_nat_alt word_less_nat_alt)
  have "unat (max_len - 2) = unat max_len - 2" using assms(4) by (simp add: unat_sub word_le_nat_alt)
  then have "bio_read_all_loop env (Some a) max_len (write_at 0 [t, 0x80] out) max_len 2 w1 = None"
    using assms(4,5) by (intro read_all_minus_two [OF w1(2)]) simp_all
  then have "bio_read_all env (Some a) [t, 0x80] max_len w1 = None"
    using size out by (cases "max_len < 4098") (auto simp: bio_read_all_def Let_def kChunkSize_def)
  then show ?thesis using w1(1) assms(2,3) by (simp add: BIO_read_asn1_def io_simps Let_def)
qed

section \<open>Runs of the properties\<close>

lemma new_mem0: "\<exists>w. BIO_new env0 Mem_method world0 = Some (Some 0, w)"
proof -
  have "OPENSSL_malloc (be_alloc env0) 80 \<noteq> None" "OPENSSL_malloc (be_alloc env0) 24 \<noteq> None"
    by (rule env0_malloc, simp)+
  then show ?thesis by (auto simp: BIO_new_def method_create_def mem_new_def BUF_MEM_new_def io_simps world0_def)
qed

lemma memory_short0: "\<not> memory_short env0"
proof
  assume "memory_short env0"
  then obtain n where "unat n \<le> 2 ^ 33" "OPENSSL_malloc (be_alloc env0) n = None" by (auto simp: memory_short_def)
  with env0_malloc [of n] show False by simp
qed

theorem mem_bio_fifo_witness:
  "\<exists>w1 i u rest w2. BIO_new env0 Mem_method world0 = Some (Some 0, w1) \<and>
     mem_run env0 0 [Put_bytes [1, 2, 3], Get_bytes 2, Put_bytes [4], Get_bytes 9] w1 = Some ((i, u), w2) \<and> i = u @ rest \<and>
     BIO_mem_contents 0 w2 = Some (Some rest, w2)"
proof -
  obtain w1 where w1: "BIO_new env0 Mem_method world0 = Some (Some 0, w1)" using new_mem0 by blast
  show ?thesis using mem_bio_fifo [OF w1, of "[Put_bytes [1, 2, 3], Get_bytes 2, Put_bytes [4], Get_bytes 9]"] w1 by simp
qed

theorem mem_bio_write_witness:
  "\<exists>w1 w2. BIO_new env0 Mem_method world0 = Some (Some 0, w1) \<and> BIO_write env0 (Some 0) (Some [1, 2, 3]) 3 w1 = Some (3, w2) \<and>
     mem_bio w2 0 False (-1) [1, 2, 3]"
proof -
  obtain w1 where w1: "BIO_new env0 Mem_method world0 = Some (Some 0, w1)" using new_mem0 by blast
  obtain r w2 where "BIO_write env0 (Some 0) (Some [1, 2, 3]) 3 w1 = Some (r, w2)"
    "if r = 3 then mem_bio w2 0 False (-1) [1, 2, 3] else INT_MAX < 3"
    using mem_bio_write [of w1 0 False "-1" "[]" "[1, 2, 3]" env0] BIO_new_mem [OF w1] memory_short0
    by (auto simp: INT_MAX_def split: if_splits)
  then show ?thesis using w1 by (auto simp: INT_MAX_def split: if_splits)
qed

text \<open>An OCTET STRING with one byte behind it.\<close>

lemma new_mem_buf0: "\<exists>w. BIO_new_mem_buf env0 (Some bs) (int (length bs)) world0 = Some (Some 0, w)"
proof -
  obtain w1 where w1: "BIO_new env0 Mem_method world0 = Some (Some 0, w1)" using new_mem0 by blast
  then obtain x b where "w_bio w1 0 = Some x" "bio_ptr x = Mem_ptr b" using BIO_new_mem [OF w1] by (auto simp: mem_bio_def)
  then show ?thesis using w1 by (auto simp: BIO_new_mem_buf_def io_simps Let_def)
qed

theorem bio_read_asn1_iff_witness:
  "\<exists>w w'. BIO_new_mem_buf env0 (Some [4, 2, 0xaa, 0xbb, 5]) 5 world0 = Some (Some 0, w) \<and>
     BIO_read_asn1 env0 (Some 0) 100 w = Some (Some [4, 2, 0xaa, 0xbb], w') \<and> mem_bio w' 0 True 0 [5]"
proof -
  let ?bs = "[4, 2, 0xaa, 0xbb, 5] :: u8 list"
  obtain w where w: "BIO_new_mem_buf env0 (Some ?bs) 5 world0 = Some (Some 0, w)" using new_mem_buf0 [of ?bs] by auto
  have bio: "mem_bio w 0 True 0 ?bs" using BIO_new_mem_buf_ok [of ?bs env0 world0 0 w] w by simp
  have e: "der_element 4 [0xaa, 0xbb] = [4, 2, 0xaa, 0xbb]"
    by (simp add: der_element_def der_header_def der_tag_def der_len_def Let_def CBS_ASN1_TAG_NUMBER_MASK_def CBS_ASN1_TAG_SHIFT_def)
  have two: "length [0xaa, 0xbb :: u8] = 2" by simp
  have "CBS_get_any_asn1_element ?bs = (Some \<lparr>el_out = [4, 2, 0xaa, 0xbb], el_tag = 4,
      el_header_len = of_nat (length (der_header 4 2)), el_ber_found = False\<rparr>, [5])"
    using get_element_der [of "[0xaa, 0xbb]" False 4 "[5]"] unfolding e two by (simp add: CBS_get_any_asn1_element_def)
  moreover have "asn1_room env0 100 [4, 2, 0xaa, 0xbb] x" if "length x < 2 ^ 31" for x
    using env0_malloc [of 4] that by (simp add: asn1_room_def del: not_None_eq)
  moreover have "low_tag 4" by (simp add: low_tag_def CBS_ASN1_TAG_NUMBER_MASK_def CBS_ASN1_TAG_SHIFT_def)
  ultimately have "\<exists>w'. BIO_read_asn1 env0 (Some 0) 100 w = Some (Some [4, 2, 0xaa, 0xbb], w') \<and> mem_bio w' 0 True 0 [5]"
    by (subst bio_read_asn1_iff [OF bio]) (auto simp: indefinite_def)
  then show ?thesis using w by blast
qed

lemma bio_read_asn1_minus_two_run:
  "\<exists>w1 w2 w3. BIO_new env0 Mem_method world0 = Some (Some 0, w1) \<and> BIO_set_mem_eof_return env0 (Some 0) (-2) w1 = Some (1, w2) \<and>
     BIO_write env0 (Some 0) (Some [0x30, 0x80]) 2 w2 = Some (2, w3) \<and> BIO_read_asn1 env0 (Some 0) 100 w3 = None"
proof -
  obtain w1 where w1: "BIO_new env0 Mem_method world0 = Some (Some 0, w1)" using new_mem0 by blast
  obtain x b where x: "w_bio w1 0 = Some x" "bio_method x = Mem_method" "bio_init x" "bio_ptr x = Mem_ptr b"
    "bio_flags x AND BIO_FLAGS_MEM_RDONLY = 0" "mem_buf_ok False b" "[] = buf_mem_contents b"
    using BIO_new_mem [OF w1] by (auto simp: mem_bio_def)
  let ?w = "w1\<lparr>w_bio := (w_bio w1)(0 \<mapsto> x\<lparr>bio_num := -2\<rparr>)\<rparr>"
  have eof: "BIO_set_mem_eof_return env0 (Some 0) (-2) w1 = Some (1, ?w)"
    using x by (simp add: BIO_set_mem_eof_return_def BIO_ctrl_def mem_ctrl_def io_int_def io_simps bio_cmds)
  have "mem_bio ?w 0 False (-2) []" by (rule mem_bioI [where b = b and x = "x\<lparr>bio_num := -2\<rparr>"]) (use x in simp_all)
  then obtain w3 where w3: "BIO_write env0 (Some 0) (Some [0x30, 0x80]) 2 ?w = Some (2, w3)" "mem_bio w3 0 False (-2) [0x30, 0x80]"
    using mem_BIO_write [of ?w 0 "-2" "[]" "[0x30, 0x80]" env0] memory_short0 by (auto simp: INT_MAX_def split: if_splits)
  have "OPENSSL_malloc (be_alloc env0) 100 \<noteq> None" by (rule env0_malloc) simp
  then have "BIO_read_asn1 env0 (Some 0) 100 w3 = None" using bio_read_asn1_minus_two [OF w3(2), of 100 env0] by simp
  then show ?thesis using w1 eof w3(1) by blast
qed

end
