(* ===== verification/Pb_State.thy ===== *)
theory Pb_State
  imports Prelude
begin

text \<open>
  nanopb (Pods/nanopb), built as the pod does with \<open>PB_FIELD_32BIT\<close> and \<open>PB_ENABLE_MALLOC\<close>: field
  descriptors and the memory messages live in. Addresses have 64 bits, the host is little-endian, and
  an access outside the allocated bytes has no result.
\<close>

section \<open>Memory\<close>

type_synonym pb_mem = "u64 \<Rightarrow> u8 option"

fun load_bytes :: "pb_mem \<Rightarrow> u64 \<Rightarrow> nat \<Rightarrow> u8 list option" where
  "load_bytes m a 0 = Some []"
| "load_bytes m a (Suc n) =
     (case m a of None \<Rightarrow> None | Some b \<Rightarrow> map_option ((#) b) (load_bytes m (a + 1) n))"

text \<open>A little-endian number.\<close>

definition load_nat :: "pb_mem \<Rightarrow> u64 \<Rightarrow> nat \<Rightarrow> nat option" where
  "load_nat m a n = map_option (\<lambda>bs. be_nat (rev bs)) (load_bytes m a n)"

definition load_u8 :: "pb_mem \<Rightarrow> u64 \<Rightarrow> u8 option" where
  "load_u8 m a = m a"

definition load_u16 :: "pb_mem \<Rightarrow> u64 \<Rightarrow> 16 word option" where
  "load_u16 m a = map_option of_nat (load_nat m a 2)"

definition load_u32 :: "pb_mem \<Rightarrow> u64 \<Rightarrow> u32 option" where
  "load_u32 m a = map_option of_nat (load_nat m a 4)"

definition load_u64 :: "pb_mem \<Rightarrow> u64 \<Rightarrow> u64 option" where
  "load_u64 m a = map_option of_nat (load_nat m a 8)"

definition NULL :: u64 where
  "NULL = 0"

section \<open>Field descriptors\<close>

definition PB_LTYPE_BOOL :: u8 where "PB_LTYPE_BOOL = 0x00"
definition PB_LTYPE_VARINT :: u8 where "PB_LTYPE_VARINT = 0x01"
definition PB_LTYPE_UVARINT :: u8 where "PB_LTYPE_UVARINT = 0x02"
definition PB_LTYPE_SVARINT :: u8 where "PB_LTYPE_SVARINT = 0x03"
definition PB_LTYPE_FIXED32 :: u8 where "PB_LTYPE_FIXED32 = 0x04"
definition PB_LTYPE_FIXED64 :: u8 where "PB_LTYPE_FIXED64 = 0x05"
definition PB_LTYPE_LAST_PACKABLE :: u8 where "PB_LTYPE_LAST_PACKABLE = 0x05"
definition PB_LTYPE_BYTES :: u8 where "PB_LTYPE_BYTES = 0x06"
definition PB_LTYPE_STRING :: u8 where "PB_LTYPE_STRING = 0x07"
definition PB_LTYPE_SUBMESSAGE :: u8 where "PB_LTYPE_SUBMESSAGE = 0x08"
definition PB_LTYPE_EXTENSION :: u8 where "PB_LTYPE_EXTENSION = 0x09"
definition PB_LTYPE_FIXED_LENGTH_BYTES :: u8 where "PB_LTYPE_FIXED_LENGTH_BYTES = 0x0a"
definition PB_LTYPE_MASK :: u8 where "PB_LTYPE_MASK = 0x0f"

definition PB_HTYPE_REQUIRED :: u8 where "PB_HTYPE_REQUIRED = 0x00"
definition PB_HTYPE_OPTIONAL :: u8 where "PB_HTYPE_OPTIONAL = 0x10"
definition PB_HTYPE_REPEATED :: u8 where "PB_HTYPE_REPEATED = 0x20"
definition PB_HTYPE_ONEOF :: u8 where "PB_HTYPE_ONEOF = 0x30"
definition PB_HTYPE_MASK :: u8 where "PB_HTYPE_MASK = 0x30"

definition PB_ATYPE_STATIC :: u8 where "PB_ATYPE_STATIC = 0x00"
definition PB_ATYPE_POINTER :: u8 where "PB_ATYPE_POINTER = 0x80"
definition PB_ATYPE_CALLBACK :: u8 where "PB_ATYPE_CALLBACK = 0x40"
definition PB_ATYPE_MASK :: u8 where "PB_ATYPE_MASK = 0xc0"

definition PB_ATYPE :: "u8 \<Rightarrow> u8" where "PB_ATYPE x = x AND PB_ATYPE_MASK"
definition PB_HTYPE :: "u8 \<Rightarrow> u8" where "PB_HTYPE x = x AND PB_HTYPE_MASK"
definition PB_LTYPE :: "u8 \<Rightarrow> u8" where "PB_LTYPE x = x AND PB_LTYPE_MASK"

lemmas pb_ltypes = PB_LTYPE_BOOL_def PB_LTYPE_VARINT_def PB_LTYPE_UVARINT_def PB_LTYPE_SVARINT_def
  PB_LTYPE_FIXED32_def PB_LTYPE_FIXED64_def PB_LTYPE_LAST_PACKABLE_def PB_LTYPE_BYTES_def PB_LTYPE_STRING_def
  PB_LTYPE_SUBMESSAGE_def PB_LTYPE_EXTENSION_def PB_LTYPE_FIXED_LENGTH_BYTES_def PB_LTYPE_MASK_def

lemmas pb_types = pb_ltypes PB_HTYPE_REQUIRED_def PB_HTYPE_OPTIONAL_def PB_HTYPE_REPEATED_def PB_HTYPE_ONEOF_def
  PB_HTYPE_MASK_def PB_ATYPE_STATIC_def PB_ATYPE_POINTER_def PB_ATYPE_CALLBACK_def PB_ATYPE_MASK_def
  PB_ATYPE_def PB_HTYPE_def PB_LTYPE_def

text \<open>\<open>pb_size_t\<close> has 32 bits. \<open>ptr\<close> leads to the fields of a submessage or to a default value.\<close>

definition PB_SIZE_MAX :: u32 where "PB_SIZE_MAX = - 1"

datatype pb_ptr = Null_ptr | Fields_ptr nat | Data_ptr u64

record pb_field =
  pf_tag :: u32
  pf_type :: u8
  pf_data_offset :: u32
  pf_size_offset :: "32 word"
  pf_data_size :: u32
  pf_array_size :: u32
  pf_ptr :: pb_ptr

definition PB_LAST_FIELD :: pb_field where
  "PB_LAST_FIELD = \<lparr>pf_tag = 0, pf_type = 0, pf_data_offset = 0, pf_size_offset = 0, pf_data_size = 0, pf_array_size = 0, pf_ptr = Null_ptr\<rparr>"

definition PB_WT_VARINT :: u32 where "PB_WT_VARINT = 0"
definition PB_WT_64BIT :: u32 where "PB_WT_64BIT = 1"
definition PB_WT_STRING :: u32 where "PB_WT_STRING = 2"
definition PB_WT_32BIT :: u32 where "PB_WT_32BIT = 5"

lemmas pb_wires = PB_WT_VARINT_def PB_WT_64BIT_def PB_WT_STRING_def PB_WT_32BIT_def

lemma unat_u32_u64 [simp]: "unat (ucast (n :: u32) :: u64) = unat n"
proof -
  have "unat n < 2 ^ 32" using unsigned_less [of n] by simp
  then show ?thesis by (simp add: unsigned_ucast_eq take_bit_nat_eq_self)
qed

lemma length_load_bytes: "load_bytes m p n = Some bs \<Longrightarrow> length bs = n"
  by (induction m p n arbitrary: bs rule: load_bytes.induct) (auto split: option.splits)

lemma htype_cases: "PB_HTYPE t \<in> {PB_HTYPE_REQUIRED, PB_HTYPE_OPTIONAL, PB_HTYPE_REPEATED, PB_HTYPE_ONEOF}"
proof -
  have "(t AND 0x30) = (if bit t 4 then 0x10 else 0) OR (if bit t 5 then 0x20 else 0)" (is "?l = ?r")
  proof (rule bit_word_eqI)
    fix n assume "n < LENGTH(8)"
    then have "n \<in> {0, 1, 2, 3, 4, 5, 6, 7}" by auto
    then show "bit ?l n \<longleftrightarrow> bit ?r n" by (auto simp: bit_simps)
  qed
  then show ?thesis by (simp add: pb_types)
qed

end
