(* ===== verification/Pb_Common.thy ===== *)
theory Pb_Common
  imports Pb_State
begin

text \<open>
  pb_common.c: the iterator over the fields of a message, which keeps the position in the descriptor
  array and the addresses of the field's data and of its size. A descriptor array ends with
  \<open>PB_LAST_FIELD\<close>; reading behind its end has no result.
\<close>

record pb_field_iter =
  it_start :: "pb_field list"
  it_pos :: nat
  it_required_field_index :: u32
  it_dest_struct :: u64
  it_pData :: u64
  it_pSize :: u64

definition field_at :: "pb_field list \<Rightarrow> nat \<Rightarrow> pb_field option" where
  "field_at flds i = (if i < length flds then Some (flds ! i) else None)"

definition size_address :: "u64 \<Rightarrow> pb_field \<Rightarrow> u64" where
  "size_address pData f = pData + scast (pf_size_offset f)"

definition pb_field_iter_begin :: "pb_field list \<Rightarrow> u64 \<Rightarrow> (bool \<times> pb_field_iter) option" where
  "pb_field_iter_begin flds dest_struct =
     (case field_at flds 0 of
        None \<Rightarrow> None
      | Some f \<Rightarrow>
          let pData = (if dest_struct = NULL then NULL else dest_struct + ucast (pf_data_offset f));
              pSize = (if dest_struct = NULL then NULL else size_address pData f)
          in Some (pf_tag f \<noteq> 0,
               \<lparr>it_start = flds, it_pos = 0, it_required_field_index = 0, it_dest_struct = dest_struct,
                it_pData = pData, it_pSize = pSize\<rparr>))"

text \<open>The bytes of the structure that a field occupies.\<close>

definition field_extent :: "pb_field \<Rightarrow> u64" where
  "field_extent prev_field =
     (let prev_size = ucast (pf_data_size prev_field)
      in if PB_ATYPE (pf_type prev_field) = PB_ATYPE_STATIC \<and> PB_HTYPE (pf_type prev_field) = PB_HTYPE_REPEATED
         then prev_size * ucast (pf_array_size prev_field)
         else if PB_ATYPE (pf_type prev_field) = PB_ATYPE_POINTER then 8
         else prev_size)"

definition pb_field_iter_next :: "pb_field_iter \<Rightarrow> (bool \<times> pb_field_iter) option" where
  "pb_field_iter_next it =
     (case field_at (it_start it) (it_pos it) of
        None \<Rightarrow> None
      | Some prev_field \<Rightarrow>
          if pf_tag prev_field = 0 then Some (False, it)
          else
            (case field_at (it_start it) (it_pos it + 1) of
               None \<Rightarrow> None
             | Some f \<Rightarrow>
                 let it = it\<lparr>it_pos := it_pos it + 1\<rparr>
                 in if pf_tag f = 0 then
                      map_option (\<lambda>(_, it). (False, it)) (pb_field_iter_begin (it_start it) (it_dest_struct it))
                    else if PB_HTYPE (pf_type prev_field) = PB_HTYPE_ONEOF \<and> PB_HTYPE (pf_type f) = PB_HTYPE_ONEOF \<and>
                      pf_data_offset f = PB_SIZE_MAX
                    then Some (True, it)
                    else
                      let it = (if PB_HTYPE (pf_type prev_field) = PB_HTYPE_REQUIRED
                                then it\<lparr>it_required_field_index := it_required_field_index it + 1\<rparr> else it);
                          pData = it_pData it + field_extent prev_field + ucast (pf_data_offset f)
                      in Some (True, it\<lparr>it_pData := pData, it_pSize := size_address pData f\<rparr>)))"

text \<open>A walk round the fields to one that satisfies \<open>P\<close>, which otherwise ends where it began.\<close>

partial_function (option) iter_search :: "(pb_field \<Rightarrow> bool) \<Rightarrow> nat \<Rightarrow> pb_field_iter \<Rightarrow> (bool \<times> pb_field_iter) option" where
  "iter_search P start it =
     (case field_at (it_start it) (it_pos it) of
        None \<Rightarrow> None
      | Some f \<Rightarrow>
          if P f then Some (True, it)
          else
            (case pb_field_iter_next it of
               None \<Rightarrow> None
             | Some (_, it) \<Rightarrow> if it_pos it \<noteq> start then iter_search P start it else Some (False, it)))"

definition field_matches :: "u32 \<Rightarrow> pb_field \<Rightarrow> bool" where
  "field_matches tag f \<longleftrightarrow> pf_tag f = tag \<and> PB_LTYPE (pf_type f) \<noteq> PB_LTYPE_EXTENSION"

definition pb_field_iter_find :: "u32 \<Rightarrow> pb_field_iter \<Rightarrow> (bool \<times> pb_field_iter) option" where
  "pb_field_iter_find tag it = iter_search (field_matches tag) (it_pos it) it"

section \<open>Walking round the fields\<close>

definition terminated :: "pb_field list \<Rightarrow> bool" where
  "terminated flds \<longleftrightarrow> flds \<noteq> [] \<and> pf_tag (last flds) = 0 \<and> (\<forall>f \<in> set (butlast flds). pf_tag f \<noteq> 0)"

text \<open>The iterator at the \<open>i\<close>th field, as it is reached from the start.\<close>

fun iter_at :: "pb_field list \<Rightarrow> u64 \<Rightarrow> nat \<Rightarrow> pb_field_iter" where
  "iter_at flds dest 0 = snd (the (pb_field_iter_begin flds dest))"
| "iter_at flds dest (Suc i) = snd (the (pb_field_iter_next (iter_at flds dest i)))"

lemma terminated_length: "terminated flds \<Longrightarrow> 0 < length flds"
  by (simp add: terminated_def)

lemma terminated_tag:
  assumes "terminated flds" and "i < length flds"
  shows "pf_tag (flds ! i) = 0 \<longleftrightarrow> i = length flds - 1"
proof (cases "i = length flds - 1")
  case True
  then show ?thesis using assms last_conv_nth [of flds] by (auto simp: terminated_def)
next
  case False
  then have "i < length (butlast flds)" using assms(2) by simp
  then have "flds ! i \<in> set (butlast flds)" using nth_butlast nth_mem by metis
  then show ?thesis using False assms(1) by (auto simp: terminated_def)
qed

lemma iter_begin_at: "terminated flds \<Longrightarrow> pb_field_iter_begin flds dest = Some (1 < length flds, iter_at flds dest 0)"
  using terminated_tag [of flds 0] terminated_length [of flds]
  by (auto simp: pb_field_iter_begin_def field_at_def Let_def)

lemma iter_at_pos:
  assumes "terminated flds"
  shows "i + 1 < length flds \<or> i = 0 \<Longrightarrow> it_start (iter_at flds dest i) = flds \<and> it_dest_struct (iter_at flds dest i) = dest \<and>
    it_pos (iter_at flds dest i) = i"
proof (induction i)
  case 0
  then show ?case using terminated_length [OF assms] by (simp add: pb_field_iter_begin_def field_at_def Let_def)
next
  case (Suc i)
  then have it: "it_start (iter_at flds dest i) = flds" "it_dest_struct (iter_at flds dest i) = dest" "it_pos (iter_at flds dest i) = i"
    by simp_all
  have "pf_tag (flds ! i) \<noteq> 0" "pf_tag (flds ! Suc i) \<noteq> 0" "i < length flds" "Suc i < length flds"
    using Suc.prems terminated_tag [OF assms, of i] terminated_tag [OF assms, of "Suc i"] by auto
  then show ?case using it by (auto simp: pb_field_iter_next_def field_at_def Let_def)
qed

lemma iter_next_at:
  assumes "terminated flds" and "i + 1 < length flds"
  shows "\<exists>more. pb_field_iter_next (iter_at flds dest i) = Some (more, iter_at flds dest (if i + 2 < length flds then i + 1 else 0)) \<and>
    (more \<longleftrightarrow> i + 2 < length flds)"
proof -
  note it = iter_at_pos [OF assms(1), of i dest]
  have tags: "pf_tag (flds ! i) \<noteq> 0" "pf_tag (flds ! (i + 1)) = 0 \<longleftrightarrow> \<not> i + 2 < length flds"
    using terminated_tag [OF assms(1), of i] terminated_tag [OF assms(1), of "i + 1"] assms(2) by auto
  show ?thesis
  proof (cases "i + 2 < length flds")
    case True
    then have "pb_field_iter_next (iter_at flds dest i) \<noteq> None" "fst (the (pb_field_iter_next (iter_at flds dest i)))"
      using it tags assms(2) by (auto simp: pb_field_iter_next_def field_at_def Let_def)
    then show ?thesis using True by (cases "pb_field_iter_next (iter_at flds dest i)") (auto simp: prod_eq_iff)
  next
    case False
    then show ?thesis using it tags assms(2) iter_begin_at [OF assms(1), of dest]
      by (auto simp: pb_field_iter_next_def field_at_def Let_def)
  qed
qed

declare iter_at.simps [simp del]

text \<open>From field \<open>i\<close> of \<open>n\<close> the walk that began at field \<open>start\<close> looks at \<open>(start + n - i) mod n\<close> more.\<close>

lemma iter_search_at:
  assumes "terminated flds" and "n = length flds - 1" and "start < n"
  shows "i < n \<Longrightarrow> k = (if i < start then start - i else start + n - i) \<Longrightarrow>
    iter_search P start (iter_at flds dest i) =
      (case find (\<lambda>j. P (flds ! j)) (map (\<lambda>d. (i + d) mod n) [0..<k]) of
         Some j \<Rightarrow> Some (True, iter_at flds dest j)
       | None \<Rightarrow> Some (False, iter_at flds dest start))"
proof (induction k arbitrary: i)
  case (Suc k)
  note it = iter_at_pos [OF assms(1), of i dest]
  have "i + 1 < length flds" using Suc.prems(1) assms(2) by simp
  then have at: "field_at (it_start (iter_at flds dest i)) (it_pos (iter_at flds dest i)) = Some (flds ! i)"
    using it by (simp add: field_at_def)
  have list: "map (\<lambda>d. (i + d) mod n) [0..<Suc k] = i # map (\<lambda>d. (Suc i mod n + d) mod n) [0..<k]"
    using Suc.prems(1) by (simp add: upt_conv_Cons map_Suc_upt [symmetric] mod_add_left_eq del: upt_Suc)
  show ?case
  proof (cases "P (flds ! i)")
    case True
    then show ?thesis unfolding list by (subst iter_search.simps) (simp add: at)
  next
    case False
    obtain more where next': "pb_field_iter_next (iter_at flds dest i) = Some (more, iter_at flds dest (Suc i mod n))"
      using iter_next_at [OF assms(1), of i dest] Suc.prems(1) assms(2)
      by (auto simp: mod_Suc less_diff_conv split: if_splits)
    have n: "Suc i mod n < n" using Suc.prems(1) by simp
    then have "Suc i mod n + 1 < length flds" using assms(2) by linarith
    then have pos: "it_pos (iter_at flds dest (Suc i mod n)) = Suc i mod n"
      using iter_at_pos [OF assms(1), of "Suc i mod n" dest] by simp
    have step: "iter_search P start (iter_at flds dest i) =
        (if Suc i mod n \<noteq> start then iter_search P start (iter_at flds dest (Suc i mod n)) else Some (False, iter_at flds dest start))"
      using False pos by (subst iter_search.simps) (auto simp: at next')
    show ?thesis
    proof (cases "Suc i mod n = start")
      case True
      then have "k = 0" using Suc.prems n by (auto simp: mod_Suc split: if_splits)
      then show ?thesis using True step False unfolding list by simp
    next
      case False
      then have "k = (if Suc i mod n < start then start - Suc i mod n else start + n - Suc i mod n)"
        using Suc.prems assms(3) by (auto simp: mod_Suc split: if_splits)
      then show ?thesis using Suc.IH [OF n] False step \<open>\<not> P (flds ! i)\<close> unfolding list by simp
    qed
  qed
qed (auto split: if_splits)

text \<open>The walk may also begin with another address for the size, unless the field is a member of a union.\<close>

definition iter_near :: "pb_field list \<Rightarrow> u64 \<Rightarrow> nat \<Rightarrow> pb_field_iter \<Rightarrow> bool" where
  "iter_near flds dest i it \<longleftrightarrow> i + 1 < length flds \<and>
     (\<exists>p. it = (iter_at flds dest i)\<lparr>it_pSize := p\<rparr> \<and>
       (p \<noteq> it_pSize (iter_at flds dest i) \<longrightarrow> PB_HTYPE (pf_type (flds ! i)) = PB_HTYPE_REPEATED))"

lemma iter_near_at: "i + 1 < length flds \<Longrightarrow> iter_near flds dest i (iter_at flds dest i)"
  by (auto simp: iter_near_def intro!: exI [of _ "it_pSize (iter_at flds dest i)"])

lemma iter_near_pos:
  "terminated flds \<Longrightarrow> iter_near flds dest i it \<Longrightarrow> it_start it = flds \<and> it_pos it = i \<and> it_pData it = it_pData (iter_at flds dest i)"
  using iter_at_pos [of flds i dest] by (auto simp: iter_near_def)

lemma iter_near_next:
  assumes "terminated flds" and near: "iter_near flds dest i it"
  shows "pb_field_iter_next it = pb_field_iter_next (iter_at flds dest i)"
proof (cases "it = iter_at flds dest i")
  case False
  then obtain p where it: "it = (iter_at flds dest i)\<lparr>it_pSize := p\<rparr>" and rep: "PB_HTYPE (pf_type (flds ! i)) = PB_HTYPE_REPEATED"
    and i: "i + 1 < length flds" using near by (auto simp: iter_near_def)
  moreover have "pf_tag (flds ! i) \<noteq> 0" using terminated_tag [OF assms(1), of i] i by auto
  ultimately show ?thesis using iter_at_pos [OF assms(1), of i dest]
    by (auto simp: pb_field_iter_next_def field_at_def Let_def PB_HTYPE_REPEATED_def PB_HTYPE_ONEOF_def PB_HTYPE_REQUIRED_def)
qed simp

lemma iter_search_from:
  assumes "terminated flds" and "i + 1 < length flds"
  shows "\<exists>found j. iter_search P i (iter_at flds dest i) = Some (found, iter_at flds dest j) \<and> j + 1 < length flds \<and>
    (if found then P (flds ! j) else j = i \<and> (\<forall>k. k + 1 < length flds \<longrightarrow> \<not> P (flds ! k)))"
proof -
  let ?n = "length flds - 1"
  let ?order = "map (\<lambda>d. (i + d) mod ?n) [0..<?n]"
  have i: "i < ?n" using assms(2) by simp
  have run: "iter_search P i (iter_at flds dest i) =
      (case find (\<lambda>j. P (flds ! j)) ?order of
         Some j \<Rightarrow> Some (True, iter_at flds dest j) | None \<Rightarrow> Some (False, iter_at flds dest i))"
    using iter_search_at [OF assms(1) refl i i, of ?n P dest] iter_at_pos [OF assms(1), of i dest] assms(2)
    by simp
  show ?thesis
  proof (cases "find (\<lambda>j. P (flds ! j)) ?order")
    case None
    have "\<not> P (flds ! k)" if "k + 1 < length flds" for k
    proof -
      define n where "n = ?n"
      have n: "i < n" "k < n" using i that by (simp_all add: n_def less_diff_conv)
      then have "k = (i + (k + n - i) mod n) mod n" by (simp add: mod_add_right_eq)
      moreover have "(k + n - i) mod n < n" using n by simp
      ultimately have "k \<in> set ?order" unfolding n_def by force
      then show ?thesis using None by (auto simp: find_None_iff)
    qed
    then show ?thesis using run None assms(2) by auto
  next
    case (Some j)
    then have "P (flds ! j)" "j \<in> set ?order" by (auto simp: find_Some_iff)
    moreover from this(2) i have "j < ?n" by auto
    ultimately show ?thesis using run Some by (auto simp: less_diff_conv)
  qed
qed

lemma iter_search_near:
  assumes "terminated flds" and near: "iter_near flds dest i it"
  shows "\<exists>found it' j. iter_search P (it_pos it) it = Some (found, it') \<and> iter_near flds dest j it' \<and>
    (if found then P (flds ! j) else it' = iter_at flds dest i \<and> j = i \<and> (\<forall>k. k + 1 < length flds \<longrightarrow> \<not> P (flds ! k)))"
proof -
  note pos = iter_near_pos [OF assms]
  have i: "i + 1 < length flds" using near by (simp add: iter_near_def)
  note pos' = iter_at_pos [OF assms(1), of i dest]
  have at: "field_at (it_start it) (it_pos it) = Some (flds ! i)" using pos i by (simp add: field_at_def)
  show ?thesis
  proof (cases "P (flds ! i)")
    case True
    then show ?thesis using near at by (subst iter_search.simps) auto
  next
    case False
    have "iter_search P (it_pos it) it = iter_search P i (iter_at flds dest i)"
      using False at pos pos' i iter_near_next [OF assms]
      by (subst (1 2) iter_search.simps) (auto simp: field_at_def)
    then show ?thesis using iter_search_from [OF assms(1) i, of P dest] iter_near_at by fastforce
  qed
qed

text \<open>
  From any field of a message, \<open>pb_field_iter_find\<close> ends, and finds a field exactly when the
  descriptors have one with that tag; it is then at that field, with the addresses that walking there
  from the start of the message gives, and otherwise where it was.
\<close>

theorem pb_field_iter_find_correct:
  assumes "terminated flds" and "iter_near flds dest i it"
  shows "\<exists>found it' j. pb_field_iter_find tag it = Some (found, it') \<and> iter_near flds dest j it' \<and>
    (if found then field_matches tag (flds ! j)
     else it' = iter_at flds dest i \<and> j = i \<and> (\<forall>k. k + 1 < length flds \<longrightarrow> \<not> field_matches tag (flds ! k)))"
  unfolding pb_field_iter_find_def by (rule iter_search_near [OF assms])

text \<open>In an empty message the search for field number 0 takes the end marker for a field.\<close>

lemma find_in_empty_message:
  "\<exists>it. pb_field_iter_begin [PB_LAST_FIELD] dest = Some (False, it) \<and> pb_field_iter_find 0 it = Some (True, it)"
  by (simp add: pb_field_iter_begin_def field_at_def PB_LAST_FIELD_def Let_def pb_field_iter_find_def iter_search.simps
      field_matches_def PB_LTYPE_def PB_LTYPE_EXTENSION_def)

declare iter_search.simps [code]

end
