(* ===== verification/Pb_Istream.thy ===== *)
theory Pb_Istream
  imports Pb_State
begin

text \<open>
  pb_decode.c: input streams and the readers of wire values. The callback of a stream is an argument of
  the functions that use the stream; its state is of any type. A reader returns a value or false, with
  the stream, or nothing where memory outside the input would be read.
\<close>

section \<open>Streams\<close>

record 's pb_istream =
  is_state :: 's
  is_bytes_left :: u64
  is_errmsg :: "string option"

type_synonym ('s, 'a) pb_reader = "'s pb_istream \<Rightarrow> ('a option \<times> 's pb_istream) option"

text \<open>
  The callback is told whether it has a buffer, and how many bytes are asked for; the code compares
  it with \<open>buf_read\<close>.
\<close>

record 's pb_input =
  in_callback :: "bool \<Rightarrow> u64 \<Rightarrow> ('s, u8 list) pb_reader"
  in_is_buf_read :: bool

definition rd_return :: "'a \<Rightarrow> ('s, 'a) pb_reader" where
  "rd_return x s = Some (Some x, s)"

definition rd_error :: "string \<Rightarrow> ('s, 'a) pb_reader" where
  "rd_error msg s = Some (None, s\<lparr>is_errmsg := Some (case is_errmsg s of Some old \<Rightarrow> old | None \<Rightarrow> msg)\<rparr>)"

text \<open>\<open>if (!f(...)) return false;\<close> and what follows.\<close>

definition rd_bind :: "('s, 'a) pb_reader \<Rightarrow> ('a \<Rightarrow> ('s, 'b) pb_reader) \<Rightarrow> ('s, 'b) pb_reader" where
  "rd_bind f k s = (case f s of None \<Rightarrow> None | Some (None, s) \<Rightarrow> Some (None, s) | Some (Some x, s) \<Rightarrow> k x s)"

text \<open>A buffer and the position of \<open>state\<close> in it.\<close>

definition buf_read :: "bool \<Rightarrow> u64 \<Rightarrow> (u8 list \<times> nat, u8 list) pb_reader" where
  "buf_read buf count s =
     (let (source, pos) = is_state s; n = unat count
      in if length source < pos + n then None
         else Some (Some (if buf then take n (drop pos source) else []), s\<lparr>is_state := (source, pos + n)\<rparr>))"

definition buf_input :: "(u8 list \<times> nat) pb_input" where
  "buf_input = \<lparr>in_callback = buf_read, in_is_buf_read = True\<rparr>"

definition pb_istream_from_buffer :: "u8 list \<Rightarrow> (u8 list \<times> nat) pb_istream" where
  "pb_istream_from_buffer buf = \<lparr>is_state = (buf, 0), is_bytes_left = of_nat (length buf), is_errmsg = None\<rparr>"

text \<open>\<open>pb_read\<close> where the callback is called, and its loop over a scratch buffer of 16 bytes.\<close>

definition read_now :: "'s pb_input \<Rightarrow> bool \<Rightarrow> u64 \<Rightarrow> ('s, u8 list) pb_reader" where
  "read_now inp buf count s =
     (if is_bytes_left s < count then rd_error ''end-of-stream'' s
      else case in_callback inp buf count s of
        None \<Rightarrow> None
      | Some (None, s) \<Rightarrow> rd_error ''io error'' s
      | Some (Some bytes, s) \<Rightarrow> Some (Some bytes, s\<lparr>is_bytes_left := is_bytes_left s - count\<rparr>))"

function skip_loop :: "'s pb_input \<Rightarrow> u64 \<Rightarrow> ('s, u8 list) pb_reader" where
  "skip_loop inp count s =
     (if count > 16
      then (case read_now inp True 16 s of
              None \<Rightarrow> None | Some (None, s) \<Rightarrow> Some (None, s) | Some (Some _, s) \<Rightarrow> skip_loop inp (count - 16) s)
      else read_now inp True count s)"
  by pat_completeness auto
termination
  by (relation "measure (\<lambda>(inp, count, s). unat count)") (auto simp: word_less_nat_alt unat_sub word_le_nat_alt)

declare skip_loop.simps [simp del]

definition pb_read :: "'s pb_input \<Rightarrow> bool \<Rightarrow> u64 \<Rightarrow> ('s, u8 list) pb_reader" where
  "pb_read inp buf count =
     (if count = 0 then rd_return []
      else if \<not> buf \<and> \<not> in_is_buf_read inp then skip_loop inp count
      else read_now inp buf count)"

definition pb_readbyte :: "'s pb_input \<Rightarrow> ('s, u8) pb_reader" where
  "pb_readbyte inp s =
     (if is_bytes_left s = 0 then rd_error ''end-of-stream'' s
      else case in_callback inp True 1 s of
        None \<Rightarrow> None
      | Some (None, s) \<Rightarrow> rd_error ''io error'' s
      | Some (Some bytes, s) \<Rightarrow> Some (Some (hd bytes), s\<lparr>is_bytes_left := is_bytes_left s - 1\<rparr>))"

section \<open>Varints\<close>

text \<open>The loop over the bytes behind the first; \<open>uint_fast8_t\<close> has 8 bits. It yields the last byte and \<open>bitpos\<close>.\<close>

partial_function (option) varint32_loop ::
  "'s pb_input \<Rightarrow> u8 \<Rightarrow> u32 \<Rightarrow> 's pb_istream \<Rightarrow> ((u32 \<times> u8 \<times> u8) option \<times> 's pb_istream) option" where
  "varint32_loop inp bitpos result s =
     (case pb_readbyte inp s of
        None \<Rightarrow> None
      | Some (None, s) \<Rightarrow> Some (None, s)
      | Some (Some byte, s) \<Rightarrow>
          let sign_extension = (if bitpos < 63 then 0xff else 0x01)
          in if bitpos \<ge> 32 \<and> byte AND 0x7f \<noteq> 0 \<and> (drop_bit 31 result = 0 \<or> byte \<noteq> sign_extension)
             then rd_error ''varint overflow'' s
             else
               let result = (if bitpos \<ge> 32 then result else result OR push_bit (unat bitpos) (ucast (byte AND 0x7f)));
                   bitpos = bitpos + 7
               in if byte AND 0x80 \<noteq> 0 then varint32_loop inp bitpos result s else Some (Some (result, byte, bitpos), s))"

text \<open>The flag is \<open>*eof\<close>, which is only ever set.\<close>

definition pb_decode_varint32_eof :: "'s pb_input \<Rightarrow> 's pb_istream \<Rightarrow> (u32 option \<times> bool \<times> 's pb_istream) option" where
  "pb_decode_varint32_eof inp s =
     (case pb_readbyte inp s of
        None \<Rightarrow> None
      | Some (None, s) \<Rightarrow> Some (None, is_bytes_left s = 0, s)
      | Some (Some byte, s) \<Rightarrow>
          if byte AND 0x80 = 0 then Some (Some (ucast byte), False, s)
          else
            (case varint32_loop inp 7 (ucast (byte AND 0x7f)) s of
               None \<Rightarrow> None
             | Some (None, s) \<Rightarrow> Some (None, False, s)
             | Some (Some (result, byte, bitpos), s) \<Rightarrow>
                 if bitpos = 35 \<and> byte AND 0x70 \<noteq> 0
                 then map_option (\<lambda>(_, s). (None, False, s)) (rd_error ''varint overflow'' s :: (u32 option \<times> _) option)
                 else Some (Some result, False, s)))"

definition pb_decode_varint32 :: "'s pb_input \<Rightarrow> ('s, u32) pb_reader" where
  "pb_decode_varint32 inp s = map_option (\<lambda>(v, _, s). (v, s)) (pb_decode_varint32_eof inp s)"

function varint_loop :: "'s pb_input \<Rightarrow> u8 \<Rightarrow> u64 \<Rightarrow> ('s, u64) pb_reader" where
  "varint_loop inp bitpos result s =
     (if bitpos \<ge> 64 then rd_error ''varint overflow'' s
      else case pb_readbyte inp s of
        None \<Rightarrow> None
      | Some (None, s) \<Rightarrow> Some (None, s)
      | Some (Some byte, s) \<Rightarrow>
          let result = result OR push_bit (unat bitpos) (ucast (byte AND 0x7f))
          in if byte AND 0x80 \<noteq> 0 then varint_loop inp (bitpos + 7) result s else Some (Some result, s))"
  by pat_completeness auto
termination
  by (relation "measure (\<lambda>(inp, bitpos, result, s). 100 - unat bitpos)")
    (auto simp: word_less_nat_alt word_le_nat_alt unat_word_ariths)

declare varint_loop.simps [simp del]

definition pb_decode_varint :: "'s pb_input \<Rightarrow> ('s, u64) pb_reader" where
  "pb_decode_varint inp = varint_loop inp 0 0"

partial_function (option) pb_skip_varint :: "'s pb_input \<Rightarrow> 's pb_istream \<Rightarrow> (unit option \<times> 's pb_istream) option" where
  "pb_skip_varint inp s =
     (case pb_read inp True 1 s of
        None \<Rightarrow> None
      | Some (None, s) \<Rightarrow> Some (None, s)
      | Some (Some bytes, s) \<Rightarrow> if hd bytes AND 0x80 \<noteq> 0 then pb_skip_varint inp s else Some (Some (), s))"

definition pb_skip_string :: "'s pb_input \<Rightarrow> ('s, unit) pb_reader" where
  "pb_skip_string inp = rd_bind (pb_decode_varint32 inp) (\<lambda>n. rd_bind (pb_read inp False (ucast n)) (\<lambda>_. rd_return ()))"

text \<open>The wire type and the field number.\<close>

definition pb_decode_tag :: "'s pb_input \<Rightarrow> 's pb_istream \<Rightarrow> ((u32 \<times> u32) option \<times> bool \<times> 's pb_istream) option" where
  "pb_decode_tag inp s =
     (case pb_decode_varint32_eof inp s of
        None \<Rightarrow> None
      | Some (None, eof, s) \<Rightarrow> Some (None, eof, s)
      | Some (Some temp, _, s) \<Rightarrow> if temp = 0 then Some (None, True, s) else Some (Some (temp AND 7, drop_bit 3 temp), False, s))"

definition pb_skip_field :: "'s pb_input \<Rightarrow> u32 \<Rightarrow> ('s, unit) pb_reader" where
  "pb_skip_field inp wire_type =
     (if wire_type = PB_WT_VARINT then pb_skip_varint inp
      else if wire_type = PB_WT_64BIT then rd_bind (pb_read inp False 8) (\<lambda>_. rd_return ())
      else if wire_type = PB_WT_STRING then pb_skip_string inp
      else if wire_type = PB_WT_32BIT then rd_bind (pb_read inp False 4) (\<lambda>_. rd_return ())
      else rd_error ''invalid wire_type'')"

section \<open>Other values\<close>

text \<open>\<open>max_size\<close> bytes at most; the bytes read so far are the second argument.\<close>

function raw_varint_loop :: "'s pb_input \<Rightarrow> u8 list \<Rightarrow> nat \<Rightarrow> ('s, u8 list) pb_reader" where
  "raw_varint_loop inp bytes max_size s =
     (if length bytes + 1 > max_size then Some (None, s)
      else case pb_read inp True 1 s of
        None \<Rightarrow> None
      | Some (None, s) \<Rightarrow> Some (None, s)
      | Some (Some b, s) \<Rightarrow>
          if hd b AND 0x80 \<noteq> 0 then raw_varint_loop inp (bytes @ [hd b]) max_size s else Some (Some (bytes @ [hd b]), s))"
  by pat_completeness auto
termination
  by (relation "measure (\<lambda>(inp, bytes, n, s). n - length bytes)") auto

declare raw_varint_loop.simps [simp del]

definition read_raw_value :: "'s pb_input \<Rightarrow> u32 \<Rightarrow> nat \<Rightarrow> ('s, u8 list) pb_reader" where
  "read_raw_value inp wire_type max_size =
     (if wire_type = PB_WT_VARINT then raw_varint_loop inp [] max_size
      else if wire_type = PB_WT_64BIT then pb_read inp True 8
      else if wire_type = PB_WT_32BIT then pb_read inp True 4
      else rd_error ''invalid wire_type'')"

definition unzigzag :: "u64 \<Rightarrow> 64 word" where
  "unzigzag value = (if value AND 1 \<noteq> 0 then NOT (drop_bit 1 value) else drop_bit 1 value)"

definition pb_decode_svarint :: "'s pb_input \<Rightarrow> ('s, 64 word) pb_reader" where
  "pb_decode_svarint inp = rd_bind (pb_decode_varint inp) (\<lambda>value. rd_return (unzigzag value))"

definition fixed_value :: "u8 list \<Rightarrow> 'a::len word" where
  "fixed_value bytes = foldr (\<lambda>i v. push_bit (8 * i) (ucast (bytes ! i)) OR v) [0..<length bytes] 0"

definition pb_decode_fixed32 :: "'s pb_input \<Rightarrow> ('s, u32) pb_reader" where
  "pb_decode_fixed32 inp = rd_bind (pb_read inp True 4) (\<lambda>bytes. rd_return (fixed_value bytes))"

definition pb_decode_fixed64 :: "'s pb_input \<Rightarrow> ('s, u64) pb_reader" where
  "pb_decode_fixed64 inp = rd_bind (pb_read inp True 8) (\<lambda>bytes. rd_return (fixed_value bytes))"

text \<open>A substream shares the state of the stream, whose count leaves the substream's bytes out.\<close>

definition pb_make_string_substream :: "'s pb_input \<Rightarrow> ('s, 's pb_istream) pb_reader" where
  "pb_make_string_substream inp = rd_bind (pb_decode_varint32 inp) (\<lambda>n stream.
     if is_bytes_left stream < ucast n then rd_error ''parent stream too short'' stream
     else Some (Some (stream\<lparr>is_bytes_left := ucast n\<rparr>), stream\<lparr>is_bytes_left := is_bytes_left stream - ucast n\<rparr>))"

definition pb_close_string_substream :: "'s pb_input \<Rightarrow> 's pb_istream \<Rightarrow> ('s, unit) pb_reader" where
  "pb_close_string_substream inp substream stream =
     (let finish = (\<lambda>substream. Some (Some (), stream\<lparr>is_state := is_state substream, is_errmsg := is_errmsg substream\<rparr>))
      in if is_bytes_left substream \<noteq> 0
         then (case pb_read inp False (is_bytes_left substream) substream of
                 None \<Rightarrow> None | Some (None, _) \<Rightarrow> Some (None, stream) | Some (Some _, substream) \<Rightarrow> finish substream)
         else finish substream)"

declare varint32_loop.simps [code]
  pb_skip_varint.simps [code]

end
