(* ===== verification/Pb_Decode.thy ===== *)
theory Pb_Decode
  imports Pb_Common Pb_Istream
begin

text \<open>
  pb_decode.c: the decoder of messages. It changes the stream and the memory; a decoder returns its
  result with both, or nothing where memory outside the allocated bytes would be read or written.
\<close>

section \<open>Decoders\<close>

type_synonym 's pb_decoder = "'s pb_istream \<Rightarrow> pb_mem \<Rightarrow> (bool \<times> 's pb_istream \<times> pb_mem) option"

fun store_bytes :: "pb_mem \<Rightarrow> u64 \<Rightarrow> u8 list \<Rightarrow> pb_mem option" where
  "store_bytes m a [] = Some m"
| "store_bytes m a (b # bs) = (case m a of None \<Rightarrow> None | Some _ \<Rightarrow> store_bytes (m(a \<mapsto> b)) (a + 1) bs)"

text \<open>The low \<open>n\<close> bytes of a number, little-endian.\<close>

definition store_le :: "nat \<Rightarrow> u64 \<Rightarrow> u64 \<Rightarrow> pb_mem \<Rightarrow> pb_mem option" where
  "store_le n a v m = store_bytes m a (rev (be_bytes n (unat v)))"

definition dec_ok :: "'s pb_decoder" where
  "dec_ok s m = Some (True, s, m)"

definition dec_error :: "string \<Rightarrow> 's pb_decoder" where
  "dec_error msg s m = Some (False, s\<lparr>is_errmsg := Some (case is_errmsg s of Some old \<Rightarrow> old | None \<Rightarrow> msg)\<rparr>, m)"

definition dec_then :: "'s pb_decoder \<Rightarrow> 's pb_decoder \<Rightarrow> 's pb_decoder" where
  "dec_then f g s m = (case f s m of None \<Rightarrow> None | Some (ok, s, m) \<Rightarrow> if ok then g s m else Some (False, s, m))"

definition dec_read :: "('s, 'a) pb_reader \<Rightarrow> ('a \<Rightarrow> 's pb_decoder) \<Rightarrow> 's pb_decoder" where
  "dec_read f k s m = (case f s of None \<Rightarrow> None | Some (None, s) \<Rightarrow> Some (False, s, m) | Some (Some x, s) \<Rightarrow> k x s m)"

definition dec_load :: "(pb_mem \<Rightarrow> 'a option) \<Rightarrow> ('a \<Rightarrow> 's pb_decoder) \<Rightarrow> 's pb_decoder" where
  "dec_load f k s m = (case f m of None \<Rightarrow> None | Some x \<Rightarrow> k x s m)"

definition dec_update :: "(pb_mem \<Rightarrow> pb_mem option) \<Rightarrow> 's pb_decoder" where
  "dec_update f s m = (case f m of None \<Rightarrow> None | Some m \<Rightarrow> Some (True, s, m))"

definition dec_left :: "(u64 \<Rightarrow> 's pb_decoder) \<Rightarrow> 's pb_decoder" where
  "dec_left k s = k (is_bytes_left s) s"

text \<open>
  What the decoder works on besides the memory: the input, the descriptor arrays that \<open>ptr\<close> names,
  the user's callbacks by the address of the function (for a field, on the input or on a copied value,
  and for an extension), the descriptor of an extension's type, the allocator, and the address of the
  local variable \<open>fixed_count_size\<close> at each depth.
\<close>

record 's pb_denv =
  pd_in :: "'s pb_input"
  pd_fields :: "nat \<Rightarrow> pb_field list"
  pd_decode :: "u64 \<Rightarrow> pb_field \<Rightarrow> u64 \<Rightarrow> 's pb_decoder"
  pd_decode_copy :: "u64 \<Rightarrow> pb_field \<Rightarrow> u64 \<Rightarrow> u8 list \<Rightarrow> pb_mem \<Rightarrow> (bool \<times> pb_mem) option"
  pd_ext_decode :: "u64 \<Rightarrow> u64 \<Rightarrow> u32 \<Rightarrow> u32 \<Rightarrow> 's pb_decoder"
  pd_ext_field :: "u64 \<Rightarrow> pb_field option"
  pd_realloc :: "u64 \<Rightarrow> u64 \<Rightarrow> pb_mem \<Rightarrow> u64 \<times> pb_mem"
  pd_free :: "u64 \<Rightarrow> pb_mem \<Rightarrow> pb_mem"
  pd_local :: "nat \<Rightarrow> u64"

definition it_field :: "pb_field_iter \<Rightarrow> pb_field option" where
  "it_field it = field_at (it_start it) (it_pos it)"

section \<open>Default values\<close>

text \<open>
  In a \<open>pb_extension_t\<close>, \<open>type\<close>, \<open>dest\<close>, \<open>next\<close> and \<open>found\<close> are at offsets 0, 8, 16 and 24; in its
  type, \<open>decode\<close>, \<open>encode\<close> and \<open>arg\<close> are at offsets 0, 8 and 16.
\<close>

definition iter_from_extension :: "'s pb_denv \<Rightarrow> u64 \<Rightarrow> pb_mem \<Rightarrow> pb_field_iter option" where
  "iter_from_extension env extension m =
     (case load_u64 m extension of None \<Rightarrow> None | Some type \<Rightarrow>
        case load_u64 m (type + 16) of None \<Rightarrow> None | Some arg \<Rightarrow>
        case pd_ext_field env arg of None \<Rightarrow> None | Some field \<Rightarrow>
        case load_u64 m (extension + 8) of None \<Rightarrow> None | Some dest \<Rightarrow>
          map_option (\<lambda>(_, it). it\<lparr>it_pData := (if PB_ATYPE (pf_type field) = PB_ATYPE_POINTER then extension + 8 else dest),
                                 it_pSize := extension + 24\<rparr>)
            (pb_field_iter_begin [field] dest))"

partial_function (option) walk_extensions ::
  "(u64 \<Rightarrow> pb_mem \<Rightarrow> pb_mem option) \<Rightarrow> u64 \<Rightarrow> pb_mem \<Rightarrow> pb_mem option" where
  "walk_extensions f extension m =
     (if extension = NULL then Some m
      else case f extension m of None \<Rightarrow> None | Some m \<Rightarrow>
        case load_u64 m (extension + 16) of None \<Rightarrow> None | Some next \<Rightarrow> walk_extensions f next m)"

partial_function (option) walk_fields ::
  "(pb_field_iter \<Rightarrow> pb_mem \<Rightarrow> pb_mem option) \<Rightarrow> pb_field_iter \<Rightarrow> pb_mem \<Rightarrow> pb_mem option" where
  "walk_fields f it m =
     (case f it m of None \<Rightarrow> None | Some m \<Rightarrow>
        case pb_field_iter_next it of None \<Rightarrow> None | Some (again, it) \<Rightarrow> if again then walk_fields f it m else Some m)"

definition walk_message ::
  "(pb_field_iter \<Rightarrow> pb_mem \<Rightarrow> pb_mem option) \<Rightarrow> pb_field list \<Rightarrow> u64 \<Rightarrow> pb_mem \<Rightarrow> pb_mem option" where
  "walk_message f flds dest_struct m =
     (case pb_field_iter_begin flds dest_struct of None \<Rightarrow> None | Some (again, it) \<Rightarrow> if again then walk_fields f it m else Some m)"

definition field_defaults ::
  "'s pb_denv \<Rightarrow> (pb_field list \<Rightarrow> u64 \<Rightarrow> pb_mem \<Rightarrow> pb_mem option) \<Rightarrow> pb_field \<Rightarrow> u64 \<Rightarrow> pb_mem \<Rightarrow> pb_mem option" where
  "field_defaults env message field pData m =
     (if PB_LTYPE (pf_type field) = PB_LTYPE_SUBMESSAGE
      then (case pf_ptr field of Fields_ptr i \<Rightarrow> message (pd_fields env i) pData m | _ \<Rightarrow> None)
      else case pf_ptr field of
        Null_ptr \<Rightarrow> store_bytes m pData (replicate (unat (pf_data_size field)) 0)
      | Data_ptr p \<Rightarrow> (case load_bytes m p (unat (pf_data_size field)) of None \<Rightarrow> None | Some bs \<Rightarrow> store_bytes m pData bs)
      | Fields_ptr _ \<Rightarrow> None)"

text \<open>The first argument bounds the nesting of messages and extensions.\<close>

fun pb_field_set_to_default :: "nat \<Rightarrow> 's pb_denv \<Rightarrow> pb_field_iter \<Rightarrow> pb_mem \<Rightarrow> pb_mem option" where
  "pb_field_set_to_default 0 env it m = None"
| "pb_field_set_to_default (Suc d) env it m =
     (case it_field it of None \<Rightarrow> None | Some field \<Rightarrow>
        let type = pf_type field; pData = it_pData it; pSize = it_pSize it;
            defaults = field_defaults env (walk_message (pb_field_set_to_default d env)) field pData
        in if PB_LTYPE type = PB_LTYPE_EXTENSION then
             (case load_u64 m pData of None \<Rightarrow> None | Some ext \<Rightarrow>
                walk_extensions (\<lambda>ext m.
                  case store_bytes m (ext + 24) [0] of None \<Rightarrow> None | Some m \<Rightarrow>
                  case iter_from_extension env ext m of None \<Rightarrow> None | Some it \<Rightarrow> pb_field_set_to_default d env it m) ext m)
           else if PB_ATYPE type = PB_ATYPE_STATIC then
             (if PB_HTYPE type = PB_HTYPE_OPTIONAL \<and> pSize \<noteq> pData then
                (case store_bytes m pSize [0] of None \<Rightarrow> None | Some m \<Rightarrow> defaults m)
              else if PB_HTYPE type = PB_HTYPE_REPEATED \<or> PB_HTYPE type = PB_HTYPE_ONEOF then store_le 4 pSize 0 m
              else defaults m)
           else if PB_ATYPE type = PB_ATYPE_POINTER then
             (case store_le 8 pData NULL m of None \<Rightarrow> None | Some m \<Rightarrow>
                if PB_HTYPE type = PB_HTYPE_REPEATED \<or> PB_HTYPE type = PB_HTYPE_ONEOF then store_le 4 pSize 0 m else Some m)
           else Some m)"

definition pb_message_set_to_defaults :: "nat \<Rightarrow> 's pb_denv \<Rightarrow> pb_field list \<Rightarrow> u64 \<Rightarrow> pb_mem \<Rightarrow> pb_mem option" where
  "pb_message_set_to_defaults d env = walk_message (pb_field_set_to_default d env)"

section \<open>Releasing\<close>

fun release_items :: "(u64 \<Rightarrow> pb_mem \<Rightarrow> pb_mem option) \<Rightarrow> u64 \<Rightarrow> u64 \<Rightarrow> nat \<Rightarrow> pb_mem \<Rightarrow> pb_mem option" where
  "release_items f p step 0 m = Some m"
| "release_items f p step (Suc n) m = (case f p m of None \<Rightarrow> None | Some m \<Rightarrow> release_items f (p + step) step n m)"

text \<open>\<open>pb_release\<close>, where \<open>f\<close> releases a field.\<close>

definition release_message ::
  "(pb_field_iter \<Rightarrow> pb_mem \<Rightarrow> pb_mem option) \<Rightarrow> pb_field list \<Rightarrow> u64 \<Rightarrow> pb_mem \<Rightarrow> pb_mem option" where
  "release_message f flds dest_struct m = (if dest_struct = NULL then Some m else walk_message f flds dest_struct m)"

text \<open>The number of submessages in a field.\<close>

definition release_count :: "pb_field \<Rightarrow> pb_field_iter \<Rightarrow> pb_mem \<Rightarrow> u32 option" where
  "release_count field it m =
     (let static = (PB_ATYPE (pf_type field) = PB_ATYPE_STATIC)
      in if PB_HTYPE (pf_type field) = PB_HTYPE_REPEATED then
           map_option (\<lambda>count. if static \<and> count > pf_array_size field then pf_array_size field else count)
             (if static \<and> it_pSize it = it_pData it then Some (pf_array_size field) else load_u32 m (it_pSize it))
         else Some 1)"

definition release_submessages ::
  "'s pb_denv \<Rightarrow> (pb_field_iter \<Rightarrow> pb_mem \<Rightarrow> pb_mem option) \<Rightarrow> pb_field \<Rightarrow> pb_field_iter \<Rightarrow> pb_mem \<Rightarrow> pb_mem option" where
  "release_submessages env f field it m =
     (case (if PB_ATYPE (pf_type field) = PB_ATYPE_POINTER then load_u64 m (it_pData it) else Some (it_pData it)) of None \<Rightarrow> None
      | Some pItem \<Rightarrow>
        case release_count field it m of None \<Rightarrow> None | Some count \<Rightarrow>
          if pItem = NULL then Some m
          else case pf_ptr field of
            Fields_ptr i \<Rightarrow> release_items (release_message f (pd_fields env i)) pItem (ucast (pf_data_size field)) (unat count) m
          | _ \<Rightarrow> if count = 0 then Some m else None)"

definition release_pointer :: "'s pb_denv \<Rightarrow> pb_field \<Rightarrow> pb_field_iter \<Rightarrow> pb_mem \<Rightarrow> pb_mem option" where
  "release_pointer env field it m =
     (let htype = PB_HTYPE (pf_type field); ltype = PB_LTYPE (pf_type field);
          entries = (if htype = PB_HTYPE_REPEATED \<and> (ltype = PB_LTYPE_STRING \<or> ltype = PB_LTYPE_BYTES) then
                       (case load_u64 m (it_pData it) of None \<Rightarrow> None | Some pItem \<Rightarrow>
                          case load_u32 m (it_pSize it) of None \<Rightarrow> None | Some count \<Rightarrow>
                            release_items (\<lambda>p m. case load_u64 m p of None \<Rightarrow> None | Some q \<Rightarrow> store_le 8 p NULL (pd_free env q m))
                              pItem 8 (unat count) m)
                     else Some m)
      in case entries of None \<Rightarrow> None | Some m \<Rightarrow>
         case (if htype = PB_HTYPE_REPEATED then store_le 4 (it_pSize it) 0 m else Some m) of None \<Rightarrow> None | Some m \<Rightarrow>
         case load_u64 m (it_pData it) of None \<Rightarrow> None | Some p \<Rightarrow> store_le 8 (it_pData it) NULL (pd_free env p m))"

fun pb_release_single_field :: "nat \<Rightarrow> 's pb_denv \<Rightarrow> pb_field_iter \<Rightarrow> pb_mem \<Rightarrow> pb_mem option" where
  "pb_release_single_field 0 env it m = None"
| "pb_release_single_field (Suc d) env it m =
     (case it_field it of None \<Rightarrow> None | Some field \<Rightarrow>
        let type = pf_type field; f = pb_release_single_field d env
        in case (if PB_HTYPE type = PB_HTYPE_ONEOF then map_option (\<lambda>which. which \<noteq> pf_tag field) (load_u32 m (it_pSize it)) else Some False) of
             None \<Rightarrow> None
           | Some True \<Rightarrow> Some m
           | Some False \<Rightarrow>
               (case (if PB_LTYPE type = PB_LTYPE_EXTENSION then
                        (case load_u64 m (it_pData it) of None \<Rightarrow> None | Some ext \<Rightarrow>
                           walk_extensions (\<lambda>ext m. case iter_from_extension env ext m of None \<Rightarrow> None | Some it \<Rightarrow> f it m) ext m)
                      else if PB_LTYPE type = PB_LTYPE_SUBMESSAGE \<and> PB_ATYPE type \<noteq> PB_ATYPE_CALLBACK then release_submessages env f field it m
                      else Some m) of
                  None \<Rightarrow> None
                | Some m \<Rightarrow> if PB_ATYPE type = PB_ATYPE_POINTER then release_pointer env field it m else Some m))"

definition pb_release :: "nat \<Rightarrow> 's pb_denv \<Rightarrow> pb_field list \<Rightarrow> u64 \<Rightarrow> pb_mem \<Rightarrow> pb_mem option" where
  "pb_release d env = release_message (pb_release_single_field d env)"

text \<open>The iterator is moved to the old member and back; \<open>None\<close> stands for false.\<close>

definition pb_release_union_field ::
  "nat \<Rightarrow> 's pb_denv \<Rightarrow> pb_field_iter \<Rightarrow> 's pb_istream \<Rightarrow> pb_mem \<Rightarrow> (pb_field_iter option \<times> 's pb_istream \<times> pb_mem) option" where
  "pb_release_union_field d env it s m =
     (let fail = (\<lambda>msg m. map_option (\<lambda>(_, s, m). (None, s, m)) (dec_error msg s m))
      in case it_field it of None \<Rightarrow> None | Some field \<Rightarrow>
         case load_u32 m (it_pSize it) of None \<Rightarrow> None | Some old_tag \<Rightarrow>
           let new_tag = pf_tag field
           in if old_tag = 0 \<or> old_tag = new_tag then Some (Some it, s, m)
              else case pb_field_iter_find old_tag it of None \<Rightarrow> None
                | Some (False, it) \<Rightarrow> fail ''invalid union tag'' m
                | Some (True, it) \<Rightarrow>
                    (case pb_release_single_field d env it m of None \<Rightarrow> None | Some m \<Rightarrow>
                     case pb_field_iter_find new_tag it of None \<Rightarrow> None
                       | Some (False, it) \<Rightarrow> fail ''iterator error'' m
                       | Some (True, it) \<Rightarrow>
                           (case it_field it of None \<Rightarrow> None | Some field \<Rightarrow>
                              map_option (\<lambda>m. (Some it, s, m))
                                (if PB_ATYPE (pf_type field) = PB_ATYPE_POINTER then store_le 8 (it_pData it) NULL m else Some m))))"

section \<open>Field decoders\<close>

text \<open>A value cut to a field of so many bytes, as a number of 64 bits again.\<close>

definition clamp_signed :: "u32 \<Rightarrow> u64 \<Rightarrow> u64 option" where
  "clamp_signed n v =
     (if n = 8 then Some v
      else if n = 4 then Some (scast (ucast v :: 32 word))
      else if n = 2 then Some (scast (ucast v :: 16 word))
      else if n = 1 then Some (scast (ucast v :: 8 word))
      else None)"

definition clamp_unsigned :: "u32 \<Rightarrow> u64 \<Rightarrow> u64 option" where
  "clamp_unsigned n v =
     (if n = 8 then Some v
      else if n = 4 then Some (ucast (ucast v :: 32 word))
      else if n = 2 then Some (ucast (ucast v :: 16 word))
      else if n = 1 then Some (ucast (ucast v :: 8 word))
      else None)"

definition store_checked :: "u32 \<Rightarrow> u64 option \<Rightarrow> u64 \<Rightarrow> u64 \<Rightarrow> 's pb_decoder" where
  "store_checked n clamped v dest =
     (case clamped of
        None \<Rightarrow> dec_error ''invalid data_size''
      | Some c \<Rightarrow> dec_then (dec_update (store_le (unat n) dest v)) (if c \<noteq> v then dec_error ''integer too large'' else dec_ok))"

definition pb_dec_bool :: "'s pb_denv \<Rightarrow> pb_field \<Rightarrow> u64 \<Rightarrow> 's pb_decoder" where
  "pb_dec_bool env field dest = dec_read (pb_decode_varint32 (pd_in env)) (\<lambda>value.
     dec_update (\<lambda>m. store_bytes m dest [if value \<noteq> 0 then 1 else 0]))"

definition pb_decode_bool :: "'s pb_denv \<Rightarrow> u64 \<Rightarrow> 's pb_decoder" where
  "pb_decode_bool env dest = pb_dec_bool env PB_LAST_FIELD dest"

definition pb_dec_varint :: "'s pb_denv \<Rightarrow> pb_field \<Rightarrow> u64 \<Rightarrow> 's pb_decoder" where
  "pb_dec_varint env field dest = dec_read (pb_decode_varint (pd_in env)) (\<lambda>value.
     let n = pf_data_size field; svalue = (if n = 8 then value else scast (ucast value :: 32 word))
     in store_checked n (clamp_signed n svalue) svalue dest)"

definition pb_dec_uvarint :: "'s pb_denv \<Rightarrow> pb_field \<Rightarrow> u64 \<Rightarrow> 's pb_decoder" where
  "pb_dec_uvarint env field dest = dec_read (pb_decode_varint (pd_in env)) (\<lambda>value.
     store_checked (pf_data_size field) (clamp_unsigned (pf_data_size field) value) value dest)"

definition pb_dec_svarint :: "'s pb_denv \<Rightarrow> pb_field \<Rightarrow> u64 \<Rightarrow> 's pb_decoder" where
  "pb_dec_svarint env field dest = dec_read (pb_decode_svarint (pd_in env)) (\<lambda>value.
     store_checked (pf_data_size field) (clamp_signed (pf_data_size field) value) value dest)"

definition pb_dec_fixed32 :: "'s pb_denv \<Rightarrow> pb_field \<Rightarrow> u64 \<Rightarrow> 's pb_decoder" where
  "pb_dec_fixed32 env field dest = dec_read (pb_decode_fixed32 (pd_in env)) (\<lambda>v. dec_update (store_le 4 dest (ucast v)))"

definition pb_dec_fixed64 :: "'s pb_denv \<Rightarrow> pb_field \<Rightarrow> u64 \<Rightarrow> 's pb_decoder" where
  "pb_dec_fixed64 env field dest = dec_read (pb_decode_fixed64 (pd_in env)) (\<lambda>v. dec_update (store_le 8 dest v))"

definition allocate_field :: "'s pb_denv \<Rightarrow> u64 \<Rightarrow> u64 \<Rightarrow> u64 \<Rightarrow> 's pb_decoder" where
  "allocate_field env pData data_size array_size = dec_load (\<lambda>m. load_u64 m pData) (\<lambda>ptr.
     let check_limit = push_bit 32 1
     in if data_size = 0 \<or> array_size = 0 then dec_error ''invalid size''
        else if (data_size \<ge> check_limit \<or> array_size \<ge> check_limit) \<and> (- 1) div array_size < data_size
        then dec_error ''size too large''
        else (\<lambda>s m. let (ptr, m) = pd_realloc env ptr (array_size * data_size) m
                     in if ptr = NULL then dec_error ''realloc failed'' s m else dec_update (store_le 8 pData ptr) s m))"

text \<open>\<open>pb_read\<close> into the memory.\<close>

definition read_into :: "'s pb_denv \<Rightarrow> u64 \<Rightarrow> u64 \<Rightarrow> 's pb_decoder" where
  "read_into env dest count = dec_read (pb_read (pd_in env) True count) (\<lambda>bytes. dec_update (\<lambda>m. store_bytes m dest bytes))"

definition PB_BYTES_ARRAY_T_ALLOCSIZE :: "u32 \<Rightarrow> u64" where
  "PB_BYTES_ARRAY_T_ALLOCSIZE n = ucast n + 4"

definition pb_dec_bytes :: "'s pb_denv \<Rightarrow> pb_field \<Rightarrow> u64 \<Rightarrow> 's pb_decoder" where
  "pb_dec_bytes env field dest = dec_read (pb_decode_varint32 (pd_in env)) (\<lambda>n.
     let alloc_size = PB_BYTES_ARRAY_T_ALLOCSIZE n;
         finish = (\<lambda>bdest. dec_then (dec_update (store_le 4 bdest (ucast n))) (read_into env (bdest + 4) (ucast n)))
     in if n > PB_SIZE_MAX then dec_error ''bytes overflow''
        else if ucast n > alloc_size then dec_error ''size too large''
        else if PB_ATYPE (pf_type field) = PB_ATYPE_POINTER then
          dec_left (\<lambda>left. if left < ucast n then dec_error ''end-of-stream''
            else dec_then (allocate_field env dest alloc_size 1) (dec_load (\<lambda>m. load_u64 m dest) finish))
        else if alloc_size > ucast (pf_data_size field) then dec_error ''bytes overflow''
        else finish dest)"

text \<open>The terminator is written whatever \<open>pb_read\<close> returned.\<close>

definition read_string :: "'s pb_denv \<Rightarrow> u64 \<Rightarrow> u64 \<Rightarrow> 's pb_decoder" where
  "read_string env dest n s m =
     (case read_into env dest n s m of None \<Rightarrow> None | Some (status, s, m) \<Rightarrow>
        map_option (\<lambda>m. (status, s, m)) (store_bytes m (dest + n) [0]))"

definition pb_dec_string :: "'s pb_denv \<Rightarrow> pb_field \<Rightarrow> u64 \<Rightarrow> 's pb_decoder" where
  "pb_dec_string env field dest = dec_read (pb_decode_varint32 (pd_in env)) (\<lambda>n.
     let alloc_size = ucast (n + 1) :: u64
     in if alloc_size < ucast n then dec_error ''size too large''
        else if PB_ATYPE (pf_type field) = PB_ATYPE_POINTER then
          dec_left (\<lambda>left. if left < ucast n then dec_error ''end-of-stream''
            else dec_then (allocate_field env dest alloc_size 1) (dec_load (\<lambda>m. load_u64 m dest) (\<lambda>dest. read_string env dest (ucast n))))
        else if alloc_size > ucast (pf_data_size field) then dec_error ''string overflow''
        else read_string env dest (ucast n))"

text \<open>A substream for what follows, and its end.\<close>

definition with_substream :: "'s pb_denv \<Rightarrow> ('s pb_istream \<Rightarrow> 's pb_decoder) \<Rightarrow> 's pb_decoder" where
  "with_substream env body = dec_read (pb_make_string_substream (pd_in env)) body"

definition close_substream :: "'s pb_denv \<Rightarrow> 's pb_istream \<Rightarrow> bool \<Rightarrow> 's pb_decoder" where
  "close_substream env substream status =
     dec_read (pb_close_string_substream (pd_in env) substream) (\<lambda>_ s m. Some (status, s, m))"

text \<open>\<open>decode\<close> is \<open>pb_decode\<close> or \<open>pb_decode_noinit\<close> one level down, as its first argument says.\<close>

type_synonym 's pb_subdec = "bool \<Rightarrow> pb_field list \<Rightarrow> u64 \<Rightarrow> 's pb_decoder"

definition pb_dec_submessage :: "'s pb_denv \<Rightarrow> 's pb_subdec \<Rightarrow> pb_field \<Rightarrow> u64 \<Rightarrow> 's pb_decoder" where
  "pb_dec_submessage env decode field dest = with_substream env (\<lambda>substream s m.
     case pf_ptr field of
       Null_ptr \<Rightarrow> dec_error ''invalid field descriptor'' s m
     | Data_ptr _ \<Rightarrow> None
     | Fields_ptr i \<Rightarrow>
         (case decode (PB_HTYPE (pf_type field) = PB_HTYPE_REPEATED) (pd_fields env i) dest substream m of
            None \<Rightarrow> None
          | Some (status, substream, m) \<Rightarrow> close_substream env substream status s m))"

definition pb_dec_fixed_length_bytes :: "'s pb_denv \<Rightarrow> pb_field \<Rightarrow> u64 \<Rightarrow> 's pb_decoder" where
  "pb_dec_fixed_length_bytes env field dest = dec_read (pb_decode_varint32 (pd_in env)) (\<lambda>n.
     if n > PB_SIZE_MAX then dec_error ''bytes overflow''
     else if n = 0 then dec_update (\<lambda>m. store_bytes m dest (replicate (unat (pf_data_size field)) 0))
     else if n \<noteq> pf_data_size field then dec_error ''incorrect fixed length bytes size''
     else read_into env dest (ucast (pf_data_size field)))"

definition PB_DECODERS :: "'s pb_denv \<Rightarrow> 's pb_subdec \<Rightarrow> pb_field \<Rightarrow> u64 \<Rightarrow> 's pb_decoder" where
  "PB_DECODERS env decode field =
     (let ltype = PB_LTYPE (pf_type field)
      in if ltype = PB_LTYPE_BOOL then pb_dec_bool env field
         else if ltype = PB_LTYPE_VARINT then pb_dec_varint env field
         else if ltype = PB_LTYPE_UVARINT then pb_dec_uvarint env field
         else if ltype = PB_LTYPE_SVARINT then pb_dec_svarint env field
         else if ltype = PB_LTYPE_FIXED32 then pb_dec_fixed32 env field
         else if ltype = PB_LTYPE_FIXED64 then pb_dec_fixed64 env field
         else if ltype = PB_LTYPE_BYTES then pb_dec_bytes env field
         else if ltype = PB_LTYPE_STRING then pb_dec_string env field
         else if ltype = PB_LTYPE_SUBMESSAGE then pb_dec_submessage env decode field
         else if ltype = PB_LTYPE_FIXED_LENGTH_BYTES then pb_dec_fixed_length_bytes env field
         else (\<lambda>_ _ _. None))"

section \<open>Fields\<close>

text \<open>The address of an entry; the product of the sizes has 32 bits.\<close>

definition item_address :: "u64 \<Rightarrow> pb_field \<Rightarrow> u32 \<Rightarrow> u64" where
  "item_address pData field n = pData + ucast (pf_data_size field * n)"

text \<open>The entries of a packed array of fixed size; it yields the status, the substream and the memory.\<close>

partial_function (option) static_packed_loop ::
  "(u64 \<Rightarrow> 's pb_decoder) \<Rightarrow> pb_field \<Rightarrow> u64 \<Rightarrow> u64 \<Rightarrow> 's pb_istream \<Rightarrow> pb_mem \<Rightarrow> (bool \<times> 's pb_istream \<times> pb_mem) option" where
  "static_packed_loop func field pData pSize sub m =
     (if is_bytes_left sub = 0 then Some (True, sub, m)
      else case load_u32 m pSize of None \<Rightarrow> None | Some n \<Rightarrow>
        if \<not> n < pf_array_size field then Some (True, sub, m)
        else case func (item_address pData field n) sub m of None \<Rightarrow> None | Some (ok, sub, m) \<Rightarrow>
          if \<not> ok then Some (False, sub, m)
          else case load_u32 m pSize of None \<Rightarrow> None | Some n \<Rightarrow>
            case store_le 4 pSize (ucast (n + 1)) m of None \<Rightarrow> None | Some m \<Rightarrow> static_packed_loop func field pData pSize sub m)"

definition decode_static_field :: "nat \<Rightarrow> 's pb_denv \<Rightarrow> 's pb_subdec \<Rightarrow> u32 \<Rightarrow> pb_field \<Rightarrow> pb_field_iter \<Rightarrow> 's pb_decoder" where
  "decode_static_field d env decode wire_type field it =
     (let htype = PB_HTYPE (pf_type field); ltype = PB_LTYPE (pf_type field); pData = it_pData it; pSize = it_pSize it;
          func = PB_DECODERS env decode field
      in if htype = PB_HTYPE_REQUIRED then func pData
         else if htype = PB_HTYPE_OPTIONAL then
           dec_then (if pSize \<noteq> pData then dec_update (\<lambda>m. store_bytes m pSize [1]) else dec_ok) (func pData)
         else if htype = PB_HTYPE_REPEATED then
           (if wire_type = PB_WT_STRING \<and> ltype \<le> PB_LTYPE_LAST_PACKABLE then
              with_substream env (\<lambda>sub s m.
                case static_packed_loop func field pData pSize sub m of None \<Rightarrow> None | Some (status, sub, m) \<Rightarrow>
                  if is_bytes_left sub \<noteq> 0 then dec_error ''array overflow'' s m else close_substream env sub status s m)
            else
              dec_load (\<lambda>m. load_u32 m pSize) (\<lambda>n. dec_then (dec_update (store_le 4 pSize (ucast (n + 1))))
                (if n \<ge> pf_array_size field then dec_error ''array overflow'' else func (item_address pData field n))))
         else
           dec_load (\<lambda>m. if ltype = PB_LTYPE_SUBMESSAGE then map_option (\<lambda>which. which \<noteq> pf_tag field) (load_u32 m pSize) else Some False)
             (\<lambda>new. dec_then
               (if new then dec_update (\<lambda>m.
                  case store_bytes m pData (replicate (unat (pf_data_size field)) 0) of None \<Rightarrow> None | Some m \<Rightarrow>
                    (case pf_ptr field of Fields_ptr i \<Rightarrow> pb_message_set_to_defaults d env (pd_fields env i) pData m | _ \<Rightarrow> None))
                else dec_ok)
               (dec_then (dec_update (store_le 4 pSize (ucast (pf_tag field)))) (func pData))))"

definition initialize_pointer_field :: "nat \<Rightarrow> 's pb_denv \<Rightarrow> pb_field \<Rightarrow> u64 \<Rightarrow> pb_mem \<Rightarrow> pb_mem option" where
  "initialize_pointer_field d env field pItem m =
     (if PB_LTYPE (pf_type field) = PB_LTYPE_STRING \<or> PB_LTYPE (pf_type field) = PB_LTYPE_BYTES then store_le 8 pItem NULL m
      else if PB_LTYPE (pf_type field) = PB_LTYPE_SUBMESSAGE then
        (case store_bytes m pItem (replicate (unat (pf_data_size field)) 0) of None \<Rightarrow> None | Some m \<Rightarrow>
           (case pf_ptr field of Fields_ptr i \<Rightarrow> pb_message_set_to_defaults d env (pd_fields env i) pItem m | _ \<Rightarrow> None))
      else Some m)"

text \<open>The entries of a packed array in allocated memory; it also yields the error message it sets on the stream.\<close>

partial_function (option) pointer_packed_loop ::
  "(u64 \<Rightarrow> 's pb_decoder) \<Rightarrow> (u64 \<Rightarrow> 's pb_decoder) \<Rightarrow> (u64 \<Rightarrow> pb_mem \<Rightarrow> pb_mem option) \<Rightarrow> pb_field \<Rightarrow> u64 \<Rightarrow> u64 \<Rightarrow> u64 \<Rightarrow>
     's pb_istream \<Rightarrow> 's pb_istream \<Rightarrow> pb_mem \<Rightarrow> (bool \<times> 's pb_istream \<times> 's pb_istream \<times> pb_mem) option" where
  "pointer_packed_loop func allocate init field pData pSize allocated_size stream sub m =
     (if is_bytes_left sub = 0 then Some (True, stream, sub, m)
      else case load_u32 m pSize of None \<Rightarrow> None | Some n \<Rightarrow>
        if n = PB_SIZE_MAX then Some (False, stream\<lparr>is_errmsg := Some ''too many array entries''\<rparr>, sub, m)
        else if ucast n + 1 > allocated_size \<and> pf_data_size field = 0 then None
        else
          let grow = (ucast n + 1 > allocated_size);
              remain = (is_bytes_left sub - 1) div ucast (pf_data_size field) + 1;
              allocated_size = (if \<not> grow then allocated_size
                else if remain < ucast PB_SIZE_MAX - allocated_size then allocated_size + remain else allocated_size + 1)
          in case (if grow then allocate allocated_size sub m else Some (True, sub, m)) of None \<Rightarrow> None | Some (ok, sub, m) \<Rightarrow>
             if \<not> ok then Some (False, stream, sub, m)
             else case load_u64 m pData of None \<Rightarrow> None | Some items \<Rightarrow>
               if item_address items field n = NULL then Some (False, stream, sub, m)
               else case init (item_address items field n) m of None \<Rightarrow> None | Some m \<Rightarrow>
                 case func (item_address items field n) sub m of None \<Rightarrow> None | Some (ok, sub, m) \<Rightarrow>
                   if \<not> ok then Some (False, stream, sub, m)
                   else case load_u32 m pSize of None \<Rightarrow> None | Some n \<Rightarrow>
                     case store_le 4 pSize (ucast (n + 1)) m of None \<Rightarrow> None | Some m \<Rightarrow>
                       pointer_packed_loop func allocate init field pData pSize allocated_size stream sub m)"

definition decode_pointer_field :: "nat \<Rightarrow> 's pb_denv \<Rightarrow> 's pb_subdec \<Rightarrow> u32 \<Rightarrow> pb_field \<Rightarrow> pb_field_iter \<Rightarrow> 's pb_decoder" where
  "decode_pointer_field d env decode wire_type field it =
     (let htype = PB_HTYPE (pf_type field); ltype = PB_LTYPE (pf_type field); pData = it_pData it; pSize = it_pSize it;
          func = PB_DECODERS env decode field; init = initialize_pointer_field d env field
      in if htype = PB_HTYPE_REPEATED then
           (if wire_type = PB_WT_STRING \<and> ltype \<le> PB_LTYPE_LAST_PACKABLE then
              dec_load (\<lambda>m. load_u32 m pSize) (\<lambda>n. with_substream env (\<lambda>sub s m.
                case pointer_packed_loop func (allocate_field env pData (ucast (pf_data_size field))) init field pData pSize (ucast n) s sub m of
                  None \<Rightarrow> None
                | Some (status, s, sub, m) \<Rightarrow> close_substream env sub status s m))
            else
              dec_load (\<lambda>m. load_u32 m pSize) (\<lambda>n.
                if n = PB_SIZE_MAX then dec_error ''too many array entries''
                else dec_then (allocate_field env pData (ucast (pf_data_size field)) (ucast (n + 1)))
                  (dec_load (\<lambda>m. load_u64 m pData) (\<lambda>items.
                    let pItem = item_address items field n
                    in dec_load (\<lambda>m. load_u32 m pSize) (\<lambda>n.
                       dec_then (dec_update (store_le 4 pSize (ucast (n + 1)))) (dec_then (dec_update (init pItem)) (func pItem)))))))
         else
           dec_then
             (dec_load (\<lambda>m. if ltype = PB_LTYPE_SUBMESSAGE then map_option (\<lambda>p. p \<noteq> NULL) (load_u64 m pData) else Some False)
               (\<lambda>old. if old then dec_update (pb_release_single_field d env it) else dec_ok))
             (dec_then (if htype = PB_HTYPE_ONEOF then dec_update (store_le 4 pSize (ucast (pf_tag field))) else dec_ok)
               (if ltype = PB_LTYPE_STRING \<or> ltype = PB_LTYPE_BYTES then func pData
                else dec_then (allocate_field env pData (ucast (pf_data_size field)) 1)
                  (dec_load (\<lambda>m. load_u64 m pData) (\<lambda>p. dec_then (dec_update (init p))
                    (dec_load (\<lambda>m. load_u64 m pData) func))))))"

text \<open>The user's callback until the substream is empty; it yields its status, the substream and the memory.\<close>

partial_function (option) callback_loop ::
  "'s pb_decoder \<Rightarrow> 's pb_istream \<Rightarrow> pb_mem \<Rightarrow> (bool \<times> 's pb_istream \<times> pb_mem) option" where
  "callback_loop cb sub m =
     (case cb sub m of None \<Rightarrow> None | Some (ok, sub, m) \<Rightarrow>
        if \<not> ok then Some (False, sub, m)
        else if is_bytes_left sub \<noteq> 0 then callback_loop cb sub m else Some (True, sub, m))"

definition decode_callback_field :: "'s pb_denv \<Rightarrow> u32 \<Rightarrow> pb_field \<Rightarrow> pb_field_iter \<Rightarrow> 's pb_decoder" where
  "decode_callback_field env wire_type field it =
     dec_load (\<lambda>m. if it_pData it = NULL then Some NULL else load_u64 m (it_pData it)) (\<lambda>fn.
       if fn = NULL then dec_read (pb_skip_field (pd_in env) wire_type) (\<lambda>_. dec_ok)
       else if wire_type = PB_WT_STRING then
         with_substream env (\<lambda>sub s m.
           case callback_loop (pd_decode env fn field (it_pData it + 8)) sub m of None \<Rightarrow> None | Some (ok, sub, m) \<Rightarrow>
             if ok then close_substream env sub True s m else dec_error ''callback failed'' s m)
       else
         dec_read (read_raw_value (pd_in env) wire_type 10) (\<lambda>buffer s m.
           map_option (\<lambda>(ok, m). (ok, s, m)) (pd_decode_copy env fn field (it_pData it + 8) buffer m)))"

text \<open>The iterator is returned as it was left; \<open>None\<close> stands for false.\<close>

definition decode_field ::
  "nat \<Rightarrow> 's pb_denv \<Rightarrow> 's pb_subdec \<Rightarrow> u32 \<Rightarrow> pb_field_iter \<Rightarrow> 's pb_istream \<Rightarrow> pb_mem \<Rightarrow>
     (pb_field_iter option \<times> 's pb_istream \<times> pb_mem) option" where
  "decode_field d env decode wire_type it s m =
     (case it_field it of None \<Rightarrow> None | Some field \<Rightarrow>
        case (if PB_HTYPE (pf_type field) = PB_HTYPE_ONEOF then pb_release_union_field d env it s m else Some (Some it, s, m)) of
          None \<Rightarrow> None
        | Some (None, s, m) \<Rightarrow> Some (None, s, m)
        | Some (Some it, s, m) \<Rightarrow>
            (case it_field it of None \<Rightarrow> None | Some field \<Rightarrow>
               let atype = PB_ATYPE (pf_type field)
               in map_option (\<lambda>(ok, s, m). (if ok then Some it else None, s, m))
                    ((if atype = PB_ATYPE_STATIC then decode_static_field d env decode wire_type field it
                      else if atype = PB_ATYPE_POINTER then decode_pointer_field d env decode wire_type field it
                      else if atype = PB_ATYPE_CALLBACK then decode_callback_field env wire_type field it
                      else dec_error ''invalid field type'') s m)))"

definition default_extension_decoder :: "nat \<Rightarrow> 's pb_denv \<Rightarrow> 's pb_subdec \<Rightarrow> u64 \<Rightarrow> u32 \<Rightarrow> u32 \<Rightarrow> 's pb_decoder" where
  "default_extension_decoder d env decode extension tag wire_type s m =
     (case iter_from_extension env extension m of None \<Rightarrow> None | Some it \<Rightarrow>
      case it_field it of None \<Rightarrow> None | Some field \<Rightarrow>
        if pf_tag field \<noteq> tag then Some (True, s, m)
        else case store_bytes m (extension + 24) [1] of None \<Rightarrow> None | Some m \<Rightarrow>
          map_option (\<lambda>(r, s, m). (r \<noteq> None, s, m)) (decode_field d env decode wire_type it s m))"

partial_function (option) extension_decode_loop ::
  "(u64 \<Rightarrow> 's pb_decoder) \<Rightarrow> u64 \<Rightarrow> u64 \<Rightarrow> 's pb_istream \<Rightarrow> pb_mem \<Rightarrow> (bool \<times> 's pb_istream \<times> pb_mem) option" where
  "extension_decode_loop f pos extension s m =
     (if \<not> (extension \<noteq> NULL \<and> pos = is_bytes_left s) then Some (True, s, m)
      else case f extension s m of None \<Rightarrow> None | Some (status, s, m) \<Rightarrow>
        if \<not> status then Some (False, s, m)
        else case load_u64 m (extension + 16) of None \<Rightarrow> None | Some next \<Rightarrow> extension_decode_loop f pos next s m)"

definition decode_extension :: "nat \<Rightarrow> 's pb_denv \<Rightarrow> 's pb_subdec \<Rightarrow> u32 \<Rightarrow> u32 \<Rightarrow> pb_field_iter \<Rightarrow> 's pb_decoder" where
  "decode_extension d env decode tag wire_type it s m =
     (case load_u64 m (it_pData it) of None \<Rightarrow> None | Some extension \<Rightarrow>
        extension_decode_loop (\<lambda>extension.
          dec_load (\<lambda>m. load_u64 m extension) (\<lambda>type. dec_load (\<lambda>m. load_u64 m type) (\<lambda>fn.
            if fn \<noteq> NULL then pd_ext_decode env fn extension tag wire_type
            else default_extension_decoder d env decode extension tag wire_type)))
          (is_bytes_left s) extension s m)"

definition find_extension_field :: "pb_field_iter \<Rightarrow> (bool \<times> pb_field_iter) option" where
  "find_extension_field it = iter_search (\<lambda>f. PB_LTYPE (pf_type f) = PB_LTYPE_EXTENSION) (it_pos it) it"

section \<open>Messages\<close>

definition PB_MAX_REQUIRED_FIELDS :: u32 where
  "PB_MAX_REQUIRED_FIELDS = 64"

text \<open>The local variables of \<open>pb_decode_noinit\<close>; \<open>fixed_count_field\<close> is a position in the descriptors.\<close>

record pb_decode_vars =
  dv_iter :: pb_field_iter
  dv_fields_seen :: "u32 list"
  dv_extension_range_start :: u32
  dv_fixed_count_field :: "nat option"

text \<open>What the body of the loop does next.\<close>

datatype pb_step = Return_now bool | Break_loop pb_decode_vars | Next_field pb_decode_vars

definition fail_step :: "string \<Rightarrow> 's pb_istream \<Rightarrow> pb_mem \<Rightarrow> (pb_step \<times> 's pb_istream \<times> pb_mem) option" where
  "fail_step msg s m = map_option (\<lambda>(_, s, m). (Return_now False, s, m)) (dec_error msg s m)"

definition skip_unknown :: "'s pb_denv \<Rightarrow> pb_decode_vars \<Rightarrow> u32 \<Rightarrow> 's pb_istream \<Rightarrow> pb_mem \<Rightarrow> (pb_step \<times> 's pb_istream \<times> pb_mem) option" where
  "skip_unknown env vars wire_type s m =
     map_option (\<lambda>(r, s). (if r = None then Return_now False else Next_field vars, s, m)) (pb_skip_field (pd_in env) wire_type s)"

definition decode_unknown ::
  "nat \<Rightarrow> 's pb_denv \<Rightarrow> 's pb_subdec \<Rightarrow> pb_decode_vars \<Rightarrow> u32 \<Rightarrow> u32 \<Rightarrow> 's pb_istream \<Rightarrow> pb_mem \<Rightarrow>
     (pb_step \<times> 's pb_istream \<times> pb_mem) option" where
  "decode_unknown d env decode vars tag wire_type s m =
     (if \<not> tag \<ge> dv_extension_range_start vars then skip_unknown env vars wire_type s m
      else case find_extension_field (dv_iter vars) of None \<Rightarrow> None | Some (found, it) \<Rightarrow>
        case it_field it of None \<Rightarrow> None | Some field \<Rightarrow>
          let start = (if found then pf_tag field else - 1); vars = vars\<lparr>dv_iter := it, dv_extension_range_start := start\<rparr>
          in if \<not> tag \<ge> start then skip_unknown env vars wire_type s m
             else case decode_extension d env decode tag wire_type it s m of None \<Rightarrow> None | Some (status, s', m) \<Rightarrow>
               if \<not> status then Some (Return_now False, s', m)
               else if is_bytes_left s \<noteq> is_bytes_left s' then Some (Next_field vars, s', m)
               else skip_unknown env vars wire_type s' m)"

text \<open>Whether all entries of the fixed count field were seen.\<close>

definition fixed_count_complete :: "nat \<Rightarrow> 's pb_denv \<Rightarrow> pb_decode_vars \<Rightarrow> pb_mem \<Rightarrow> bool option" where
  "fixed_count_complete d env vars m =
     (case dv_fixed_count_field vars of None \<Rightarrow> Some True | Some i \<Rightarrow>
        case field_at (it_start (dv_iter vars)) i of None \<Rightarrow> None | Some f \<Rightarrow>
          map_option (\<lambda>count. count = pf_array_size f) (load_u32 m (pd_local env d)))"

text \<open>The bookkeeping in front of a field that was found.\<close>

definition fixed_count_start :: "nat \<Rightarrow> 's pb_denv \<Rightarrow> pb_field \<Rightarrow> pb_decode_vars \<Rightarrow> pb_mem \<Rightarrow> (pb_decode_vars option \<times> pb_mem) option" where
  "fixed_count_start d env field vars m =
     (let it = dv_iter vars; vars' = vars\<lparr>dv_iter := it\<lparr>it_pSize := pd_local env d\<rparr>\<rparr>
      in if \<not> (PB_HTYPE (pf_type field) = PB_HTYPE_REPEATED \<and> it_pSize it = it_pData it) then Some (Some vars, m)
         else if dv_fixed_count_field vars = Some (it_pos it) then Some (Some vars', m)
         else case fixed_count_complete d env vars m of None \<Rightarrow> None | Some complete \<Rightarrow>
           if \<not> complete then Some (None, m)
           else map_option (\<lambda>m. (Some (vars'\<lparr>dv_fixed_count_field := Some (it_pos it)\<rparr>), m)) (store_le 4 (pd_local env d) 0 m))"

definition mark_seen :: "pb_field \<Rightarrow> pb_decode_vars \<Rightarrow> pb_decode_vars" where
  "mark_seen field vars =
     (let index = it_required_field_index (dv_iter vars); i = unat (drop_bit 5 index)
      in if PB_HTYPE (pf_type field) = PB_HTYPE_REQUIRED \<and> index < PB_MAX_REQUIRED_FIELDS
         then vars\<lparr>dv_fields_seen := (dv_fields_seen vars)[i := dv_fields_seen vars ! i OR push_bit (unat (index AND 31)) 1]\<rparr>
         else vars)"

definition decode_known ::
  "nat \<Rightarrow> 's pb_denv \<Rightarrow> 's pb_subdec \<Rightarrow> pb_decode_vars \<Rightarrow> u32 \<Rightarrow> 's pb_istream \<Rightarrow> pb_mem \<Rightarrow>
     (pb_step \<times> 's pb_istream \<times> pb_mem) option" where
  "decode_known d env decode vars wire_type s m =
     (case it_field (dv_iter vars) of None \<Rightarrow> None | Some field \<Rightarrow>
        case fixed_count_start d env field vars m of None \<Rightarrow> None
        | Some (None, m) \<Rightarrow> fail_step ''wrong size for fixed count field'' s m
        | Some (Some vars, m) \<Rightarrow>
            let vars = mark_seen field vars
            in case decode_field d env decode wire_type (dv_iter vars) s m of None \<Rightarrow> None
               | Some (None, s, m) \<Rightarrow> Some (Return_now False, s, m)
               | Some (Some it, s, m) \<Rightarrow> Some (Next_field (vars\<lparr>dv_iter := it\<rparr>), s, m))"

definition decode_step ::
  "nat \<Rightarrow> 's pb_denv \<Rightarrow> 's pb_subdec \<Rightarrow> pb_decode_vars \<Rightarrow> 's pb_istream \<Rightarrow> pb_mem \<Rightarrow> (pb_step \<times> 's pb_istream \<times> pb_mem) option" where
  "decode_step d env decode vars s m =
     (case pb_decode_tag (pd_in env) s of None \<Rightarrow> None
      | Some (None, eof, s) \<Rightarrow> Some (if eof then Break_loop vars else Return_now False, s, m)
      | Some (Some (wire_type, tag), _, s) \<Rightarrow>
          (case pb_field_iter_find tag (dv_iter vars) of None \<Rightarrow> None | Some (found, it) \<Rightarrow>
             (if found then decode_known d env decode (vars\<lparr>dv_iter := it\<rparr>) wire_type s m
              else decode_unknown d env decode (vars\<lparr>dv_iter := it\<rparr>) tag wire_type s m)))"

text \<open>It yields false, or the variables after the loop.\<close>

partial_function (option) decode_loop ::
  "(pb_decode_vars \<Rightarrow> 's pb_istream \<Rightarrow> pb_mem \<Rightarrow> (pb_step \<times> 's pb_istream \<times> pb_mem) option) \<Rightarrow> pb_decode_vars \<Rightarrow>
     's pb_istream \<Rightarrow> pb_mem \<Rightarrow> (pb_decode_vars option \<times> 's pb_istream \<times> pb_mem) option" where
  "decode_loop step vars s m =
     (if is_bytes_left s = 0 then Some (Some vars, s, m)
      else case step vars s m of None \<Rightarrow> None | Some (r, s, m) \<Rightarrow>
        (case r of Return_now _ \<Rightarrow> Some (None, s, m) | Break_loop vars \<Rightarrow> Some (Some vars, s, m) | Next_field vars \<Rightarrow> decode_loop step vars s m))"

text \<open>The number of required fields up to the last one, its type, and the iterator after the walk.\<close>

partial_function (option) required_loop :: "pb_field_iter \<Rightarrow> (u32 \<times> u8 \<times> pb_field_iter) option" where
  "required_loop it =
     (case it_field it of None \<Rightarrow> None | Some field \<Rightarrow>
      case pb_field_iter_next it of None \<Rightarrow> None | Some (again, it') \<Rightarrow>
        if again then required_loop it' else Some (it_required_field_index it, pf_type field, it'))"

definition required_seen :: "u32 list \<Rightarrow> u32 \<Rightarrow> bool" where
  "required_seen fields_seen req_field_count =
     (let whole = unat (drop_bit 5 req_field_count); rest = req_field_count AND 31
      in req_field_count = 0 \<or>
         (\<forall>w \<in> set (take whole fields_seen). w = - 1) \<and>
         (rest = 0 \<or> fields_seen ! whole = drop_bit (32 - unat rest) (- 1)))"

definition required_check :: "pb_decode_vars \<Rightarrow> bool option" where
  "required_check vars =
     (case required_loop (dv_iter vars) of None \<Rightarrow> None | Some (req_field_count, last_type, it) \<Rightarrow>
      case it_field it of None \<Rightarrow> None | Some first \<Rightarrow>
        let count = (if PB_HTYPE last_type = PB_HTYPE_REQUIRED \<and> pf_tag first \<noteq> 0 then req_field_count + 1 else req_field_count);
            count = (if count > PB_MAX_REQUIRED_FIELDS then PB_MAX_REQUIRED_FIELDS else count)
        in Some (required_seen (dv_fields_seen vars) count))"

definition decode_finish :: "nat \<Rightarrow> 's pb_denv \<Rightarrow> pb_decode_vars \<Rightarrow> 's pb_decoder" where
  "decode_finish d env vars s m =
     (case fixed_count_complete d env vars m of None \<Rightarrow> None | Some complete \<Rightarrow>
        if \<not> complete then dec_error ''wrong size for fixed count field'' s m
        else case required_check vars of None \<Rightarrow> None | Some seen \<Rightarrow>
          if seen then Some (True, s, m) else dec_error ''missing required field'' s m)"

text \<open>The local variable is there when the function is entered.\<close>

definition enter_local :: "u64 \<Rightarrow> pb_mem \<Rightarrow> pb_mem" where
  "enter_local a m = m(a \<mapsto> 0, a + 1 \<mapsto> 0, a + 2 \<mapsto> 0, a + 3 \<mapsto> 0)"

definition decode_init ::
  "nat \<Rightarrow> 's pb_denv \<Rightarrow> (pb_field list \<Rightarrow> u64 \<Rightarrow> 's pb_decoder) \<Rightarrow> pb_field list \<Rightarrow> u64 \<Rightarrow> 's pb_decoder" where
  "decode_init d env noinit flds dest_struct s m =
     (case pb_message_set_to_defaults d env flds dest_struct m of None \<Rightarrow> None | Some m \<Rightarrow>
      case noinit flds dest_struct s m of None \<Rightarrow> None | Some (status, s, m) \<Rightarrow>
        if status then Some (True, s, m)
        else map_option (\<lambda>m. (False, s, m)) (pb_release d env flds dest_struct m))"

text \<open>The first argument bounds how deep messages are nested.\<close>

fun pb_decode_noinit :: "nat \<Rightarrow> 's pb_denv \<Rightarrow> pb_field list \<Rightarrow> u64 \<Rightarrow> 's pb_decoder" where
  "pb_decode_noinit 0 env flds dest_struct s m = None"
| "pb_decode_noinit (Suc d) env flds dest_struct s m =
     (case pb_field_iter_begin flds dest_struct of None \<Rightarrow> None | Some (_, it) \<Rightarrow>
        let vars = \<lparr>dv_iter = it, dv_fields_seen = [0, 0], dv_extension_range_start = 0, dv_fixed_count_field = None\<rparr>;
            decode = (\<lambda>init. if init then decode_init d env (pb_decode_noinit d env) else pb_decode_noinit d env)
        in case decode_loop (decode_step (Suc d) env decode) vars s (enter_local (pd_local env (Suc d)) m) of
             None \<Rightarrow> None
           | Some (None, s, m) \<Rightarrow> Some (False, s, m)
           | Some (Some vars, s, m) \<Rightarrow> decode_finish (Suc d) env vars s m)"

definition pb_decode :: "nat \<Rightarrow> 's pb_denv \<Rightarrow> pb_field list \<Rightarrow> u64 \<Rightarrow> 's pb_decoder" where
  "pb_decode d env = decode_init d env (pb_decode_noinit d env)"

definition pb_decode_delimited_noinit :: "nat \<Rightarrow> 's pb_denv \<Rightarrow> pb_field list \<Rightarrow> u64 \<Rightarrow> 's pb_decoder" where
  "pb_decode_delimited_noinit d env flds dest_struct = with_substream env (\<lambda>sub s m.
     case pb_decode_noinit d env flds dest_struct sub m of None \<Rightarrow> None | Some (status, sub, m) \<Rightarrow> close_substream env sub status s m)"

definition pb_decode_delimited :: "nat \<Rightarrow> 's pb_denv \<Rightarrow> pb_field list \<Rightarrow> u64 \<Rightarrow> 's pb_decoder" where
  "pb_decode_delimited d env flds dest_struct = with_substream env (\<lambda>sub s m.
     case pb_decode d env flds dest_struct sub m of None \<Rightarrow> None | Some (status, sub, m) \<Rightarrow> close_substream env sub status s m)"

definition pb_decode_nullterminated :: "nat \<Rightarrow> 's pb_denv \<Rightarrow> pb_field list \<Rightarrow> u64 \<Rightarrow> 's pb_decoder" where
  "pb_decode_nullterminated = pb_decode"

declare walk_extensions.simps [code]
  walk_fields.simps [code]
  static_packed_loop.simps [code]
  pointer_packed_loop.simps [code]
  callback_loop.simps [code]
  extension_decode_loop.simps [code]
  decode_loop.simps [code]
  required_loop.simps [code]

end
