(* ===== verification/Pb_Input.thy ===== *)
theory Pb_Input
  imports Pb_Istream
begin

text \<open>
  The contract of an input stream of pb_decode.c: the callback hands out the pending bytes in order.
  Under it the readers undo the writers of the encoder, whatever follows, and on any input they return
  and stay within the stream.
\<close>

definition passed :: "('s \<Rightarrow> u8 list) \<Rightarrow> nat \<Rightarrow> 's pb_istream \<Rightarrow> 's pb_istream \<Rightarrow> bool" where
  "passed pending n s s' \<longleftrightarrow> n \<le> unat (is_bytes_left s) \<and> unat (is_bytes_left s') = unat (is_bytes_left s) - n \<and>
     pending (is_state s') = drop n (pending (is_state s)) \<and> is_errmsg s' = is_errmsg s"

definition istream_ok :: "('s \<Rightarrow> u8 list) \<Rightarrow> 's pb_istream \<Rightarrow> bool" where
  "istream_ok pending s \<longleftrightarrow> unat (is_bytes_left s) \<le> length (pending (is_state s))"

definition stream_input :: "('s \<Rightarrow> u8 list) \<Rightarrow> 's pb_istream \<Rightarrow> u8 list" where
  "stream_input pending s = take (unat (is_bytes_left s)) (pending (is_state s))"

text \<open>A reader that takes \<open>bs\<close> from the front of any input, with a result that satisfies \<open>P\<close>.\<close>

definition reads :: "('s \<Rightarrow> u8 list) \<Rightarrow> ('s, 'a) pb_reader \<Rightarrow> u8 list \<Rightarrow> ('a \<Rightarrow> bool) \<Rightarrow> bool" where
  "reads pending f bs P \<longleftrightarrow> (\<forall>s rest. istream_ok pending s \<longrightarrow> stream_input pending s = bs @ rest \<longrightarrow>
     (\<exists>x s'. f s = Some (Some x, s') \<and> P x \<and> passed pending (length bs) s s'))"

text \<open>What every reader keeps, successful or not: no more is left than before, and enough is pending.\<close>

definition keeps :: "('s \<Rightarrow> u8 list) \<Rightarrow> 's pb_istream \<Rightarrow> 's pb_istream \<Rightarrow> bool" where
  "keeps pending s s' \<longleftrightarrow> unat (is_bytes_left s') \<le> unat (is_bytes_left s) \<and>
     length (pending (is_state s)) + unat (is_bytes_left s') \<le> length (pending (is_state s')) + unat (is_bytes_left s)"

text \<open>A reader that returns on any input; with a true flag, it takes at least a byte when it succeeds.\<close>

definition rd_total :: "('s \<Rightarrow> u8 list) \<Rightarrow> bool \<Rightarrow> ('s, 'a) pb_reader \<Rightarrow> bool" where
  "rd_total pending strict f \<longleftrightarrow> (\<forall>s. istream_ok pending s \<longrightarrow>
     (\<exists>r s'. f s = Some (r, s') \<and> keeps pending s s' \<and> (strict \<longrightarrow> r \<noteq> None \<longrightarrow> unat (is_bytes_left s') < unat (is_bytes_left s))))"

named_theorems pb_reads and pb_total

lemma readsI:
  assumes "\<And>s rest. istream_ok pending s \<Longrightarrow> stream_input pending s = bs @ rest \<Longrightarrow> \<exists>x s'. f s = Some (Some x, s') \<and> P x \<and> passed pending (length bs) s s'"
  shows "reads pending f bs P"
  using assms by (auto simp: reads_def)

lemma readsE:
  assumes "reads pending f bs P" and "istream_ok pending s" and "stream_input pending s = bs @ rest"
  obtains x s' where "f s = Some (Some x, s')" "P x" "passed pending (length bs) s s'"
  using assms unfolding reads_def by blast

lemma reads_mono: "reads pending f bs P \<Longrightarrow> (\<And>x. P x \<Longrightarrow> Q x) \<Longrightarrow> reads pending f bs Q"
  unfolding reads_def by blast

lemma passed_ok:
  assumes "passed pending n s s'" and "istream_ok pending s"
  shows "istream_ok pending s'" and "stream_input pending s' = drop n (stream_input pending s)"
  using assms by (simp_all add: passed_def istream_ok_def stream_input_def drop_take)

lemma passed_trans: "passed pending n s s' \<Longrightarrow> passed pending k s' s'' \<Longrightarrow> passed pending (n + k) s s''"
  by (auto simp: passed_def add.commute)

lemma passed_refl [simp]: "passed pending 0 s s"
  by (simp add: passed_def)

lemma passed_keeps: "passed pending n s s' \<Longrightarrow> istream_ok pending s \<Longrightarrow> keeps pending s s'"
  by (simp add: passed_def keeps_def istream_ok_def)

lemma reads_return [pb_reads]: "P x \<Longrightarrow> reads pending (rd_return x) [] P"
  by (auto simp: reads_def rd_return_def)

lemma reads_bind:
  assumes f: "reads pending f bs P" and k: "\<And>x. P x \<Longrightarrow> reads pending (k x) cs Q"
  shows "reads pending (rd_bind f k) (bs @ cs) Q"
proof (rule readsI)
  fix s rest assume ok: "istream_ok pending s" and inp: "stream_input pending s = (bs @ cs) @ rest"
  from f ok obtain x s' where 1: "f s = Some (Some x, s')" "P x" "passed pending (length bs) s s'"
    using inp by (auto elim!: readsE)
  note s' = passed_ok [OF 1(3) ok]
  from k [OF 1(2)] s' obtain y s'' where "k x s' = Some (Some y, s'')" "Q y" "passed pending (length cs) s' s''"
    using inp by (auto elim!: readsE)
  then show "\<exists>x s'. rd_bind f k s = Some (Some x, s') \<and> Q x \<and> passed pending (length (bs @ cs)) s s'"
    using 1 passed_trans by (fastforce simp: rd_bind_def)
qed

lemma reads_bind_last: "reads pending f bs P \<Longrightarrow> (\<And>x. P x \<Longrightarrow> reads pending (k x) [] Q) \<Longrightarrow> reads pending (rd_bind f k) bs Q"
  using reads_bind [of pending f bs P k "[]" Q] by simp

lemma keeps_refl [simp]: "keeps pending s s"
  by (simp add: keeps_def)

lemma keeps_trans: "keeps pending s s' \<Longrightarrow> keeps pending s' s'' \<Longrightarrow> keeps pending s s''"
  by (auto simp: keeps_def)

lemma keeps_ok: "keeps pending s s' \<Longrightarrow> istream_ok pending s \<Longrightarrow> istream_ok pending s'"
  by (simp add: keeps_def istream_ok_def)

lemma rd_totalI:
  assumes "\<And>s. istream_ok pending s \<Longrightarrow> \<exists>r s'. f s = Some (r, s') \<and> keeps pending s s' \<and>
    (strict \<longrightarrow> r \<noteq> None \<longrightarrow> unat (is_bytes_left s') < unat (is_bytes_left s))"
  shows "rd_total pending strict f"
  using assms by (auto simp: rd_total_def)

lemma rd_totalE:
  assumes "rd_total pending strict f" and "istream_ok pending s"
  obtains r s' where "f s = Some (r, s')" "keeps pending s s'" "istream_ok pending s'"
    "strict \<Longrightarrow> r \<noteq> None \<Longrightarrow> unat (is_bytes_left s') < unat (is_bytes_left s)"
  using assms keeps_ok unfolding rd_total_def by metis

lemma rd_total_weaken: "rd_total pending strict f \<Longrightarrow> rd_total pending False f"
  unfolding rd_total_def by blast

lemma total_return [pb_total]: "rd_total pending False (rd_return x)"
  by (simp add: rd_total_def rd_return_def)

lemma keeps_errmsg [simp]: "keeps pending s (s'\<lparr>is_errmsg := e\<rparr>) \<longleftrightarrow> keeps pending s s'"
  by (simp add: keeps_def)

lemma total_error [pb_total]: "rd_total pending strict (rd_error msg)"
  by (simp add: rd_total_def rd_error_def)

lemma total_bind:
  assumes "rd_total pending strict f" and "\<And>x. rd_total pending False (k x)"
  shows "rd_total pending strict (rd_bind f k)"
proof (rule rd_totalI)
  fix s assume "istream_ok pending s"
  with assms(1) obtain r s' where 1: "f s = Some (r, s')" "keeps pending s s'" "istream_ok pending s'"
    "strict \<Longrightarrow> r \<noteq> None \<Longrightarrow> unat (is_bytes_left s') < unat (is_bytes_left s)" by (rule rd_totalE) blast
  show "\<exists>r s'. rd_bind f k s = Some (r, s') \<and> keeps pending s s' \<and>
      (strict \<longrightarrow> r \<noteq> None \<longrightarrow> unat (is_bytes_left s') < unat (is_bytes_left s))"
  proof (cases r)
    case (Some x)
    obtain q s'' where 2: "k x s' = Some (q, s'')" "keeps pending s' s''" using assms(2) 1(3) by (rule rd_totalE)
    have "unat (is_bytes_left s'') \<le> unat (is_bytes_left s')" using 2(2) by (simp add: keeps_def)
    moreover have "rd_bind f k s = Some (q, s'')" using 1(1) 2(1) Some by (simp add: rd_bind_def)
    moreover have "keeps pending s s''" using 1(2) 2(2) by (rule keeps_trans)
    ultimately show ?thesis using 1(4) Some by auto
  qed (use 1 in \<open>simp add: rd_bind_def\<close>)
qed

locale pb_source =
  fixes inp :: "'s pb_input" and pending :: "'s \<Rightarrow> u8 list"
  assumes read_law: "0 < count \<Longrightarrow> unat count \<le> length (pending (is_state s)) \<Longrightarrow>
      \<exists>st. in_callback inp True count s = Some (Some (take (unat count) (pending (is_state s))), s\<lparr>is_state := st\<rparr>) \<and>
        pending st = drop (unat count) (pending (is_state s))"
    and skip_law: "in_is_buf_read inp \<Longrightarrow> 0 < count \<Longrightarrow> unat count \<le> length (pending (is_state s)) \<Longrightarrow>
      \<exists>bs st. in_callback inp False count s = Some (Some bs, s\<lparr>is_state := st\<rparr>) \<and>
        pending st = drop (unat count) (pending (is_state s))"
begin

text \<open>A call of the callback, and what it reads.\<close>

lemma read_now_cases:
  assumes ok: "istream_ok pending s" and "0 < count" and "buf \<or> in_is_buf_read inp"
  shows "if is_bytes_left s < count then read_now inp buf count s = rd_error ''end-of-stream'' s
    else \<exists>bs s'. read_now inp buf count s = Some (Some bs, s') \<and> passed pending (unat count) s s' \<and>
      (buf \<longrightarrow> bs = take (unat count) (stream_input pending s))"
proof (cases "is_bytes_left s < count")
  case False
  then have le: "unat count \<le> unat (is_bytes_left s)" by (simp add: word_less_nat_alt)
  then have "unat count \<le> length (pending (is_state s))" using ok by (simp add: istream_ok_def)
  then obtain bs st where "in_callback inp buf count s = Some (Some bs, s\<lparr>is_state := st\<rparr>)"
    "pending st = drop (unat count) (pending (is_state s))" "buf \<longrightarrow> bs = take (unat count) (pending (is_state s))"
    using read_law [of count s] skip_law [of count s] assms(2,3) by (cases buf) auto
  then show ?thesis using False le
    by (auto simp: read_now_def passed_def stream_input_def unat_sub word_le_nat_alt)
qed (simp add: read_now_def)

lemma error_returns: "\<exists>s'. rd_error msg s = Some (None, s') \<and> keeps pending s s'"
  by (simp add: rd_error_def)

lemma read_now_outcome:
  assumes "istream_ok pending s" and "0 < count" and "buf \<or> in_is_buf_read inp"
  shows "\<exists>r s'. read_now inp buf count s = Some (r, s') \<and> keeps pending s s' \<and>
    (if unat count \<le> unat (is_bytes_left s)
     then passed pending (unat count) s s' \<and> (\<exists>bs. r = Some bs \<and> (buf \<longrightarrow> bs = take (unat count) (stream_input pending s)))
     else r = None)"
proof (cases "is_bytes_left s < count")
  case True
  then show ?thesis using read_now_cases [OF assms] error_returns by (auto simp: word_less_nat_alt)
next
  case False
  then show ?thesis using read_now_cases [OF assms] passed_keeps assms(1) by (fastforce simp: word_less_nat_alt)
qed

lemma skip_loop_outcome:
  "istream_ok pending s \<Longrightarrow> 0 < count \<Longrightarrow>
    \<exists>r s'. skip_loop inp count s = Some (r, s') \<and> keeps pending s s' \<and>
      (if unat count \<le> unat (is_bytes_left s) then passed pending (unat count) s s' \<and> r \<noteq> None else r = None)"
proof (induction "unat count" arbitrary: count s rule: less_induct)
  case less
  show ?case
  proof (cases "count > 16")
    case False
    then have "skip_loop inp count s = read_now inp True count s" by (subst skip_loop.simps) simp
    then show ?thesis using read_now_outcome [OF less.prems, of True] by (auto split: if_splits)
  next
    case True
    then have n: "unat (count - 16) = unat count - 16" "16 < unat count" by (simp_all add: unat_sub word_less_nat_alt word_le_nat_alt)
    obtain r s' where 1: "read_now inp True 16 s = Some (r, s')" "keeps pending s s'"
      "if 16 \<le> unat (is_bytes_left s) then passed pending 16 s s' \<and> r \<noteq> None else r = None"
      using read_now_outcome [OF less.prems(1), of 16 True] by (auto split: if_splits)
    show ?thesis
    proof (cases "16 \<le> unat (is_bytes_left s)")
      case True
      then have s': "passed pending 16 s s'" "r \<noteq> None" using 1(3) by simp_all
      have "0 < count - 16" using n by (simp add: word_less_nat_alt)
      then obtain q s'' where 2: "skip_loop inp (count - 16) s' = Some (q, s'')" "keeps pending s' s''"
        "if unat (count - 16) \<le> unat (is_bytes_left s') then passed pending (unat (count - 16)) s' s'' \<and> q \<noteq> None else q = None"
        using less.hyps [OF _ passed_ok(1) [OF s'(1) less.prems(1)], of "count - 16"] n by auto
      have "skip_loop inp count s = Some (q, s'')" using 1(1) 2(1) s'(2) \<open>count > 16\<close> by (subst skip_loop.simps) auto
      moreover have "keeps pending s s''" using 1(2) 2(2) keeps_trans by blast
      moreover have left: "unat (is_bytes_left s') = unat (is_bytes_left s) - 16" using s'(1) by (simp add: passed_def)
      moreover have "passed pending (unat count) s s''" if "passed pending (unat (count - 16)) s' s''"
        using passed_trans [OF s'(1) that] n by simp
      moreover have "unat (count - 16) \<le> unat (is_bytes_left s') \<longleftrightarrow> unat count \<le> unat (is_bytes_left s)"
        using left n \<open>16 \<le> unat (is_bytes_left s)\<close> by linarith
      ultimately show ?thesis using 2(3) by (intro exI [of _ q] exI [of _ s'']) (simp split: if_splits)
    next
      case False
      then have "skip_loop inp count s = Some (None, s')" using 1 \<open>count > 16\<close> by (subst skip_loop.simps) auto
      then show ?thesis using 1(2) False n(2) by auto
    qed
  qed
qed

lemma pb_read_outcome:
  assumes "istream_ok pending s"
  shows "\<exists>r s'. pb_read inp buf count s = Some (r, s') \<and> keeps pending s s' \<and>
    (if unat count \<le> unat (is_bytes_left s)
     then passed pending (unat count) s s' \<and> (\<exists>bs. r = Some bs \<and> (buf \<longrightarrow> bs = take (unat count) (stream_input pending s)))
     else r = None)"
proof (cases "count = 0")
  case False
  then have pos: "0 < count" by (simp add: word_gt_0)
  show ?thesis
  proof (cases "buf \<or> in_is_buf_read inp")
    case True
    then have "pb_read inp buf count s = read_now inp buf count s" using False by (auto simp: pb_read_def)
    then show ?thesis using read_now_outcome [OF assms pos True] by presburger
  next
    case other: False
    then have "pb_read inp buf count s = skip_loop inp count s" using False by (auto simp: pb_read_def)
    then show ?thesis using skip_loop_outcome [OF assms pos] other by (auto split: if_splits)
  qed
qed (simp add: pb_read_def rd_return_def)

lemma total_read [pb_total]: "rd_total pending False (pb_read inp buf count)"
  using pb_read_outcome [of _ buf count] by (fastforce intro!: rd_totalI)

lemma total_read_some: "count \<noteq> 0 \<Longrightarrow> rd_total pending True (pb_read inp buf count)"
proof (rule rd_totalI)
  fix s assume "count \<noteq> 0" and ok: "istream_ok pending s"
  then have "0 < unat count" by (simp add: unat_gt_0)
  then show "\<exists>r s'. pb_read inp buf count s = Some (r, s') \<and> keeps pending s s' \<and>
      (True \<longrightarrow> r \<noteq> None \<longrightarrow> unat (is_bytes_left s') < unat (is_bytes_left s))"
    using pb_read_outcome [OF ok, of buf count] by (auto simp: passed_def split: if_splits)
qed

lemma reads_read: "length bs = unat count \<Longrightarrow> reads pending (pb_read inp True count) bs ((=) bs)"
proof (rule readsI)
  fix s rest assume "length bs = unat count" "istream_ok pending s" and inp: "stream_input pending s = bs @ rest"
  moreover have "length (stream_input pending s) \<le> unat (is_bytes_left s)" by (simp add: stream_input_def)
  ultimately show "\<exists>x s'. pb_read inp True count s = Some (Some x, s') \<and> bs = x \<and> passed pending (length bs) s s'"
    using pb_read_outcome [of s True count] by auto
qed

lemma reads_skip: "length bs = unat count \<Longrightarrow> reads pending (pb_read inp buf count) bs (\<lambda>_. True)"
proof (rule readsI)
  fix s rest assume "length bs = unat count" "istream_ok pending s" and inp: "stream_input pending s = bs @ rest"
  moreover have "length (stream_input pending s) \<le> unat (is_bytes_left s)" by (simp add: stream_input_def)
  ultimately show "\<exists>x s'. pb_read inp buf count s = Some (Some x, s') \<and> True \<and> passed pending (length bs) s s'"
    using pb_read_outcome [of s buf count] by auto
qed

lemma pb_readbyte_read:
  assumes "is_bytes_left s \<noteq> 0"
  shows "pb_readbyte inp s =
    (case read_now inp True 1 s of None \<Rightarrow> None | Some (None, s) \<Rightarrow> Some (None, s) | Some (Some bs, s) \<Rightarrow> Some (Some (hd bs), s))"
proof -
  have "\<not> is_bytes_left s < 1" using assms by (simp add: word_less_nat_alt unat_gt_0)
  then show ?thesis using assms by (simp add: pb_readbyte_def read_now_def rd_error_def split: option.split prod.split)
qed

lemma readbyte_outcome:
  assumes ok: "istream_ok pending s"
  shows "\<exists>r s'. pb_readbyte inp s = Some (r, s') \<and> keeps pending s s' \<and>
    (if is_bytes_left s = 0 then r = None \<and> is_bytes_left s' = 0 else passed pending 1 s s' \<and> r = Some (hd (stream_input pending s)))"
proof (cases "is_bytes_left s = 0")
  case True
  then show ?thesis by (auto simp: pb_readbyte_def rd_error_def)
next
  case False
  then have "1 \<le> unat (is_bytes_left s)" by (simp add: Suc_le_eq unat_gt_0)
  then obtain r s' where "read_now inp True 1 s = Some (Some r, s')" "keeps pending s s'" "passed pending 1 s s'"
    "r = take 1 (stream_input pending s)" using read_now_outcome [OF ok, of 1 True] by auto
  moreover have "stream_input pending s \<noteq> []"
    using \<open>1 \<le> _\<close> ok by (auto simp: stream_input_def istream_ok_def)
  ultimately show ?thesis using False by (cases "stream_input pending s") (auto simp: pb_readbyte_read)
qed

lemma total_readbyte [pb_total]: "rd_total pending True (pb_readbyte inp)"
proof (rule rd_totalI)
  fix s assume "istream_ok pending s"
  from readbyte_outcome [OF this] show "\<exists>r s'. pb_readbyte inp s = Some (r, s') \<and> keeps pending s s' \<and>
      (True \<longrightarrow> r \<noteq> None \<longrightarrow> unat (is_bytes_left s') < unat (is_bytes_left s))"
    by (auto simp: passed_def unat_gt_0 split: if_splits)
qed

lemma reads_readbyte: "reads pending (pb_readbyte inp) [b] ((=) b)"
proof (rule readsI)
  fix s rest assume "istream_ok pending s" and inp: "stream_input pending s = [b] @ rest"
  moreover have "is_bytes_left s \<noteq> 0" using inp by (auto simp: stream_input_def)
  ultimately show "\<exists>x s'. pb_readbyte inp s = Some (Some x, s') \<and> b = x \<and> passed pending (length [b]) s s'"
    using readbyte_outcome [of s] by auto
qed

subsection \<open>Every reader returns\<close>

lemma total_varint32_loop: "rd_total pending True (varint32_loop inp bitpos result)"
proof (rule rd_totalI)
  fix s assume "istream_ok pending s"
  then show "\<exists>r s'. varint32_loop inp bitpos result s = Some (r, s') \<and> keeps pending s s' \<and>
      (True \<longrightarrow> r \<noteq> None \<longrightarrow> unat (is_bytes_left s') < unat (is_bytes_left s))"
  proof (induction "unat (is_bytes_left s)" arbitrary: s bitpos result rule: less_induct)
    case less
    obtain r s' where byte: "pb_readbyte inp s = Some (r, s')" "keeps pending s s'" "istream_ok pending s'"
      "r \<noteq> None \<Longrightarrow> unat (is_bytes_left s') < unat (is_bytes_left s)"
      using total_readbyte less.prems by (rule rd_totalE) auto
    show ?case
    proof (cases r)
      case None
      then show ?thesis using byte by (subst varint32_loop.simps) simp
    next
      case (Some b)
      note left = byte(4) [unfolded Some, simplified]
      have again: "\<exists>r s''. varint32_loop inp bitpos result s' = Some (r, s'') \<and> keeps pending s s'' \<and>
          (True \<longrightarrow> r \<noteq> None \<longrightarrow> unat (is_bytes_left s'') < unat (is_bytes_left s))" for bitpos result
        using less.hyps [OF left byte(3), of bitpos result] byte(2) keeps_trans left less_trans by (metis (no_types))
      show ?thesis using byte(1,2) Some left again by (subst varint32_loop.simps) (auto simp: Let_def rd_error_def)
    qed
  qed
qed

lemma varint32_eof_outcome:
  assumes ok: "istream_ok pending s"
  shows "\<exists>r eof s'. pb_decode_varint32_eof inp s = Some (r, eof, s') \<and> keeps pending s s' \<and>
    (r \<noteq> None \<longrightarrow> unat (is_bytes_left s') < unat (is_bytes_left s))"
proof -
  obtain r s' where byte: "pb_readbyte inp s = Some (r, s')" "keeps pending s s'" "istream_ok pending s'"
    "r \<noteq> None \<Longrightarrow> unat (is_bytes_left s') < unat (is_bytes_left s)"
    using total_readbyte ok by (rule rd_totalE) auto
  show ?thesis
  proof (cases r)
    case (Some b)
    obtain q s'' where more: "varint32_loop inp 7 (ucast (b AND 0x7f)) s' = Some (q, s'')" "keeps pending s' s''"
      using total_varint32_loop byte(3) by (rule rd_totalE)
    then have "keeps pending s s''" "unat (is_bytes_left s'') < unat (is_bytes_left s)"
      using keeps_trans byte(2,4) Some by (auto simp: keeps_def)
    then show ?thesis using byte Some more(1) by (cases q) (auto simp: pb_decode_varint32_eof_def rd_error_def)
  qed (use byte in \<open>simp add: pb_decode_varint32_eof_def\<close>)
qed

lemma total_varint32 [pb_total]: "rd_total pending True (pb_decode_varint32 inp)"
  using varint32_eof_outcome by (fastforce simp: pb_decode_varint32_def intro!: rd_totalI)

lemma total_varint_loop: "rd_total pending True (varint_loop inp bitpos result)"
proof (rule rd_totalI)
  fix s assume "istream_ok pending s"
  then show "\<exists>r s'. varint_loop inp bitpos result s = Some (r, s') \<and> keeps pending s s' \<and>
      (True \<longrightarrow> r \<noteq> None \<longrightarrow> unat (is_bytes_left s') < unat (is_bytes_left s))"
  proof (induction "unat (is_bytes_left s)" arbitrary: s bitpos result rule: less_induct)
    case less
    obtain r s' where byte: "pb_readbyte inp s = Some (r, s')" "keeps pending s s'" "istream_ok pending s'"
      "r \<noteq> None \<Longrightarrow> unat (is_bytes_left s') < unat (is_bytes_left s)"
      using total_readbyte less.prems by (rule rd_totalE) auto
    show ?case
    proof (cases r)
      case None
      then show ?thesis using byte by (subst varint_loop.simps) (simp add: rd_error_def)
    next
      case (Some b)
      note left = byte(4) [unfolded Some, simplified]
      have again: "\<exists>r s''. varint_loop inp bitpos result s' = Some (r, s'') \<and> keeps pending s s'' \<and>
          (True \<longrightarrow> r \<noteq> None \<longrightarrow> unat (is_bytes_left s'') < unat (is_bytes_left s))" for bitpos result
        using less.hyps [OF left byte(3), of bitpos result] byte(2) keeps_trans left less_trans by (metis (no_types))
      show ?thesis using byte(1,2) Some left again by (subst varint_loop.simps) (auto simp: Let_def rd_error_def)
    qed
  qed
qed

lemma total_varint [pb_total]: "rd_total pending True (pb_decode_varint inp)"
  by (simp add: pb_decode_varint_def total_varint_loop)

lemma total_skip_varint: "rd_total pending False (pb_skip_varint inp)"
proof (rule rd_totalI)
  fix s assume "istream_ok pending s"
  then show "\<exists>r s'. pb_skip_varint inp s = Some (r, s') \<and> keeps pending s s' \<and>
      (False \<longrightarrow> r \<noteq> None \<longrightarrow> unat (is_bytes_left s') < unat (is_bytes_left s))"
  proof (induction "unat (is_bytes_left s)" arbitrary: s rule: less_induct)
    case less
    have "(1 :: u64) \<noteq> 0" by simp
    from total_read_some [OF this] less.prems obtain r s' where byte: "pb_read inp True 1 s = Some (r, s')" "keeps pending s s'" "istream_ok pending s'"
      "r \<noteq> None \<Longrightarrow> unat (is_bytes_left s') < unat (is_bytes_left s)" by (rule rd_totalE) auto
    show ?case
    proof (cases r)
      case (Some b)
      note left = byte(4) [unfolded Some, simplified]
      obtain q s'' where "pb_skip_varint inp s' = Some (q, s'')" "keeps pending s s''"
        using less.hyps [OF left byte(3)] byte(2) keeps_trans by blast
      then show ?thesis using byte(1,2) Some by (subst pb_skip_varint.simps) simp
    qed (use byte in \<open>subst pb_skip_varint.simps, simp\<close>)
  qed
qed

lemma total_skip_string: "rd_total pending False (pb_skip_string inp)"
  unfolding pb_skip_string_def by (intro total_bind pb_total rd_total_weaken [OF total_varint32])

lemma total_skip_field: "rd_total pending False (pb_skip_field inp wire_type)"
  unfolding pb_skip_field_def
  by (simp add: total_skip_varint total_skip_string total_error total_bind [OF total_read total_return])

lemma decode_tag_outcome:
  assumes "istream_ok pending s"
  shows "\<exists>r eof s'. pb_decode_tag inp s = Some (r, eof, s') \<and> keeps pending s s' \<and>
    (r \<noteq> None \<longrightarrow> unat (is_bytes_left s') < unat (is_bytes_left s))"
  using varint32_eof_outcome [OF assms] by (fastforce simp: pb_decode_tag_def split: option.splits)

lemma total_svarint [pb_total]: "rd_total pending True (pb_decode_svarint inp)"
  unfolding pb_decode_svarint_def by (intro total_bind pb_total)

lemma total_fixed [pb_total]: "rd_total pending True (pb_decode_fixed32 inp)" "rd_total pending True (pb_decode_fixed64 inp)"
  unfolding pb_decode_fixed32_def pb_decode_fixed64_def by (intro total_bind total_read_some pb_total; simp)+

text \<open>A substream splits what is left of the stream, and closing it leaves the other part.\<close>

definition substream_of :: "'s pb_istream \<Rightarrow> 's pb_istream \<Rightarrow> 's pb_istream \<Rightarrow> bool" where
  "substream_of s sub s1 \<longleftrightarrow> is_state sub = is_state s1 \<and> istream_ok pending sub \<and>
     unat (is_bytes_left sub) + unat (is_bytes_left s1) < unat (is_bytes_left s) \<and>
     length (pending (is_state s)) + unat (is_bytes_left sub) + unat (is_bytes_left s1) \<le> length (pending (is_state s1)) + unat (is_bytes_left s)"

lemma substream_keeps: "substream_of s sub s1 \<Longrightarrow> keeps pending s s1"
  by (auto simp: substream_of_def keeps_def)

lemma make_substream_outcome:
  assumes "istream_ok pending s"
  shows "\<exists>r s1. pb_make_string_substream inp s = Some (r, s1) \<and> keeps pending s s1 \<and> (\<forall>sub. r = Some sub \<longrightarrow> substream_of s sub s1)"
proof -
  obtain r s0 where n: "pb_decode_varint32 inp s = Some (r, s0)" "keeps pending s s0" "istream_ok pending s0"
    "r \<noteq> None \<Longrightarrow> unat (is_bytes_left s0) < unat (is_bytes_left s)"
    using total_varint32 assms by (rule rd_totalE) auto
  show ?thesis
  proof (cases r)
    case (Some k)
    show ?thesis
    proof (cases "is_bytes_left s0 < ucast k")
      case False
      then have "unat k \<le> unat (is_bytes_left s0)" by (simp add: word_less_nat_alt)
      then have "substream_of s (s0\<lparr>is_bytes_left := ucast k\<rparr>) (s0\<lparr>is_bytes_left := is_bytes_left s0 - ucast k\<rparr>)"
        using n Some by (auto simp: substream_of_def istream_ok_def keeps_def unat_sub word_le_nat_alt)
      then show ?thesis using n(1) Some False substream_keeps by (auto simp: pb_make_string_substream_def rd_bind_def)
    qed (use n Some in \<open>auto simp: pb_make_string_substream_def rd_bind_def rd_error_def\<close>)
  qed (use n in \<open>auto simp: pb_make_string_substream_def rd_bind_def\<close>)
qed

lemma close_substream_outcome:
  assumes sub: "substream_of s sub s1" and "keeps pending sub sub'"
  shows "\<exists>r s2. pb_close_string_substream inp sub' s1 = Some (r, s2) \<and> keeps pending s s2 \<and> is_bytes_left s2 = is_bytes_left s1"
proof (cases "is_bytes_left sub' = 0")
  case True
  then show ?thesis using assms by (auto simp: pb_close_string_substream_def substream_of_def keeps_def)
next
  case False
  have ok: "istream_ok pending sub'" using assms keeps_ok by (auto simp: substream_of_def)
  obtain r sub'' where read: "pb_read inp False (is_bytes_left sub') sub' = Some (r, sub'')"
    "passed pending (unat (is_bytes_left sub')) sub' sub''"
    using pb_read_outcome [OF ok, of False "is_bytes_left sub'"] by auto
  show ?thesis
  proof (cases r)
    case None
    then show ?thesis using False read(1) substream_keeps [OF sub] by (simp add: pb_close_string_substream_def)
  next
    case (Some x)
    have "length (pending (is_state sub'')) + unat (is_bytes_left sub) \<ge> length (pending (is_state sub))"
      using read(2) assms(2) ok by (auto simp: passed_def keeps_def istream_ok_def)
    then show ?thesis using False read(1) sub Some
      by (auto simp: pb_close_string_substream_def substream_of_def keeps_def)
  qed
qed

end

end
