(* ===== verification/Pb_Decode_Safe.thy ===== *)
theory Pb_Decode_Safe
  imports Pb_Decode Pb_Input
begin

text \<open>
  Memory safety of the decoder: for descriptors of static fields, whatever bytes arrive, it returns,
  reads allocated memory only and writes inside the structure (and its own local variables) only.
\<close>

section \<open>Reads and writes in a region\<close>

definition region :: "u64 \<Rightarrow> nat \<Rightarrow> u64 set" where
  "region p n = (\<lambda>k. p + of_nat k) ` {..<n}"

definition allocated :: "u64 set \<Rightarrow> pb_mem \<Rightarrow> bool" where
  "allocated B m \<longleftrightarrow> (\<forall>a \<in> B. m a \<noteq> None)"

text \<open>What a write inside \<open>A\<close> keeps.\<close>

definition frame :: "u64 set \<Rightarrow> pb_mem \<Rightarrow> pb_mem \<Rightarrow> bool" where
  "frame A m m' \<longleftrightarrow> (\<forall>a. a \<notin> A \<longrightarrow> m' a = m a) \<and> (\<forall>a. m a \<noteq> None \<longrightarrow> m' a \<noteq> None)"

lemma frame_refl [simp]: "frame A m m"
  by (simp add: frame_def)

lemma frame_trans: "frame A m m' \<Longrightarrow> frame A m' m'' \<Longrightarrow> frame A m m''"
  by (simp add: frame_def)

lemma frame_allocated: "frame A m m' \<Longrightarrow> allocated B m \<Longrightarrow> allocated B m'"
  by (auto simp: frame_def allocated_def)

lemma region_Suc: "region p (Suc n) = insert p (region (p + 1) n)"
proof -
  have "{..<Suc n} = insert 0 (Suc ` {..<n})" by (rule lessThan_Suc_eq_insert_0)
  then show ?thesis by (simp add: region_def image_image add.assoc)
qed

lemma region_0 [simp]: "region p 0 = {}"
  by (simp add: region_def)

lemma region_mono: "k \<le> n \<Longrightarrow> region p k \<subseteq> region p n"
  by (auto simp: region_def)

lemma region_split: "region p (k + n) = region p k \<union> region (p + of_nat k) n"
  by (induction k arbitrary: p) (simp_all add: region_Suc ac_simps)

lemma region_inner:
  assumes "k + n \<le> w"
  shows "region (p + of_nat k) n \<subseteq> region p w"
  using region_split [of p k n] region_mono [OF assms, of p] by auto

lemma load_bytes_allocated: "region p n \<subseteq> B \<Longrightarrow> allocated B m \<Longrightarrow> \<exists>bs. load_bytes m p n = Some bs"
proof (induction n arbitrary: p)
  case (Suc n)
  then have "region (p + 1) n \<subseteq> B" "p \<in> B" by (simp_all add: region_Suc)
  with Suc show ?case by (fastforce simp: allocated_def)
qed simp

lemma load_allocated:
  "region p 1 \<subseteq> B \<Longrightarrow> allocated B m \<Longrightarrow> \<exists>v. load_u8 m p = Some v"
  "region p 4 \<subseteq> B \<Longrightarrow> allocated B m \<Longrightarrow> \<exists>v. load_u32 m p = Some v"
  "region p 8 \<subseteq> B \<Longrightarrow> allocated B m \<Longrightarrow> \<exists>v. load_u64 m p = Some v"
  using load_bytes_allocated [of p 4 B m] load_bytes_allocated [of p 8 B m]
  by (auto simp: load_u8_def load_u32_def load_u64_def load_nat_def region_Suc allocated_def)

text \<open>A change of memory that succeeds and stays inside \<open>A\<close>, where \<open>B\<close> is allocated.\<close>

definition upd_safe :: "u64 set \<Rightarrow> u64 set \<Rightarrow> (pb_mem \<Rightarrow> pb_mem option) \<Rightarrow> bool" where
  "upd_safe A B f \<longleftrightarrow> (\<forall>m. allocated B m \<longrightarrow> (\<exists>m'. f m = Some m' \<and> frame A m m'))"

lemma upd_safeE:
  assumes "upd_safe A B f" and "allocated B m"
  obtains m' where "f m = Some m'" "frame A m m'" "allocated B m'"
  using assms frame_allocated unfolding upd_safe_def by blast

lemma upd_safe_Some [simp]: "upd_safe A B Some"
  by (simp add: upd_safe_def)

lemma upd_safe_bind:
  assumes f: "upd_safe A B f" and g: "upd_safe A B g"
  shows "upd_safe A B (\<lambda>m. case f m of None \<Rightarrow> None | Some m \<Rightarrow> g m)"
  unfolding upd_safe_def
proof (intro allI impI)
  fix m assume "allocated B m"
  with f obtain m1 where 1: "f m = Some m1" "frame A m m1" "allocated B m1" by (rule upd_safeE)
  from g 1(3) obtain m2 where "g m1 = Some m2" "frame A m1 m2" by (rule upd_safeE)
  then show "\<exists>m'. (case f m of None \<Rightarrow> None | Some m \<Rightarrow> g m) = Some m' \<and> frame A m m'"
    using 1 frame_trans by auto
qed

lemma store_bytes_safe: "region p (length bs) \<subseteq> A \<Longrightarrow> A \<subseteq> B \<Longrightarrow> upd_safe A B (\<lambda>m. store_bytes m p bs)"
proof (induction bs arbitrary: p)
  case (Cons b bs)
  then have sub: "region (p + 1) (length bs) \<subseteq> A" "p \<in> A" by (simp_all add: region_Suc)
  show ?case unfolding upd_safe_def
  proof (intro allI impI)
    fix m assume m: "allocated B m"
    have fr: "frame A m (m(p \<mapsto> b))" using sub(2) by (auto simp: frame_def)
    obtain m' where "store_bytes (m(p \<mapsto> b)) (p + 1) bs = Some m'" "frame A (m(p \<mapsto> b)) m'"
      using Cons.IH [OF sub(1) Cons.prems(2)] frame_allocated [OF fr m] by (rule upd_safeE)
    moreover have "m p \<noteq> None" using m sub(2) Cons.prems(2) by (auto simp: allocated_def)
    ultimately show "\<exists>m'. store_bytes m p (b # bs) = Some m' \<and> frame A m m'" using fr frame_trans by auto
  qed
qed simp

lemma store_le_safe: "region p n \<subseteq> A \<Longrightarrow> A \<subseteq> B \<Longrightarrow> upd_safe A B (store_le n p v)"
  using store_bytes_safe [of p "rev (be_bytes n (unat v))" A B] by (simp add: store_le_def [abs_def])

section \<open>Safe decoders\<close>

definition dec_safe :: "('s \<Rightarrow> u8 list) \<Rightarrow> u64 set \<Rightarrow> u64 set \<Rightarrow> bool \<Rightarrow> 's pb_decoder \<Rightarrow> bool" where
  "dec_safe pending A B strict f \<longleftrightarrow> (\<forall>s m. istream_ok pending s \<longrightarrow> allocated B m \<longrightarrow>
     (\<exists>ok s' m'. f s m = Some (ok, s', m') \<and> keeps pending s s' \<and> frame A m m' \<and>
        (strict \<longrightarrow> ok \<longrightarrow> unat (is_bytes_left s') < unat (is_bytes_left s))))"

lemma dec_safeE:
  assumes "dec_safe pending A B strict f" and "istream_ok pending s" and "allocated B m"
  obtains ok s' m' where "f s m = Some (ok, s', m')" "keeps pending s s'" "istream_ok pending s'" "frame A m m'" "allocated B m'"
    "strict \<Longrightarrow> ok \<Longrightarrow> unat (is_bytes_left s') < unat (is_bytes_left s)"
proof -
  from assms obtain ok s' m' where "f s m = Some (ok, s', m')" "keeps pending s s'" "frame A m m'"
    "strict \<longrightarrow> ok \<longrightarrow> unat (is_bytes_left s') < unat (is_bytes_left s)" unfolding dec_safe_def by blast
  then show thesis using that keeps_ok [OF _ assms(2)] frame_allocated [OF _ assms(3)] by blast
qed

lemma dec_safeI:
  assumes "\<And>s m. istream_ok pending s \<Longrightarrow> allocated B m \<Longrightarrow> \<exists>ok s' m'. f s m = Some (ok, s', m') \<and> keeps pending s s' \<and> frame A m m' \<and>
    (strict \<longrightarrow> ok \<longrightarrow> unat (is_bytes_left s') < unat (is_bytes_left s))"
  shows "dec_safe pending A B strict f"
  using assms by (auto simp: dec_safe_def)

lemma dec_safe_weaken: "dec_safe pending A B strict f \<Longrightarrow> dec_safe pending A B False f"
  unfolding dec_safe_def by blast

lemma safe_ok: "dec_safe pending A B False dec_ok"
  by (rule dec_safeI) (auto simp: dec_ok_def)

lemma safe_error: "dec_safe pending A B strict (dec_error msg)"
  by (rule dec_safeI) (auto simp: dec_error_def)

lemma safe_update: "upd_safe A B f \<Longrightarrow> dec_safe pending A B False (dec_update f)"
  by (fastforce simp: dec_safe_def dec_update_def upd_safe_def)

lemma safe_then:
  assumes f: "dec_safe pending A B strict f" and g: "dec_safe pending A B False g"
  shows "dec_safe pending A B strict (dec_then f g)"
proof (rule dec_safeI)
  fix s m assume "istream_ok pending s" and "allocated B m"
  with f obtain ok s1 m1 where 1: "f s m = Some (ok, s1, m1)" "keeps pending s s1" "istream_ok pending s1" "frame A m m1" "allocated B m1"
    "strict \<Longrightarrow> ok \<Longrightarrow> unat (is_bytes_left s1) < unat (is_bytes_left s)" by (rule dec_safeE) blast
  from g 1(3,5) obtain ok2 s2 m2 where 2: "g s1 m1 = Some (ok2, s2, m2)" "keeps pending s1 s2" "frame A m1 m2" by (rule dec_safeE)
  have "keeps pending s s2" "frame A m m2" using 1 2 keeps_trans frame_trans by blast+
  moreover have "unat (is_bytes_left s2) \<le> unat (is_bytes_left s1)" using 2(2) by (simp add: keeps_def)
  ultimately show "\<exists>ok s' m'. dec_then f g s m = Some (ok, s', m') \<and> keeps pending s s' \<and> frame A m m' \<and>
      (strict \<longrightarrow> ok \<longrightarrow> unat (is_bytes_left s') < unat (is_bytes_left s))"
    using 1 2 by (cases ok) (auto simp: dec_then_def)
qed

lemma safe_read:
  assumes f: "rd_total pending strict f" and k: "\<And>x. dec_safe pending A B False (k x)"
  shows "dec_safe pending A B strict (dec_read f k)"
proof (rule dec_safeI)
  fix s m assume s: "istream_ok pending s" and m: "allocated B m"
  from f s obtain r s1 where 1: "f s = Some (r, s1)" "keeps pending s s1" "istream_ok pending s1"
    "strict \<Longrightarrow> r \<noteq> None \<Longrightarrow> unat (is_bytes_left s1) < unat (is_bytes_left s)" by (rule rd_totalE) blast
  show "\<exists>ok s' m'. dec_read f k s m = Some (ok, s', m') \<and> keeps pending s s' \<and> frame A m m' \<and>
      (strict \<longrightarrow> ok \<longrightarrow> unat (is_bytes_left s') < unat (is_bytes_left s))"
  proof (cases r)
    case (Some x)
    from k 1(3) m obtain ok s2 m2 where 2: "k x s1 m = Some (ok, s2, m2)" "keeps pending s1 s2" "frame A m m2" by (rule dec_safeE)
    have "keeps pending s s2" using 1 2 keeps_trans by blast
    moreover have "unat (is_bytes_left s2) \<le> unat (is_bytes_left s1)" using 2(2) by (simp add: keeps_def)
    ultimately show ?thesis using 1 2 Some by (auto simp: dec_read_def)
  qed (use 1 in \<open>auto simp: dec_read_def\<close>)
qed

lemma safe_load_if:
  assumes "\<And>m. allocated B m \<Longrightarrow> \<exists>x. v m = Some x \<and> dec_safe pending A B strict (k x)"
  shows "dec_safe pending A B strict (dec_load v k)"
proof (rule dec_safeI)
  fix s m assume "istream_ok pending s" and m: "allocated B m"
  moreover obtain x where "v m = Some x" "dec_safe pending A B strict (k x)" using assms [OF m] by blast
  ultimately show "\<exists>ok s' m'. dec_load v k s m = Some (ok, s', m') \<and> keeps pending s s' \<and> frame A m m' \<and>
      (strict \<longrightarrow> ok \<longrightarrow> unat (is_bytes_left s') < unat (is_bytes_left s))"
    unfolding dec_safe_def by (auto simp: dec_load_def)
qed

lemma safe_load:
  "(\<And>m. allocated B m \<Longrightarrow> \<exists>x. v m = Some x) \<Longrightarrow> (\<And>x. dec_safe pending A B strict (k x)) \<Longrightarrow>
    dec_safe pending A B strict (dec_load v k)"
  by (rule safe_load_if) blast

lemma safe_left: "(\<And>left. dec_safe pending A B strict (k left)) \<Longrightarrow> dec_safe pending A B strict (dec_left k)"
  unfolding dec_safe_def dec_left_def by blast

lemma safe_if: "(b \<Longrightarrow> dec_safe pending A B strict f) \<Longrightarrow> (\<not> b \<Longrightarrow> dec_safe pending A B strict g) \<Longrightarrow>
    dec_safe pending A B strict (if b then f else g)"
  by simp

locale pb_space = pb_source inp pending for inp :: "'s pb_input" and pending +
  fixes A B :: "u64 set"
  assumes writable: "A \<subseteq> B"
begin

abbreviation safe :: "bool \<Rightarrow> 's pb_decoder \<Rightarrow> bool" where
  "safe \<equiv> dec_safe pending A B"

lemma safe_store: "region p (length bs) \<subseteq> A \<Longrightarrow> safe False (dec_update (\<lambda>m. store_bytes m p bs))"
  using store_bytes_safe writable by (intro safe_update) blast

lemma safe_store_le: "region p n \<subseteq> A \<Longrightarrow> safe False (dec_update (store_le n p v))"
  using store_le_safe writable by (intro safe_update) blast

lemma safe_checked: "region p (unat n) \<subseteq> A \<Longrightarrow> safe False (store_checked n c v p)"
  by (cases c) (auto simp: store_checked_def intro!: safe_error safe_ok safe_then safe_store_le safe_if)

text \<open>Exactly the bytes asked for are stored.\<close>

lemma safe_read_into:
  assumes in': "pd_in env = inp" and "region p (unat n) \<subseteq> A"
  shows "safe False (read_into env p n)"
proof (rule dec_safeI)
  fix s :: "'s pb_istream" and m assume s: "istream_ok pending s" and m: "allocated B m"
  obtain r s' where read: "pb_read inp True n s = Some (r, s')" "keeps pending s s'"
    "if unat n \<le> unat (is_bytes_left s) then \<exists>bs. r = Some bs \<and> bs = take (unat n) (stream_input pending s) else r = None"
    using pb_read_outcome [OF s, of True n] by (auto split: if_splits)
  show "\<exists>ok s' m'. read_into env p n s m = Some (ok, s', m') \<and> keeps pending s s' \<and> frame A m m' \<and>
      (False \<longrightarrow> ok \<longrightarrow> unat (is_bytes_left s') < unat (is_bytes_left s))"
  proof (cases r)
    case (Some bs)
    then have "length bs \<le> unat n" using read(3) by (auto split: if_splits)
    then have "region p (length bs) \<subseteq> A" using region_mono [of "length bs" "unat n" p] assms(2) by blast
    from store_bytes_safe [OF this writable] m obtain m' where "store_bytes m p bs = Some m'" "frame A m m'" by (rule upd_safeE)
    then show ?thesis using read Some in' by (auto simp: read_into_def dec_read_def dec_update_def)
  qed (use read in' in \<open>auto simp: read_into_def dec_read_def\<close>)
qed

text \<open>A substream: what its body keeps, the stream keeps.\<close>

lemma safe_substream:
  assumes in': "pd_in env = inp"
    and body: "\<And>s sub s1 m. substream_of s sub s1 \<Longrightarrow> allocated B m \<Longrightarrow>
      \<exists>ok s' m'. body sub s1 m = Some (ok, s', m') \<and> keeps pending s s' \<and> frame A m m'"
  shows "safe False (with_substream env body)"
proof (rule dec_safeI)
  fix s :: "'s pb_istream" and m assume s: "istream_ok pending s" and m: "allocated B m"
  obtain r s1 where sub: "pb_make_string_substream inp s = Some (r, s1)" "keeps pending s s1" "\<And>sub. r = Some sub \<Longrightarrow> substream_of s sub s1"
    using make_substream_outcome [OF s] by auto
  show "\<exists>ok s' m'. with_substream env body s m = Some (ok, s', m') \<and> keeps pending s s' \<and> frame A m m' \<and>
      (False \<longrightarrow> ok \<longrightarrow> unat (is_bytes_left s') < unat (is_bytes_left s))"
  proof (cases r)
    case (Some sub)
    from body [OF \<open>\<And>sub. r = Some sub \<Longrightarrow> substream_of s sub s1\<close> [OF Some] m] show ?thesis
      using sub(1) Some in' by (auto simp: with_substream_def dec_read_def)
  qed (use sub in' in \<open>auto simp: with_substream_def dec_read_def\<close>)
qed

lemma close_safe:
  assumes "pd_in env = inp" and "substream_of s sub s1" and "keeps pending sub sub'"
  shows "\<exists>ok s' m'. close_substream env sub' status s1 m = Some (ok, s', m') \<and> keeps pending s s' \<and> m' = m"
proof -
  obtain r s2 where "pb_close_string_substream inp sub' s1 = Some (r, s2)" "keeps pending s s2"
    using close_substream_outcome [OF assms(2,3)] by auto
  then show ?thesis using assms(1) by (cases r) (auto simp: close_substream_def dec_read_def)
qed

lemma error_after_substream: "substream_of s sub s1 \<Longrightarrow> \<exists>s'. dec_error msg s1 m = Some (False, s', m) \<and> keeps pending s s'"
  using substream_keeps by (auto simp: dec_error_def)

end

section \<open>Static fields\<close>

text \<open>
  A field inside the structure, wherever it is: static, not an extension, wide enough for its type,
  with an array that fits 32 bits and a readable default value.
\<close>

definition field_width :: "pb_field \<Rightarrow> nat" where
  "field_width f = (let ltype = PB_LTYPE (pf_type f) in
     if ltype = PB_LTYPE_BOOL then 1 else if ltype = PB_LTYPE_FIXED32 then 4 else if ltype = PB_LTYPE_FIXED64 then 8 else 0)"

definition shape_ok :: "u64 set \<Rightarrow> pb_field \<Rightarrow> bool" where
  "shape_ok B f \<longleftrightarrow> PB_ATYPE (pf_type f) = PB_ATYPE_STATIC \<and>
     (PB_LTYPE (pf_type f) \<le> PB_LTYPE_SUBMESSAGE \<or> PB_LTYPE (pf_type f) = PB_LTYPE_FIXED_LENGTH_BYTES) \<and>
     field_width f \<le> unat (pf_data_size f) \<and> unat (pf_data_size f) * unat (pf_array_size f) < 2 ^ 32 \<and>
     (PB_LTYPE (pf_type f) \<noteq> PB_LTYPE_SUBMESSAGE \<longrightarrow>
       (case pf_ptr f of Null_ptr \<Rightarrow> True | Data_ptr q \<Rightarrow> region q (unat (pf_data_size f)) \<subseteq> B | Fields_ptr _ \<Rightarrow> False))"

definition item_ok :: "(pb_field list \<Rightarrow> u64 \<Rightarrow> bool) \<Rightarrow> (nat \<Rightarrow> pb_field list) \<Rightarrow> u64 set \<Rightarrow> pb_field \<Rightarrow> u64 \<Rightarrow> bool" where
  "item_ok msg subs A f p \<longleftrightarrow> region p (unat (pf_data_size f)) \<subseteq> A \<and>
     (PB_LTYPE (pf_type f) = PB_LTYPE_SUBMESSAGE \<longrightarrow> (\<exists>i. pf_ptr f = Fields_ptr i \<and> msg (subs i) p))"

definition static_field ::
  "(pb_field list \<Rightarrow> u64 \<Rightarrow> bool) \<Rightarrow> (nat \<Rightarrow> pb_field list) \<Rightarrow> u64 set \<Rightarrow> u64 set \<Rightarrow> pb_field \<Rightarrow> u64 \<Rightarrow> u64 \<Rightarrow> bool" where
  "static_field msg subs A B f pData pSize \<longleftrightarrow> shape_ok B f \<and>
     (if PB_HTYPE (pf_type f) = PB_HTYPE_REPEATED
      then \<forall>k < unat (pf_array_size f). item_ok msg subs A f (pData + of_nat (k * unat (pf_data_size f)))
      else item_ok msg subs A f pData) \<and>
     (PB_HTYPE (pf_type f) = PB_HTYPE_REPEATED \<or> PB_HTYPE (pf_type f) = PB_HTYPE_ONEOF \<longrightarrow> region pSize 4 \<subseteq> A) \<and>
     (PB_HTYPE (pf_type f) = PB_HTYPE_OPTIONAL \<and> pSize \<noteq> pData \<longrightarrow> region pSize 1 \<subseteq> A)"

text \<open>A message of such fields at an address, with submessages nested less than \<open>d\<close> deep.\<close>

fun static_message :: "nat \<Rightarrow> (nat \<Rightarrow> pb_field list) \<Rightarrow> u64 set \<Rightarrow> u64 set \<Rightarrow> pb_field list \<Rightarrow> u64 \<Rightarrow> bool" where
  "static_message 0 subs A B flds dest = False"
| "static_message (Suc d) subs A B flds dest \<longleftrightarrow> terminated flds \<and> 1 < length flds \<and>
     (\<forall>i < length flds - 1. static_field (static_message d subs A B) subs A B (flds ! i)
        (it_pData (iter_at flds dest i)) (it_pSize (iter_at flds dest i)))"

lemma static_field_mono:
  "static_field msg subs A B f pData pSize \<Longrightarrow> (\<And>flds p. msg flds p \<Longrightarrow> msg' flds p) \<Longrightarrow> static_field msg' subs A B f pData pSize"
  unfolding static_field_def item_ok_def by (auto split: if_splits)

lemma static_message_Suc: "static_message d subs A B flds dest \<Longrightarrow> static_message (Suc d) subs A B flds dest"
proof (induction d arbitrary: flds dest)
  case (Suc d)
  from Suc.prems have "\<forall>i < length flds - 1. static_field (static_message (Suc d) subs A B) subs A B (flds ! i)
      (it_pData (iter_at flds dest i)) (it_pSize (iter_at flds dest i))"
    using static_field_mono [of "static_message d subs A B" subs A B _ _ _ "static_message (Suc d) subs A B"] Suc.IH by simp
  then show ?case using Suc.prems by (subst static_message.simps(2)) simp
qed simp

lemma item_address_nat:
  assumes "shape_ok B f" and "n < pf_array_size f"
  shows "item_address pData f n = pData + of_nat (unat n * unat (pf_data_size f))"
proof -
  have "unat n < unat (pf_array_size f)" using assms(2) by (simp add: word_less_nat_alt)
  then have "unat (pf_data_size f) * unat n \<le> unat (pf_data_size f) * unat (pf_array_size f)" by simp
  then have less: "unat (pf_data_size f) * unat n < 2 ^ 32" using assms(1) unfolding shape_ok_def by linarith
  then have "unat (pf_data_size f * n) = unat (pf_data_size f) * unat n" by (simp add: unat_mult_lem [symmetric])
  then have "(ucast (pf_data_size f * n) :: u64) = of_nat (unat (pf_data_size f) * unat n)"
    using less by (simp add: word_unat_eq_iff unat_of_nat take_bit_nat_eq_self del: of_nat_mult)
  then show ?thesis by (simp add: item_address_def mult.commute)
qed

context pb_space
begin

lemma safe_bytes:
  assumes "pd_in env = inp" and "PB_ATYPE (pf_type f) = PB_ATYPE_STATIC" and "region p (unat (pf_data_size f)) \<subseteq> A"
  shows "safe False (pb_dec_bytes env f p)"
proof -
  have "safe False (dec_then (dec_update (store_le 4 p (ucast n))) (read_into env (p + 4) (ucast n)))"
    if "\<not> PB_BYTES_ARRAY_T_ALLOCSIZE n > ucast (pf_data_size f)" for n :: u32
  proof -
    have n: "unat (ucast n + 4 :: u64) = unat n + 4"
    proof -
      have "unat n < 2 ^ 32" using unsigned_less [of n] by simp
      then show ?thesis by (simp add: unat_word_ariths)
    qed
    then have le: "4 + unat n \<le> unat (pf_data_size f)" using that by (simp add: PB_BYTES_ARRAY_T_ALLOCSIZE_def word_less_nat_alt)
    then have "region p 4 \<subseteq> A" "region (p + 4) (unat n) \<subseteq> A"
      using region_mono [of 4 "unat (pf_data_size f)" p] region_inner [of 4 "unat n" "unat (pf_data_size f)" p] assms(3) by auto
    then show ?thesis using assms(1) by (intro safe_then safe_store_le safe_read_into) simp_all
  qed
  moreover have "PB_ATYPE_STATIC \<noteq> PB_ATYPE_POINTER" by (simp add: PB_ATYPE_STATIC_def PB_ATYPE_POINTER_def)
  ultimately show ?thesis using assms(2) unfolding pb_dec_bytes_def Let_def assms(1)
    by (intro safe_read rd_total_weaken [OF total_varint32] safe_if safe_error) auto
qed

lemma safe_string:
  assumes "pd_in env = inp" and "PB_ATYPE (pf_type f) = PB_ATYPE_STATIC" and "region p (unat (pf_data_size f)) \<subseteq> A"
  shows "safe False (pb_dec_string env f p)"
proof -
  have "safe False (read_string env p (ucast n))"
    if "\<not> (ucast (n + 1) :: u64) < ucast n" "\<not> (ucast (n + 1) :: u64) > ucast (pf_data_size f)" for n :: u32
  proof -
    have "unat n < 2 ^ 32" using unsigned_less [of n] by simp
    moreover have "unat (n + 1) = (unat n + 1) mod 2 ^ 32" by (simp add: unat_word_ariths)
    ultimately have "unat (n + 1) = unat n + 1" using that(1)
      by (cases "unat n + 1 = 2 ^ 32") (auto simp: word_less_nat_alt)
    then have le: "unat n + 1 \<le> unat (pf_data_size f)" using that(2) by (simp add: word_less_nat_alt)
    then have sub: "region p (unat n) \<subseteq> A" "region (p + ucast n) 1 \<subseteq> A"
      using region_mono [of "unat n" "unat (pf_data_size f)" p] region_inner [of "unat n" 1 "unat (pf_data_size f)" p] assms(3) by auto
    show ?thesis
    proof (rule dec_safeI)
      fix s :: "'s pb_istream" and m assume "istream_ok pending s" and "allocated B m"
      with safe_read_into [OF assms(1), of p "ucast n"] sub(1) obtain ok s1 m1 where 1: "read_into env p (ucast n) s m = Some (ok, s1, m1)"
        "keeps pending s s1" "frame A m m1" "allocated B m1" by (auto elim!: dec_safeE)
      from store_bytes_safe [of "p + ucast n" "[0]" A B] sub(2) writable 1(4) obtain m2
        where "store_bytes m1 (p + ucast n) [0] = Some m2" "frame A m1 m2" by (auto elim!: upd_safeE)
      then show "\<exists>ok s' m'. read_string env p (ucast n) s m = Some (ok, s', m') \<and> keeps pending s s' \<and> frame A m m' \<and>
          (False \<longrightarrow> ok \<longrightarrow> unat (is_bytes_left s') < unat (is_bytes_left s))"
        using 1(1,2) frame_trans [OF 1(3)] by (simp add: read_string_def)
    qed
  qed
  moreover have "PB_ATYPE_STATIC \<noteq> PB_ATYPE_POINTER" by (simp add: PB_ATYPE_STATIC_def PB_ATYPE_POINTER_def)
  ultimately show ?thesis using assms(2) unfolding pb_dec_string_def Let_def assms(1)
    by (intro safe_read rd_total_weaken [OF total_varint32] safe_if safe_error) auto
qed

lemma safe_fixed_length_bytes:
  assumes "pd_in env = inp" and "region p (unat (pf_data_size f)) \<subseteq> A"
  shows "safe False (pb_dec_fixed_length_bytes env f p)"
  using assms(2) unfolding pb_dec_fixed_length_bytes_def assms(1)
  by (intro safe_read rd_total_weaken [OF total_varint32] safe_if safe_error safe_store safe_read_into) (simp_all add: assms(1))

lemma safe_submessage:
  assumes "pd_in env = inp" and f: "pf_ptr f = Fields_ptr i" and decode: "\<And>init. safe False (decode init (pd_fields env i) p)"
  shows "safe False (pb_dec_submessage env decode f p)"
  unfolding pb_dec_submessage_def
proof (rule safe_substream [OF assms(1)])
  fix s sub s1 :: "'s pb_istream" and m assume sub: "substream_of s sub s1" and m: "allocated B m"
  then have "istream_ok pending sub" by (simp add: substream_of_def)
  from decode this m obtain ok sub' m' where run: "decode (PB_HTYPE (pf_type f) = PB_HTYPE_REPEATED) (pd_fields env i) p sub m = Some (ok, sub', m')"
    "keeps pending sub sub'" "frame A m m'" by (rule dec_safeE)
  then show "\<exists>ok s' m'. (case pf_ptr f of Null_ptr \<Rightarrow> dec_error ''invalid field descriptor'' s1 m
      | Fields_ptr i \<Rightarrow>
         (case decode (PB_HTYPE (pf_type f) = PB_HTYPE_REPEATED) (pd_fields env i) p sub m of
            None \<Rightarrow> None
          | Some (status, substream, m) \<Rightarrow> close_substream env substream status s1 m)
      | Data_ptr _ \<Rightarrow> None) = Some (ok, s', m') \<and> keeps pending s s' \<and> frame A m m'"
    using f close_safe [OF assms(1) sub run(2), of ok m'] by auto
qed

lemma safe_scalar:
  assumes "pd_in env = inp" and "region p (unat (pf_data_size f)) \<subseteq> A" and "field_width f \<le> unat (pf_data_size f)"
  shows "safe True (pb_dec_varint env f p)" "safe True (pb_dec_uvarint env f p)" "safe True (pb_dec_svarint env f p)"
    "PB_LTYPE (pf_type f) = PB_LTYPE_BOOL \<Longrightarrow> safe True (pb_dec_bool env f p)"
    "PB_LTYPE (pf_type f) = PB_LTYPE_FIXED32 \<Longrightarrow> safe True (pb_dec_fixed32 env f p)"
    "PB_LTYPE (pf_type f) = PB_LTYPE_FIXED64 \<Longrightarrow> safe True (pb_dec_fixed64 env f p)"
proof -
  have wide: "region p n \<subseteq> A" if "n \<le> unat (pf_data_size f)" for n using region_mono [OF that, of p] assms(2) by blast
  show "safe True (pb_dec_varint env f p)" "safe True (pb_dec_uvarint env f p)" "safe True (pb_dec_svarint env f p)"
    unfolding pb_dec_varint_def pb_dec_uvarint_def pb_dec_svarint_def Let_def assms(1)
    by (intro safe_read total_varint total_svarint safe_checked assms(2))+
  note widths = field_width_def Let_def pb_ltypes
  show "safe True (pb_dec_bool env f p)" if "PB_LTYPE (pf_type f) = PB_LTYPE_BOOL"
    unfolding pb_dec_bool_def assms(1) using assms(3) that by (intro safe_read total_varint32 safe_store wide) (simp add: widths)
  show "safe True (pb_dec_fixed32 env f p)" if "PB_LTYPE (pf_type f) = PB_LTYPE_FIXED32"
    unfolding pb_dec_fixed32_def assms(1) using assms(3) that by (intro safe_read total_fixed safe_store_le wide) (simp add: widths)
  show "safe True (pb_dec_fixed64 env f p)" if "PB_LTYPE (pf_type f) = PB_LTYPE_FIXED64"
    unfolding pb_dec_fixed64_def assms(1) using assms(3) that by (intro safe_read total_fixed safe_store_le wide) (simp add: widths)
qed

lemma ltype_cases:
  assumes "ltype \<le> PB_LTYPE_SUBMESSAGE \<or> ltype = PB_LTYPE_FIXED_LENGTH_BYTES"
  shows "ltype \<in> {PB_LTYPE_BOOL, PB_LTYPE_VARINT, PB_LTYPE_UVARINT, PB_LTYPE_SVARINT, PB_LTYPE_FIXED32, PB_LTYPE_FIXED64,
    PB_LTYPE_BYTES, PB_LTYPE_STRING, PB_LTYPE_SUBMESSAGE, PB_LTYPE_FIXED_LENGTH_BYTES}"
proof -
  have "unat ltype \<in> {0, 1, 2, 3, 4, 5, 6, 7, 8, 10}" using assms by (auto simp: pb_ltypes word_le_nat_alt)
  then show ?thesis by (auto simp: pb_ltypes word_unat_eq_iff)
qed

lemma safe_decoder:
  assumes env: "pd_in env = inp" and shape: "shape_ok B f" and item: "item_ok msg (pd_fields env) A f p"
    and decode: "\<And>init flds q. msg flds q \<Longrightarrow> safe False (decode init flds q)"
  shows "safe (PB_LTYPE (pf_type f) \<le> PB_LTYPE_LAST_PACKABLE) (PB_DECODERS env decode f p)"
proof -
  have p: "region p (unat (pf_data_size f)) \<subseteq> A" using item by (simp add: item_ok_def)
  have width: "field_width f \<le> unat (pf_data_size f)" and static: "PB_ATYPE (pf_type f) = PB_ATYPE_STATIC"
    and ltype: "PB_LTYPE (pf_type f) \<le> PB_LTYPE_SUBMESSAGE \<or> PB_LTYPE (pf_type f) = PB_LTYPE_FIXED_LENGTH_BYTES"
    using shape by (simp_all add: shape_ok_def)
  have sub: "safe False (pb_dec_submessage env decode f p)" if "PB_LTYPE (pf_type f) = PB_LTYPE_SUBMESSAGE"
  proof -
    from that item obtain i where "pf_ptr f = Fields_ptr i" "msg (pd_fields env i) p" by (auto simp: item_ok_def)
    with decode show ?thesis by (intro safe_submessage [OF env])
  qed
  note scalars = safe_scalar [OF env p width] and weak = dec_safe_weaken
  show ?thesis using ltype_cases [OF ltype] scalars sub safe_bytes [OF env static p] safe_string [OF env static p]
      safe_fixed_length_bytes [OF env p]
    by (auto simp: PB_DECODERS_def pb_ltypes)
qed

lemma safe_static_packed_loop:
  assumes size: "region pSize 4 \<subseteq> A" and func: "\<And>n. n < pf_array_size f \<Longrightarrow> safe True (func (item_address pData f n))"
  shows "istream_ok pending sub \<Longrightarrow> allocated B m \<Longrightarrow>
    \<exists>ok sub' m'. static_packed_loop func f pData pSize sub m = Some (ok, sub', m') \<and> keeps pending sub sub' \<and> frame A m m'"
proof (induction "unat (is_bytes_left sub)" arbitrary: sub m rule: less_induct)
  case less
  have load: "\<exists>n. load_u32 m pSize = Some n" if "allocated B m" for m using load_allocated(2) [OF _ that] size writable by blast
  obtain n where n: "load_u32 m pSize = Some n" using load less.prems(2) by blast
  consider (stop) "is_bytes_left sub = 0 \<or> \<not> n < pf_array_size f" | (go) "is_bytes_left sub \<noteq> 0" "n < pf_array_size f" by blast
  then show ?case
  proof cases
    case go
    from func [OF go(2)] less.prems obtain ok s1 m1 where 1: "func (item_address pData f n) sub m = Some (ok, s1, m1)"
      "keeps pending sub s1" "istream_ok pending s1" "frame A m m1" "allocated B m1"
      "ok \<Longrightarrow> unat (is_bytes_left s1) < unat (is_bytes_left sub)" by (rule dec_safeE) blast
    show ?thesis
    proof (cases ok)
      case True
      obtain k where k: "load_u32 m1 pSize = Some k" using load 1(5) by blast
      from store_le_safe [OF size writable] 1(5) obtain m2 where 2: "store_le 4 pSize (ucast (k + 1)) m1 = Some m2" "frame A m1 m2" "allocated B m2"
        by (rule upd_safeE)
      from less.hyps [OF 1(6) [OF True] 1(3) 2(3)] obtain ok' s3 m3
        where 3: "static_packed_loop func f pData pSize s1 m2 = Some (ok', s3, m3)" "keeps pending s1 s3" "frame A m2 m3" by blast
      have "static_packed_loop func f pData pSize sub m = Some (ok', s3, m3)"
        using go n 1(1) True k 2(1) 3(1) by (subst static_packed_loop.simps) simp
      moreover have "keeps pending sub s3" using 1(2) 3(2) by (rule keeps_trans)
      moreover have "frame A m m3" using frame_trans [OF frame_trans [OF 1(4) 2(2)] 3(3)] .
      ultimately show ?thesis by blast
    next
      case False
      then show ?thesis using go n 1 by (subst static_packed_loop.simps) auto
    qed
  qed (use n in \<open>subst static_packed_loop.simps, auto\<close>)
qed

end

section \<open>Walks over a message\<close>

lemma walk_fields_step:
  assumes "terminated flds" and "i + 1 < length flds"
  shows "walk_fields f (iter_at flds dest i) m =
    (case f (iter_at flds dest i) m of None \<Rightarrow> None | Some m \<Rightarrow> if i + 2 < length flds then walk_fields f (iter_at flds dest (i + 1)) m else Some m)"
proof -
  obtain again where "pb_field_iter_next (iter_at flds dest i) = Some (again, iter_at flds dest (if i + 2 < length flds then i + 1 else 0))"
    "again \<longleftrightarrow> i + 2 < length flds" using iter_next_at [OF assms, of dest] by auto
  then show ?thesis by (subst walk_fields.simps) (simp split: option.split)
qed

lemma walk_fields_safe:
  assumes "terminated flds" and f: "\<And>i. i + 1 < length flds \<Longrightarrow> upd_safe A B (f (iter_at flds dest i))"
  shows "i + 1 < length flds \<Longrightarrow> n = length flds - 1 - i \<Longrightarrow> upd_safe A B (walk_fields f (iter_at flds dest i))"
proof (induction n arbitrary: i)
  case (Suc n)
  have "upd_safe A B (\<lambda>m. if i + 2 < length flds then walk_fields f (iter_at flds dest (i + 1)) m else Some m)"
    using Suc by (cases "i + 2 < length flds") (auto simp: upd_safe_def)
  from upd_safe_bind [OF f [OF Suc.prems(1)] this] show ?case
    using walk_fields_step [OF assms(1) Suc.prems(1), of f dest] by simp
qed simp

lemma walk_message_safe:
  assumes "terminated flds" and "1 < length flds" and "\<And>i. i + 1 < length flds \<Longrightarrow> upd_safe A B (f (iter_at flds dest i))"
  shows "upd_safe A B (walk_message f flds dest)"
  using walk_fields_safe [where f = f and dest = dest and i = 0, OF assms(1) assms(3)] assms(2) iter_begin_at [OF assms(1), of dest]
  by (simp add: walk_message_def [abs_def])

lemma static_messageE:
  assumes "static_message d subs A B flds dest"
  obtains d' where "d = Suc d'" "terminated flds" "1 < length flds"
    "\<And>i. i + 1 < length flds \<Longrightarrow> static_field (static_message d' subs A B) subs A B (flds ! i) (it_pData (iter_at flds dest i)) (it_pSize (iter_at flds dest i))"
  using assms by (cases d) auto

lemma it_field_at: "terminated flds \<Longrightarrow> i + 1 < length flds \<Longrightarrow> it_field (iter_at flds dest i) = Some (flds ! i)"
  using iter_at_pos [of flds i dest] by (simp add: it_field_def field_at_def)

lemma not_extension:
  "shape_ok B f \<Longrightarrow> PB_LTYPE (pf_type f) \<noteq> PB_LTYPE_EXTENSION"
  "shape_ok B f \<Longrightarrow> PB_ATYPE (pf_type f) = PB_ATYPE_STATIC"
  by (auto simp: shape_ok_def pb_ltypes)

lemma defaults_safe:
  assumes "A \<subseteq> B" and "pd_fields env = subs"
  shows "static_message d subs A B flds dest \<Longrightarrow> upd_safe A B (walk_message (pb_field_set_to_default d env) flds dest)"
proof (induction d arbitrary: flds dest)
  case (Suc d)
  from Suc.prems have flds: "terminated flds" "1 < length flds" by simp_all
  show ?case
  proof (rule walk_message_safe [OF flds])
    fix i assume i: "i + 1 < length flds"
    let ?it = "iter_at flds dest i" and ?f = "flds ! i"
    let ?pData = "it_pData ?it" and ?pSize = "it_pSize ?it" and ?type = "pf_type ?f"
    from Suc.prems i have field: "static_field (static_message d subs A B) subs A B ?f ?pData ?pSize" by simp
    then have shape: "shape_ok B ?f" by (simp add: static_field_def)
    have defaults: "upd_safe A B (field_defaults env (walk_message (pb_field_set_to_default d env)) ?f ?pData)"
      if "PB_HTYPE ?type \<noteq> PB_HTYPE_REPEATED"
    proof (cases "PB_LTYPE ?type = PB_LTYPE_SUBMESSAGE")
      case True
      have "item_ok (static_message d subs A B) subs A ?f ?pData" using field that by (simp add: static_field_def)
      with True obtain j where "pf_ptr ?f = Fields_ptr j" "static_message d subs A B (subs j) ?pData"
        unfolding item_ok_def by blast
      then show ?thesis using Suc.IH True assms(2) by (simp add: field_defaults_def [abs_def])
    next
      case False
      have p: "region ?pData (unat (pf_data_size ?f)) \<subseteq> A" using field that by (simp add: static_field_def item_ok_def)
      show ?thesis
      proof (cases "pf_ptr ?f")
        case Null_ptr
        then show ?thesis using False store_bytes_safe [OF _ assms(1), of ?pData "replicate (unat (pf_data_size ?f)) 0"] p
          by (simp add: field_defaults_def [abs_def])
      next
        case (Data_ptr q)
        then have q: "region q (unat (pf_data_size ?f)) \<subseteq> B" using shape False by (simp add: shape_ok_def)
        show ?thesis unfolding upd_safe_def
        proof (intro allI impI)
          fix m assume m: "allocated B m"
          obtain bs where bs: "load_bytes m q (unat (pf_data_size ?f)) = Some bs" using load_bytes_allocated [OF q m] by blast
          then have "length bs = unat (pf_data_size ?f)" by (rule length_load_bytes)
          then have "upd_safe A B (\<lambda>m. store_bytes m ?pData bs)" using store_bytes_safe [OF _ assms(1)] p by simp
          then show "\<exists>m'. field_defaults env (walk_message (pb_field_set_to_default d env)) ?f ?pData m = Some m' \<and> frame A m m'"
            using m bs False Data_ptr by (simp add: upd_safe_def field_defaults_def)
        qed
      qed (use shape False in \<open>simp add: shape_ok_def\<close>)
    qed
    note htypes = PB_HTYPE_REPEATED_def PB_HTYPE_OPTIONAL_def PB_HTYPE_ONEOF_def
    note simps = it_field_at [OF flds(1) i] not_extension [OF shape] Let_def
    consider (flag) "PB_HTYPE ?type = PB_HTYPE_OPTIONAL" "?pSize \<noteq> ?pData"
      | (count) "PB_HTYPE ?type = PB_HTYPE_REPEATED \<or> PB_HTYPE ?type = PB_HTYPE_ONEOF"
      | (plain) "\<not> (PB_HTYPE ?type = PB_HTYPE_OPTIONAL \<and> ?pSize \<noteq> ?pData)" "\<not> (PB_HTYPE ?type = PB_HTYPE_REPEATED \<or> PB_HTYPE ?type = PB_HTYPE_ONEOF)"
      by blast
    then show "upd_safe A B (pb_field_set_to_default (Suc d) env ?it)"
    proof cases
      case flag
      then have "upd_safe A B (\<lambda>m. case store_bytes m ?pSize [0] of None \<Rightarrow> None
          | Some m \<Rightarrow> field_defaults env (walk_message (pb_field_set_to_default d env)) ?f ?pData m)"
        using field store_bytes_safe [OF _ assms(1), of ?pSize "[0]"]
        by (intro upd_safe_bind defaults) (auto simp: static_field_def htypes)
      then show ?thesis using flag by (simp add: simps upd_safe_def)
    next
      case count
      then have "upd_safe A B (store_le 4 ?pSize 0)" using field store_le_safe [OF _ assms(1)] by (auto simp: static_field_def)
      then show ?thesis using count by (auto simp: simps upd_safe_def htypes)
    next
      case plain
      then show ?thesis using defaults by (auto simp: simps upd_safe_def)
    qed
  qed
qed simp

lemma release_items_safe:
  "(\<And>k. k < n \<Longrightarrow> upd_safe A B (f (p + of_nat k * step))) \<Longrightarrow> upd_safe A B (release_items f p step n)"
proof (induction n arbitrary: p)
  case (Suc n)
  have "upd_safe A B (f (p + step + of_nat k * step))" if "k < n" for k
    using Suc.prems [of "Suc k"] that by (simp add: algebra_simps)
  then have "upd_safe A B (release_items f (p + step) step n)" by (rule Suc.IH)
  with Suc.prems [of 0] show ?case using upd_safe_bind [of A B "f p"] by simp
qed (simp add: upd_safe_def)

lemma of_nat_step: "(of_nat (k * unat w) :: u64) = of_nat k * ucast (w :: u32)"
proof -
  have "(of_nat (unat w) :: u64) = ucast w"
    using unsigned_less [of w] by (simp add: word_unat_eq_iff unat_of_nat take_bit_nat_eq_self)
  then show ?thesis by simp
qed

lemma release_submessages_safe:
  assumes "A \<subseteq> B" and "pd_fields env = subs" and shape: "shape_ok B f" and sub: "PB_LTYPE (pf_type f) = PB_LTYPE_SUBMESSAGE"
    and field: "static_field (static_message d subs A B) subs A B f (it_pData it) (it_pSize it)"
    and msg: "\<And>flds dest. static_message d subs A B flds dest \<Longrightarrow> upd_safe A B (walk_message g flds dest)"
  shows "upd_safe A B (release_submessages env g f it)"
  unfolding upd_safe_def
proof (intro allI impI)
  fix m assume m: "allocated B m"
  have static: "PB_ATYPE (pf_type f) = PB_ATYPE_STATIC" "PB_ATYPE_STATIC \<noteq> PB_ATYPE_POINTER"
    using shape by (simp_all add: shape_ok_def PB_ATYPE_STATIC_def PB_ATYPE_POINTER_def)
  let ?rep = "PB_HTYPE (pf_type f) = PB_HTYPE_REPEATED"
  obtain count where count: "release_count f it m = Some count" and le: "?rep \<longrightarrow> count \<le> pf_array_size f" "\<not> ?rep \<longrightarrow> count = 1"
  proof (cases ?rep)
    case True
    then have "region (it_pSize it) 4 \<subseteq> B" using field assms(1) unfolding static_field_def by blast
    then obtain n where n: "load_u32 m (it_pSize it) = Some n" using load_allocated(2) m by blast
    define raw where "raw = (if it_pSize it = it_pData it then pf_array_size f else n)"
    have "release_count f it m = Some (if pf_array_size f < raw then pf_array_size f else raw)"
      using True static n by (simp add: release_count_def raw_def)
    then show thesis using True that by (auto simp: not_less)
  qed (use that in \<open>simp add: release_count_def\<close>)
  have item: "item_ok (static_message d subs A B) subs A f (it_pData it + of_nat k * ucast (pf_data_size f))" if "k < unat count" for k
  proof (cases ?rep)
    case True
    then have "k < unat (pf_array_size f)" using that le(1) by (simp add: word_le_nat_alt)
    then have "item_ok (static_message d subs A B) subs A f (it_pData it + of_nat (k * unat (pf_data_size f)))"
      using field True unfolding static_field_def by presburger
    then show ?thesis by (simp only: of_nat_step)
  next
    case False
    then have "k = 0" using that le(2) by simp
    then show ?thesis using field False by (simp add: static_field_def)
  qed
  show "\<exists>m'. release_submessages env g f it m = Some m' \<and> frame A m m'"
  proof (cases "count = 0 \<or> it_pData it = NULL")
    case True
    then show ?thesis using count static by (auto simp: release_submessages_def split: pb_ptr.split)
  next
    case False
    then have "0 < unat count" by (simp add: unat_gt_0)
    from item [OF this] sub obtain i where ptr: "pf_ptr f = Fields_ptr i" by (auto simp: item_ok_def)
    have each: "upd_safe A B (release_message g (subs i) (it_pData it + of_nat k * ucast (pf_data_size f)))" if "k < unat count" for k
    proof -
      from item [OF that] sub ptr have "static_message d subs A B (subs i) (it_pData it + of_nat k * ucast (pf_data_size f))" by (simp add: item_ok_def)
      from msg [OF this] show ?thesis by (auto simp: upd_safe_def release_message_def)
    qed
    have "upd_safe A B (release_items (release_message g (subs i)) (it_pData it) (ucast (pf_data_size f)) (unat count))"
      by (rule release_items_safe) (rule each)
    from this m obtain m'
      where "release_items (release_message g (subs i)) (it_pData it) (ucast (pf_data_size f)) (unat count) m = Some m'" "frame A m m'"
      by (rule upd_safeE)
    then show ?thesis using False count static ptr assms(2) by (simp add: release_submessages_def)
  qed
qed

lemma release_field_safe:
  assumes "A \<subseteq> B" and "pd_fields env = subs" and flds: "terminated flds" "i + 1 < length flds"
    and field: "static_field (static_message d subs A B) subs A B (flds ! i) (it_pData (iter_at flds dest i)) (it_pSize (iter_at flds dest i))"
    and msg: "\<And>flds dest. static_message d subs A B flds dest \<Longrightarrow> upd_safe A B (walk_message (pb_release_single_field d env) flds dest)"
  shows "upd_safe A B (pb_release_single_field (Suc d) env (iter_at flds dest i))"
  unfolding upd_safe_def
proof (intro allI impI)
  fix m assume m: "allocated B m"
  let ?it = "iter_at flds dest i" and ?f = "flds ! i"
  have shape: "shape_ok B ?f" using field by (simp add: static_field_def)
  have "\<exists>x. (if PB_HTYPE (pf_type ?f) = PB_HTYPE_ONEOF then map_option (\<lambda>which. which \<noteq> pf_tag ?f) (load_u32 m (it_pSize ?it)) else Some False) = Some x"
    using load_allocated(2) [OF _ m, of "it_pSize ?it"] field assms(1) by (auto simp: static_field_def)
  then obtain other where other: "(if PB_HTYPE (pf_type ?f) = PB_HTYPE_ONEOF then map_option (\<lambda>which. which \<noteq> pf_tag ?f) (load_u32 m (it_pSize ?it)) else Some False) = Some other" ..
  have sub: "\<exists>m'. (if PB_LTYPE (pf_type ?f) = PB_LTYPE_SUBMESSAGE \<and> PB_ATYPE (pf_type ?f) \<noteq> PB_ATYPE_CALLBACK
      then release_submessages env (pb_release_single_field d env) ?f ?it m else Some m) = Some m' \<and> frame A m m'"
    using release_submessages_safe [OF assms(1,2) shape _ field msg] m
    by (cases "PB_LTYPE (pf_type ?f) = PB_LTYPE_SUBMESSAGE") (auto simp: upd_safe_def)
  have "PB_ATYPE_STATIC \<noteq> PB_ATYPE_POINTER" by (simp add: PB_ATYPE_STATIC_def PB_ATYPE_POINTER_def)
  moreover from sub obtain m1 where "(if PB_LTYPE (pf_type ?f) = PB_LTYPE_SUBMESSAGE \<and> PB_ATYPE (pf_type ?f) \<noteq> PB_ATYPE_CALLBACK
      then release_submessages env (pb_release_single_field d env) ?f ?it m else Some m) = Some m1" "frame A m m1" by blast
  ultimately show "\<exists>m'. pb_release_single_field (Suc d) env ?it m = Some m' \<and> frame A m m'"
    using other not_extension [OF shape] it_field_at [OF flds, of dest]
    by (cases other) (auto simp: Let_def split: if_splits)
qed

lemma release_safe:
  assumes "A \<subseteq> B" and "pd_fields env = subs"
  shows "static_message d subs A B flds dest \<Longrightarrow> upd_safe A B (walk_message (pb_release_single_field d env) flds dest)"
proof (induction d arbitrary: flds dest)
  case (Suc d)
  then have "terminated flds" "1 < length flds" by simp_all
  then show ?case
  proof (rule walk_message_safe)
    show "upd_safe A B (pb_release_single_field (Suc d) env (iter_at flds dest i))" if "i + 1 < length flds" for i
      using Suc.prems that by (intro release_field_safe [OF assms _ that _ Suc.IH]) simp_all
  qed
qed simp

end
