(* ===== verification/Pb_Message_Safe.thy ===== *)
theory Pb_Message_Safe
  imports Pb_Decode_Safe
begin

text \<open>
  The decoder of a message of static fields, on any input: the fields, the bookkeeping of the loop, and
  the nesting of messages.
\<close>

text \<open>An iterator at a field, which may count the entries of a fixed array in the local variable.\<close>

definition iter_safe :: "u64 set \<Rightarrow> pb_field list \<Rightarrow> u64 \<Rightarrow> pb_field_iter \<Rightarrow> bool" where
  "iter_safe A flds dest it \<longleftrightarrow>
     (\<exists>i. iter_near flds dest i it \<and> (it_pSize it = it_pSize (iter_at flds dest i) \<or> region (it_pSize it) 4 \<subseteq> A))"

definition vars_safe :: "u64 set \<Rightarrow> pb_field list \<Rightarrow> u64 \<Rightarrow> pb_decode_vars \<Rightarrow> bool" where
  "vars_safe A flds dest vars \<longleftrightarrow> iter_safe A flds dest (dv_iter vars) \<and> dv_extension_range_start vars \<in> {0, - 1} \<and>
     (\<forall>i. dv_fixed_count_field vars = Some i \<longrightarrow> i < length flds)"

text \<open>A message of static fields, and what is below it.\<close>

definition message_ok ::
  "('s \<Rightarrow> u8 list) \<Rightarrow> u64 set \<Rightarrow> u64 set \<Rightarrow> 's pb_denv \<Rightarrow> nat \<Rightarrow> 's pb_subdec \<Rightarrow> pb_field list \<Rightarrow> u64 \<Rightarrow> bool" where
  "message_ok pending A B env d decode flds dest \<longleftrightarrow>
     static_message (Suc d) (pd_fields env) A B flds dest \<and> region (pd_local env (Suc d)) 4 \<subseteq> A \<and>
     (\<forall>init flds q. static_message d (pd_fields env) A B flds q \<longrightarrow> dec_safe pending A B False (decode init flds q))"

lemma message_ok_fields:
  assumes "message_ok pending A B env d decode flds dest"
  shows "terminated flds" and "1 < length flds"
    and "i + 1 < length flds \<Longrightarrow> static_field (static_message d (pd_fields env) A B) (pd_fields env) A B (flds ! i)
      (it_pData (iter_at flds dest i)) (it_pSize (iter_at flds dest i))"
    and "region (pd_local env (Suc d)) 4 \<subseteq> A"
    and "static_message d (pd_fields env) A B flds' q \<Longrightarrow> dec_safe pending A B False (decode init flds' q)"
  using assms by (simp_all add: message_ok_def)

lemma find_at:
  assumes "terminated flds" and "i + 1 < length flds"
  obtains found j where "pb_field_iter_find tag (iter_at flds dest i) = Some (found, iter_at flds dest j)" "j + 1 < length flds"
  using iter_search_from [OF assms, of "field_matches tag" dest] iter_at_pos [OF assms(1), of i dest] assms(2)
  by (auto simp: pb_field_iter_find_def)

lemma iter_safe_at: "i + 1 < length flds \<Longrightarrow> iter_safe A flds dest (iter_at flds dest i)"
  using iter_near_at by (auto simp: iter_safe_def)

lemma iter_safe_field:
  assumes "terminated flds" and "iter_safe A flds dest it"
  obtains i where "i + 1 < length flds" "iter_near flds dest i it" "it_field it = Some (flds ! i)" "it_start it = flds" "it_pos it = i"
    "it_pData it = it_pData (iter_at flds dest i)"
    "it = iter_at flds dest i \<or> PB_HTYPE (pf_type (flds ! i)) = PB_HTYPE_REPEATED \<and> region (it_pSize it) 4 \<subseteq> A"
proof -
  from assms(2) obtain i where i: "iter_near flds dest i it" "it_pSize it = it_pSize (iter_at flds dest i) \<or> region (it_pSize it) 4 \<subseteq> A"
    by (auto simp: iter_safe_def)
  note pos = iter_near_pos [OF assms(1) i(1)]
  have len: "i + 1 < length flds" using i(1) by (simp add: iter_near_def)
  have "it = iter_at flds dest i \<or> PB_HTYPE (pf_type (flds ! i)) = PB_HTYPE_REPEATED \<and> region (it_pSize it) 4 \<subseteq> A"
    using i by (auto simp: iter_near_def)
  then show thesis using that len i(1) pos by (simp add: it_field_def field_at_def)
qed

lemma find_safe:
  assumes "terminated flds" and "iter_safe A flds dest it"
  obtains found it' where "pb_field_iter_find tag it = Some (found, it')" "iter_safe A flds dest it'"
proof -
  from assms obtain i where i: "i + 1 < length flds" "iter_near flds dest i it" "it_field it = Some (flds ! i)" "it_start it = flds" "it_pos it = i"
    by (rule iter_safe_field)
  show thesis
  proof (cases "field_matches tag (flds ! i)")
    case True
    then have "pb_field_iter_find tag it = Some (True, it)" using i(1,4,5)
      unfolding pb_field_iter_find_def by (subst iter_search.simps) (simp add: field_at_def)
    then show thesis using that assms(2) by blast
  next
    case False
    have at: "it_start (iter_at flds dest i) = flds" "it_pos (iter_at flds dest i) = i" using iter_at_pos [OF assms(1), of i dest] i(1) by simp_all
    have "pb_field_iter_find tag it = pb_field_iter_find tag (iter_at flds dest i)"
      unfolding pb_field_iter_find_def i(5) at
      by (subst (1 2) iter_search.simps) (simp add: field_at_def i(1,4,5) at False iter_near_next [OF assms(1) i(2)])
    then show thesis using that find_at [OF assms(1) i(1), of tag dest] iter_safe_at by metis
  qed
qed

context pb_space
begin

lemma safe_static_field:
  assumes env: "pd_in env = inp" and field: "static_field msg (pd_fields env) A B f (it_pData it) pSize"
    and size: "it_pSize it = pSize \<or> PB_HTYPE (pf_type f) = PB_HTYPE_REPEATED \<and> region (it_pSize it) 4 \<subseteq> A"
    and decode: "\<And>init flds q. msg flds q \<Longrightarrow> safe False (decode init flds q)"
    and defaults: "\<And>flds q. msg flds q \<Longrightarrow> upd_safe A B (pb_message_set_to_defaults d env flds q)"
  shows "safe False (decode_static_field d env decode wire_type f it)"
proof -
  let ?func = "PB_DECODERS env decode f" and ?htype = "PB_HTYPE (pf_type f)"
  have shape: "shape_ok B f" using field by (simp add: static_field_def)
  have func: "safe (PB_LTYPE (pf_type f) \<le> PB_LTYPE_LAST_PACKABLE) (?func p)" if "item_ok msg (pd_fields env) A f p" for p
    by (rule safe_decoder [OF env shape that]) (rule decode)
  have count: "region (it_pSize it) 4 \<subseteq> A" if "?htype = PB_HTYPE_REPEATED \<or> ?htype = PB_HTYPE_ONEOF"
  proof -
    have "region pSize 4 \<subseteq> A" using field that unfolding static_field_def by meson
    then show ?thesis using size by auto
  qed
  have load: "\<exists>n. load_u32 m (it_pSize it) = Some n" if "?htype = PB_HTYPE_REPEATED \<or> ?htype = PB_HTYPE_ONEOF" "allocated B m" for m
    using load_allocated(2) [OF _ that(2)] count [OF that(1)] writable by blast
  consider (single) "?htype = PB_HTYPE_REQUIRED \<or> ?htype = PB_HTYPE_OPTIONAL" | (repeated) "?htype = PB_HTYPE_REPEATED" | (oneof) "?htype = PB_HTYPE_ONEOF"
    using htype_cases [of "pf_type f"] by blast
  then show ?thesis
  proof cases
    case single
    then have "?htype \<noteq> PB_HTYPE_REPEATED" by (auto simp: PB_HTYPE_REQUIRED_def PB_HTYPE_OPTIONAL_def PB_HTYPE_REPEATED_def)
    then have item: "item_ok msg (pd_fields env) A f (it_pData it)" using field by (simp add: static_field_def)
    have p: "safe False (?func (it_pData it))" by (rule dec_safe_weaken [OF func [OF item]])
    have "it_pSize it = pSize" using size \<open>?htype \<noteq> PB_HTYPE_REPEATED\<close> by blast
    then have flag: "safe False (if it_pSize it \<noteq> it_pData it then dec_update (\<lambda>m. store_bytes m (it_pSize it) [1]) else dec_ok)"
      if "?htype = PB_HTYPE_OPTIONAL"
      using field that by (intro safe_if safe_ok safe_store) (simp add: static_field_def)
    show ?thesis
    proof (cases "?htype = PB_HTYPE_REQUIRED")
      case True
      then show ?thesis using p by (simp add: decode_static_field_def Let_def)
    next
      case False
      then have "?htype = PB_HTYPE_OPTIONAL" using single by simp
      then show ?thesis using safe_then [OF flag p] False by (simp add: decode_static_field_def Let_def)
    qed
  next
    case repeated
    have item: "safe (PB_LTYPE (pf_type f) \<le> PB_LTYPE_LAST_PACKABLE) (?func (item_address (it_pData it) f n))" if "n < pf_array_size f" for n
    proof (intro func)
      have "unat n < unat (pf_array_size f)" using that by (simp add: word_less_nat_alt)
      then show "item_ok msg (pd_fields env) A f (item_address (it_pData it) f n)"
        using field repeated unfolding item_address_nat [OF shape that] static_field_def by presburger
    qed
    have packed: "safe False (with_substream env (\<lambda>sub s m.
        case static_packed_loop ?func f (it_pData it) (it_pSize it) sub m of None \<Rightarrow> None | Some (status, sub, m) \<Rightarrow>
          if is_bytes_left sub \<noteq> 0 then dec_error ''array overflow'' s m else close_substream env sub status s m))"
      if "PB_LTYPE (pf_type f) \<le> PB_LTYPE_LAST_PACKABLE"
    proof (rule safe_substream [OF env])
      fix s sub s1 :: "'s pb_istream" and m assume sub: "substream_of s sub s1" and m: "allocated B m"
      then have "istream_ok pending sub" by (simp add: substream_of_def)
      from safe_static_packed_loop [OF count, of f ?func "it_pData it" sub m] item that this m repeated obtain ok sub' m'
        where loop: "static_packed_loop ?func f (it_pData it) (it_pSize it) sub m = Some (ok, sub', m')" "keeps pending sub sub'" "frame A m m'"
        by auto
      then show "\<exists>ok s' m'. (case static_packed_loop ?func f (it_pData it) (it_pSize it) sub m of None \<Rightarrow> None | Some (status, sub, m) \<Rightarrow>
          if is_bytes_left sub \<noteq> 0 then dec_error ''array overflow'' s1 m else close_substream env sub status s1 m) = Some (ok, s', m') \<and>
          keeps pending s s' \<and> frame A m m'"
        using close_safe [OF env sub loop(2), of ok m'] error_after_substream [OF sub, of "''array overflow''" m'] by auto
    qed
    have one: "safe False (dec_load (\<lambda>m. load_u32 m (it_pSize it)) (\<lambda>n. dec_then (dec_update (store_le 4 (it_pSize it) (ucast (n + 1))))
        (if n \<ge> pf_array_size f then dec_error ''array overflow'' else ?func (item_address (it_pData it) f n))))"
      using repeated count item
      by (intro safe_load load safe_then safe_store_le safe_if safe_error dec_safe_weaken [OF item]) (auto simp: not_le)
    show ?thesis using packed one repeated
      by (simp add: decode_static_field_def Let_def PB_HTYPE_REQUIRED_def PB_HTYPE_OPTIONAL_def PB_HTYPE_REPEATED_def)
  next
    case oneof
    then have rep: "?htype \<noteq> PB_HTYPE_REPEATED" by (simp add: PB_HTYPE_ONEOF_def PB_HTYPE_REPEATED_def)
    then have item: "item_ok msg (pd_fields env) A f (it_pData it)" using field by (simp add: static_field_def)
    let ?reset = "\<lambda>m. case store_bytes m (it_pData it) (replicate (unat (pf_data_size f)) 0) of None \<Rightarrow> None | Some m \<Rightarrow>
        (case pf_ptr f of Fields_ptr i \<Rightarrow> pb_message_set_to_defaults d env (pd_fields env i) (it_pData it) m | _ \<Rightarrow> None)"
    have reset: "upd_safe A B ?reset" if "PB_LTYPE (pf_type f) = PB_LTYPE_SUBMESSAGE"
    proof -
      from item that obtain i where i: "pf_ptr f = Fields_ptr i" "msg (pd_fields env i) (it_pData it)" by (auto simp: item_ok_def)
      have "upd_safe A B (\<lambda>m. store_bytes m (it_pData it) (replicate (unat (pf_data_size f)) 0))"
        using store_bytes_safe [OF _ writable, of "it_pData it" "replicate (unat (pf_data_size f)) 0"] item by (simp add: item_ok_def)
      from upd_safe_bind [OF this defaults [OF i(2)]] show ?thesis by (simp add: i(1) cong: option.case_cong)
    qed
    have "safe False (dec_load (\<lambda>m. if PB_LTYPE (pf_type f) = PB_LTYPE_SUBMESSAGE
          then map_option (\<lambda>which. which \<noteq> pf_tag f) (load_u32 m (it_pSize it)) else Some False)
        (\<lambda>new. dec_then (if new then dec_update ?reset else dec_ok)
          (dec_then (dec_update (store_le 4 (it_pSize it) (ucast (pf_tag f)))) (?func (it_pData it)))))"
    proof (rule safe_load_if)
      fix m assume "allocated B m"
      then obtain n where "load_u32 m (it_pSize it) = Some n" using load oneof by blast
      moreover have "safe False (dec_then (if new then dec_update ?reset else dec_ok)
          (dec_then (dec_update (store_le 4 (it_pSize it) (ucast (pf_tag f)))) (?func (it_pData it))))"
        if "new \<longrightarrow> PB_LTYPE (pf_type f) = PB_LTYPE_SUBMESSAGE" for new
        using that oneof by (intro safe_then safe_if safe_update reset safe_ok safe_store_le count dec_safe_weaken [OF func [OF item]]) auto
      ultimately show "\<exists>new. (if PB_LTYPE (pf_type f) = PB_LTYPE_SUBMESSAGE
          then map_option (\<lambda>which. which \<noteq> pf_tag f) (load_u32 m (it_pSize it)) else Some False) = Some new \<and>
        safe False (dec_then (if new then dec_update ?reset else dec_ok)
          (dec_then (dec_update (store_le 4 (it_pSize it) (ucast (pf_tag f)))) (?func (it_pData it))))"
        by (cases "PB_LTYPE (pf_type f) = PB_LTYPE_SUBMESSAGE") auto
    qed
    then show ?thesis using oneof
      by (simp add: decode_static_field_def Let_def PB_HTYPE_REQUIRED_def PB_HTYPE_OPTIONAL_def PB_HTYPE_REPEATED_def PB_HTYPE_ONEOF_def)
  qed
qed

lemma union_safe:
  assumes msg: "message_ok pending A B env d decode flds dest" and i: "i + 1 < length flds"
    and oneof: "PB_HTYPE (pf_type (flds ! i)) = PB_HTYPE_ONEOF" and m: "allocated B m"
  shows "\<exists>r s' m'. pb_release_union_field (Suc d) env (iter_at flds dest i) s m = Some (r, s', m') \<and> keeps pending s s' \<and> frame A m m' \<and>
    (\<forall>it. r = Some it \<longrightarrow> iter_safe A flds dest it)"
proof -
  note flds = message_ok_fields(1) [OF msg] and field = message_ok_fields(3) [OF msg]
  let ?it = "iter_at flds dest i"
  have "region (it_pSize ?it) 4 \<subseteq> B" using field [OF i] oneof writable by (auto simp: static_field_def)
  then obtain old where old: "load_u32 m (it_pSize ?it) = Some old" using load_allocated(2) m by blast
  obtain found j where j: "pb_field_iter_find old ?it = Some (found, iter_at flds dest j)" "j + 1 < length flds"
    using find_at [OF flds i] .
  have "upd_safe A B (pb_release_single_field (Suc d) env (iter_at flds dest j))"
    by (rule release_field_safe [OF writable refl flds j(2) field [OF j(2)]]) (rule release_safe [OF writable refl])
  with m obtain m1 where m1: "pb_release_single_field (Suc d) env (iter_at flds dest j) m = Some m1" "frame A m m1"
    by (auto elim!: upd_safeE)
  obtain found' k where k: "pb_field_iter_find (pf_tag (flds ! i)) (iter_at flds dest j) = Some (found', iter_at flds dest k)" "k + 1 < length flds"
    using find_at [OF flds j(2)] .
  have "PB_ATYPE (pf_type (flds ! k)) \<noteq> PB_ATYPE_POINTER"
    using field [OF k(2)] by (simp add: static_field_def shape_ok_def PB_ATYPE_STATIC_def PB_ATYPE_POINTER_def)
  then show ?thesis using old j k m1 it_field_at [OF flds i, of dest] it_field_at [OF flds k(2), of dest]
      iter_safe_at [OF i] iter_safe_at [OF k(2)]
    by (cases found; cases found') (auto simp: pb_release_union_field_def Let_def dec_error_def)
qed

lemma field_safe:
  assumes env: "pd_in env = inp" and msg: "message_ok pending A B env d decode flds dest" and it: "iter_safe A flds dest it"
    and "istream_ok pending s" and "allocated B m"
  shows "\<exists>r s' m'. decode_field (Suc d) env decode wire_type it s m = Some (r, s', m') \<and> keeps pending s s' \<and> frame A m m' \<and>
    (\<forall>it. r = Some it \<longrightarrow> iter_safe A flds dest it)"
proof -
  note flds = message_ok_fields(1) [OF msg] and field = message_ok_fields(3) [OF msg] and sub = message_ok_fields(5) [OF msg]
  have body: "\<exists>r s' m'. map_option (\<lambda>(ok, s, m). (if ok then Some it else None, s, m))
      ((let atype = PB_ATYPE (pf_type (flds ! i)) in
        if atype = PB_ATYPE_STATIC then decode_static_field (Suc d) env decode wire_type (flds ! i) it
        else if atype = PB_ATYPE_POINTER then decode_pointer_field (Suc d) env decode wire_type (flds ! i) it
        else if atype = PB_ATYPE_CALLBACK then decode_callback_field env wire_type (flds ! i) it
        else dec_error ''invalid field type'') s m) = Some (r, s', m') \<and> keeps pending s s' \<and> frame A m m' \<and>
      (\<forall>it. r = Some it \<longrightarrow> iter_safe A flds dest it)"
    if s: "istream_ok pending s" and m: "allocated B m" and i: "i + 1 < length flds" and it: "iter_safe A flds dest it"
      and data: "it_pData it = it_pData (iter_at flds dest i)"
      and exact: "it = iter_at flds dest i \<or> PB_HTYPE (pf_type (flds ! i)) = PB_HTYPE_REPEATED \<and> region (it_pSize it) 4 \<subseteq> A"
    for s :: "'s pb_istream" and m it i
  proof -
    have static: "PB_ATYPE (pf_type (flds ! i)) = PB_ATYPE_STATIC" using field [OF i] by (simp add: static_field_def shape_ok_def)
    have "safe False (decode_static_field (Suc d) env decode wire_type (flds ! i) it)"
    proof (rule safe_static_field [OF env _ _ sub])
      show "static_field (static_message d (pd_fields env) A B) (pd_fields env) A B (flds ! i) (it_pData it) (it_pSize (iter_at flds dest i))"
        using field [OF i] data by simp
      show "upd_safe A B (pb_message_set_to_defaults (Suc d) env flds q)" if "static_message d (pd_fields env) A B flds q" for flds q
        unfolding pb_message_set_to_defaults_def by (rule defaults_safe [OF writable refl static_message_Suc [OF that]])
    qed (use exact in auto)
    from this s m obtain ok s' m' where "decode_static_field (Suc d) env decode wire_type (flds ! i) it s m = Some (ok, s', m')"
      "keeps pending s s'" "frame A m m'" by (rule dec_safeE)
    then show ?thesis using static it by (cases ok) simp_all
  qed
  from it obtain i where i: "i + 1 < length flds" "it_field it = Some (flds ! i)" "it_pData it = it_pData (iter_at flds dest i)"
    "it = iter_at flds dest i \<or> PB_HTYPE (pf_type (flds ! i)) = PB_HTYPE_REPEATED \<and> region (it_pSize it) 4 \<subseteq> A"
    by (rule iter_safe_field [OF flds])
  show ?thesis
  proof (cases "PB_HTYPE (pf_type (flds ! i)) = PB_HTYPE_ONEOF")
    case False
    then show ?thesis using body [OF assms(4,5) i(1) it i(3,4)] i(2) by (simp add: decode_field_def Let_def)
  next
    case True
    then have at: "it = iter_at flds dest i" using i(4) by (simp add: PB_HTYPE_ONEOF_def PB_HTYPE_REPEATED_def)
    obtain r s1 m1 where 1: "pb_release_union_field (Suc d) env it s m = Some (r, s1, m1)" "keeps pending s s1" "frame A m m1"
      "\<And>it. r = Some it \<Longrightarrow> iter_safe A flds dest it"
      using union_safe [OF msg i(1) True assms(5), of s] unfolding at by blast
    show ?thesis
    proof (cases r)
      case None
      then show ?thesis using 1 i(2) True by (simp add: decode_field_def)
    next
      case (Some it1)
      obtain k where k: "k + 1 < length flds" "it_field it1 = Some (flds ! k)" "it_pData it1 = it_pData (iter_at flds dest k)"
        "it1 = iter_at flds dest k \<or> PB_HTYPE (pf_type (flds ! k)) = PB_HTYPE_REPEATED \<and> region (it_pSize it1) 4 \<subseteq> A"
        using 1(4) [OF Some] by (rule iter_safe_field [OF flds])
      from body [OF keeps_ok [OF 1(2) assms(4)] frame_allocated [OF 1(3) assms(5)] k(1) 1(4) [OF Some] k(3,4)] obtain r2 s2 m2
        where 2: "decode_field (Suc d) env decode wire_type it s m = Some (r2, s2, m2)" "keeps pending s1 s2" "frame A m1 m2"
          "\<forall>it. r2 = Some it \<longrightarrow> iter_safe A flds dest it"
        using 1(1) Some i(2) k(2) True by (auto simp: decode_field_def Let_def)
      then show ?thesis using keeps_trans [OF 1(2) 2(2)] frame_trans [OF 1(3) 2(3)] by blast
    qed
  qed
qed

subsection \<open>The loop\<close>

text \<open>A step returns; it goes on with safe variables only after it has taken some input.\<close>

definition step_safe ::
  "pb_field list \<Rightarrow> u64 \<Rightarrow> 's pb_istream \<Rightarrow> pb_mem \<Rightarrow> (pb_step \<times> 's pb_istream \<times> pb_mem) option \<Rightarrow> bool" where
  "step_safe flds dest s m result \<longleftrightarrow> (\<exists>step s' m'. result = Some (step, s', m') \<and> keeps pending s s' \<and> frame A m m' \<and>
     (case step of Return_now _ \<Rightarrow> True | Break_loop vars \<Rightarrow> vars_safe A flds dest vars | Next_field vars \<Rightarrow> vars_safe A flds dest vars))"

lemma fail_step_safe: "step_safe flds dest s m (fail_step msg s m)"
  by (simp add: step_safe_def fail_step_def dec_error_def)

lemma skip_unknown_safe:
  assumes "pd_in env = inp" and "vars_safe A flds dest vars" and s: "istream_ok pending s"
  shows "step_safe flds dest s m (skip_unknown env vars wire_type s m)"
proof -
  obtain r s' where "pb_skip_field inp wire_type s = Some (r, s')" "keeps pending s s'"
    using total_skip_field s by (rule rd_totalE)
  then show ?thesis using assms by (auto simp: step_safe_def skip_unknown_def)
qed

lemma unknown_safe:
  assumes env: "pd_in env = inp" and msg: "message_ok pending A B env d decode flds dest" and vars: "vars_safe A flds dest vars"
    and "istream_ok pending s" and tag: "tag < - 1"
  shows "step_safe flds dest s m (decode_unknown (Suc d) env decode vars tag wire_type s m)"
proof -
  note flds = message_ok_fields(1) [OF msg]
  from vars obtain i where i: "i + 1 < length flds" "iter_near flds dest i (dv_iter vars)" "it_pos (dv_iter vars) = i"
    unfolding vars_safe_def by (auto elim!: iter_safe_field [OF flds])
  have none: "PB_LTYPE (pf_type (flds ! k)) \<noteq> PB_LTYPE_EXTENSION" if "k + 1 < length flds" for k
    using message_ok_fields(3) [OF msg that] not_extension(1) by (auto simp: static_field_def)
  obtain found it j where search: "find_extension_field (dv_iter vars) = Some (found, it)" "iter_near flds dest j it"
    "if found then PB_LTYPE (pf_type (flds ! j)) = PB_LTYPE_EXTENSION else it = iter_at flds dest i \<and> j = i"
    using iter_search_near [OF flds i(2), of "\<lambda>f. PB_LTYPE (pf_type f) = PB_LTYPE_EXTENSION"] unfolding find_extension_field_def by metis
  have "\<not> found" using search none [of j] by (auto simp: iter_near_def)
  then have "it = iter_at flds dest i" using search(3) by simp
  then have "vars_safe A flds dest (vars\<lparr>dv_iter := it, dv_extension_range_start := - 1\<rparr>)"
    using vars iter_safe_at [OF i(1)] by (simp add: vars_safe_def)
  then show ?thesis
    using search(1) \<open>\<not> found\<close> \<open>it = iter_at flds dest i\<close> it_field_at [OF flds i(1), of dest] tag
      skip_unknown_safe [OF env _ assms(4)] vars
    by (simp add: decode_unknown_def Let_def not_le)
qed

lemma fixed_count_safe:
  assumes msg: "message_ok pending A B env d decode flds dest" and vars: "vars_safe A flds dest vars" and m: "allocated B m"
  shows "\<exists>complete. fixed_count_complete (Suc d) env vars m = Some complete"
proof -
  have "region (pd_local env (Suc d)) 4 \<subseteq> B" using message_ok_fields(4) [OF msg] writable by blast
  then obtain n where "load_u32 m (pd_local env (Suc d)) = Some n" using load_allocated(2) m by blast
  moreover have "it_start (dv_iter vars) = flds" using vars message_ok_fields(1) [OF msg]
    unfolding vars_safe_def by (auto elim!: iter_safe_field)
  ultimately show ?thesis using vars by (auto simp: fixed_count_complete_def vars_safe_def field_at_def split: option.split)
qed

lemma count_start_safe:
  assumes msg: "message_ok pending A B env d decode flds dest" and vars: "vars_safe A flds dest vars" and m: "allocated B m"
    and field: "it_field (dv_iter vars) = Some f"
  shows "\<exists>r m'. fixed_count_start (Suc d) env f vars m = Some (r, m') \<and> frame A m m' \<and> (\<forall>vars'. r = Some vars' \<longrightarrow> vars_safe A flds dest vars')"
proof -
  note flds = message_ok_fields(1) [OF msg] and local = message_ok_fields(4) [OF msg]
  from vars have "iter_safe A flds dest (dv_iter vars)" by (simp add: vars_safe_def)
  then obtain i where i: "i + 1 < length flds" "iter_near flds dest i (dv_iter vars)" "it_field (dv_iter vars) = Some (flds ! i)"
    "it_pos (dv_iter vars) = i" by (rule iter_safe_field [OF flds])
  have f: "f = flds ! i" using field i(3) by simp
  let ?it = "(dv_iter vars)\<lparr>it_pSize := pd_local env (Suc d)\<rparr>"
  have it: "iter_safe A flds dest ?it" if "PB_HTYPE (pf_type f) = PB_HTYPE_REPEATED"
  proof -
    have "iter_near flds dest i ?it" using i(1,2) that f by (auto simp: iter_near_def)
    then show ?thesis using local by (auto simp: iter_safe_def)
  qed
  obtain complete where complete: "fixed_count_complete (Suc d) env vars m = Some complete" using fixed_count_safe [OF msg vars m] by blast
  obtain m1 where m1: "store_le 4 (pd_local env (Suc d)) 0 m = Some m1" "frame A m m1"
    using store_le_safe [OF local writable, of 0] m by (rule upd_safeE)
  then show ?thesis using complete it vars i(1,4)
    by (cases complete) (auto simp: fixed_count_start_def Let_def vars_safe_def)
qed

lemma known_safe:
  assumes env: "pd_in env = inp" and msg: "message_ok pending A B env d decode flds dest" and vars: "vars_safe A flds dest vars"
    and s: "istream_ok pending s" and m: "allocated B m"
  shows "step_safe flds dest s m (decode_known (Suc d) env decode vars wire_type s m)"
proof -
  from vars have "iter_safe A flds dest (dv_iter vars)" by (simp add: vars_safe_def)
  then obtain f where f: "it_field (dv_iter vars) = Some f" by (rule iter_safe_field [OF message_ok_fields(1) [OF msg]])
  obtain r m1 where 1: "fixed_count_start (Suc d) env f vars m = Some (r, m1)" "frame A m m1"
    "\<And>vars'. r = Some vars' \<Longrightarrow> vars_safe A flds dest vars'"
    using count_start_safe [OF msg vars m f] by blast
  show ?thesis
  proof (cases r)
    case None
    have "step_safe flds dest s m1 (fail_step ''wrong size for fixed count field'' s m1)" by (rule fail_step_safe)
    then show ?thesis using None 1(1) f frame_trans [OF 1(2)] by (fastforce simp: decode_known_def step_safe_def)
  next
    case (Some vars1)
    define vars2 where "vars2 = mark_seen f vars1"
    have vars2: "vars_safe A flds dest vars2" using 1(3) [OF Some] by (simp add: vars2_def mark_seen_def vars_safe_def Let_def)
    then have "iter_safe A flds dest (dv_iter vars2)" by (simp add: vars_safe_def)
    from field_safe [OF env msg this s frame_allocated [OF 1(2) m], of wire_type] obtain q s' m'
      where 2: "decode_field (Suc d) env decode wire_type (dv_iter vars2) s m1 = Some (q, s', m')" "keeps pending s s'" "frame A m1 m'"
        "\<And>it. q = Some it \<Longrightarrow> iter_safe A flds dest it" by blast
    have "vars_safe A flds dest (vars2\<lparr>dv_iter := it\<rparr>)" if "q = Some it" for it
      using vars2 2(4) [OF that] by (simp add: vars_safe_def)
    then show ?thesis using f 1(1) Some 2(1,2) frame_trans [OF 1(2) 2(3)]
      by (cases q) (auto simp: decode_known_def step_safe_def Let_def vars2_def [symmetric])
  qed
qed

lemma step_strict:
  assumes env: "pd_in env = inp" and msg: "message_ok pending A B env d decode flds dest" and vars: "vars_safe A flds dest vars"
    and s: "istream_ok pending s" and m: "allocated B m"
  obtains step s' m' where "decode_step (Suc d) env decode vars s m = Some (step, s', m')" "keeps pending s s'" "frame A m m'"
    "\<And>vars'. step = Break_loop vars' \<or> step = Next_field vars' \<Longrightarrow> vars_safe A flds dest vars'"
    "\<And>vars'. step = Next_field vars' \<Longrightarrow> unat (is_bytes_left s') < unat (is_bytes_left s)"
proof -
  note flds = message_ok_fields(1) [OF msg]
  obtain r eof s1 where 1: "pb_decode_tag inp s = Some (r, eof, s1)" "keeps pending s s1"
    "r \<noteq> None \<Longrightarrow> unat (is_bytes_left s1) < unat (is_bytes_left s)"
    using decode_tag_outcome [OF s] by blast
  show thesis
  proof (cases r)
    case None
    then have "decode_step (Suc d) env decode vars s m = Some (if eof then Break_loop vars else Return_now False, s1, m)"
      using 1(1) env by (simp add: decode_step_def)
    then show thesis using 1(2) by (rule that) (use vars in \<open>simp_all split: if_splits\<close>)
  next
    case (Some p)
    obtain wire_type tag where p: "r = Some (wire_type, tag)" using Some by (cases p) simp
    then have "\<exists>temp :: u32. tag = drop_bit 3 temp" using 1(1)
      by (auto simp: pb_decode_tag_def split: option.splits prod.splits if_splits)
    then obtain temp :: u32 where temp: "tag = drop_bit 3 temp" ..
    have "unat temp < 2 ^ 32" using unsigned_less [of temp] by simp
    then have tag: "tag < - 1" using temp
      by (simp add: word_less_nat_alt drop_bit_eq_div unat_div_distrib unsigned_minus_1_eq_mask mask_eq_exp_minus_1)
    from vars have "iter_safe A flds dest (dv_iter vars)" by (simp add: vars_safe_def)
    then obtain i where i: "i + 1 < length flds" "iter_near flds dest i (dv_iter vars)"
      "dv_iter vars = iter_at flds dest i \<or> PB_HTYPE (pf_type (flds ! i)) = PB_HTYPE_REPEATED \<and> region (it_pSize (dv_iter vars)) 4 \<subseteq> A"
      by (rule iter_safe_field [OF flds])
    obtain found it where find: "pb_field_iter_find tag (dv_iter vars) = Some (found, it)" "iter_safe A flds dest it"
      using find_safe [OF flds \<open>iter_safe A flds dest (dv_iter vars)\<close>] .
    have vars1: "vars_safe A flds dest (vars\<lparr>dv_iter := it\<rparr>)" using vars find(2) by (simp add: vars_safe_def)
    note s1 = keeps_ok [OF 1(2) s]
    have "step_safe flds dest s1 m (decode_step (Suc d) env decode vars s m)"
      using known_safe [OF env msg vars1 s1 m, of wire_type] unknown_safe [OF env msg vars1 s1 tag, of m wire_type]
      by (simp add: decode_step_def env 1(1) p find(1))
    then obtain step s' m' where 2: "decode_step (Suc d) env decode vars s m = Some (step, s', m')" "keeps pending s1 s'" "frame A m m'"
      "case step of Return_now _ \<Rightarrow> True | Break_loop vars \<Rightarrow> vars_safe A flds dest vars | Next_field vars \<Rightarrow> vars_safe A flds dest vars"
      unfolding step_safe_def by blast
    have "unat (is_bytes_left s') < unat (is_bytes_left s)" using 1(3) 2(2) p by (simp add: keeps_def)
    then show thesis using that [OF 2(1) keeps_trans [OF 1(2) 2(2)] 2(3)] 2(4) by (cases step) auto
  qed
qed

lemma loop_safe:
  assumes env: "pd_in env = inp" and msg: "message_ok pending A B env d decode flds dest"
  shows "vars_safe A flds dest vars \<Longrightarrow> istream_ok pending s \<Longrightarrow> allocated B m \<Longrightarrow>
    \<exists>r s' m'. decode_loop (decode_step (Suc d) env decode) vars s m = Some (r, s', m') \<and> keeps pending s s' \<and> frame A m m' \<and>
      (\<forall>vars'. r = Some vars' \<longrightarrow> vars_safe A flds dest vars')"
proof (induction "unat (is_bytes_left s)" arbitrary: vars s m rule: less_induct)
  case less
  show ?case
  proof (cases "is_bytes_left s = 0")
    case True
    then show ?thesis using less.prems by (subst decode_loop.simps) auto
  next
    case False
    obtain step s1 m1 where 1: "decode_step (Suc d) env decode vars s m = Some (step, s1, m1)" "keeps pending s s1" "frame A m m1"
      "\<And>vars'. step = Break_loop vars' \<or> step = Next_field vars' \<Longrightarrow> vars_safe A flds dest vars'"
      "\<And>vars'. step = Next_field vars' \<Longrightarrow> unat (is_bytes_left s1) < unat (is_bytes_left s)"
      using step_strict [OF env msg less.prems] by metis
    show ?thesis
    proof (cases step)
      case (Next_field vars1)
      from less.hyps [OF 1(5) [OF Next_field] 1(4) [OF disjI2 [OF Next_field]] keeps_ok [OF 1(2) less.prems(2)]
          frame_allocated [OF 1(3) less.prems(3)]] obtain r s2 m2
        where 2: "decode_loop (decode_step (Suc d) env decode) vars1 s1 m1 = Some (r, s2, m2)" "keeps pending s1 s2" "frame A m1 m2"
          "\<forall>vars'. r = Some vars' \<longrightarrow> vars_safe A flds dest vars'" by blast
      then have "decode_loop (decode_step (Suc d) env decode) vars s m = Some (r, s2, m2)"
        using False 1(1) Next_field by (subst decode_loop.simps) simp
      then show ?thesis using keeps_trans [OF 1(2) 2(2)] frame_trans [OF 1(3) 2(3)] 2(4) by blast
    qed (use False 1 in \<open>auto simp: decode_loop.simps [of _ vars s m]\<close>)
  qed
qed

subsection \<open>Messages\<close>

lemma required_loop_ends:
  assumes "terminated flds"
  shows "i + 1 < length flds \<Longrightarrow> n = length flds - 1 - i \<Longrightarrow>
    \<exists>count type. required_loop (iter_at flds dest i) = Some (count, type, iter_at flds dest 0)"
proof (induction n arbitrary: i)
  case (Suc n)
  obtain again where "pb_field_iter_next (iter_at flds dest i) = Some (again, iter_at flds dest (if i + 2 < length flds then i + 1 else 0))"
    "again \<longleftrightarrow> i + 2 < length flds" using iter_next_at [OF assms Suc.prems(1), of dest] by auto
  then show ?case using Suc it_field_at [OF assms Suc.prems(1), of dest]
    by (subst required_loop.simps) auto
qed simp

lemma required_check_safe:
  assumes flds: "terminated flds" "1 < length flds" and vars: "vars_safe A flds dest vars"
  shows "\<exists>seen. required_check vars = Some seen"
proof -
  from vars obtain i where i: "i + 1 < length flds" "iter_near flds dest i (dv_iter vars)" "it_field (dv_iter vars) = Some (flds ! i)"
    unfolding vars_safe_def by (auto elim!: iter_safe_field [OF flds(1)])
  obtain again where next': "pb_field_iter_next (dv_iter vars) = Some (again, iter_at flds dest (if i + 2 < length flds then i + 1 else 0))"
    "again \<longleftrightarrow> i + 2 < length flds"
    using iter_next_at [OF flds(1) i(1), of dest] iter_near_next [OF flds(1) i(2)] by auto
  have "\<exists>count type. required_loop (dv_iter vars) = Some (count, type, iter_at flds dest 0)"
    using next' i(3) required_loop_ends [OF flds(1), of "i + 1" _ dest] by (subst required_loop.simps) auto
  moreover have "it_field (iter_at flds dest 0) = Some (flds ! 0)" using it_field_at [OF flds(1), of 0] flds(2) by simp
  ultimately show ?thesis by (auto simp: required_check_def Let_def)
qed

lemma finish_safe:
  assumes msg: "message_ok pending A B env d decode flds dest" and vars: "vars_safe A flds dest vars" and m: "allocated B m"
  shows "\<exists>ok s'. decode_finish (Suc d) env vars s m = Some (ok, s', m) \<and> keeps pending s s'"
proof -
  obtain complete where "fixed_count_complete (Suc d) env vars m = Some complete" using fixed_count_safe [OF msg vars m] by blast
  moreover obtain seen where "required_check vars = Some seen"
    using required_check_safe [OF message_ok_fields(1,2) [OF msg] vars] by blast
  ultimately show ?thesis by (cases complete; cases seen) (auto simp: decode_finish_def dec_error_def)
qed

lemma enter_local_frame: "region a 4 \<subseteq> A \<Longrightarrow> frame A m (enter_local a m)"
  by (auto simp: frame_def enter_local_def region_Suc numeral_eq_Suc add.assoc)

lemma message_safe:
  assumes env: "pd_in env = inp" and msg: "message_ok pending A B env d (\<lambda>init. if init then decode_init d env (pb_decode_noinit d env) else pb_decode_noinit d env) flds dest"
  shows "safe False (pb_decode_noinit (Suc d) env flds dest)"
proof (rule dec_safeI)
  fix s :: "'s pb_istream" and m assume s: "istream_ok pending s" and m: "allocated B m"
  note flds = message_ok_fields(1,2) [OF msg]
  let ?decode = "\<lambda>init. if init then decode_init d env (pb_decode_noinit d env) else pb_decode_noinit d env"
  let ?vars = "\<lparr>dv_iter = iter_at flds dest 0, dv_fields_seen = [0, 0], dv_extension_range_start = 0, dv_fixed_count_field = None\<rparr>"
  let ?m = "enter_local (pd_local env (Suc d)) m"
  have vars: "vars_safe A flds dest ?vars" using iter_safe_at [of 0 flds] flds(2) by (simp add: vars_safe_def)
  have m0: "frame A m ?m" using message_ok_fields(4) [OF msg] by (rule enter_local_frame)
  obtain r s1 m1 where 1: "decode_loop (decode_step (Suc d) env ?decode) ?vars s ?m = Some (r, s1, m1)" "keeps pending s s1" "frame A ?m m1"
    "\<And>vars'. r = Some vars' \<Longrightarrow> vars_safe A flds dest vars'"
    using loop_safe [OF env msg vars s frame_allocated [OF m0 m]] by blast
  have m1: "frame A m m1" using frame_trans [OF m0 1(3)] .
  have run: "pb_decode_noinit (Suc d) env flds dest s m =
      (case r of None \<Rightarrow> Some (False, s1, m1) | Some vars \<Rightarrow> decode_finish (Suc d) env vars s1 m1)"
    using iter_begin_at [OF flds(1), of dest] 1(1) by (simp add: Let_def split: option.split)
  show "\<exists>ok s' m'. pb_decode_noinit (Suc d) env flds dest s m = Some (ok, s', m') \<and> keeps pending s s' \<and> frame A m m' \<and>
      (False \<longrightarrow> ok \<longrightarrow> unat (is_bytes_left s') < unat (is_bytes_left s))"
  proof (cases r)
    case (Some vars)
    from finish_safe [OF msg 1(4) [OF Some] frame_allocated [OF m1 m]] show ?thesis
      using run Some m1 keeps_trans [OF 1(2)] by fastforce
  qed (use run 1(2) m1 in \<open>auto simp del: pb_decode_noinit.simps\<close>)
qed

lemma init_safe:
  assumes "static_message d (pd_fields env) A B flds dest" and "safe False (noinit flds dest)"
  shows "safe False (decode_init d env noinit flds dest)"
proof (rule dec_safeI)
  fix s :: "'s pb_istream" and m assume s: "istream_ok pending s" and m: "allocated B m"
  from defaults_safe [OF writable refl assms(1)] m obtain m1
    where 1: "pb_message_set_to_defaults d env flds dest m = Some m1" "frame A m m1" "allocated B m1"
    unfolding pb_message_set_to_defaults_def by (rule upd_safeE)
  from assms(2) s 1(3) obtain ok s2 m2 where 2: "noinit flds dest s m1 = Some (ok, s2, m2)" "keeps pending s s2" "frame A m1 m2" "allocated B m2"
    by (rule dec_safeE)
  have "upd_safe A B (pb_release d env flds dest)"
    using release_safe [OF writable refl assms(1)] by (auto simp: upd_safe_def pb_release_def release_message_def)
  then obtain m3 where 3: "pb_release d env flds dest m2 = Some m3" "frame A m2 m3" using 2(4) by (rule upd_safeE)
  show "\<exists>ok s' m'. decode_init d env noinit flds dest s m = Some (ok, s', m') \<and> keeps pending s s' \<and> frame A m m' \<and>
      (False \<longrightarrow> ok \<longrightarrow> unat (is_bytes_left s') < unat (is_bytes_left s))"
    using 1(1) 2(1,2) 3(1) frame_trans [OF 1(2) 2(3)] frame_trans [OF frame_trans [OF 1(2) 2(3)] 3(2)]
    by (cases ok) (auto simp: decode_init_def)
qed

theorem decode_noinit_safe:
  assumes env: "pd_in env = inp"
  shows "static_message d (pd_fields env) A B flds dest \<Longrightarrow> (\<And>k. k \<le> d \<Longrightarrow> region (pd_local env k) 4 \<subseteq> A) \<Longrightarrow>
    safe False (pb_decode_noinit d env flds dest)"
proof (induction d arbitrary: flds dest)
  case (Suc d)
  have sub: "safe False (pb_decode_noinit d env flds q)" if "static_message d (pd_fields env) A B flds q" for flds q
    using Suc.IH [OF that] Suc.prems(2) by simp
  show ?case
  proof (rule message_safe [OF env])
    show "message_ok pending A B env d (\<lambda>init. if init then decode_init d env (pb_decode_noinit d env) else pb_decode_noinit d env) flds dest"
      unfolding message_ok_def using Suc.prems sub init_safe by (auto simp del: static_message.simps)
  qed
qed simp

theorem decode_safe:
  assumes "pd_in env = inp" and "static_message d (pd_fields env) A B flds dest" and "\<And>k. k \<le> d \<Longrightarrow> region (pd_local env k) 4 \<subseteq> A"
  shows "safe False (pb_decode d env flds dest)"
  unfolding pb_decode_def using assms by (intro init_safe decode_noinit_safe)

text \<open>The forms with a size in front.\<close>

lemma delimited_safe:
  assumes env: "pd_in env = inp" and f: "safe False f"
  shows "safe False (with_substream env (\<lambda>sub s m.
    case f sub m of None \<Rightarrow> None | Some (status, sub, m) \<Rightarrow> close_substream env sub status s m))"
proof (rule safe_substream [OF env])
  fix s sub s1 :: "'s pb_istream" and m assume sub: "substream_of s sub s1" and m: "allocated B m"
  then have "istream_ok pending sub" by (simp add: substream_of_def)
  from f this m obtain ok sub' m' where run: "f sub m = Some (ok, sub', m')" "keeps pending sub sub'" "frame A m m'" by (rule dec_safeE)
  then show "\<exists>ok s' m'. (case f sub m of None \<Rightarrow> None | Some (status, sub, m) \<Rightarrow> close_substream env sub status s1 m) = Some (ok, s', m') \<and>
      keeps pending s s' \<and> frame A m m'"
    using close_safe [OF env sub run(2), of ok m'] by auto
qed

theorem decoders_safe:
  assumes "pd_in env = inp" and "static_message d (pd_fields env) A B flds dest" and "\<And>k. k \<le> d \<Longrightarrow> region (pd_local env k) 4 \<subseteq> A"
    and "f \<in> {pb_decode, pb_decode_noinit, pb_decode_delimited, pb_decode_delimited_noinit, pb_decode_nullterminated}"
  shows "safe False (f d env flds dest)"
proof -
  have "safe False (pb_decode d env flds dest)" by (rule decode_safe) (use assms(1-3) in auto)
  moreover have "safe False (pb_decode_noinit d env flds dest)" by (rule decode_noinit_safe) (use assms(1-3) in auto)
  ultimately have 1: "safe False (pb_decode d env flds dest)" "safe False (pb_decode_noinit d env flds dest)" .
  have "safe False (pb_decode_delimited d env flds dest)" unfolding pb_decode_delimited_def by (rule delimited_safe [OF assms(1) 1(1)])
  moreover have "safe False (pb_decode_delimited_noinit d env flds dest)"
    unfolding pb_decode_delimited_noinit_def by (rule delimited_safe [OF assms(1) 1(2)])
  ultimately show ?thesis using 1 assms(4) by (auto simp: pb_decode_nullterminated_def)
qed

end

end
