(* ===== verification/Pb_Decode_Spec.thy ===== *)
theory Pb_Decode_Spec
  imports Pb_Message_Safe
begin

text \<open>
  The decoder on a buffer: \<open>buf_read\<close> keeps the contract of an input stream, and decoding a message of
  static fields is memory safe.
\<close>

definition buf_pending :: "u8 list \<times> nat \<Rightarrow> u8 list" where
  "buf_pending st = drop (snd st) (fst st)"

interpretation buf_source: pb_source buf_input buf_pending
  by unfold_locales (auto simp: buf_input_def buf_read_def buf_pending_def Let_def add.commute word_less_nat_alt split: prod.split)

interpretation buf_space: pb_space buf_input buf_pending A "A \<union> R" for A R
  by unfold_locales blast

lemma buffer_ok: "length buf < 2 ^ 64 \<Longrightarrow> istream_ok buf_pending (pb_istream_from_buffer buf)"
  by (simp add: istream_ok_def buf_pending_def pb_istream_from_buffer_def unat_of_nat take_bit_nat_eq_self)

text \<open>
  C4: memory safety and termination of the decoder in all its forms. Take a message whose fields (and those of its
  submessages, nested less than \<open>d\<close> deep) are static and lie in the bytes \<open>A\<close>, with room for the local
  counters of the calls in \<open>A\<close>, and default values in \<open>A\<close> or in the bytes \<open>R\<close> that are only read. Every message
  has at least one field, and the four bytes at \<open>pSize\<close> of each array lie in \<open>A\<close>, also of an array of fixed count
  (\<open>empty_message_written\<close> and \<open>fixed_count_overrun\<close> below show what happens without). Then
  decoding it from a buffer returns whatever bytes the buffer holds, valid or not: no loop runs on, no
  byte outside the buffer, \<open>A\<close> and \<open>R\<close> is read, no array entry, string terminator, submessage or count is
  written outside \<open>A\<close>, and all other memory is as it was.
\<close>

theorem pb_decode_safe:
  assumes "pd_in env = buf_input" and "static_message d (pd_fields env) A (A \<union> R) flds dest"
    and "\<forall>k \<le> d. region (pd_local env k) 4 \<subseteq> A" and "allocated (A \<union> R) m" and "length buf < 2 ^ 64"
    and "f \<in> {pb_decode, pb_decode_noinit, pb_decode_delimited, pb_decode_delimited_noinit, pb_decode_nullterminated}"
  shows "\<exists>ok s m'. f d env flds dest (pb_istream_from_buffer buf) m = Some (ok, s, m') \<and> (\<forall>a. a \<notin> A \<longrightarrow> m' a = m a)"
proof -
  have "dec_safe buf_pending A (A \<union> R) False (f d env flds dest)"
    using assms(1-3,6) by (intro buf_space.decoders_safe) auto
  from this buffer_ok [OF assms(5)] assms(4) obtain ok s m'
    where "f d env flds dest (pb_istream_from_buffer buf) m = Some (ok, s, m')" "frame A m m'" by (rule dec_safeE)
  then show ?thesis by (auto simp: frame_def)
qed

section \<open>A sample\<close>

text \<open>A number, an array of at most three numbers behind its count, and their structure at address 4096.\<close>

definition sample_decode_fields :: "pb_field list" where
  "sample_decode_fields =
     [\<lparr>pf_tag = 1, pf_type = 0x02, pf_data_offset = 0, pf_size_offset = 0, pf_data_size = 4, pf_array_size = 0, pf_ptr = Null_ptr\<rparr>,
      \<lparr>pf_tag = 2, pf_type = 0x22, pf_data_offset = 4, pf_size_offset = - 4, pf_data_size = 4, pf_array_size = 3, pf_ptr = Null_ptr\<rparr>,
      PB_LAST_FIELD]"

definition sample_denv :: "(u8 list \<times> nat) pb_denv" where
  "sample_denv = \<lparr>pd_in = buf_input, pd_fields = (\<lambda>_. []), pd_decode = (\<lambda>_ _ _ _ _. None), pd_decode_copy = (\<lambda>_ _ _ _ _. None),
     pd_ext_decode = (\<lambda>_ _ _ _ _ _. None), pd_ext_field = (\<lambda>_. None), pd_realloc = (\<lambda>_ _ m. (NULL, m)), pd_free = (\<lambda>_ m. m),
     pd_local = (\<lambda>_. 8192)\<rparr>"

definition sample_space :: "u64 set" where
  "sample_space = region 4096 20 \<union> region 8192 4"

definition sample_space_mem :: pb_mem where
  "sample_space_mem a = (if a \<in> sample_space then Some 0xff else None)"

lemma sample_decode_at:
  "terminated sample_decode_fields" "length sample_decode_fields = 3"
  "it_pData (iter_at sample_decode_fields 4096 0) = 4096" "it_pSize (iter_at sample_decode_fields 4096 0) = 4096"
  "it_pData (iter_at sample_decode_fields 4096 (Suc 0)) = 4104" "it_pSize (iter_at sample_decode_fields 4096 (Suc 0)) = 4100"
  by (simp_all add: terminated_def sample_decode_fields_def PB_LAST_FIELD_def iter_at.simps pb_field_iter_begin_def pb_field_iter_next_def
      field_at_def Let_def NULL_def size_address_def field_extent_def pb_types)

lemma sample_regions: "region 4096 4 \<subseteq> sample_space" "region 4100 4 \<subseteq> sample_space" "region 8192 4 \<subseteq> sample_space"
    "k < 3 \<Longrightarrow> region (4104 + of_nat (k * 4)) 4 \<subseteq> sample_space"
  by (auto simp: sample_space_def region_Suc numeral_eq_Suc less_Suc_eq)

lemma sample_fields_at:
  "sample_decode_fields ! 0 = \<lparr>pf_tag = 1, pf_type = 0x02, pf_data_offset = 0, pf_size_offset = 0, pf_data_size = 4, pf_array_size = 0, pf_ptr = Null_ptr\<rparr>"
  "sample_decode_fields ! Suc 0 = \<lparr>pf_tag = 2, pf_type = 0x22, pf_data_offset = 4, pf_size_offset = - 4, pf_data_size = 4, pf_array_size = 3, pf_ptr = Null_ptr\<rparr>"
  by (simp_all add: sample_decode_fields_def)

lemma sample_static: "static_message 1 (pd_fields sample_denv) sample_space (sample_space \<union> {}) sample_decode_fields 4096"
proof -
  have "static_field msg subs sample_space B (sample_decode_fields ! 0) 4096 4096" for msg subs B
    using sample_regions(1) by (simp add: sample_fields_at static_field_def shape_ok_def item_ok_def field_width_def pb_types)
  moreover have "static_field msg subs sample_space B (sample_decode_fields ! Suc 0) 4104 4100" for msg subs B
    using sample_regions(2,4) by (simp add: sample_fields_at static_field_def shape_ok_def item_ok_def field_width_def pb_types)
  ultimately show ?thesis by (simp add: sample_decode_at less_Suc_eq numeral_2_eq_2 all_conj_distrib imp_conjL)
qed

theorem pb_decode_safe_witness:
  "\<exists>ok s m'. pb_decode 1 sample_denv sample_decode_fields 4096 (pb_istream_from_buffer [8, 0x96, 1, 0x12, 2, 1, 2]) sample_space_mem = Some (ok, s, m') \<and>
     (\<forall>a. a \<notin> sample_space \<longrightarrow> m' a = sample_space_mem a)"
proof (rule pb_decode_safe [where R = "{}" and f = pb_decode])
  show "static_message 1 (pd_fields sample_denv) sample_space (sample_space \<union> {}) sample_decode_fields 4096" by (rule sample_static)
  show "pd_in sample_denv = buf_input" by (simp add: sample_denv_def)
  show "\<forall>k \<le> 1. region (pd_local sample_denv k) 4 \<subseteq> sample_space" using sample_regions(3) by (simp add: sample_denv_def)
qed (simp_all add: allocated_def sample_space_mem_def)

section \<open>Boundary cases\<close>

text \<open>
  The position of a bit in \<open>pb_decode_varint32\<close> has 8 bits: behind 36 empty bytes it starts again, and a
  number of 38 bytes is taken for 8 instead of being refused as too long.
\<close>

lemma varint32_wraps:
  "map_option fst (pb_decode_varint32 buf_input (pb_istream_from_buffer (replicate 37 0x80 @ [1]))) = Some (Some 8)"
  by code_simp

text \<open>
  An array without a count in the structure has \<open>pSize = pData\<close>; \<open>pb_field_set_to_default\<close> writes a count of
  four bytes there, behind the end of an array of two bytes.
\<close>

definition sample_fixed_count :: "pb_field list" where
  "sample_fixed_count =
     [\<lparr>pf_tag = 1, pf_type = 0x22, pf_data_offset = 0, pf_size_offset = 0, pf_data_size = 1, pf_array_size = 2, pf_ptr = Null_ptr\<rparr>,
      PB_LAST_FIELD]"

lemma fixed_count_overrun:
  "map_option (\<lambda>m. m 4098) (pb_message_set_to_defaults 1 sample_denv sample_fixed_count 4096 (\<lambda>_. Some 0xff)) = Some (Some 0)"
  by code_simp

text \<open>A message without fields: field number 0 is found in the end marker, and decoded into the structure.\<close>

lemma empty_message_written:
  "map_option (\<lambda>(ok, _, m). (ok, m 4096)) (pb_decode 1 sample_denv [PB_LAST_FIELD] 4096 (pb_istream_from_buffer [1, 5]) (\<lambda>_. Some 0xff)) =
     Some (True, Some 1)"
  by code_simp

text \<open>The sample message is decoded, and more entries than the array has are refused.\<close>

lemma sample_decodes:
  "map_option (\<lambda>(ok, _, m). (ok, load_bytes m 4096 16))
      (pb_decode 1 sample_denv sample_decode_fields 4096 (pb_istream_from_buffer [8, 0x96, 1, 0x12, 2, 1, 2]) (\<lambda>_. Some 0xff)) =
     Some (True, Some [0x96, 0, 0, 0, 2, 0, 0, 0, 1, 0, 0, 0, 2, 0, 0, 0])"
  "map_option fst (pb_decode 1 sample_denv sample_decode_fields 4096 (pb_istream_from_buffer [8, 1, 0x12, 4, 1, 2, 3, 4]) (\<lambda>_. Some 0xff)) =
     Some False"
  by code_simp+

end
