(* ===== verification/Pb_Encode.thy ===== *)
theory Pb_Encode
  imports Pb_Common
begin

text \<open>
  pb_encode.c: output streams and the encoder of messages. The callback of a stream is an argument of
  the functions that use the stream, \<open>None\<close> for a sizing stream; its state is of any type. A function
  returns its result and the stream, or nothing where memory outside the message would be read.
\<close>

section \<open>Streams\<close>

record 's pb_ostream =
  os_state :: 's
  os_max_size :: u64
  os_bytes_written :: u64
  os_errmsg :: "string option"

type_synonym 's pb_sink = "'s pb_ostream \<Rightarrow> u8 list \<Rightarrow> (bool \<times> 's pb_ostream) option"

type_synonym 's pb_writer = "'s pb_ostream \<Rightarrow> (bool \<times> 's pb_ostream) option"

definition pb_ok :: "'s pb_writer" where
  "pb_ok s = Some (True, s)"

text \<open>\<open>if (!f(...)) return false;\<close> and what follows.\<close>

definition pb_then :: "'s pb_writer \<Rightarrow> 's pb_writer \<Rightarrow> 's pb_writer" where
  "pb_then f g s = (case f s of None \<Rightarrow> None | Some (ok, s) \<Rightarrow> if ok then g s else Some (False, s))"

text \<open>Reading the message that is encoded.\<close>

definition pb_load :: "'a option \<Rightarrow> ('a \<Rightarrow> 's pb_writer) \<Rightarrow> 's pb_writer" where
  "pb_load v f s = (case v of None \<Rightarrow> None | Some x \<Rightarrow> f x s)"

text \<open>\<open>PB_RETURN_ERROR\<close> keeps the first message.\<close>

definition PB_RETURN_ERROR :: "string \<Rightarrow> 's pb_writer" where
  "PB_RETURN_ERROR msg s = Some (False, s\<lparr>os_errmsg := Some (case os_errmsg s of Some old \<Rightarrow> old | None \<Rightarrow> msg)\<rparr>)"

text \<open>A buffer: its bytes and the position of \<open>state\<close> in it.\<close>

definition buf_write :: "(u8 list \<times> nat) pb_sink" where
  "buf_write s buf =
     (let (dest, pos) = os_state s
      in if length dest < pos + length buf then None
         else Some (True, s\<lparr>os_state := (write_at pos buf dest, pos + length buf)\<rparr>))"

definition pb_ostream_from_buffer :: "u8 list \<Rightarrow> (u8 list \<times> nat) pb_ostream" where
  "pb_ostream_from_buffer buf = \<lparr>os_state = (buf, 0), os_max_size = of_nat (length buf), os_bytes_written = 0, os_errmsg = None\<rparr>"

text \<open>The state of a sizing stream is not used.\<close>

definition PB_OSTREAM_SIZING :: "'s \<Rightarrow> 's pb_ostream" where
  "PB_OSTREAM_SIZING st = \<lparr>os_state = st, os_max_size = 0, os_bytes_written = 0, os_errmsg = None\<rparr>"

text \<open>\<open>buf\<close> is \<open>None\<close> for a null pointer, otherwise the bytes behind the pointer.\<close>

definition pb_write :: "'s pb_sink option \<Rightarrow> u8 list option \<Rightarrow> u64 \<Rightarrow> 's pb_writer" where
  "pb_write sink buf count stream =
     (let written = (\<lambda>stream. Some (True, stream\<lparr>os_bytes_written := os_bytes_written stream + count\<rparr>))
      in case sink of
           None \<Rightarrow> written stream
         | Some callback \<Rightarrow>
             if \<not> count > 0 then written stream
             else if os_bytes_written stream + count < os_bytes_written stream \<or> os_bytes_written stream + count > os_max_size stream
             then PB_RETURN_ERROR ''stream full'' stream
             else case buf of
                    None \<Rightarrow> None
                  | Some bytes \<Rightarrow>
                      if length bytes < unat count then None
                      else (case callback stream (take (unat count) bytes) of
                              None \<Rightarrow> None
                            | Some (ok, stream) \<Rightarrow> if ok then written stream else PB_RETURN_ERROR ''io error'' stream))"

definition write_bytes :: "'s pb_sink option \<Rightarrow> u8 list \<Rightarrow> 's pb_writer" where
  "write_bytes sink bytes = pb_write sink (Some bytes) (of_nat (length bytes))"

section \<open>Values\<close>

function varint_groups :: "u64 \<Rightarrow> u8 list" where
  "varint_groups v = (if v = 0 then [] else (ucast (v AND 0x7f) OR 0x80) # varint_groups (drop_bit 7 v))"
  by pat_completeness auto
termination
  by (relation "measure unat") (auto simp: drop_bit_eq_div unat_div unat_gt_0)

declare varint_groups.simps [simp del]

definition varint_bytes :: "u64 \<Rightarrow> u8 list" where
  "varint_bytes v =
     (if v \<le> 0x7f then [ucast v]
      else let buffer = varint_groups v in butlast buffer @ [last buffer AND 0x7f])"

definition pb_encode_varint :: "'s pb_sink option \<Rightarrow> u64 \<Rightarrow> 's pb_writer" where
  "pb_encode_varint sink v = write_bytes sink (varint_bytes v)"

definition zigzag :: "64 word \<Rightarrow> u64" where
  "zigzag v = (if v <s 0 then NOT (push_bit 1 v) else push_bit 1 v)"

definition pb_encode_svarint :: "'s pb_sink option \<Rightarrow> 64 word \<Rightarrow> 's pb_writer" where
  "pb_encode_svarint sink v = pb_encode_varint sink (zigzag v)"

definition fixed_bytes :: "nat \<Rightarrow> 'a::len word \<Rightarrow> u8 list" where
  "fixed_bytes n v = map (\<lambda>i. ucast (drop_bit (8 * i) v AND 0xff)) [0..<n]"

definition pb_encode_fixed32 :: "'s pb_sink option \<Rightarrow> u32 \<Rightarrow> 's pb_writer" where
  "pb_encode_fixed32 sink v = write_bytes sink (fixed_bytes 4 v)"

definition pb_encode_fixed64 :: "'s pb_sink option \<Rightarrow> u64 \<Rightarrow> 's pb_writer" where
  "pb_encode_fixed64 sink v = write_bytes sink (fixed_bytes 8 v)"

definition pb_encode_tag :: "'s pb_sink option \<Rightarrow> u32 \<Rightarrow> u32 \<Rightarrow> 's pb_writer" where
  "pb_encode_tag sink wiretype field_number = pb_encode_varint sink (push_bit 3 (ucast field_number) OR ucast wiretype)"

definition pb_encode_tag_for_field :: "'s pb_sink option \<Rightarrow> pb_field \<Rightarrow> 's pb_writer" where
  "pb_encode_tag_for_field sink field =
     (let ltype = PB_LTYPE (pf_type field)
      in if ltype \<in> {PB_LTYPE_BOOL, PB_LTYPE_VARINT, PB_LTYPE_UVARINT, PB_LTYPE_SVARINT}
         then pb_encode_tag sink PB_WT_VARINT (pf_tag field)
         else if ltype = PB_LTYPE_FIXED32 then pb_encode_tag sink PB_WT_32BIT (pf_tag field)
         else if ltype = PB_LTYPE_FIXED64 then pb_encode_tag sink PB_WT_64BIT (pf_tag field)
         else if ltype \<in> {PB_LTYPE_BYTES, PB_LTYPE_STRING, PB_LTYPE_SUBMESSAGE, PB_LTYPE_FIXED_LENGTH_BYTES}
         then pb_encode_tag sink PB_WT_STRING (pf_tag field)
         else PB_RETURN_ERROR ''invalid field type'')"

definition pb_encode_string :: "'s pb_sink option \<Rightarrow> u8 list option \<Rightarrow> u64 \<Rightarrow> 's pb_writer" where
  "pb_encode_string sink buffer n = pb_then (pb_encode_varint sink n) (pb_write sink buffer n)"

section \<open>Field encoders\<close>

text \<open>
  What the encoder works on: the memory, the descriptor arrays that \<open>ptr\<close> names, the user's callbacks
  (for a field and for an extension, by the address of the function), and the descriptor at the
  address \<open>arg\<close> of an extension's type.
\<close>

record 's pb_env =
  pe_mem :: pb_mem
  pe_fields :: "nat \<Rightarrow> pb_field list"
  pe_encode :: "u64 \<Rightarrow> pb_field \<Rightarrow> u64 \<Rightarrow> 's pb_sink option \<Rightarrow> 's pb_writer"
  pe_ext_encode :: "u64 \<Rightarrow> u64 \<Rightarrow> 's pb_sink option \<Rightarrow> 's pb_writer"
  pe_ext_field :: "u64 \<Rightarrow> pb_field option"

definition safe_read_bool :: "pb_mem \<Rightarrow> u64 \<Rightarrow> bool option" where
  "safe_read_bool m p = map_option (\<lambda>b. b \<noteq> 0) (load_u8 m p)"

definition pb_enc_bool :: "'s pb_env \<Rightarrow> 's pb_sink option \<Rightarrow> pb_field \<Rightarrow> u64 \<Rightarrow> 's pb_writer" where
  "pb_enc_bool env sink field src = pb_load (safe_read_bool (pe_mem env) src) (\<lambda>b. pb_encode_varint sink (if b then 1 else 0))"

text \<open>The integer of \<open>data_size\<close> bytes at \<open>src\<close>, extended to 64 bits; \<open>Some None\<close> for a size that is refused.\<close>

definition load_int :: "pb_mem \<Rightarrow> u32 \<Rightarrow> u64 \<Rightarrow> u64 option option" where
  "load_int m n src =
     (if n = 1 then map_option (\<lambda>v. Some (scast v)) (load_u8 m src)
      else if n = 2 then map_option (\<lambda>v. Some (scast v)) (load_u16 m src)
      else if n = 4 then map_option (\<lambda>v. Some (scast v)) (load_u32 m src)
      else if n = 8 then map_option Some (load_u64 m src)
      else Some None)"

definition load_uint :: "pb_mem \<Rightarrow> u32 \<Rightarrow> u64 \<Rightarrow> u64 option option" where
  "load_uint m n src =
     (if n = 1 then map_option (\<lambda>v. Some (ucast v)) (load_u8 m src)
      else if n = 2 then map_option (\<lambda>v. Some (ucast v)) (load_u16 m src)
      else if n = 4 then map_option (\<lambda>v. Some (ucast v)) (load_u32 m src)
      else if n = 8 then map_option Some (load_u64 m src)
      else Some None)"

definition pb_enc_varint :: "'s pb_env \<Rightarrow> 's pb_sink option \<Rightarrow> pb_field \<Rightarrow> u64 \<Rightarrow> 's pb_writer" where
  "pb_enc_varint env sink field src = pb_load (load_int (pe_mem env) (pf_data_size field) src)
     (\<lambda>v. case v of None \<Rightarrow> PB_RETURN_ERROR ''invalid data_size'' | Some v \<Rightarrow> pb_encode_varint sink v)"

definition pb_enc_uvarint :: "'s pb_env \<Rightarrow> 's pb_sink option \<Rightarrow> pb_field \<Rightarrow> u64 \<Rightarrow> 's pb_writer" where
  "pb_enc_uvarint env sink field src = pb_load (load_uint (pe_mem env) (pf_data_size field) src)
     (\<lambda>v. case v of None \<Rightarrow> PB_RETURN_ERROR ''invalid data_size'' | Some v \<Rightarrow> pb_encode_varint sink v)"

definition pb_enc_svarint :: "'s pb_env \<Rightarrow> 's pb_sink option \<Rightarrow> pb_field \<Rightarrow> u64 \<Rightarrow> 's pb_writer" where
  "pb_enc_svarint env sink field src = pb_load (load_int (pe_mem env) (pf_data_size field) src)
     (\<lambda>v. case v of None \<Rightarrow> PB_RETURN_ERROR ''invalid data_size'' | Some v \<Rightarrow> pb_encode_svarint sink v)"

definition pb_enc_fixed64 :: "'s pb_env \<Rightarrow> 's pb_sink option \<Rightarrow> pb_field \<Rightarrow> u64 \<Rightarrow> 's pb_writer" where
  "pb_enc_fixed64 env sink field src = pb_load (load_u64 (pe_mem env) src) (pb_encode_fixed64 sink)"

definition pb_enc_fixed32 :: "'s pb_env \<Rightarrow> 's pb_sink option \<Rightarrow> pb_field \<Rightarrow> u64 \<Rightarrow> 's pb_writer" where
  "pb_enc_fixed32 env sink field src = pb_load (load_u32 (pe_mem env) src) (pb_encode_fixed32 sink)"

text \<open>\<open>size\<close> is at the start of a \<open>pb_bytes_array_t\<close>, \<open>bytes\<close> at offset 4.\<close>

definition pb_enc_bytes :: "'s pb_env \<Rightarrow> 's pb_sink option \<Rightarrow> pb_field \<Rightarrow> u64 \<Rightarrow> 's pb_writer" where
  "pb_enc_bytes env sink field src =
     (if src = NULL then pb_encode_string sink None 0
      else pb_load (load_u32 (pe_mem env) src) (\<lambda>size.
        if PB_ATYPE (pf_type field) = PB_ATYPE_STATIC \<and> ucast size > (ucast (pf_data_size field) - 4 :: u64)
        then PB_RETURN_ERROR ''bytes size exceeded''
        else pb_encode_string sink (load_bytes (pe_mem env) (src + 4) (unat size)) (ucast size)))"

function str_scan :: "pb_mem \<Rightarrow> u64 \<Rightarrow> nat \<Rightarrow> nat option" where
  "str_scan m p max_size =
     (if max_size = 0 then Some 0
      else case m p of None \<Rightarrow> None
        | Some c \<Rightarrow> if c = 0 then Some 0 else map_option Suc (str_scan m (p + 1) (max_size - 1)))"
  by pat_completeness auto
termination
  by (relation "measure (\<lambda>(m, p, n). n)") auto

declare str_scan.simps [simp del]

definition pb_enc_string :: "'s pb_env \<Rightarrow> 's pb_sink option \<Rightarrow> pb_field \<Rightarrow> u64 \<Rightarrow> 's pb_writer" where
  "pb_enc_string env sink field src =
     (let max_size = (if PB_ATYPE (pf_type field) = PB_ATYPE_POINTER then 2 ^ 64 - 1 else unat (pf_data_size field))
      in if src = NULL then pb_encode_string sink None 0
         else pb_load (str_scan (pe_mem env) src max_size) (\<lambda>size.
           pb_encode_string sink (load_bytes (pe_mem env) src size) (of_nat size)))"

definition pb_enc_fixed_length_bytes :: "'s pb_env \<Rightarrow> 's pb_sink option \<Rightarrow> pb_field \<Rightarrow> u64 \<Rightarrow> 's pb_writer" where
  "pb_enc_fixed_length_bytes env sink field src =
     pb_encode_string sink (load_bytes (pe_mem env) src (unat (pf_data_size field))) (ucast (pf_data_size field))"

text \<open>
  \<open>encode\<close> stands for \<open>pb_encode\<close> one level down. The state and the count of the substream are
  taken over whatever it returned.
\<close>

definition pb_encode_submessage ::
  "('s pb_sink option \<Rightarrow> pb_field list \<Rightarrow> u64 \<Rightarrow> 's pb_writer) \<Rightarrow> 's pb_sink option \<Rightarrow> pb_field list \<Rightarrow> u64 \<Rightarrow> 's pb_writer" where
  "pb_encode_submessage encode sink flds src_struct stream =
     (case encode None flds src_struct (PB_OSTREAM_SIZING (os_state stream)) of
        None \<Rightarrow> None
      | Some (ok, substream) \<Rightarrow>
          if \<not> ok then Some (False, stream\<lparr>os_errmsg := os_errmsg substream\<rparr>)
          else
            let size = os_bytes_written substream
            in pb_then (pb_encode_varint sink size) (\<lambda>stream.
                 if sink = None then pb_write sink None size stream
                 else if os_bytes_written stream + size > os_max_size stream then PB_RETURN_ERROR ''stream full'' stream
                 else
                   (case encode sink flds src_struct
                       \<lparr>os_state = os_state stream, os_max_size = size, os_bytes_written = 0, os_errmsg = None\<rparr> of
                      None \<Rightarrow> None
                    | Some (status, substream) \<Rightarrow>
                        let stream = stream\<lparr>os_bytes_written := os_bytes_written stream + os_bytes_written substream,
                                            os_state := os_state substream, os_errmsg := os_errmsg substream\<rparr>
                        in if os_bytes_written substream \<noteq> size then PB_RETURN_ERROR ''submsg size changed'' stream
                           else Some (status, stream))) stream)"

type_synonym 's pb_sub = "'s pb_sink option \<Rightarrow> pb_field list \<Rightarrow> u64 \<Rightarrow> 's pb_writer"

definition pb_enc_submessage :: "'s pb_env \<Rightarrow> 's pb_sub \<Rightarrow> 's pb_sink option \<Rightarrow> pb_field \<Rightarrow> u64 \<Rightarrow> 's pb_writer" where
  "pb_enc_submessage env encode sink field src =
     (case pf_ptr field of
        Null_ptr \<Rightarrow> PB_RETURN_ERROR ''invalid field descriptor''
      | Fields_ptr i \<Rightarrow> pb_encode_submessage encode sink (pe_fields env i) src
      | Data_ptr _ \<Rightarrow> \<lambda>_. None)"

text \<open>A call through the table; it has no function for extensions.\<close>

definition PB_ENCODERS :: "'s pb_env \<Rightarrow> 's pb_sub \<Rightarrow> 's pb_sink option \<Rightarrow> pb_field \<Rightarrow> u64 \<Rightarrow> 's pb_writer" where
  "PB_ENCODERS env encode sink field =
     (let ltype = PB_LTYPE (pf_type field)
      in if ltype = PB_LTYPE_BOOL then pb_enc_bool env sink field
         else if ltype = PB_LTYPE_VARINT then pb_enc_varint env sink field
         else if ltype = PB_LTYPE_UVARINT then pb_enc_uvarint env sink field
         else if ltype = PB_LTYPE_SVARINT then pb_enc_svarint env sink field
         else if ltype = PB_LTYPE_FIXED32 then pb_enc_fixed32 env sink field
         else if ltype = PB_LTYPE_FIXED64 then pb_enc_fixed64 env sink field
         else if ltype = PB_LTYPE_BYTES then pb_enc_bytes env sink field
         else if ltype = PB_LTYPE_STRING then pb_enc_string env sink field
         else if ltype = PB_LTYPE_SUBMESSAGE then pb_enc_submessage env encode sink field
         else if ltype = PB_LTYPE_FIXED_LENGTH_BYTES then pb_enc_fixed_length_bytes env sink field
         else (\<lambda>_ _. None))"

section \<open>Fields\<close>

fun array_loop :: "(u64 \<Rightarrow> 's pb_writer) \<Rightarrow> u64 \<Rightarrow> u64 \<Rightarrow> nat \<Rightarrow> 's pb_writer" where
  "array_loop func p step 0 = pb_ok"
| "array_loop func p step (Suc n) = pb_then (func p) (array_loop func (p + step) step n)"

text \<open>The size of a packed array, by a sizing stream where the entries vary.\<close>

definition packed_size :: "'s pb_env \<Rightarrow> 's pb_sub \<Rightarrow> pb_field \<Rightarrow> u64 \<Rightarrow> u64 \<Rightarrow> (u64 \<Rightarrow> 's pb_writer) \<Rightarrow> 's pb_writer" where
  "packed_size env encode field pData count k stream =
     (if PB_LTYPE (pf_type field) = PB_LTYPE_FIXED32 then k (4 * count) stream
      else if PB_LTYPE (pf_type field) = PB_LTYPE_FIXED64 then k (8 * count) stream
      else case array_loop (PB_ENCODERS env encode None field) pData (ucast (pf_data_size field)) (unat count)
             (PB_OSTREAM_SIZING (os_state stream)) of
        None \<Rightarrow> None
      | Some (ok, sizestream) \<Rightarrow> if ok then k (os_bytes_written sizestream) stream else Some (False, stream))"

definition encode_array :: "'s pb_env \<Rightarrow> 's pb_sub \<Rightarrow> 's pb_sink option \<Rightarrow> pb_field \<Rightarrow> u64 \<Rightarrow> u64 \<Rightarrow> 's pb_writer" where
  "encode_array env encode sink field pData count =
     (let func = PB_ENCODERS env encode sink field;
          atype = PB_ATYPE (pf_type field); ltype = PB_LTYPE (pf_type field); step = ucast (pf_data_size field)
      in if count = 0 then pb_ok
         else if atype \<noteq> PB_ATYPE_POINTER \<and> count > ucast (pf_array_size field)
         then PB_RETURN_ERROR ''array max size exceeded''
         else if ltype \<le> PB_LTYPE_LAST_PACKABLE then
           pb_then (pb_encode_tag sink PB_WT_STRING (pf_tag field)) (packed_size env encode field pData count (\<lambda>size.
             pb_then (pb_encode_varint sink size)
               (if sink = None then pb_write sink None size else array_loop func pData step (unat count))))
         else
           array_loop (\<lambda>p. pb_then (pb_encode_tag_for_field sink field)
             (if atype = PB_ATYPE_POINTER \<and> (ltype = PB_LTYPE_STRING \<or> ltype = PB_LTYPE_BYTES)
              then pb_load (load_u64 (pe_mem env) p) func else func p)) pData step (unat count))"

text \<open>The walk over the fields of a structure until a field is not zero.\<close>

partial_function (option) default_loop :: "(pb_field \<Rightarrow> u64 \<Rightarrow> bool option) \<Rightarrow> pb_field_iter \<Rightarrow> bool option" where
  "default_loop check it =
     (case field_at (it_start it) (it_pos it) of
        None \<Rightarrow> None
      | Some f \<Rightarrow>
          (case check f (it_pData it) of
             None \<Rightarrow> None
           | Some is_default \<Rightarrow>
               if \<not> is_default then Some False
               else (case pb_field_iter_next it of
                       None \<Rightarrow> None
                     | Some (again, it) \<Rightarrow> if again then default_loop check it else Some True)))"

fun all_zero :: "pb_mem \<Rightarrow> u64 \<Rightarrow> nat \<Rightarrow> bool option" where
  "all_zero m p 0 = Some True"
| "all_zero m p (Suc n) = (case m p of None \<Rightarrow> None | Some b \<Rightarrow> if b \<noteq> 0 then Some False else all_zero m (p + 1) n)"

definition proto3_scalar_default :: "pb_mem \<Rightarrow> pb_field \<Rightarrow> u64 \<Rightarrow> bool option" where
  "proto3_scalar_default m field pData =
     (if PB_ATYPE (pf_type field) = PB_ATYPE_POINTER \<and> PB_LTYPE (pf_type field) > PB_LTYPE_LAST_PACKABLE
      then map_option (\<lambda>p. p = NULL) (load_u64 m pData)
      else all_zero m pData (unat (pf_data_size field)))"

fun pb_check_proto3_default_value :: "nat \<Rightarrow> 's pb_env \<Rightarrow> pb_field \<Rightarrow> u64 \<Rightarrow> bool option" where
  "pb_check_proto3_default_value 0 env field pData = None"
| "pb_check_proto3_default_value (Suc d) env field pData =
     (let m = pe_mem env; pSize = size_address pData field; has_size = (pf_size_offset field \<noteq> 0);
          htype = PB_HTYPE (pf_type field); static = (PB_ATYPE (pf_type field) = PB_ATYPE_STATIC); ltype = PB_LTYPE (pf_type field);
          singular =
            (if static \<and> ltype = PB_LTYPE_BYTES then map_option (\<lambda>size. size = 0) (load_u32 m pData)
             else if static \<and> ltype = PB_LTYPE_STRING then map_option (\<lambda>c. c = 0) (load_u8 m pData)
             else if static \<and> ltype = PB_LTYPE_FIXED_LENGTH_BYTES then Some (pf_data_size field = 0)
             else if static \<and> ltype = PB_LTYPE_SUBMESSAGE then
               (case pf_ptr field of
                  Fields_ptr i \<Rightarrow>
                    (case pb_field_iter_begin (pe_fields env i) pData of
                       None \<Rightarrow> None
                     | Some (again, it) \<Rightarrow> if again then default_loop (pb_check_proto3_default_value d env) it else Some True)
                | _ \<Rightarrow> None)
             else proto3_scalar_default m field pData)
      in if htype = PB_HTYPE_REQUIRED then Some False
         else if htype = PB_HTYPE_REPEATED then
           (if has_size then map_option (\<lambda>n. n = 0) (load_u32 m pSize) else if static then Some False else singular)
         else if htype = PB_HTYPE_ONEOF then map_option (\<lambda>n. n = 0) (load_u32 m pSize)
         else if htype = PB_HTYPE_OPTIONAL \<and> has_size then map_option Not (safe_read_bool m pSize)
         else singular)"

text \<open>
  \<open>*pSize\<close> of an optional field, read as a flag: the field's own, or \<open>implicit_has\<close>, which a pointer
  field sets to whether the pointer is there.
\<close>

definition field_present :: "nat \<Rightarrow> 's pb_env \<Rightarrow> pb_field \<Rightarrow> u64 \<Rightarrow> u64 \<Rightarrow> bool option" where
  "field_present d env field pData target =
     (if pf_size_offset field \<noteq> 0 then safe_read_bool (pe_mem env) (size_address pData field)
      else map_option (\<lambda>is_default. if PB_ATYPE (pf_type field) = PB_ATYPE_POINTER then target \<noteq> NULL else \<not> is_default)
             (pb_check_proto3_default_value d env field pData))"

definition encode_basic_field :: "nat \<Rightarrow> 's pb_env \<Rightarrow> 's pb_sub \<Rightarrow> 's pb_sink option \<Rightarrow> pb_field \<Rightarrow> u64 \<Rightarrow> 's pb_writer" where
  "encode_basic_field d env encode sink field pData =
     (let m = pe_mem env; htype = PB_HTYPE (pf_type field); has_size = (pf_size_offset field \<noteq> 0);
          pSize = size_address pData field; func = PB_ENCODERS env encode sink field
      in pb_load (if PB_ATYPE (pf_type field) = PB_ATYPE_POINTER then load_u64 m pData else Some pData) (\<lambda>target.
           let tagged = pb_then (pb_encode_tag_for_field sink field) (func target)
           in if htype = PB_HTYPE_REQUIRED then
                (if target = NULL then PB_RETURN_ERROR ''missing required field'' else tagged)
              else if htype = PB_HTYPE_OPTIONAL then
                pb_load (field_present d env field pData target) (\<lambda>present. if present then tagged else pb_ok)
              else if htype = PB_HTYPE_REPEATED then
                pb_load (if has_size then load_u32 m pSize else Some (pf_array_size field)) (\<lambda>count.
                  encode_array env encode sink field target (ucast count))
              else
                pb_load (if has_size then load_u32 m pSize else None) (\<lambda>which.
                  if which = pf_tag field then tagged else pb_ok)))"

definition encode_callback_field :: "'s pb_env \<Rightarrow> 's pb_sink option \<Rightarrow> pb_field \<Rightarrow> u64 \<Rightarrow> 's pb_writer" where
  "encode_callback_field env sink field pData = pb_load (load_u64 (pe_mem env) pData) (\<lambda>fn stream.
     if fn = NULL then pb_ok stream
     else (case pe_encode env fn field (pData + 8) sink stream of
             None \<Rightarrow> None
           | Some (ok, stream) \<Rightarrow> if ok then pb_ok stream else PB_RETURN_ERROR ''callback error'' stream))"

definition encode_field :: "nat \<Rightarrow> 's pb_env \<Rightarrow> 's pb_sub \<Rightarrow> 's pb_sink option \<Rightarrow> pb_field \<Rightarrow> u64 \<Rightarrow> 's pb_writer" where
  "encode_field d env encode sink field pData =
     (let atype = PB_ATYPE (pf_type field)
      in if atype = PB_ATYPE_STATIC \<or> atype = PB_ATYPE_POINTER then encode_basic_field d env encode sink field pData
         else if atype = PB_ATYPE_CALLBACK then encode_callback_field env sink field pData
         else PB_RETURN_ERROR ''invalid field type'')"

text \<open>
  In a \<open>pb_extension_t\<close>, \<open>type\<close>, \<open>dest\<close> and \<open>next\<close> are at offsets 0, 8 and 16; in its type,
  \<open>encode\<close> and \<open>arg\<close> are at offsets 8 and 16.
\<close>

definition default_extension_encoder :: "nat \<Rightarrow> 's pb_env \<Rightarrow> 's pb_sub \<Rightarrow> 's pb_sink option \<Rightarrow> u64 \<Rightarrow> 's pb_writer" where
  "default_extension_encoder d env encode sink extension = pb_load (load_u64 (pe_mem env) extension) (\<lambda>type.
     pb_load (load_u64 (pe_mem env) (type + 16)) (\<lambda>arg. pb_load (pe_ext_field env arg) (\<lambda>field.
       if PB_ATYPE (pf_type field) = PB_ATYPE_POINTER then encode_field d env encode sink field (extension + 8)
       else pb_load (load_u64 (pe_mem env) (extension + 8)) (encode_field d env encode sink field))))"

definition encode_extension :: "nat \<Rightarrow> 's pb_env \<Rightarrow> 's pb_sub \<Rightarrow> 's pb_sink option \<Rightarrow> u64 \<Rightarrow> 's pb_writer" where
  "encode_extension d env encode sink extension = pb_load (load_u64 (pe_mem env) extension) (\<lambda>type.
     pb_load (load_u64 (pe_mem env) (type + 8)) (\<lambda>fn.
       if fn \<noteq> NULL then pe_ext_encode env fn extension sink else default_extension_encoder d env encode sink extension))"

text \<open>A cyclic list of extensions has no result.\<close>

partial_function (option) extension_loop ::
  "pb_mem \<Rightarrow> (u64 \<Rightarrow> 's pb_writer) \<Rightarrow> u64 \<Rightarrow> 's pb_ostream \<Rightarrow> (bool \<times> 's pb_ostream) option" where
  "extension_loop m encode_one extension stream =
     (if extension = NULL then Some (True, stream)
      else case encode_one extension stream of
        None \<Rightarrow> None
      | Some (status, stream) \<Rightarrow>
          if \<not> status then Some (False, stream)
          else (case load_u64 m (extension + 16) of
                  None \<Rightarrow> None | Some next \<Rightarrow> extension_loop m encode_one next stream))"

definition encode_extension_field :: "nat \<Rightarrow> 's pb_env \<Rightarrow> 's pb_sub \<Rightarrow> 's pb_sink option \<Rightarrow> u64 \<Rightarrow> 's pb_writer" where
  "encode_extension_field d env encode sink pData =
     pb_load (load_u64 (pe_mem env) pData) (extension_loop (pe_mem env) (encode_extension d env encode sink))"

section \<open>Messages\<close>

partial_function (option) fields_loop ::
  "(pb_field \<Rightarrow> u64 \<Rightarrow> 's pb_writer) \<Rightarrow> pb_field_iter \<Rightarrow> 's pb_ostream \<Rightarrow> (bool \<times> 's pb_ostream) option" where
  "fields_loop encode_one it stream =
     (case field_at (it_start it) (it_pos it) of
        None \<Rightarrow> None
      | Some f \<Rightarrow>
          (case encode_one f (it_pData it) stream of
             None \<Rightarrow> None
           | Some (ok, stream) \<Rightarrow>
               if \<not> ok then Some (False, stream)
               else (case pb_field_iter_next it of
                       None \<Rightarrow> None
                     | Some (again, it) \<Rightarrow> if again then fields_loop encode_one it stream else Some (True, stream))))"

text \<open>The first argument bounds how deep messages are nested.\<close>

fun pb_encode :: "nat \<Rightarrow> 's pb_env \<Rightarrow> 's pb_sink option \<Rightarrow> pb_field list \<Rightarrow> u64 \<Rightarrow> 's pb_writer" where
  "pb_encode 0 env sink flds src_struct stream = None"
| "pb_encode (Suc d) env sink flds src_struct stream =
     (case pb_field_iter_begin flds src_struct of
        None \<Rightarrow> None
      | Some (again, it) \<Rightarrow>
          if \<not> again then Some (True, stream)
          else fields_loop (\<lambda>field pData.
            if PB_LTYPE (pf_type field) = PB_LTYPE_EXTENSION
            then encode_extension_field (Suc d) env (pb_encode d env) sink pData
            else encode_field (Suc d) env (pb_encode d env) sink field pData) it stream)"

definition pb_encode_delimited :: "nat \<Rightarrow> 's pb_env \<Rightarrow> 's pb_sink option \<Rightarrow> pb_field list \<Rightarrow> u64 \<Rightarrow> 's pb_writer" where
  "pb_encode_delimited d env = pb_encode_submessage (pb_encode d env)"

definition pb_encode_nullterminated :: "nat \<Rightarrow> 's pb_env \<Rightarrow> 's pb_sink option \<Rightarrow> pb_field list \<Rightarrow> u64 \<Rightarrow> 's pb_writer" where
  "pb_encode_nullterminated d env sink flds src_struct =
     pb_then (pb_encode d env sink flds src_struct) (pb_write sink (Some [0]) 1)"

text \<open>\<open>Some None\<close> when it returns false; \<open>st\<close> stands for the state of a sizing stream.\<close>

definition pb_get_encoded_size :: "nat \<Rightarrow> 's pb_env \<Rightarrow> 's \<Rightarrow> pb_field list \<Rightarrow> u64 \<Rightarrow> u64 option option" where
  "pb_get_encoded_size d env st flds src_struct =
     map_option (\<lambda>(ok, stream). if ok then Some (os_bytes_written stream) else None)
       (pb_encode d env None flds src_struct (PB_OSTREAM_SIZING st))"

declare default_loop.simps [code]
  extension_loop.simps [code]
  fields_loop.simps [code]

end
