(* ===== verification/Pb_Output.thy ===== *)
theory Pb_Output
  imports Pb_Encode
begin

text \<open>
  The contract of an output stream of pb_encode.c: a function that writes denotes an outcome; every
  stream that has room for its bytes receives them, a stream that has not refuses, and a sizing stream
  counts them.
\<close>

section \<open>Outcomes\<close>

text \<open>
  Bytes that are emitted, a refusal whatever the stream, or \<open>Unknown\<close>, about which nothing is claimed:
  unreadable memory, user callbacks, descriptors without an end and outputs of \<open>2 ^ 62\<close> bytes.
\<close>

datatype out = Unknown | Fails | Emits (the_bytes: "u8 list")

definition emit :: "u8 list \<Rightarrow> out" where
  "emit bs = (if length bs < 2 ^ 62 then Emits bs else Unknown)"

fun out_bind :: "out \<Rightarrow> (u8 list \<Rightarrow> out) \<Rightarrow> out" where
  "out_bind (Emits bs) f = (if length bs < 2 ^ 62 then f bs else Unknown)"
| "out_bind Fails f = Fails"
| "out_bind Unknown f = Unknown"

definition out_then :: "out \<Rightarrow> out \<Rightarrow> out" where
  "out_then r1 r2 = out_bind r1 (\<lambda>b1. out_bind r2 (\<lambda>b2. emit (b1 @ b2)))"

definition out_load :: "'a option \<Rightarrow> ('a \<Rightarrow> out) \<Rightarrow> out" where
  "out_load v f = (case v of None \<Rightarrow> Unknown | Some x \<Rightarrow> f x)"

section \<open>The contract of a stream\<close>

definition avail :: "'s pb_ostream \<Rightarrow> nat" where
  "avail s = unat (os_max_size s) - unat (os_bytes_written s)"

definition stream_ok :: "('s \<Rightarrow> nat) \<Rightarrow> 's pb_ostream \<Rightarrow> bool" where
  "stream_ok room s \<longleftrightarrow> unat (os_max_size s) < 2 ^ 62 \<and> unat (os_bytes_written s) \<le> unat (os_max_size s) \<and> avail s \<le> room (os_state s)"

definition counted :: "'s pb_ostream \<Rightarrow> nat \<Rightarrow> 's pb_ostream" where
  "counted s n = s\<lparr>os_bytes_written := os_bytes_written s + of_nat n\<rparr>"

definition received :: "('s \<Rightarrow> u8 list) \<Rightarrow> ('s \<Rightarrow> nat) \<Rightarrow> 's \<Rightarrow> u8 list \<Rightarrow> 's \<Rightarrow> bool" where
  "received written room st bs st' \<longleftrightarrow> written st' = written st @ bs \<and> room st' + length bs = room st"

definition accepts :: "('s \<Rightarrow> u8 list) \<Rightarrow> ('s \<Rightarrow> nat) \<Rightarrow> 's pb_writer \<Rightarrow> u8 list \<Rightarrow> 's pb_ostream \<Rightarrow> bool" where
  "accepts written room f bs s \<longleftrightarrow>
     (\<exists>st e. f s = Some (True, (counted s (length bs))\<lparr>os_state := st, os_errmsg := e\<rparr>) \<and> received written room (os_state s) bs st)"

definition refuses :: "'s pb_writer \<Rightarrow> 's pb_ostream \<Rightarrow> bool" where
  "refuses f s \<longleftrightarrow> (\<exists>s'. f s = Some (False, s'))"

definition counts :: "'s pb_writer \<Rightarrow> u8 list \<Rightarrow> 's pb_ostream \<Rightarrow> bool" where
  "counts f bs s \<longleftrightarrow> (\<exists>e. f s = Some (True, (counted s (length bs))\<lparr>os_errmsg := e\<rparr>))"

definition implements_out :: "'s pb_sink \<Rightarrow> ('s \<Rightarrow> u8 list) \<Rightarrow> ('s \<Rightarrow> nat) \<Rightarrow> ('s pb_sink option \<Rightarrow> 's pb_writer) \<Rightarrow> out \<Rightarrow> bool" where
  "implements_out sink written room f r \<longleftrightarrow>
     (case r of
        Unknown \<Rightarrow> True
      | Fails \<Rightarrow> (\<forall>s. refuses (f None) s) \<and> (\<forall>s. stream_ok room s \<longrightarrow> refuses (f (Some sink)) s)
      | Emits bs \<Rightarrow> length bs < 2 ^ 62 \<longrightarrow>
          (\<forall>s. counts (f None) bs s) \<and>
          (\<forall>s. stream_ok room s \<longrightarrow> (if length bs \<le> avail s then accepts written room (f (Some sink)) bs s else refuses (f (Some sink)) s)))"

locale pb_output =
  fixes sink :: "'s pb_sink" and written :: "'s \<Rightarrow> u8 list" and room :: "'s \<Rightarrow> nat"
  assumes sink_law: "bs \<noteq> [] \<Longrightarrow> length bs \<le> room (os_state s) \<Longrightarrow>
    \<exists>st. sink s bs = Some (True, s\<lparr>os_state := st\<rparr>) \<and> received written room (os_state s) bs st"
begin

abbreviation emits :: "('s pb_sink option \<Rightarrow> 's pb_writer) \<Rightarrow> out \<Rightarrow> bool" where
  "emits f r \<equiv> implements_out sink written room f r"

lemma emits_Unknown [simp]: "emits f Unknown"
  by (simp add: implements_out_def)

lemma refuses_error: "refuses (PB_RETURN_ERROR msg) s"
  by (simp add: refuses_def PB_RETURN_ERROR_def)

lemma emits_error [simp]: "emits (\<lambda>_. PB_RETURN_ERROR msg) Fails"
  by (auto simp: implements_out_def intro: refuses_error)

lemma emitsI:
  assumes "\<And>s. length bs < 2 ^ 62 \<Longrightarrow> counts (f None) bs s"
    and "\<And>s. length bs < 2 ^ 62 \<Longrightarrow> stream_ok room s \<Longrightarrow> length bs \<le> avail s \<Longrightarrow> accepts written room (f (Some sink)) bs s"
    and "\<And>s. length bs < 2 ^ 62 \<Longrightarrow> stream_ok room s \<Longrightarrow> avail s < length bs \<Longrightarrow> refuses (f (Some sink)) s"
  shows "emits f (Emits bs)"
  using assms by (auto simp: implements_out_def)

lemma emits_counts: "emits f (Emits bs) \<Longrightarrow> length bs < 2 ^ 62 \<Longrightarrow> counts (f None) bs s"
  by (simp add: implements_out_def)

lemma emits_accepts:
  "emits f (Emits bs) \<Longrightarrow> length bs < 2 ^ 62 \<Longrightarrow> stream_ok room s \<Longrightarrow> length bs \<le> avail s \<Longrightarrow>
    accepts written room (f (Some sink)) bs s"
  by (simp add: implements_out_def)

lemma emits_refuses:
  "emits f (Emits bs) \<Longrightarrow> length bs < 2 ^ 62 \<Longrightarrow> stream_ok room s \<Longrightarrow> avail s < length bs \<Longrightarrow> refuses (f (Some sink)) s"
  by (simp add: implements_out_def)

lemma emits_emit [simp]: "emits f (emit bs) \<longleftrightarrow> emits f (Emits bs)"
  by (auto simp: emit_def implements_out_def)

lemma emits_ok [simp]: "emits (\<lambda>_. pb_ok) (Emits [])"
proof (rule emitsI)
  show "counts pb_ok [] s" for s :: "'s pb_ostream"
    by (auto simp: counts_def pb_ok_def counted_def intro!: exI [of _ "os_errmsg s"])
  show "accepts written room pb_ok [] s" for s
    by (auto simp: accepts_def pb_ok_def counted_def received_def intro!: exI [of _ "os_state s"] exI [of _ "os_errmsg s"])
qed simp

lemma emits_load:
  assumes "\<And>x. v = Some x \<Longrightarrow> emits (\<lambda>sk. f sk x) (r x)"
  shows "emits (\<lambda>sk. pb_load v (f sk)) (out_load v r)"
proof (cases v)
  case (Some x)
  then have "pb_load v (f sk) = f sk x" for sk by (rule_tac ext) (simp add: pb_load_def)
  then show ?thesis using assms Some by (simp add: out_load_def)
qed (simp add: out_load_def)

lemma stream_after:
  assumes "stream_ok room s" and "length bs \<le> avail s" and "received written room (os_state s) bs st"
  shows "stream_ok room ((counted s (length bs))\<lparr>os_state := st, os_errmsg := e\<rparr>)"
    and "avail ((counted s (length bs))\<lparr>os_state := st, os_errmsg := e\<rparr>) = avail s - length bs"
proof -
  have "length bs < 2 ^ 64" "unat (os_bytes_written s) + length bs < 2 ^ 64"
    using assms(1,2) by (auto simp: stream_ok_def avail_def)
  then have "unat (os_bytes_written s + of_nat (length bs)) = unat (os_bytes_written s) + length bs"
    by (simp add: unat_word_ariths unat_of_nat take_bit_nat_eq_self)
  then show "stream_ok room ((counted s (length bs))\<lparr>os_state := st, os_errmsg := e\<rparr>)"
    and "avail ((counted s (length bs))\<lparr>os_state := st, os_errmsg := e\<rparr>) = avail s - length bs"
    using assms by (auto simp: stream_ok_def avail_def counted_def received_def)
qed

lemma emits_write:
  assumes "unat n < 2 ^ 62" and "bytes \<noteq> None \<Longrightarrow> length (the bytes) = unat n"
  shows "emits (\<lambda>sk. pb_write sk bytes n) (if n = 0 then Emits [] else out_load bytes Emits)"
proof -
  consider (zero) "n = 0" | (null) "n \<noteq> 0" "bytes = None" | (some) bs where "n \<noteq> 0" "bytes = Some bs" by fast
  then show ?thesis
  proof cases
    case zero
    have "emits (\<lambda>sk. pb_write sk bytes 0) (Emits [])"
    proof (rule emitsI)
      show "counts (pb_write None bytes 0) [] s" for s :: "'s pb_ostream"
        by (auto simp: pb_write_def counts_def counted_def intro!: exI [of _ "os_errmsg s"])
      show "accepts written room (pb_write (Some sink) bytes 0) [] s" for s
        by (auto simp: pb_write_def accepts_def counted_def received_def intro!: exI [of _ "os_state s"] exI [of _ "os_errmsg s"])
    qed simp
    then show ?thesis using zero by simp
  next
    case null
    then show ?thesis by (simp add: out_load_def)
  next
    case (some bs)
    have len: "length bs = unat n" and n: "of_nat (length bs) = n" and pos: "0 < n" using assms(2) some by (simp_all add: word_gt_0)
    have sum: "unat (os_bytes_written s + n) = unat (os_bytes_written s) + unat n" if "stream_ok room s" for s :: "'s pb_ostream"
      using that assms(1) by (simp add: stream_ok_def unat_word_ariths)
    have full: "os_bytes_written s + n < os_bytes_written s \<or> os_max_size s < os_bytes_written s + n \<longleftrightarrow> avail s < length bs"
      if "stream_ok room s" for s :: "'s pb_ostream"
      using sum [OF that] that len by (auto simp: word_less_nat_alt avail_def stream_ok_def)
    have "emits (\<lambda>sk. pb_write sk (Some bs) n) (Emits bs)"
    proof (rule emitsI)
      show "counts (pb_write None (Some bs) n) bs s" for s :: "'s pb_ostream"
        using n by (auto simp: pb_write_def counts_def counted_def intro!: exI [of _ "os_errmsg s"])
      fix s assume s: "stream_ok room s"
      show "refuses (pb_write (Some sink) (Some bs) n) s" if "avail s < length bs"
        using full [OF s] that pos by (auto simp: pb_write_def refuses_def PB_RETURN_ERROR_def)
      assume fits: "length bs \<le> avail s"
      then have "length bs \<le> room (os_state s)" using s by (simp add: stream_ok_def)
      moreover have "bs \<noteq> []" using len some(1) by (auto simp: unat_eq_0)
      ultimately obtain st where "sink s bs = Some (True, s\<lparr>os_state := st\<rparr>)" "received written room (os_state s) bs st"
        using sink_law by blast
      then show "accepts written room (pb_write (Some sink) (Some bs) n) bs s"
        using full [OF s] fits pos len n by (auto simp: pb_write_def accepts_def counted_def Let_def intro!: exI [of _ st] exI [of _ "os_errmsg s"])
    qed
    then show ?thesis using some by (simp add: out_load_def)
  qed
qed

lemma emits_Fails: "emits f Fails \<longleftrightarrow> (\<forall>s. refuses (f None) s) \<and> (\<forall>s. stream_ok room s \<longrightarrow> refuses (f (Some sink)) s)"
  by (simp add: implements_out_def)

lemma emits_then:
  assumes f: "emits f r1" and g: "emits g r2"
  shows "emits (\<lambda>sk. pb_then (f sk) (g sk)) (out_then r1 r2)"
proof -
  have refuse: "refuses (pb_then (f sk) (g sk)) s" if "refuses (f sk) s" for sk s
    using that by (auto simp: refuses_def pb_then_def)
  consider (trivial) "out_then r1 r2 = Unknown" | (first) "r1 = Fails" | (second) b1 where "r1 = Emits b1" "r2 = Fails" "length b1 < 2 ^ 62"
    | (both) b1 b2 where "r1 = Emits b1" "r2 = Emits b2" "length b1 < 2 ^ 62" "length b2 < 2 ^ 62" "out_then r1 r2 = emit (b1 @ b2)"
  proof (cases r1)
    case (Emits b1)
    then show ?thesis using that by (cases r2; cases "length b1 < 2 ^ 62"; cases "length (the_bytes r2) < 2 ^ 62") (simp_all add: out_then_def)
  qed (use that in \<open>simp_all add: out_then_def\<close>)
  then show ?thesis
  proof cases
    case first
    then show ?thesis using f refuse by (simp add: emits_Fails out_then_def)
  next
    case second
    have "refuses (pb_then (f None) (g None)) s" for s
      using emits_counts [OF f [unfolded second] second(3), of s] g second
      by (auto simp: counts_def emits_Fails refuses_def pb_then_def)
    moreover have "refuses (pb_then (f (Some sink)) (g (Some sink))) s" if s: "stream_ok room s" for s
    proof (cases "length b1 \<le> avail s")
      case True
      then obtain st e where run: "f (Some sink) s = Some (True, (counted s (length b1))\<lparr>os_state := st, os_errmsg := e\<rparr>)"
        and got: "received written room (os_state s) b1 st"
        using emits_accepts [OF f [unfolded second] second(3) s] by (auto simp: accepts_def)
      then show ?thesis using stream_after(1) [OF s True got, of e] g second by (auto simp: emits_Fails refuses_def pb_then_def)
    next
      case False
      then show ?thesis using emits_refuses [OF f [unfolded second] second(3) s] refuse by simp
    qed
    ultimately show ?thesis using second by (simp add: emits_Fails out_then_def)
  next
    case both
    note f1 = f [unfolded both(1)] and g1 = g [unfolded both(2)]
    have "emits (\<lambda>sk. pb_then (f sk) (g sk)) (Emits (b1 @ b2))"
    proof (rule emitsI)
      show "counts (pb_then (f None) (g None)) (b1 @ b2) s" for s
      proof -
        obtain e where run: "f None s = Some (True, (counted s (length b1))\<lparr>os_errmsg := e\<rparr>)"
          using emits_counts [OF f1 both(3), of s] by (auto simp: counts_def)
        show ?thesis using run emits_counts [OF g1 both(4), of "(counted s (length b1))\<lparr>os_errmsg := e\<rparr>"]
          by (auto simp: counts_def pb_then_def counted_def add.assoc)
      qed
      fix s assume s: "stream_ok room s"
      have step: "\<exists>st e. f (Some sink) s = Some (True, (counted s (length b1))\<lparr>os_state := st, os_errmsg := e\<rparr>) \<and>
          received written room (os_state s) b1 st" if "length b1 \<le> avail s"
        using emits_accepts [OF f1 both(3) s that] by (simp add: accepts_def)
      show "accepts written room (pb_then (f (Some sink)) (g (Some sink))) (b1 @ b2) s" if "length (b1 @ b2) \<le> avail s"
      proof -
        have le: "length b1 \<le> avail s" using that by simp
        then obtain st e where run: "f (Some sink) s = Some (True, (counted s (length b1))\<lparr>os_state := st, os_errmsg := e\<rparr>)"
          and got: "received written room (os_state s) b1 st" using step by blast
        note after = stream_after [OF s le got, of e]
        have "length b2 \<le> avail ((counted s (length b1))\<lparr>os_state := st, os_errmsg := e\<rparr>)" using that after(2) by simp
        then have "accepts written room (g (Some sink)) b2 ((counted s (length b1))\<lparr>os_state := st, os_errmsg := e\<rparr>)"
          using emits_accepts [OF g1 both(4) after(1)] by simp
        then obtain st' e' where "g (Some sink) ((counted s (length b1))\<lparr>os_state := st, os_errmsg := e\<rparr>) =
            Some (True, (counted s (length (b1 @ b2)))\<lparr>os_state := st', os_errmsg := e'\<rparr>)" "received written room st b2 st'"
          by (auto simp: accepts_def counted_def add.assoc)
        then show ?thesis using run got by (auto simp: accepts_def pb_then_def received_def)
      qed
      show "refuses (pb_then (f (Some sink)) (g (Some sink))) s" if "avail s < length (b1 @ b2)"
      proof (cases "length b1 \<le> avail s")
        case True
        then obtain st e where run: "f (Some sink) s = Some (True, (counted s (length b1))\<lparr>os_state := st, os_errmsg := e\<rparr>)"
          and got: "received written room (os_state s) b1 st" using step by blast
        note after = stream_after [OF s True got, of e]
        have "avail ((counted s (length b1))\<lparr>os_state := st, os_errmsg := e\<rparr>) < length b2" using that True after(2) by simp
        then show ?thesis using emits_refuses [OF g1 both(4) after(1)] run by (simp add: refuses_def pb_then_def)
      next
        case False
        then show ?thesis using emits_refuses [OF f1 both(3) s] refuse by simp
      qed
    qed
    then show ?thesis using both(5) by simp
  qed simp
qed

lemma emits_if: "(b \<Longrightarrow> emits f r1) \<Longrightarrow> (\<not> b \<Longrightarrow> emits g r2) \<Longrightarrow> emits (\<lambda>sk. if b then f sk else g sk) (if b then r1 else r2)"
  by simp

lemma emits_write_bytes:
  assumes "length bs < 2 ^ 62"
  shows "emits (\<lambda>sk. write_bytes sk bs) (Emits bs)"
proof -
  have n: "unat (of_nat (length bs) :: u64) = length bs" using assms by (simp add: unat_of_nat take_bit_nat_eq_self)
  then have "(of_nat (length bs) :: u64) = 0 \<longleftrightarrow> bs = []" by (metis length_0_conv unat_0 unsigned_eq_0_iff)
  then show ?thesis using emits_write [of "of_nat (length bs)" "Some bs"] n assms
    by (auto simp: write_bytes_def out_load_def split: if_splits)
qed

end

end
