(* ===== verification/Pb_Encode_Spec.thy ===== *)
theory Pb_Encode_Spec
  imports Pb_Output
begin

text \<open>
  What the encoder promises: a message in memory denotes a string of bytes in the wire format of
  protocol buffers, and \<open>pb_encode\<close> writes these bytes.
\<close>

section \<open>The bytes of a message\<close>

definition key_bytes :: "u32 \<Rightarrow> u32 \<Rightarrow> u8 list" where
  "key_bytes wire_type tag = varint_bytes (push_bit 3 (ucast tag) OR ucast wire_type)"

definition wire_type_of :: "u8 \<Rightarrow> u32 option" where
  "wire_type_of ltype =
     (if ltype \<in> {PB_LTYPE_BOOL, PB_LTYPE_VARINT, PB_LTYPE_UVARINT, PB_LTYPE_SVARINT} then Some PB_WT_VARINT
      else if ltype = PB_LTYPE_FIXED32 then Some PB_WT_32BIT
      else if ltype = PB_LTYPE_FIXED64 then Some PB_WT_64BIT
      else if ltype \<in> {PB_LTYPE_BYTES, PB_LTYPE_STRING, PB_LTYPE_SUBMESSAGE, PB_LTYPE_FIXED_LENGTH_BYTES} then Some PB_WT_STRING
      else None)"

definition key_out :: "pb_field \<Rightarrow> out" where
  "key_out field = (case wire_type_of (PB_LTYPE (pf_type field)) of None \<Rightarrow> Fails | Some wt \<Rightarrow> Emits (key_bytes wt (pf_tag field)))"

definition delimited_bytes :: "u8 list \<Rightarrow> u8 list" where
  "delimited_bytes bs = varint_bytes (of_nat (length bs)) @ bs"

definition delimited_out :: "out \<Rightarrow> out" where
  "delimited_out r = out_bind r (\<lambda>bs. emit (delimited_bytes bs))"

definition string_out :: "u8 list option \<Rightarrow> out" where
  "string_out bytes = out_load bytes (\<lambda>bs. delimited_out (Emits bs))"

definition int_out :: "u64 option \<Rightarrow> out" where
  "int_out v = (case v of None \<Rightarrow> Fails | Some v \<Rightarrow> Emits (varint_bytes v))"

definition bytes_out :: "pb_mem \<Rightarrow> pb_field \<Rightarrow> u64 \<Rightarrow> out" where
  "bytes_out m field src =
     (if src = NULL then string_out (Some [])
      else out_load (load_u32 m src) (\<lambda>n.
        if PB_ATYPE (pf_type field) = PB_ATYPE_STATIC \<and> ucast n > (ucast (pf_data_size field) - 4 :: u64) then Fails
        else string_out (load_bytes m (src + 4) (unat n))))"

definition text_out :: "pb_mem \<Rightarrow> pb_field \<Rightarrow> u64 \<Rightarrow> out" where
  "text_out m field src =
     (if src = NULL then string_out (Some [])
      else out_load (str_scan m src (if PB_ATYPE (pf_type field) = PB_ATYPE_POINTER then 2 ^ 64 - 1 else unat (pf_data_size field)))
        (\<lambda>n. string_out (load_bytes m src n)))"

definition submessage_out :: "'s pb_env \<Rightarrow> (pb_field list \<Rightarrow> u64 \<Rightarrow> out) \<Rightarrow> pb_field \<Rightarrow> u64 \<Rightarrow> out" where
  "submessage_out env sub field src =
     (case pf_ptr field of Null_ptr \<Rightarrow> Fails | Fields_ptr i \<Rightarrow> delimited_out (sub (pe_fields env i) src) | Data_ptr _ \<Rightarrow> Unknown)"

definition value_out :: "'s pb_env \<Rightarrow> (pb_field list \<Rightarrow> u64 \<Rightarrow> out) \<Rightarrow> pb_field \<Rightarrow> u64 \<Rightarrow> out" where
  "value_out env sub field src =
     (let m = pe_mem env; n = pf_data_size field; ltype = PB_LTYPE (pf_type field)
      in if ltype = PB_LTYPE_BOOL then out_load (safe_read_bool m src) (\<lambda>b. int_out (Some (if b then 1 else 0)))
         else if ltype = PB_LTYPE_VARINT then out_load (load_int m n src) int_out
         else if ltype = PB_LTYPE_UVARINT then out_load (load_uint m n src) int_out
         else if ltype = PB_LTYPE_SVARINT then out_load (load_int m n src) (\<lambda>v. int_out (map_option zigzag v))
         else if ltype = PB_LTYPE_FIXED32 then out_load (load_u32 m src) (\<lambda>v. Emits (fixed_bytes 4 v))
         else if ltype = PB_LTYPE_FIXED64 then out_load (load_u64 m src) (\<lambda>v. Emits (fixed_bytes 8 v))
         else if ltype = PB_LTYPE_BYTES then bytes_out m field src
         else if ltype = PB_LTYPE_STRING then text_out m field src
         else if ltype = PB_LTYPE_SUBMESSAGE then submessage_out env sub field src
         else if ltype = PB_LTYPE_FIXED_LENGTH_BYTES then string_out (load_bytes m src (unat n))
         else Unknown)"

fun array_out :: "(u64 \<Rightarrow> out) \<Rightarrow> u64 \<Rightarrow> u64 \<Rightarrow> nat \<Rightarrow> out" where
  "array_out f p step 0 = Emits []"
| "array_out f p step (Suc n) = out_then (f p) (array_out f (p + step) step n)"

definition repeated_out :: "'s pb_env \<Rightarrow> (pb_field list \<Rightarrow> u64 \<Rightarrow> out) \<Rightarrow> pb_field \<Rightarrow> u64 \<Rightarrow> u64 \<Rightarrow> out" where
  "repeated_out env sub field pData count =
     (let atype = PB_ATYPE (pf_type field); ltype = PB_LTYPE (pf_type field);
          entries = (\<lambda>f. array_out f pData (ucast (pf_data_size field)) (unat count))
      in if count = 0 then Emits []
         else if atype \<noteq> PB_ATYPE_POINTER \<and> count > ucast (pf_array_size field) then Fails
         else if ltype \<le> PB_LTYPE_LAST_PACKABLE
         then out_then (Emits (key_bytes PB_WT_STRING (pf_tag field))) (delimited_out (entries (value_out env sub field)))
         else entries (\<lambda>p. out_then (key_out field)
           (if atype = PB_ATYPE_POINTER \<and> (ltype = PB_LTYPE_STRING \<or> ltype = PB_LTYPE_BYTES)
            then out_load (load_u64 (pe_mem env) p) (value_out env sub field) else value_out env sub field p)))"

definition data_field_out :: "nat \<Rightarrow> 's pb_env \<Rightarrow> (pb_field list \<Rightarrow> u64 \<Rightarrow> out) \<Rightarrow> pb_field \<Rightarrow> u64 \<Rightarrow> out" where
  "data_field_out d env sub field pData =
     (let m = pe_mem env; htype = PB_HTYPE (pf_type field); pSize = size_address pData field
      in out_load (if PB_ATYPE (pf_type field) = PB_ATYPE_POINTER then load_u64 m pData else Some pData) (\<lambda>target.
           let tagged = out_then (key_out field) (value_out env sub field target)
           in if htype = PB_HTYPE_REQUIRED then (if target = NULL then Fails else tagged)
              else if htype = PB_HTYPE_OPTIONAL then
                out_load (field_present d env field pData target) (\<lambda>present. if present then tagged else Emits [])
              else if htype = PB_HTYPE_REPEATED then
                out_load (if pf_size_offset field \<noteq> 0 then load_u32 m pSize else Some (pf_array_size field)) (\<lambda>count.
                  repeated_out env sub field target (ucast count))
              else out_load (if pf_size_offset field \<noteq> 0 then load_u32 m pSize else None) (\<lambda>which.
                if which = pf_tag field then tagged else Emits [])))"

definition field_out :: "nat \<Rightarrow> 's pb_env \<Rightarrow> (pb_field list \<Rightarrow> u64 \<Rightarrow> out) \<Rightarrow> pb_field \<Rightarrow> u64 \<Rightarrow> out" where
  "field_out d env sub field pData =
     (let atype = PB_ATYPE (pf_type field)
      in if atype = PB_ATYPE_STATIC \<or> atype = PB_ATYPE_POINTER then data_field_out d env sub field pData
         else if atype = PB_ATYPE_CALLBACK then
           out_load (load_u64 (pe_mem env) pData) (\<lambda>fn. if fn = NULL then Emits [] else Unknown)
         else Fails)"

text \<open>One extension, and a list of at most so many.\<close>

definition extension_out :: "nat \<Rightarrow> 's pb_env \<Rightarrow> (pb_field list \<Rightarrow> u64 \<Rightarrow> out) \<Rightarrow> u64 \<Rightarrow> out" where
  "extension_out d env sub extension =
     out_load (load_u64 (pe_mem env) extension) (\<lambda>type. out_load (load_u64 (pe_mem env) (type + 8)) (\<lambda>fn.
       if fn \<noteq> NULL then Unknown
       else out_load (load_u64 (pe_mem env) (type + 16)) (\<lambda>arg. out_load (pe_ext_field env arg) (\<lambda>field.
         if PB_ATYPE (pf_type field) = PB_ATYPE_POINTER then field_out d env sub field (extension + 8)
         else out_load (load_u64 (pe_mem env) (extension + 8)) (field_out d env sub field)))))"

fun extensions_out :: "nat \<Rightarrow> pb_mem \<Rightarrow> (u64 \<Rightarrow> out) \<Rightarrow> u64 \<Rightarrow> out" where
  "extensions_out 0 m f extension = Unknown"
| "extensions_out (Suc n) m f extension =
     (if extension = NULL then Emits []
      else out_then (f extension) (out_load (load_u64 m (extension + 16)) (extensions_out n m f)))"

definition member_out :: "nat \<Rightarrow> 's pb_env \<Rightarrow> (pb_field list \<Rightarrow> u64 \<Rightarrow> out) \<Rightarrow> pb_field \<Rightarrow> u64 \<Rightarrow> out" where
  "member_out d env sub field pData =
     (if PB_LTYPE (pf_type field) = PB_LTYPE_EXTENSION
      then out_load (load_u64 (pe_mem env) pData) (extensions_out d (pe_mem env) (extension_out d env sub))
      else field_out d env sub field pData)"

text \<open>The fields in the order of the descriptors.\<close>

definition fields_out :: "(pb_field \<Rightarrow> u64 \<Rightarrow> out) \<Rightarrow> pb_field list \<Rightarrow> u64 \<Rightarrow> nat list \<Rightarrow> out" where
  "fields_out f flds src is = foldr (\<lambda>i. out_then (f (flds ! i) (it_pData (iter_at flds src i)))) is (Emits [])"

fun message_out :: "nat \<Rightarrow> 's pb_env \<Rightarrow> pb_field list \<Rightarrow> u64 \<Rightarrow> out" where
  "message_out 0 env flds src = Unknown"
| "message_out (Suc d) env flds src =
     (if terminated flds then fields_out (member_out (Suc d) env (message_out d env)) flds src [0..<length flds - 1] else Unknown)"

section \<open>The encoder and its outcomes\<close>

lemma varint_groups_zero [simp]: "varint_groups 0 = []"
  by (subst varint_groups.simps) simp

lemma varint_groups_step: "v \<noteq> 0 \<Longrightarrow> varint_groups v = (ucast (v AND 0x7f) OR 0x80) # varint_groups (drop_bit 7 v)"
  by (subst varint_groups.simps) simp

lemma length_varint_groups: "unat v < 2 ^ (7 * k) \<Longrightarrow> length (varint_groups v) \<le> k"
proof (induction v arbitrary: k rule: varint_groups.induct)
  case (1 v)
  show ?case
  proof (cases "v = 0")
    case False
    with 1(2) obtain j where k: "k = Suc j" by (cases k) (auto simp: unat_eq_0)
    have "unat (drop_bit 7 v) < 2 ^ (7 * j)"
      using 1(2) by (simp add: k drop_bit_eq_div unat_div power_add less_mult_imp_div_less mult.commute)
    then show ?thesis using 1(1) [OF False] False k by (simp add: varint_groups_step)
  qed simp
qed

lemma length_varint_bytes: "length (varint_bytes v) \<le> 10"
proof -
  have "unat v < 2 ^ 64" using unsigned_less [of v] by simp
  also have "(2 :: nat) ^ 64 \<le> 2 ^ (7 * 10)" by simp
  finally have "length (varint_groups v) \<le> 10" by (rule length_varint_groups)
  then show ?thesis by (auto simp: varint_bytes_def Let_def)
qed

lemma length_fixed_bytes [simp]: "length (fixed_bytes n v) = n"
  by (simp add: fixed_bytes_def)

lemma array_out_length:
  assumes "\<And>p bs. r p = Emits bs \<Longrightarrow> length bs = k"
  shows "array_out r p step n = Emits bs \<Longrightarrow> length bs = k * n"
proof (induction n arbitrary: p bs)
  case (Suc n)
  then obtain b1 b2 where "r p = Emits b1" "array_out r (p + step) step n = Emits b2" "bs = b1 @ b2"
    by (cases "r p"; cases "array_out r (p + step) step n") (auto simp: out_then_def emit_def split: if_splits)
  then show ?case using Suc.IH assms by simp
qed simp

lemma array_out_not_Fails: "(\<And>p. r p \<noteq> Fails) \<Longrightarrow> array_out r p step n \<noteq> Fails"
proof (induction n arbitrary: p)
  case (Suc n)
  then show ?case using Suc.prems [of p] Suc.IH [of "p + step"]
    by (cases "r p"; cases "array_out r (p + step) step n") (auto simp: out_then_def emit_def)
qed simp

lemma array_out_fixed:
  assumes "\<And>v. r v = out_load (g v) (\<lambda>x :: 'b::len word. Emits (fixed_bytes w x))" and "array_out r p step n = Emits bs"
  shows "length bs = w * n"
  by (rule array_out_length [OF _ assms(2)]) (auto simp: assms(1) out_load_def split: option.splits)

lemma extension_loop_step:
  "extension_loop m f extension =
     (if extension = NULL then pb_ok else pb_then (f extension) (pb_load (load_u64 m (extension + 16)) (extension_loop m f)))"
  by (rule ext, subst extension_loop.simps) (auto simp: pb_ok_def pb_then_def pb_load_def split: option.split)

lemma fields_loop_step:
  assumes "terminated flds" and "i + 1 < length flds"
  shows "fields_loop f (iter_at flds p i) = pb_then (f (flds ! i) (it_pData (iter_at flds p i)))
    (if i + 2 < length flds then fields_loop f (iter_at flds p (i + 1)) else pb_ok)"
proof -
  obtain again where again: "pb_field_iter_next (iter_at flds p i) = Some (again, iter_at flds p (if i + 2 < length flds then i + 1 else 0))"
    "again \<longleftrightarrow> i + 2 < length flds" using iter_next_at [OF assms, of p] by auto
  have "field_at (it_start (iter_at flds p i)) (it_pos (iter_at flds p i)) = Some (flds ! i)"
    using iter_at_pos [OF assms(1), of i p] assms(2) by (simp add: field_at_def)
  then show ?thesis using again
    by (intro ext, subst fields_loop.simps) (simp add: pb_then_def pb_ok_def split: option.split)
qed

text \<open>A submessage after its size.\<close>

definition submessage_content :: "('s pb_sink option \<Rightarrow> 's pb_writer) \<Rightarrow> u64 \<Rightarrow> 's pb_sink option \<Rightarrow> 's pb_writer" where
  "submessage_content f n sk stream =
     (if os_bytes_written stream + n > os_max_size stream then PB_RETURN_ERROR ''stream full'' stream
      else
        (case f sk \<lparr>os_state = os_state stream, os_max_size = n, os_bytes_written = 0, os_errmsg = None\<rparr> of
           None \<Rightarrow> None
         | Some (status, substream) \<Rightarrow>
             let stream = stream\<lparr>os_bytes_written := os_bytes_written stream + os_bytes_written substream,
                                 os_state := os_state substream, os_errmsg := os_errmsg substream\<rparr>
             in if os_bytes_written substream \<noteq> n then PB_RETURN_ERROR ''submsg size changed'' stream
                else Some (status, stream)))"

context pb_output
begin

lemma emits_varint: "emits (\<lambda>sk. pb_encode_varint sk v) (Emits (varint_bytes v))"
  using length_varint_bytes [of v] by (simp add: pb_encode_varint_def emits_write_bytes)

lemma emits_tag: "emits (\<lambda>sk. pb_encode_tag sk wt tag) (Emits (key_bytes wt tag))"
  by (simp add: pb_encode_tag_def key_bytes_def emits_varint)

lemma emits_key: "emits (\<lambda>sk. pb_encode_tag_for_field sk field) (key_out field)"
  by (auto simp: pb_encode_tag_for_field_def key_out_def wire_type_of_def Let_def emits_tag)

lemma delimited_out_emits: "length bs < 2 ^ 62 \<Longrightarrow> delimited_out (Emits bs) = out_then (Emits (varint_bytes (of_nat (length bs)))) (Emits bs)"
  using length_varint_bytes [of "of_nat (length bs)"] by (simp add: delimited_out_def out_then_def delimited_bytes_def)

lemma emits_delimited:
  assumes "emits f (Emits bs)"
  shows "emits (\<lambda>sk. pb_then (pb_encode_varint sk (of_nat (length bs))) (f sk)) (delimited_out (Emits bs))"
  using emits_then [OF emits_varint assms, of "of_nat (length bs)"]
  by (cases "length bs < 2 ^ 62") (simp_all add: delimited_out_emits, simp add: delimited_out_def)

lemma emits_null_string: "emits (\<lambda>sk. pb_encode_string sk None 0) (string_out (Some []))"
  using emits_delimited [OF emits_write [of 0 None, simplified]] by (simp add: pb_encode_string_def string_out_def out_load_def)

lemma emits_string:
  assumes "\<And>bs. bytes = Some bs \<Longrightarrow> n = of_nat (length bs)"
  shows "emits (\<lambda>sk. pb_encode_string sk bytes n) (string_out bytes)"
proof (cases bytes)
  case (Some bs)
  show ?thesis
  proof (cases "length bs < 2 ^ 62")
    case True
    show ?thesis using emits_delimited [OF emits_write_bytes [OF True]] assms Some
      by (simp add: pb_encode_string_def write_bytes_def string_out_def out_load_def)
  qed (simp add: string_out_def out_load_def Some delimited_out_def)
qed (simp add: string_out_def out_load_def)

lemma emits_int: "emits (\<lambda>sk. case v of None \<Rightarrow> PB_RETURN_ERROR msg | Some v \<Rightarrow> pb_encode_varint sk v) (int_out v)"
  by (cases v) (simp_all add: int_out_def emits_varint)

lemma emits_enc_bytes: "emits (\<lambda>sk. pb_enc_bytes env sk field src) (bytes_out (pe_mem env) field src)"
proof -
  have "emits (\<lambda>sk. pb_encode_string sk (load_bytes (pe_mem env) (src + 4) (unat n)) (ucast n))
      (string_out (load_bytes (pe_mem env) (src + 4) (unat n)))" for n :: u32
    by (rule emits_string) (auto dest: length_load_bytes simp: unsigned_ucast_eq)
  then show ?thesis unfolding pb_enc_bytes_def bytes_out_def
    by (intro emits_if emits_null_string emits_load emits_error)
qed

lemma emits_enc_string: "emits (\<lambda>sk. pb_enc_string env sk field src) (text_out (pe_mem env) field src)"
proof -
  have "emits (\<lambda>sk. pb_encode_string sk (load_bytes (pe_mem env) src n) (of_nat n)) (string_out (load_bytes (pe_mem env) src n))" for n
    by (rule emits_string) (auto dest: length_load_bytes)
  then show ?thesis unfolding pb_enc_string_def text_out_def Let_def
    by (intro emits_if emits_null_string emits_load)
qed

lemma emits_fixed_length_bytes:
  "emits (\<lambda>sk. pb_enc_fixed_length_bytes env sk field src) (string_out (load_bytes (pe_mem env) src (unat (pf_data_size field))))"
  unfolding pb_enc_fixed_length_bytes_def by (rule emits_string) (auto dest: length_load_bytes simp: unsigned_ucast_eq)

lemma emits_scalars:
  "emits (\<lambda>sk. pb_enc_bool env sk field src) (out_load (safe_read_bool (pe_mem env) src) (\<lambda>b. int_out (Some (if b then 1 else 0))))"
  "emits (\<lambda>sk. pb_enc_varint env sk field src) (out_load (load_int (pe_mem env) (pf_data_size field) src) int_out)"
  "emits (\<lambda>sk. pb_enc_uvarint env sk field src) (out_load (load_uint (pe_mem env) (pf_data_size field) src) int_out)"
  "emits (\<lambda>sk. pb_enc_svarint env sk field src) (out_load (load_int (pe_mem env) (pf_data_size field) src) (\<lambda>v. int_out (map_option zigzag v)))"
  "emits (\<lambda>sk. pb_enc_fixed32 env sk field src) (out_load (load_u32 (pe_mem env) src) (\<lambda>v. Emits (fixed_bytes 4 v)))"
  "emits (\<lambda>sk. pb_enc_fixed64 env sk field src) (out_load (load_u64 (pe_mem env) src) (\<lambda>v. Emits (fixed_bytes 8 v)))"
  unfolding pb_enc_bool_def pb_enc_varint_def pb_enc_uvarint_def pb_enc_svarint_def pb_enc_fixed32_def pb_enc_fixed64_def
    pb_encode_fixed32_def pb_encode_fixed64_def pb_encode_svarint_def
  by (intro emits_load emits_int emits_write_bytes; simp add: int_out_def emits_varint split: option.split)+

text \<open>The content of a packed array or of a submessage: its bytes, or their number on a sizing stream.\<close>

lemma emits_content:
  assumes "emits f (Emits bs)"
  shows "emits (\<lambda>sk. if sk = None then pb_write sk None (of_nat (length bs)) else f sk) (Emits bs)"
proof (rule emitsI)
  show "counts (if None = None then pb_write None None (of_nat (length bs)) else f None) bs s" for s
    by (auto simp: counts_def pb_write_def counted_def Let_def intro!: exI [of _ "os_errmsg s"])
qed (use assms in \<open>simp_all add: emits_accepts emits_refuses\<close>)

lemma submessage_accepts:
  assumes f: "emits f (Emits bs)" and bs: "length bs < 2 ^ 62" and s: "stream_ok room s"
  shows "if length bs \<le> avail s then accepts written room (submessage_content f (of_nat (length bs)) (Some sink)) bs s
         else refuses (submessage_content f (of_nat (length bs)) (Some sink)) s"
proof -
  let ?n = "of_nat (length bs) :: u64"
  have n: "unat ?n = length bs" using bs by (simp add: unat_of_nat take_bit_nat_eq_self)
  have "unat (os_bytes_written s + ?n) = unat (os_bytes_written s) + length bs"
    using s bs n by (simp add: stream_ok_def unat_word_ariths)
  then have full: "os_max_size s < os_bytes_written s + ?n \<longleftrightarrow> \<not> length bs \<le> avail s"
    using s by (auto simp: word_less_nat_alt avail_def stream_ok_def)
  show ?thesis
  proof (cases "length bs \<le> avail s")
    case True
    let ?sub = "\<lparr>os_state = os_state s, os_max_size = ?n, os_bytes_written = 0, os_errmsg = None\<rparr>"
    have sub: "stream_ok room ?sub" "avail ?sub = length bs" using True s n bs by (auto simp: stream_ok_def avail_def)
    obtain st e where "f (Some sink) ?sub = Some (True, (counted ?sub (length bs))\<lparr>os_state := st, os_errmsg := e\<rparr>)"
      and "received written room (os_state s) bs st"
      using emits_accepts [OF f bs sub(1)] sub(2) by (auto simp: accepts_def)
    then show ?thesis using full True
      by (auto simp: accepts_def submessage_content_def counted_def intro!: exI [of _ st] exI [of _ e])
  next
    case False
    then show ?thesis using full by (simp add: refuses_def submessage_content_def PB_RETURN_ERROR_def)
  qed
qed

lemma emits_submessage:
  assumes "emits (\<lambda>sk. encode sk flds src) r"
  shows "emits (\<lambda>sk. pb_encode_submessage encode sk flds src) (delimited_out r)"
proof (cases r)
  case Unknown
  then show ?thesis by (simp add: delimited_out_def)
next
  case Fails
  have "refuses (pb_encode_submessage encode sk flds src) s" for sk s
  proof -
    have "refuses (encode None flds src) (PB_OSTREAM_SIZING (os_state s))" using assms Fails by (simp add: emits_Fails)
    then show ?thesis by (auto simp: refuses_def pb_encode_submessage_def)
  qed
  then show ?thesis using Fails by (simp add: delimited_out_def emits_Fails)
next
  case (Emits bs)
  show ?thesis
  proof (cases "length bs < 2 ^ 62")
    case True
    note f = assms [unfolded Emits]
    let ?n = "of_nat (length bs) :: u64" and ?f = "\<lambda>sk. encode sk flds src"
    have "emits (\<lambda>sk. if sk = None then pb_write sk None ?n else submessage_content ?f ?n sk) (Emits bs)"
    proof (rule emitsI)
      show "counts (if None = None then pb_write None None ?n else submessage_content ?f ?n None) bs s" for s
        by (auto simp: counts_def pb_write_def counted_def Let_def intro!: exI [of _ "os_errmsg s"])
    qed (use submessage_accepts [OF f True] in \<open>auto split: if_splits\<close>)
    note this [THEN emits_delimited]
    moreover have "pb_encode_submessage encode sk flds src s =
        pb_then (pb_encode_varint sk ?n) (if sk = None then pb_write sk None ?n else submessage_content ?f ?n sk) s" for sk s
    proof -
      obtain sub where "encode None flds src (PB_OSTREAM_SIZING (os_state s)) = Some (True, sub)" "os_bytes_written sub = ?n"
        using emits_counts [OF f True, of "PB_OSTREAM_SIZING (os_state s)"]
        by (auto simp: counts_def counted_def PB_OSTREAM_SIZING_def)
      then show ?thesis
        by (cases "sk = None") (auto simp: pb_encode_submessage_def submessage_content_def [abs_def] Let_def cong del: if_weak_cong option.case_cong_weak)
    qed
    ultimately show ?thesis using Emits by presburger
  qed (simp add: delimited_out_def Emits)
qed

lemma emits_value:
  assumes "\<And>flds p. emits (\<lambda>sk. encode sk flds p) (sub flds p)"
  shows "emits (\<lambda>sk. PB_ENCODERS env encode sk field src) (value_out env sub field src)"
proof -
  have "emits (\<lambda>sk. pb_enc_submessage env encode sk field src) (submessage_out env sub field src)"
    by (cases "pf_ptr field") (simp_all add: pb_enc_submessage_def submessage_out_def emits_submessage assms)
  then show ?thesis
    by (simp add: PB_ENCODERS_def value_out_def Let_def emits_scalars emits_enc_bytes emits_enc_string emits_fixed_length_bytes)
qed

lemma emits_array: "(\<And>p. emits (\<lambda>sk. f sk p) (r p)) \<Longrightarrow> emits (\<lambda>sk. array_loop (f sk) p step n) (array_out r p step n)"
  by (induction n arbitrary: p) (simp_all add: emits_then)

text \<open>\<open>packed_size\<close> finds the length of the entries, whichever way it takes.\<close>

lemma packed_size_eq:
  assumes entries: "emits (\<lambda>sk. array_loop (PB_ENCODERS env encode sk field) pData (ucast (pf_data_size field)) (unat count)) r"
    and r: "r = array_out (value_out env sub field) pData (ucast (pf_data_size field)) (unat count)" "r = Emits bs" "length bs < 2 ^ 62"
  shows "packed_size env encode field pData count k s = k (of_nat (length bs)) s"
proof -
  note array = r(1) [symmetric, unfolded r(2)]
  show ?thesis
  proof (cases "PB_LTYPE (pf_type field) = PB_LTYPE_FIXED32 \<or> PB_LTYPE (pf_type field) = PB_LTYPE_FIXED64")
    case True
    then have "length bs = (if PB_LTYPE (pf_type field) = PB_LTYPE_FIXED32 then 4 else 8) * unat count"
      using array_out_fixed [OF _ array, of "load_u32 (pe_mem env)" 4] array_out_fixed [OF _ array, of "load_u64 (pe_mem env)" 8]
      by (auto simp: value_out_def pb_ltypes)
    then show ?thesis using True by (auto simp: packed_size_def pb_ltypes split: if_splits)
  next
    case False
    have "counts (array_loop (PB_ENCODERS env encode None field) pData (ucast (pf_data_size field)) (unat count)) bs
        (PB_OSTREAM_SIZING (os_state s))"
      using emits_counts [OF entries [unfolded r(2)] r(3)] .
    then show ?thesis using False by (auto simp: packed_size_def counts_def counted_def PB_OSTREAM_SIZING_def)
  qed
qed

lemma emits_packed:
  assumes sub: "\<And>flds p. emits (\<lambda>sk. encode sk flds p) (sub flds p)"
  shows "emits (\<lambda>sk. packed_size env encode field pData count (\<lambda>n. pb_then (pb_encode_varint sk n)
      (if sk = None then pb_write sk None n else array_loop (PB_ENCODERS env encode sk field) pData (ucast (pf_data_size field)) (unat count))))
    (delimited_out (array_out (value_out env sub field) pData (ucast (pf_data_size field)) (unat count)))"
    (is "emits (\<lambda>sk. packed_size env encode field pData count (?k sk)) (delimited_out ?r)")
proof -
  have entries: "emits (\<lambda>sk. array_loop (PB_ENCODERS env encode sk field) pData (ucast (pf_data_size field)) (unat count)) ?r"
    by (intro emits_array emits_value sub)
  show ?thesis
  proof (cases ?r)
    case Fails
    have "value_out env sub field p \<noteq> Fails"
      if "PB_LTYPE (pf_type field) = PB_LTYPE_FIXED32 \<or> PB_LTYPE (pf_type field) = PB_LTYPE_FIXED64" for p
      using that by (auto simp: value_out_def pb_ltypes out_load_def split: option.splits)
    then have varying: "PB_LTYPE (pf_type field) \<noteq> PB_LTYPE_FIXED32" "PB_LTYPE (pf_type field) \<noteq> PB_LTYPE_FIXED64"
      using array_out_not_Fails Fails by blast+
    have "refuses (packed_size env encode field pData count (?k sk)) s" for sk s
    proof -
      have "refuses (array_loop (PB_ENCODERS env encode None field) pData (ucast (pf_data_size field)) (unat count))
          (PB_OSTREAM_SIZING (os_state s))"
        using entries Fails by (simp add: emits_Fails)
      then show ?thesis using varying by (auto simp: refuses_def packed_size_def)
    qed
    then have "emits (\<lambda>sk. packed_size env encode field pData count (?k sk)) Fails" unfolding emits_Fails by blast
    then show ?thesis using Fails by (simp add: delimited_out_def)
  next
    case (Emits bs)
    show ?thesis
    proof (cases "length bs < 2 ^ 62")
      case True
      have "packed_size env encode field pData count (?k sk) = ?k sk (of_nat (length bs))" for sk
        using packed_size_eq [OF entries refl Emits True] by (rule ext)
      then show ?thesis using emits_delimited [OF emits_content [OF entries [unfolded Emits]]] Emits by simp
    qed (simp add: Emits delimited_out_def)
  qed (simp add: delimited_out_def)
qed

lemma emits_repeated:
  assumes sub: "\<And>flds p. emits (\<lambda>sk. encode sk flds p) (sub flds p)"
  shows "emits (\<lambda>sk. encode_array env encode sk field pData count) (repeated_out env sub field pData count)"
  unfolding encode_array_def repeated_out_def Let_def
  by (intro emits_if emits_ok emits_error emits_then emits_tag emits_key emits_packed emits_array emits_load emits_value sub)

lemma emits_tagged:
  assumes sub: "\<And>flds p. emits (\<lambda>sk. encode sk flds p) (sub flds p)"
  shows "emits (\<lambda>sk. pb_then (pb_encode_tag_for_field sk field) (PB_ENCODERS env encode sk field p))
    (out_then (key_out field) (value_out env sub field p))"
  by (intro emits_then emits_key emits_value sub)

lemma emits_data_field:
  assumes sub: "\<And>flds p. emits (\<lambda>sk. encode sk flds p) (sub flds p)"
  shows "emits (\<lambda>sk. encode_basic_field d env encode sk field pData) (data_field_out d env sub field pData)"
  unfolding encode_basic_field_def data_field_out_def Let_def
  by (intro emits_if emits_ok emits_error emits_load emits_tagged emits_repeated sub)

lemma emits_field:
  assumes sub: "\<And>flds p. emits (\<lambda>sk. encode sk flds p) (sub flds p)"
  shows "emits (\<lambda>sk. encode_field d env encode sk field pData) (field_out d env sub field pData)"
proof -
  have "emits (\<lambda>sk. encode_callback_field env sk field pData)
      (out_load (load_u64 (pe_mem env) pData) (\<lambda>fn. if fn = NULL then Emits [] else Unknown))"
  proof -
    have "emits (\<lambda>sk. pb_load (load_u64 (pe_mem env) pData) (\<lambda>fn. if fn = NULL then pb_ok else (\<lambda>stream.
        case pe_encode env fn field (pData + 8) sk stream of
          None \<Rightarrow> None | Some (ok, stream) \<Rightarrow> if ok then pb_ok stream else PB_RETURN_ERROR ''callback error'' stream)))
      (out_load (load_u64 (pe_mem env) pData) (\<lambda>fn. if fn = NULL then Emits [] else Unknown))"
      by (intro emits_load emits_if emits_ok emits_Unknown)
    moreover have "encode_callback_field env sk field pData = pb_load (load_u64 (pe_mem env) pData) (\<lambda>fn. if fn = NULL then pb_ok else (\<lambda>stream.
        case pe_encode env fn field (pData + 8) sk stream of
          None \<Rightarrow> None | Some (ok, stream) \<Rightarrow> if ok then pb_ok stream else PB_RETURN_ERROR ''callback error'' stream))" for sk
      unfolding encode_callback_field_def by (rule arg_cong [where f = "pb_load _"]) auto
    ultimately show ?thesis by simp
  qed
  then show ?thesis unfolding encode_field_def field_out_def Let_def
    by (intro emits_if emits_data_field emits_error sub)
qed

lemma emits_extension:
  assumes sub: "\<And>flds p. emits (\<lambda>sk. encode sk flds p) (sub flds p)"
  shows "emits (\<lambda>sk. encode_extension d env encode sk extension) (extension_out d env sub extension)"
  unfolding encode_extension_def extension_out_def
proof (intro emits_load emits_if emits_Unknown)
  fix type assume "load_u64 (pe_mem env) extension = Some type"
  then have "default_extension_encoder d env encode sk extension = pb_load (load_u64 (pe_mem env) (type + 16)) (\<lambda>arg.
      pb_load (pe_ext_field env arg) (\<lambda>field.
        if PB_ATYPE (pf_type field) = PB_ATYPE_POINTER then encode_field d env encode sk field (extension + 8)
        else pb_load (load_u64 (pe_mem env) (extension + 8)) (encode_field d env encode sk field)))" for sk
    by (intro ext) (simp add: default_extension_encoder_def pb_load_def)
  moreover have "emits (\<lambda>sk. pb_load (load_u64 (pe_mem env) (type + 16)) (\<lambda>arg.
      pb_load (pe_ext_field env arg) (\<lambda>field.
        if PB_ATYPE (pf_type field) = PB_ATYPE_POINTER then encode_field d env encode sk field (extension + 8)
        else pb_load (load_u64 (pe_mem env) (extension + 8)) (encode_field d env encode sk field))))
    (out_load (load_u64 (pe_mem env) (type + 16)) (\<lambda>arg. out_load (pe_ext_field env arg) (\<lambda>field.
         if PB_ATYPE (pf_type field) = PB_ATYPE_POINTER then field_out d env sub field (extension + 8)
         else out_load (load_u64 (pe_mem env) (extension + 8)) (field_out d env sub field))))"
    by (intro emits_load emits_if emits_field sub)
  ultimately show "emits (\<lambda>sk. default_extension_encoder d env encode sk extension)
    (out_load (load_u64 (pe_mem env) (type + 16)) (\<lambda>arg. out_load (pe_ext_field env arg) (\<lambda>field.
         if PB_ATYPE (pf_type field) = PB_ATYPE_POINTER then field_out d env sub field (extension + 8)
         else out_load (load_u64 (pe_mem env) (extension + 8)) (field_out d env sub field))))" by simp
qed

lemma emits_extensions: "(\<And>e. emits (\<lambda>sk. f sk e) (r e)) \<Longrightarrow> emits (\<lambda>sk. extension_loop m (f sk) extension) (extensions_out n m r extension)"
proof (induction n arbitrary: extension)
  case (Suc n)
  show ?case unfolding extension_loop_step [of m _ extension] extensions_out.simps
    by (intro emits_if emits_ok emits_then emits_load Suc)
qed simp

lemma emits_member:
  assumes sub: "\<And>flds p. emits (\<lambda>sk. encode sk flds p) (sub flds p)"
  shows "emits (\<lambda>sk. if PB_LTYPE (pf_type field) = PB_LTYPE_EXTENSION then encode_extension_field d env encode sk pData
      else encode_field d env encode sk field pData) (member_out d env sub field pData)"
  unfolding member_out_def encode_extension_field_def
  by (intro emits_if emits_load emits_extensions emits_extension emits_field sub)

lemma emits_fields:
  assumes flds: "terminated flds" and f: "\<And>field p. emits (\<lambda>sk. f sk field p) (r field p)"
  shows "i + 1 < length flds \<Longrightarrow> n = length flds - 1 - i \<Longrightarrow>
    emits (\<lambda>sk. fields_loop (f sk) (iter_at flds p i)) (fields_out r flds p [i..<length flds - 1])"
proof (induction n arbitrary: i)
  case (Suc n)
  have list: "[i..<length flds - 1] = i # [i + 1..<length flds - 1]" using Suc.prems by (simp add: upt_conv_Cons)
  have rest: "emits (\<lambda>sk. if i + 2 < length flds then fields_loop (f sk) (iter_at flds p (i + 1)) else pb_ok)
      (fields_out r flds p [i + 1..<length flds - 1])"
    using Suc.IH [of "i + 1"] Suc.prems by (cases "i + 2 < length flds") (simp_all add: fields_out_def)
  show ?case unfolding fields_loop_step [OF flds Suc.prems(1)] list
    using emits_then [OF f rest] by (simp add: fields_out_def)
qed simp

lemma emits_message: "emits (\<lambda>sk. pb_encode d env sk flds p) (message_out d env flds p)"
proof (induction d arbitrary: flds p)
  case 0
  then show ?case by simp
next
  case (Suc d)
  show ?case
  proof (cases "terminated flds")
    case True
    let ?f = "\<lambda>sk field pData. if PB_LTYPE (pf_type field) = PB_LTYPE_EXTENSION
      then encode_extension_field (Suc d) env (pb_encode d env) sk pData else encode_field (Suc d) env (pb_encode d env) sk field pData"
    have "pb_encode (Suc d) env sk flds p = (if 1 < length flds then fields_loop (?f sk) (iter_at flds p 0) else pb_ok)" for sk
      by (rule ext) (simp add: iter_begin_at [OF True] pb_ok_def)
    moreover have "emits (\<lambda>sk. if 1 < length flds then fields_loop (?f sk) (iter_at flds p 0) else pb_ok)
        (fields_out (member_out (Suc d) env (message_out d env)) flds p [0..<length flds - 1])"
      using emits_fields [OF True emits_member [OF Suc], of 0 "length flds - 1"]
      by (cases "1 < length flds") (simp_all add: fields_out_def)
    ultimately show ?thesis using True by simp
  qed simp
qed

end

section \<open>Buffers\<close>

interpretation pb_buffer: pb_output buf_write "\<lambda>(buf, pos). take pos buf" "\<lambda>(buf, pos). length buf - pos"
proof
  fix bs :: "u8 list" and s :: "(u8 list \<times> nat) pb_ostream"
  obtain buf pos where st: "os_state s = (buf, pos)" by fastforce
  assume "bs \<noteq> []" and "length bs \<le> (case os_state s of (buf, pos) \<Rightarrow> length buf - pos)"
  then have le: "pos + length bs \<le> length buf" using st by (cases bs) auto
  then show "\<exists>st. buf_write s bs = Some (True, s\<lparr>os_state := st\<rparr>) \<and>
      received (\<lambda>(buf, pos). take pos buf) (\<lambda>(buf, pos). length buf - pos) (os_state s) bs st"
    by (intro exI [of _ "(write_at pos bs buf, pos + length bs)"]) (simp add: buf_write_def st received_def buffer_simps)
qed

lemma stream_ok_buffer:
  "length buf < 2 ^ 62 \<Longrightarrow> stream_ok (\<lambda>(buf, pos). length buf - pos) (pb_ostream_from_buffer buf) \<and> avail (pb_ostream_from_buffer buf) = length buf"
  by (simp add: stream_ok_def avail_def pb_ostream_from_buffer_def unat_of_nat take_bit_nat_eq_self)

text \<open>What a writer makes of a buffer.\<close>

definition writes_buffer :: "(u8 list \<times> nat) pb_writer \<Rightarrow> out \<Rightarrow> u8 list \<Rightarrow> bool" where
  "writes_buffer f r buf \<longleftrightarrow>
     (case r of
        Unknown \<Rightarrow> True
      | Fails \<Rightarrow> (\<exists>s. f (pb_ostream_from_buffer buf) = Some (False, s))
      | Emits bs \<Rightarrow>
          (if length bs \<le> length buf
           then \<exists>s. f (pb_ostream_from_buffer buf) = Some (True, s) \<and> take (length bs) (fst (os_state s)) = bs \<and>
             unat (os_bytes_written s) = length bs
           else \<exists>s. f (pb_ostream_from_buffer buf) = Some (False, s)))"

lemma emits_buffer:
  assumes f: "pb_buffer.emits f r" and small: "\<And>bs. r = Emits bs \<Longrightarrow> length bs < 2 ^ 62" and buf: "length buf < 2 ^ 62"
  shows "writes_buffer (f (Some buf_write)) r buf"
proof (cases r)
  case (Emits bs)
  define s where "s = pb_ostream_from_buffer buf"
  have s: "os_state s = (buf, 0)" "os_bytes_written s = 0" by (simp_all add: s_def pb_ostream_from_buffer_def)
  have ok: "stream_ok (\<lambda>(buf, pos). length buf - pos) s" "avail s = length buf" using stream_ok_buffer [OF buf] by (simp_all add: s_def)
  note run = pb_buffer.emits_accepts [OF f [unfolded Emits] small [OF Emits] ok(1)] pb_buffer.emits_refuses [OF f [unfolded Emits] small [OF Emits] ok(1)]
  show ?thesis
  proof (cases "length bs \<le> length buf")
    case True
    then obtain b p e where out: "f (Some buf_write) s = Some (True, (counted s (length bs))\<lparr>os_state := (b, p), os_errmsg := e\<rparr>)"
      and got: "take p b = bs" using run ok(2) s by (fastforce simp: accepts_def received_def)
    from got have "take (length bs) b = bs" by (auto simp: min_def)
    then show ?thesis using out True small [OF Emits] Emits s
      by (simp add: writes_buffer_def counted_def s_def [symmetric] unat_of_nat take_bit_nat_eq_self)
  next
    case False
    then show ?thesis using run(2) ok(2) Emits by (auto simp: writes_buffer_def refuses_def s_def)
  qed
next
  case Fails
  then show ?thesis using f stream_ok_buffer [OF buf] by (auto simp: pb_buffer.emits_Fails writes_buffer_def refuses_def)
qed (simp add: writes_buffer_def)

lemma out_then_small: "out_then r1 r2 = Emits bs \<Longrightarrow> length bs < 2 ^ 62"
  by (cases r1; cases r2) (auto simp: out_then_def emit_def split: if_splits)

lemma message_out_small: "message_out d env flds src = Emits bs \<Longrightarrow> length bs < 2 ^ 62"
  by (cases d; cases "[0..<length flds - 1]") (auto simp: fields_out_def dest: out_then_small split: if_splits)

lemma delimited_out_small: "delimited_out r = Emits bs \<Longrightarrow> length bs < 2 ^ 62"
  by (cases r) (auto simp: delimited_out_def emit_def split: if_splits)

lemma pb_encode_writes:
  "length buf < 2 ^ 62 \<Longrightarrow> writes_buffer (pb_encode d env (Some buf_write) flds src) (message_out d env flds src) buf"
  by (rule emits_buffer [OF pb_buffer.emits_message message_out_small])

text \<open>
  C36: What \<open>pb_encode\<close> writes depends only on the message: a buffer that has room for the bytes of the
  message gets exactly these bytes and a smaller buffer is refused, the same with a size in front of
  them or a zero byte behind them; a message that cannot be encoded is refused whatever the buffer.
\<close>

theorem pb_encode_buffer:
  assumes "length buf < 2 ^ 62"
  shows "writes_buffer (pb_encode d env (Some buf_write) flds src) (message_out d env flds src) buf \<and>
    writes_buffer (pb_encode_delimited d env (Some buf_write) flds src) (delimited_out (message_out d env flds src)) buf \<and>
    writes_buffer (pb_encode_nullterminated d env (Some buf_write) flds src) (out_then (message_out d env flds src) (Emits [0])) buf"
proof (intro conjI)
  note message = pb_buffer.emits_message [of d env flds src]
  show "writes_buffer (pb_encode d env (Some buf_write) flds src) (message_out d env flds src) buf"
    by (rule pb_encode_writes [OF assms])
  show "writes_buffer (pb_encode_delimited d env (Some buf_write) flds src) (delimited_out (message_out d env flds src)) buf"
    unfolding pb_encode_delimited_def
    by (rule emits_buffer [OF pb_buffer.emits_submessage delimited_out_small assms]) (rule message)
  have "pb_buffer.emits (\<lambda>sk. pb_encode_nullterminated d env sk flds src) (out_then (message_out d env flds src) (Emits [0]))"
    using pb_buffer.emits_then [OF message pb_buffer.emits_write_bytes [of "[0]"]]
    by (simp add: pb_encode_nullterminated_def write_bytes_def)
  then show "writes_buffer (pb_encode_nullterminated d env (Some buf_write) flds src) (out_then (message_out d env flds src) (Emits [0])) buf"
    by (rule emits_buffer [OF _ out_then_small assms])
qed

text \<open>
  C37: \<open>pb_get_encoded_size\<close> is the number of bytes that \<open>pb_encode\<close> writes: a message is encoded into
  a buffer exactly when the buffer is at least this large. It fails when the message cannot be encoded.
\<close>

theorem pb_get_encoded_size_exact:
  assumes "length buf < 2 ^ 62" and "message_out d env flds src \<noteq> Unknown"
  shows "\<exists>n ok s. pb_get_encoded_size d env st flds src = Some n \<and>
    pb_encode d env (Some buf_write) flds src (pb_ostream_from_buffer buf) = Some (ok, s) \<and>
    (ok \<longleftrightarrow> n \<noteq> None \<and> unat (the n) \<le> length buf) \<and> (ok \<longrightarrow> os_bytes_written s = the n)"
proof -
  note message = pb_buffer.emits_message [of d env flds src]
  note writes = pb_encode_writes [OF assms(1), of d env flds src]
  show ?thesis
  proof (cases "message_out d env flds src")
    case Unknown
    then show ?thesis using assms(2) by simp
  next
    case Fails
    then obtain s where "pb_encode d env None flds src (PB_OSTREAM_SIZING st) = Some (False, s)"
      using message by (auto simp: pb_buffer.emits_Fails refuses_def)
    then show ?thesis using writes Fails by (auto simp: writes_buffer_def pb_get_encoded_size_def)
  next
    case (Emits bs)
    note small = message_out_small [OF Emits]
    then have n: "unat (of_nat (length bs) :: u64) = length bs" by (simp add: unat_of_nat take_bit_nat_eq_self)
    obtain e where "pb_encode d env None flds src (PB_OSTREAM_SIZING st) =
        Some (True, (counted (PB_OSTREAM_SIZING st) (length bs))\<lparr>os_errmsg := e\<rparr>)"
      using pb_buffer.emits_counts [OF message [unfolded Emits] small] unfolding counts_def by blast
    then have size: "pb_get_encoded_size d env st flds src = Some (Some (of_nat (length bs)))"
      by (simp add: counted_def PB_OSTREAM_SIZING_def pb_get_encoded_size_def)
    show ?thesis
    proof (cases "length bs \<le> length buf")
      case True
      then obtain s where s: "pb_encode d env (Some buf_write) flds src (pb_ostream_from_buffer buf) = Some (True, s)"
        "unat (os_bytes_written s) = length bs" using writes Emits by (auto simp: writes_buffer_def)
      from s(2) n have "os_bytes_written s = of_nat (length bs)" by (simp add: word_unat_eq_iff)
      then show ?thesis using s(1) size n True by auto
    next
      case False
      then show ?thesis using writes size n Emits by (auto simp: writes_buffer_def)
    qed
  qed
qed

section \<open>An example\<close>

text \<open>
  A message with a number, a nested message and a string behind a pointer; the structure is at
  address 16, the string ``hi'' at 48.
\<close>

definition sample_inner :: "pb_field list" where
  "sample_inner = [\<lparr>pf_tag = 1, pf_type = 3, pf_data_offset = 0, pf_size_offset = 0, pf_data_size = 4, pf_array_size = 0, pf_ptr = Null_ptr\<rparr>,
     PB_LAST_FIELD]"

definition sample_fields :: "pb_field list" where
  "sample_fields = [\<lparr>pf_tag = 1, pf_type = 2, pf_data_offset = 0, pf_size_offset = 0, pf_data_size = 4, pf_array_size = 0, pf_ptr = Null_ptr\<rparr>,
     \<lparr>pf_tag = 2, pf_type = 0x08, pf_data_offset = 0, pf_size_offset = 0, pf_data_size = 4, pf_array_size = 0, pf_ptr = Fields_ptr 0\<rparr>,
     \<lparr>pf_tag = 17, pf_type = 0x97, pf_data_offset = 0, pf_size_offset = 0, pf_data_size = 8, pf_array_size = 0, pf_ptr = Null_ptr\<rparr>,
     PB_LAST_FIELD]"

definition sample_bytes :: "u8 list" where
  "sample_bytes = [0x96, 0, 0, 0, 0xfe, 0xff, 0xff, 0xff, 32, 0, 0, 0, 0, 0, 0, 0, 0x68, 0x69, 0]"

definition sample_env :: "'s pb_env" where
  "sample_env = \<lparr>pe_mem = (\<lambda>a. if 16 \<le> a \<and> unat a < 16 + length sample_bytes then Some (sample_bytes ! (unat a - 16)) else None),
     pe_fields = (\<lambda>_. sample_inner), pe_encode = (\<lambda>_ _ _ _. pb_ok), pe_ext_encode = (\<lambda>_ _ _. pb_ok), pe_ext_field = (\<lambda>_. None)\<rparr>"

lemma load_bytes_step: "0 < n \<Longrightarrow> load_bytes m a n = (case m a of None \<Rightarrow> None | Some b \<Rightarrow> map_option ((#) b) (load_bytes m (a + 1) (n - 1)))"
  by (cases n) (simp_all split: option.split)

lemma str_scan_step: "0 < n \<Longrightarrow> str_scan m p n = (case m p of None \<Rightarrow> None
        | Some c \<Rightarrow> if c = 0 then Some 0 else map_option Suc (str_scan m (p + 1) (n - 1)))"
  by (subst str_scan.simps) simp

lemma sample_loads:
  "load_u32 (pe_mem sample_env) 16 = Some 0x96" "load_u32 (pe_mem sample_env) 20 = Some (- 2)" "load_u64 (pe_mem sample_env) 24 = Some 32"
  "load_bytes (pe_mem sample_env) 32 2 = Some [0x68, 0x69]"
  "str_scan (pe_mem sample_env) 32 18446744073709551615 = Some 2" 
  by (simp_all add: load_bytes_step str_scan_step sample_env_def sample_bytes_def load_u64_def load_u32_def load_nat_def be_nat_def)


lemmas sample_defs = sample_loads terminated_def fields_out_def member_out_def field_out_def data_field_out_def field_at_def
  pb_types pb_wires iter_at.simps pb_field_iter_begin_def NULL_def PB_LAST_FIELD_def Let_def key_out_def wire_type_of_def
  value_out_def load_int_def out_load_def int_out_def out_then_def key_bytes_def emit_def delimited_out_def delimited_bytes_def
  size_address_def pb_field_iter_next_def field_extent_def field_present_def proto3_scalar_default_def submessage_out_def

lemma sample_varints:
  "varint_bytes 3 = [3]" "varint_bytes 2 = [2]" "varint_bytes 8 = [8]" "varint_bytes 0x12 = [0x12]" "varint_bytes 0x8a = [0x8a, 1]" "varint_bytes 0x96 = [0x96, 1]"
  "zigzag (- 2) = 3"
  by code_simp+

lemma sample_inner_message: "message_out (Suc 0) sample_env sample_inner 20 = Emits [8,3]"
  by (simp add: sample_inner_def sample_defs sample_varints) 

lemma sample_descriptor: "pe_fields sample_env i = sample_inner" by (simp add: sample_env_def)

lemma sample_iters: "it_pData (iter_at sample_fields 16 0) = 16" "it_pData (iter_at sample_fields 16 (Suc 0)) = 20" "it_pData (iter_at sample_fields 16 (Suc (Suc 0))) = 24"
  by (simp_all add: sample_fields_def sample_defs)
lemma sample_member_0: "member_out d sample_env sub (sample_fields ! 0) 16 = Emits [8, 0x96, 1]"
  by (simp add: sample_fields_def sample_defs load_uint_def sample_varints)
lemma sample_member_1: "member_out d sample_env (message_out (Suc 0) sample_env) (sample_fields ! Suc 0) 20 = Emits [0x12,2,8,3]"
  by (simp add: sample_fields_def sample_defs sample_descriptor sample_inner_message sample_varints del: message_out.simps)
lemma sample_member_2: "member_out (Suc d) sample_env sub (sample_fields ! Suc (Suc 0)) 24 = Emits [0x8a,1,2,0x68,0x69]"
  by (simp add: sample_fields_def sample_defs string_out_def text_out_def sample_varints)

lemma sample_message: "message_out (Suc (Suc 0)) sample_env sample_fields 16 = Emits [0x08, 0x96, 0x01, 0x12, 0x02, 0x08, 0x03, 0x8a, 0x01, 0x02, 0x68, 0x69]"
proof -
  have "terminated sample_fields" "length sample_fields - 1 = Suc (Suc (Suc 0))" by (simp_all add: sample_fields_def terminated_def PB_LAST_FIELD_def)
  then show ?thesis by (subst message_out.simps(2)) (simp add: fields_out_def sample_iters sample_member_0 sample_member_1 sample_member_2 out_then_def emit_def del: message_out.simps)
qed

theorem pb_encode_buffer_witness:
  "writes_buffer (pb_encode (Suc (Suc 0)) sample_env (Some buf_write) sample_fields 16)
    (Emits [0x08, 0x96, 0x01, 0x12, 0x02, 0x08, 0x03, 0x8a, 0x01, 0x02, 0x68, 0x69]) (replicate 16 0)"
  using pb_encode_buffer [of "replicate 16 0" "Suc (Suc 0)" sample_env sample_fields 16]
  by (simp add: sample_message del: message_out.simps)

theorem pb_get_encoded_size_exact_witness:
  "\<exists>n ok s. pb_get_encoded_size (Suc (Suc 0)) sample_env ([] :: u8 list, 0 :: nat) sample_fields 16 = Some n \<and>
    pb_encode (Suc (Suc 0)) sample_env (Some buf_write) sample_fields 16 (pb_ostream_from_buffer (replicate 12 0)) = Some (ok, s) \<and>
    (ok \<longleftrightarrow> n \<noteq> None \<and> unat (the n) \<le> 12) \<and> (ok \<longrightarrow> os_bytes_written s = the n)"
  using pb_get_encoded_size_exact [of "replicate 12 0" "Suc (Suc 0)" sample_env sample_fields 16 "([], 0)"]
  by (simp add: sample_message del: message_out.simps pb_encode.simps)

end
