(* ===== verification/Pb_Wire.thy ===== *)
theory Pb_Wire
  imports Pb_Decode_Spec Pb_Encode_Spec
begin

text \<open>
  Encoder and decoder agree on the wire format: whatever stands behind them in the input, the readers
  take the bytes of a value and return the value.
\<close>

section \<open>Bits\<close>

declare bit_numeral_word_iff [simp del]

lemma unzigzag_zigzag: "unzigzag (zigzag v) = v"
proof (rule bit_word_eqI)
  fix n assume "n < LENGTH(64)"
  then have n: "n < 64" by simp
  define x where "x = push_bit 1 v"
  have x: "bit x k \<longleftrightarrow> 0 < k \<and> k < 64 \<and> bit v (k - 1)" for k
    using bit_imp_le_length [of x k] unfolding x_def bit_push_bit_iff by auto
  have sign: "v <s 0 \<longleftrightarrow> bit v 63" using bit_last_iff [of v] by (simp add: word_sless_alt)
  have odd: "(w AND 1 \<noteq> 0) = bit w 0" for w :: u64 by (simp add: and_one_eq bit_0 odd_iff_mod_2_eq_one)
  show "bit (unzigzag (zigzag v)) n \<longleftrightarrow> bit v n"
    unfolding unzigzag_def zigzag_def odd x_def [symmetric] using n sign
    by (cases "n = 63") (auto simp: x bit_not_iff bit_drop_bit_eq)
qed

lemma bit_fixed_value:
  "bit (fixed_value bytes :: 'a::len word) k \<longleftrightarrow>
     k < LENGTH('a) \<and> (\<exists>i < length bytes. 8 * i \<le> k \<and> k - 8 * i < 8 \<and> bit (bytes ! i) (k - 8 * i))"
proof -
  have one: "bit (push_bit j (ucast b) OR w :: 'a word) k \<longleftrightarrow> k < LENGTH('a) \<and> j \<le> k \<and> k - j < 8 \<and> bit b (k - j) \<or> bit w k"
    for j w and b :: u8
    using bit_imp_le_length [of b "k - j"] by (auto simp: bit_or_iff bit_push_bit_iff bit_unsigned_iff)
  have "bit (foldr (\<lambda>i v. push_bit (8 * i) (ucast (bytes ! i)) OR v) is (0 :: 'a word)) k \<longleftrightarrow>
      k < LENGTH('a) \<and> (\<exists>i \<in> set is. 8 * i \<le> k \<and> k - 8 * i < 8 \<and> bit (bytes ! i) (k - 8 * i))" for "is"
    by (induction "is") (auto simp: one)
  then show ?thesis by (auto simp: fixed_value_def)
qed

lemma masks:
  "bit (0x7f :: 'a::len word) k \<longleftrightarrow> k < 7 \<and> k < LENGTH('a)"
  "bit (0xff :: 'a word) k \<longleftrightarrow> k < 8 \<and> k < LENGTH('a)"
  "bit (0x80 :: 'a word) k \<longleftrightarrow> k = 7 \<and> k < LENGTH('a)"
proof -
  have "(0x7f :: 'a::len word) = mask 7" "(0xff :: 'a word) = mask 8" "(0x80 :: 'a word) = push_bit 7 1"
    by (simp_all add: mask_eq_exp_minus_1)
  then show "bit (0x7f :: 'a::len word) k \<longleftrightarrow> k < 7 \<and> k < LENGTH('a)"
    "bit (0xff :: 'a word) k \<longleftrightarrow> k < 8 \<and> k < LENGTH('a)"
    "bit (0x80 :: 'a word) k \<longleftrightarrow> k = 7 \<and> k < LENGTH('a)"
    by (auto simp only: bit_mask_iff bit_push_bit_iff bit_1_iff possible_bit_word)
qed

lemma fixed_value_bytes:
  assumes "LENGTH('a) = 8 * n"
  shows "fixed_value (fixed_bytes n v) = (v :: 'a::len word)"
proof (rule bit_word_eqI)
  fix k assume k: "k < LENGTH('a)"
  then have i: "k div 8 < n" "8 * (k div 8) \<le> k" "k - 8 * (k div 8) < 8" using assms by auto
  have "bit (fixed_bytes n v ! i) (k - 8 * i) \<longleftrightarrow> bit v k" if "i < n" "8 * i \<le> k" "k - 8 * i < 8" for i
    using that k by (auto simp: fixed_bytes_def masks bit_unsigned_iff bit_and_iff bit_drop_bit_eq)
  then show "bit (fixed_value (fixed_bytes n v) :: 'a word) k \<longleftrightarrow> bit v k"
    using k i by (auto simp: bit_fixed_value)
qed

lemma bits_below:
  fixes v :: "'a::len word"
  assumes "unat v < 2 ^ n" and "bit v k"
  shows "k < n"
proof (rule ccontr)
  assume "\<not> k < n"
  moreover have "unat (drop_bit n v) = unat v div 2 ^ n" unfolding unat_drop_bit_eq by (rule drop_bit_eq_div)
  then have "drop_bit n v = 0" using assms(1) by (simp only: div_less unat_eq_0)
  then have "\<not> bit (drop_bit n v) (k - n)" by simp
  ultimately show False using assms(2) by (simp add: bit_drop_bit_eq)
qed

lemma small_bits: "unat (v :: u64) < 128 \<Longrightarrow> bit v k \<Longrightarrow> k < 7"
  using bits_below [of v 7 k] by simp

lemma low_bits: "unat v < 128 \<Longrightarrow> v AND 0x7f = (v :: u64)"
  by (rule bit_word_eqI) (auto simp: masks bit_and_iff dest: small_bits)

lemmas bytewise = masks bit_and_iff bit_or_iff bit_unsigned_iff

text \<open>The bytes of a number above 127: seven bits each, the last one without the mark.\<close>

definition varint_tail :: "u64 \<Rightarrow> u8 list" where
  "varint_tail v = butlast (varint_groups v) @ [last (varint_groups v) AND 0x7f]"

lemma varint_tail_step:
  assumes "v \<noteq> 0"
  shows "varint_tail v = (if drop_bit 7 v = 0 then [ucast v] else (ucast (v AND 0x7f) OR 0x80) # varint_tail (drop_bit 7 v))"
proof (cases "drop_bit 7 v = 0")
  case True
  then have v: "unat v < 128" by (simp add: drop_bit_eq_div word_unat_eq_iff unat_div_distrib)
  have "(ucast v OR 0x80) AND 0x7f = (ucast v :: u8)"
    using small_bits [OF v] by (intro bit_word_eqI) (auto simp: bytewise)
  then show ?thesis using True assms low_bits [OF v] by (simp add: varint_tail_def varint_groups_step)
next
  case False
  then show ?thesis using assms by (simp add: varint_tail_def varint_groups_step [of v] varint_groups_step [of "drop_bit 7 v"])
qed

lemma varint_bytes_cases: "varint_bytes v = (if unat v < 128 then [ucast v] else varint_tail v)"
  by (auto simp: varint_bytes_def varint_tail_def word_le_nat_alt Let_def)

lemma byte_bits:
  fixes v :: u64
  shows "(ucast (v AND 0x7f) OR 0x80 :: u8) AND 0x80 \<noteq> 0"
    and "ucast ((ucast (v AND 0x7f) OR 0x80 :: u8) AND 0x7f) = v AND 0x7f"
    and "ucast ((ucast (v AND 0x7f) OR 0x80 :: u8) AND 0x7f) = (ucast (v AND 0x7f) :: u32)"
    and "unat v < 128 \<Longrightarrow> (ucast v :: u8) AND 0x80 = 0"
    and "unat v < 128 \<Longrightarrow> ucast ((ucast v :: u8) AND 0x7f) = v"
    and "unat v < 128 \<Longrightarrow> ucast ((ucast v :: u8) AND 0x7f) = (ucast v :: u32)"
proof -
  have set: "bit (ucast (v AND 0x7f) OR 0x80 :: u8) k \<longleftrightarrow> k < 7 \<and> bit v k \<or> k = 7" if "k < 8" for k
    using that by (auto simp: bytewise)
  have marked: "bit ((ucast (v AND 0x7f) OR 0x80 :: u8) AND 0x7f) k \<longleftrightarrow> k < 7 \<and> bit v k" for k
    using set [of k] bit_imp_le_length [of "(ucast (v AND 0x7f) OR 0x80 :: u8) AND 0x7f" k] by (auto simp: masks bit_and_iff)
  show "(ucast (v AND 0x7f) OR 0x80 :: u8) AND 0x80 \<noteq> 0"
    using set [of 7] by (auto simp: bit_eq_iff masks(3) bit_and_iff intro!: exI [of _ 7])
  show "ucast ((ucast (v AND 0x7f) OR 0x80 :: u8) AND 0x7f) = v AND 0x7f"
    by (rule bit_word_eqI) (auto simp: bit_unsigned_iff marked, auto simp: bytewise)
  show "ucast ((ucast (v AND 0x7f) OR 0x80 :: u8) AND 0x7f) = (ucast (v AND 0x7f) :: u32)"
    by (rule bit_word_eqI) (auto simp: bit_unsigned_iff marked, auto simp: bytewise)
  assume "unat v < 128"
  note small = small_bits [OF this]
  show "(ucast v :: u8) AND 0x80 = 0" "ucast ((ucast v :: u8) AND 0x7f) = v" "ucast ((ucast v :: u8) AND 0x7f) = (ucast v :: u32)"
    using small by (intro bit_word_eqI; fastforce simp: bytewise)+
qed

section \<open>Varints\<close>

lemma unat_bitpos: "k < 256 \<Longrightarrow> unat (of_nat k :: u8) = k"
  by (simp add: unat_of_nat take_bit_nat_eq_self)

lemma split_bits:
  fixes r v :: "'a::len word"
  shows "r OR push_bit n (v AND mask 7) OR push_bit (n + 7) (drop_bit 7 v) = r OR push_bit n v"
proof (rule bit_word_eqI)
  fix k
  show "bit (r OR push_bit n (v AND mask 7) OR push_bit (n + 7) (drop_bit 7 v)) k \<longleftrightarrow> bit (r OR push_bit n v) k"
    by (cases "n + 7 \<le> k") (auto simp: bit_or_iff bit_push_bit_iff bit_and_iff bit_mask_iff bit_drop_bit_eq dest: bit_imp_le_length)
qed

lemma split_bits32:
  fixes r :: u32 and v :: u64
  shows "r OR push_bit n (ucast (v AND 0x7f)) OR push_bit (n + 7) (ucast (drop_bit 7 v)) = r OR push_bit n (ucast v)"
proof (rule bit_word_eqI)
  fix k
  show "bit (r OR push_bit n (ucast (v AND 0x7f)) OR push_bit (n + 7) (ucast (drop_bit 7 v))) k \<longleftrightarrow> bit (r OR push_bit n (ucast v)) k"
    by (cases "n + 7 \<le> k") (auto simp: bytewise bit_push_bit_iff bit_drop_bit_eq)
qed

lemma top_bits:
  fixes v :: u64
  assumes "unat v < 16"
  shows "(ucast v :: u8) AND 0x70 = 0"
proof -
  have high: "k < 4" if "bit v k" for k using bits_below [of v 4 k] assms that by simp
  have mask: "(0x70 :: u8) = push_bit 4 7" by simp
  have "4 \<le> k" if "bit (0x70 :: u8) k" for k using that unfolding mask by (simp only: bit_push_bit_iff)
  then show ?thesis using high by (intro bit_word_eqI) (auto simp: bit_and_iff bit_unsigned_iff not_less dest: leD)
qed

lemma low_mask: "(0x7f :: 'a::len word) = mask 7"
  by (simp add: mask_eq_exp_minus_1)

context pb_source
begin

lemma varint_loop_byte:
  assumes "unat bitpos < 64"
    and "reads pending (let result = result OR push_bit (unat bitpos) (ucast (byte AND 0x7f))
      in if byte AND 0x80 \<noteq> 0 then varint_loop inp (bitpos + 7) result else rd_return result) bs P"
  shows "reads pending (varint_loop inp bitpos result) (byte # bs) P"
proof -
  let ?next = "\<lambda>byte. let result = result OR push_bit (unat bitpos) (ucast (byte AND 0x7f))
      in if byte AND 0x80 \<noteq> 0 then varint_loop inp (bitpos + 7) result else rd_return result"
  have "varint_loop inp bitpos result = rd_bind (pb_readbyte inp) ?next"
    using assms(1) by (intro ext) (auto simp: varint_loop.simps [of inp bitpos] rd_bind_def rd_return_def word_le_nat_alt Let_def split: option.split)
  moreover have "reads pending (rd_bind (pb_readbyte inp) ?next) ([byte] @ bs) P"
    by (rule reads_bind [OF reads_readbyte]) (use assms(2) in simp)
  ultimately show ?thesis by simp
qed

lemma reads_varint_tail:
  "v \<noteq> 0 \<Longrightarrow> k < 64 \<Longrightarrow> unat v < 2 ^ (64 - k) \<Longrightarrow>
    reads pending (varint_loop inp (of_nat k) r) (varint_tail v) ((=) (r OR push_bit k v))"
proof (induction v arbitrary: k r rule: varint_groups.induct)
  case (1 v)
  have k: "unat (of_nat k :: u8) = k" using 1(3) by (simp add: unat_bitpos)
  show ?case
  proof (cases "drop_bit 7 v = 0")
    case True
    then have v: "unat v < 128" by (simp add: drop_bit_eq_div word_unat_eq_iff unat_div_distrib)
    show ?thesis using k 1(2,3) True byte_bits(4,5) [OF v]
      by (simp add: varint_tail_step, intro varint_loop_byte) (simp_all add: reads_return)
  next
    case False
    then have "128 \<le> unat v" by (simp add: drop_bit_eq_div word_unat_eq_iff unat_div_distrib)
    then have "(2 :: nat) ^ 7 < 2 ^ (64 - k)" using 1(4) by simp
    then have k7: "k + 7 < 64" using power_strict_increasing_iff [of "2 :: nat" 7 "64 - k"] by simp
    have "unat (drop_bit 7 v) = unat v div 128" by (simp add: drop_bit_eq_div unat_div_distrib)
    moreover have "unat v < 128 * 2 ^ (64 - (k + 7))" using 1(4) k7 power_add [of "2 :: nat" 7 "64 - (k + 7)"] by simp
    ultimately have "unat (drop_bit 7 v) < 2 ^ (64 - (k + 7))" by (simp add: div_less_iff_less_mult mult.commute)
    from 1(1) [OF 1(2) False k7 this, of "r OR push_bit k (v AND 0x7f)"]
    have "reads pending (varint_loop inp (of_nat k + 7) (r OR push_bit k (v AND 0x7f))) (varint_tail (drop_bit 7 v)) ((=) (r OR push_bit k v))"
      using split_bits [of r k v] by (simp add: low_mask or.assoc)
    then have "reads pending (varint_loop inp (of_nat k) r) ((ucast (v AND 0x7f) OR 0x80) # varint_tail (drop_bit 7 v)) ((=) (r OR push_bit k v))"
      using k 1(3) byte_bits(1,2) [of v] by (intro varint_loop_byte) simp_all
    then show ?thesis using varint_tail_step [OF 1(2)] False by simp
  qed
qed

lemma reads_varint: "reads pending (pb_decode_varint inp) (varint_bytes v) ((=) v)"
proof (cases "unat v < 128")
  case True
  then show ?thesis using byte_bits(4,5) [OF True] unfolding pb_decode_varint_def varint_bytes_cases
    by (simp, intro varint_loop_byte) (simp_all add: reads_return)
next
  case False
  then have "v \<noteq> 0" by auto
  moreover have "unat v < 2 ^ 64" using unsigned_less [of v] by simp
  ultimately show ?thesis using reads_varint_tail [of v 0 0] False by (simp add: pb_decode_varint_def varint_bytes_cases)
qed

lemma reads_svarint: "reads pending (pb_decode_svarint inp) (varint_bytes (zigzag v)) ((=) v)"
  unfolding pb_decode_svarint_def
  by (rule reads_bind_last [OF reads_varint]) (auto simp: unzigzag_zigzag intro: reads_return)

lemma reads_fixed32: "reads pending (pb_decode_fixed32 inp) (fixed_bytes 4 v) ((=) v)"
  unfolding pb_decode_fixed32_def
  by (rule reads_bind_last [OF reads_read]) (auto simp: length_fixed_bytes fixed_value_bytes intro: reads_return)

lemma reads_fixed64: "reads pending (pb_decode_fixed64 inp) (fixed_bytes 8 v) ((=) v)"
  unfolding pb_decode_fixed64_def
  by (rule reads_bind_last [OF reads_read]) (auto simp: length_fixed_bytes fixed_value_bytes intro: reads_return)

subsection \<open>Numbers of 32 bits\<close>

lemma varint32_loop_byte:
  assumes "unat bitpos < 32"
    and "reads pending (let result = result OR push_bit (unat bitpos) (ucast (byte AND 0x7f))
      in if byte AND 0x80 \<noteq> 0 then varint32_loop inp (bitpos + 7) result else rd_return (result, byte, bitpos + 7)) bs P"
  shows "reads pending (varint32_loop inp bitpos result) (byte # bs) P"
proof -
  let ?next = "\<lambda>byte. let result = result OR push_bit (unat bitpos) (ucast (byte AND 0x7f))
      in if byte AND 0x80 \<noteq> 0 then varint32_loop inp (bitpos + 7) result else rd_return (result, byte, bitpos + 7)"
  have "varint32_loop inp bitpos result = rd_bind (pb_readbyte inp) ?next"
    using assms(1) by (intro ext) (auto simp: varint32_loop.simps [of inp bitpos] rd_bind_def rd_return_def word_le_nat_alt Let_def split: option.split)
  moreover have "reads pending (rd_bind (pb_readbyte inp) ?next) ([byte] @ bs) P"
    by (rule reads_bind [OF reads_readbyte]) (use assms(2) in simp)
  ultimately show ?thesis by simp
qed

lemma reads_varint32_tail:
  "v \<noteq> 0 \<Longrightarrow> k < 32 \<Longrightarrow> unat v < 2 ^ (32 - k) \<Longrightarrow>
    reads pending (varint32_loop inp (of_nat k) r) (varint_tail v)
      (\<lambda>(result, byte, bitpos). result = r OR push_bit k (ucast v) \<and> (bitpos = 35 \<longrightarrow> byte AND 0x70 = 0))"
proof (induction v arbitrary: k r rule: varint_groups.induct)
  case (1 v)
  have k: "unat (of_nat k :: u8) = k" using 1(3) by (simp add: unat_bitpos)
  show ?case
  proof (cases "drop_bit 7 v = 0")
    case True
    then have v: "unat v < 128" by (simp add: drop_bit_eq_div word_unat_eq_iff unat_div_distrib)
    have last: "(ucast v :: u8) AND 0x70 = 0" if "(of_nat k + 7 :: u8) = 35"
    proof -
      have "unat (of_nat k + 7 :: u8) = k + 7" using k 1(3) by (simp add: unat_word_ariths)
      then have "k = 28" using that by simp
      then show ?thesis using 1(4) top_bits by simp
    qed
    show ?thesis using k 1(2,3) True byte_bits(4,6) [OF v] last
      by (simp add: varint_tail_step, intro varint32_loop_byte) (simp_all add: reads_return)
  next
    case False
    then have "128 \<le> unat v" by (simp add: drop_bit_eq_div word_unat_eq_iff unat_div_distrib)
    then have "(2 :: nat) ^ 7 < 2 ^ (32 - k)" using 1(4) by simp
    then have k7: "k + 7 < 32" using power_strict_increasing_iff [of "2 :: nat" 7 "32 - k"] by simp
    have "unat (drop_bit 7 v) = unat v div 128" by (simp add: drop_bit_eq_div unat_div_distrib)
    moreover have "unat v < 128 * 2 ^ (32 - (k + 7))" using 1(4) k7 power_add [of "2 :: nat" 7 "32 - (k + 7)"] by simp
    ultimately have "unat (drop_bit 7 v) < 2 ^ (32 - (k + 7))" by (simp add: div_less_iff_less_mult mult.commute)
    from 1(1) [OF 1(2) False k7 this, of "r OR push_bit k (ucast (v AND 0x7f))"]
    have "reads pending (varint32_loop inp (of_nat k + 7) (r OR push_bit k (ucast (v AND 0x7f)))) (varint_tail (drop_bit 7 v))
        (\<lambda>(result, byte, bitpos). result = r OR push_bit k (ucast v) \<and> (bitpos = 35 \<longrightarrow> byte AND 0x70 = 0))"
      using split_bits32 [of r k v] by (simp add: or.assoc)
    then have "reads pending (varint32_loop inp (of_nat k) r) ((ucast (v AND 0x7f) OR 0x80) # varint_tail (drop_bit 7 v))
        (\<lambda>(result, byte, bitpos). result = r OR push_bit k (ucast v) \<and> (bitpos = 35 \<longrightarrow> byte AND 0x70 = 0))"
      using k 1(3) byte_bits(1,3) [of v] by (intro varint32_loop_byte) simp_all
    then show ?thesis using varint_tail_step [OF 1(2)] False by simp
  qed
qed

lemma varint32_reader:
  "pb_decode_varint32 inp = rd_bind (pb_readbyte inp) (\<lambda>byte. if byte AND 0x80 = 0 then rd_return (ucast byte)
     else rd_bind (varint32_loop inp 7 (ucast (byte AND 0x7f))) (\<lambda>(result, byte, bitpos).
       if bitpos = 35 \<and> byte AND 0x70 \<noteq> 0 then rd_error ''varint overflow'' else rd_return result))"
  by (rule ext) (auto simp: pb_decode_varint32_def pb_decode_varint32_eof_def rd_bind_def rd_return_def rd_error_def
      split: option.split prod.split)

lemma reads_varint32: "reads pending (pb_decode_varint32 inp) (varint_bytes (ucast v)) ((=) v)"
proof -
  have v: "unat (ucast v :: u64) = unat v" "ucast (ucast v :: u64) = v" "unat v < 2 ^ 32"
    using unsigned_less [of v] by (simp, intro bit_word_eqI, auto simp: bit_unsigned_iff)
  show ?thesis
  proof (cases "unat v < 128")
    case True
    then have small: "unat (ucast v :: u64) < 128" using v by simp
    have "ucast (ucast (ucast v :: u64) :: u8) = v"
      using bits_below [of v 7] True by (intro bit_word_eqI) (fastforce simp: bit_unsigned_iff)
    then show ?thesis unfolding varint32_reader varint_bytes_cases if_P [OF small]
      by (intro reads_bind_last [OF reads_readbyte]) (use byte_bits(4) [OF small] in \<open>auto intro: reads_return\<close>)
  next
    case False
    define w :: u64 where "w = ucast v"
    have unat_w: "unat w = unat v" by (simp add: w_def)
    have "unat (drop_bit 7 w) = unat v div 2 ^ 7" unfolding unat_drop_bit_eq unat_w by (rule drop_bit_eq_div)
    then have w: "w \<noteq> 0" "drop_bit 7 w \<noteq> 0" "unat (drop_bit 7 w) < 2 ^ 25" "unat w \<ge> 128"
      using False v(3) unat_w by auto
    have "reads pending (varint32_loop inp 7 (ucast (w AND 0x7f))) (varint_tail (drop_bit 7 w))
        (\<lambda>(result, byte, bitpos). result = v \<and> (bitpos = 35 \<longrightarrow> byte AND 0x70 = 0))"
      using reads_varint32_tail [of "drop_bit 7 w" 7 "ucast (w AND 0x7f)"] w(2,3) split_bits32 [of 0 0 w] v(2) by (simp add: w_def)
    then have "reads pending (pb_decode_varint32 inp) ([ucast (w AND 0x7f) OR 0x80] @ varint_tail (drop_bit 7 w)) ((=) v)"
      unfolding varint32_reader using byte_bits(1,3) [of w]
      by (intro reads_bind [OF reads_readbyte]) (auto intro!: reads_bind_last reads_return)
    moreover have "varint_bytes w = [ucast (w AND 0x7f) OR 0x80] @ varint_tail (drop_bit 7 w)"
      using w varint_tail_step [OF w(1)] by (simp add: varint_bytes_cases)
    ultimately show ?thesis by (simp add: w_def)
  qed
qed

lemma varint32_not_eof:
  assumes "pb_decode_varint32 inp s = Some (Some v, s')"
  shows "pb_decode_varint32_eof inp s = Some (Some v, False, s')"
  using assms by (auto simp: pb_decode_varint32_def pb_decode_varint32_eof_def rd_error_def split: option.splits prod.splits if_splits)

text \<open>A field number has 29 bits.\<close>

lemma tag_reads:
  assumes "unat wire_type < 8" and "unat tag < 2 ^ 29" and "wire_type \<noteq> 0 \<or> tag \<noteq> 0"
    and "istream_ok pending s" and "stream_input pending s = key_bytes wire_type tag @ rest"
  shows "\<exists>s'. pb_decode_tag inp s = Some (Some (wire_type, tag), False, s') \<and> passed pending (length (key_bytes wire_type tag)) s s'"
proof -
  define key where "key = push_bit 3 tag OR wire_type"
  have type_bits: "k < 3" if "bit wire_type k" for k using bits_below [of wire_type 3 k] assms(1) that by simp
  have tag_bits: "k < 29" if "bit tag k" for k using bits_below [of tag 29 k] assms(2) that by simp
  have key64: "push_bit 3 (ucast tag) OR ucast wire_type = (ucast key :: u64)"
    unfolding key_def by (rule bit_word_eqI) (auto simp: bit_or_iff bit_push_bit_iff bit_unsigned_iff dest: tag_bits)
  have seven: "(7 :: u32) = mask 3" by (simp add: mask_eq_exp_minus_1)
  have "key AND 7 = wire_type" unfolding key_def seven
    by (rule bit_word_eqI) (auto simp: bit_or_iff bit_push_bit_iff bit_and_iff bit_mask_iff dest: type_bits)
  moreover have tag: "drop_bit 3 key = tag" unfolding key_def
    by (rule bit_word_eqI) (auto simp: bit_or_iff bit_push_bit_iff bit_drop_bit_eq dest: type_bits tag_bits)
  moreover have "key \<noteq> 0" using assms(3) calculation by (auto simp: seven)
  moreover obtain s' where "pb_decode_varint32 inp s = Some (Some key, s')" "passed pending (length (key_bytes wire_type tag)) s s'"
    using readsE [OF reads_varint32 [of key] assms(4)] assms(5) by (auto simp: key_bytes_def key64)
  ultimately show ?thesis using varint32_not_eof by (auto simp: pb_decode_tag_def)
qed

end

end
