(* ===== verification/Pb_Round_Trip.thy ===== *)
theory Pb_Round_Trip
  imports Pb_Wire
begin

text \<open>
  The values of fields: what the encoder of a type makes of the bytes of a field, the decoder of the
  type turns back into these bytes.
\<close>

section \<open>Stores and loads\<close>

lemma unat_u32_less: "unat (n :: u32) < 4294967296"
  using unsigned_less [of n] by simp

lemma region_disjoint:
  assumes "k + n \<le> 2 ^ 64"
  shows "region p k \<inter> region (p + of_nat k) n = {}"
proof -
  have "False" if "i < k" "j < n" "p + of_nat i = p + of_nat k + of_nat j" for i j
  proof -
    have "(of_nat i :: u64) = of_nat (k + j)" using that(3) by (simp add: add.assoc)
    then have "unat (of_nat i :: u64) = unat (of_nat (k + j) :: u64)" by simp
    then have "i = k + j" using that(1,2) assms by (simp add: unat_of_nat take_bit_nat_eq_self del: of_nat_add)
    then show False using that(1) by simp
  qed
  then show ?thesis by (auto simp: region_def)
qed

lemma load_frame: "frame A m m' \<Longrightarrow> region p n \<inter> A = {} \<Longrightarrow> load_bytes m' p n = load_bytes m p n"
proof (induction n arbitrary: p)
  case (Suc n)
  then have "load_bytes m' (p + 1) n = load_bytes m (p + 1) n" "m' p = m p" by (auto simp: region_Suc frame_def)
  then show ?case by (simp cong: option.case_cong)
qed simp

lemma load_bytes_add:
  "load_bytes m p (k + n) = (case load_bytes m p k of None \<Rightarrow> None | Some bs \<Rightarrow> map_option ((@) bs) (load_bytes m (p + of_nat k) n))"
proof (induction k arbitrary: p)
  case 0
  then show ?case by (cases "load_bytes m p n") simp_all
next
  case (Suc k)
  then show ?case by (auto simp: add.assoc option.map_comp comp_def intro!: option.map_cong split: option.split)
qed

lemma store_bytes_load:
  assumes "allocated (region p (length bs)) m" and "length bs \<le> 2 ^ 64"
  shows "\<exists>m'. store_bytes m p bs = Some m' \<and> frame (region p (length bs)) m m' \<and> load_bytes m' p (length bs) = Some bs"
  using assms
proof (induction bs arbitrary: p m)
  case (Cons b bs)
  have fr: "frame {p} m (m(p \<mapsto> b))" by (simp add: frame_def)
  have "allocated (region (p + 1) (length bs)) (m(p \<mapsto> b))"
    using frame_allocated [OF fr] Cons.prems(1) by (auto simp: region_Suc allocated_def)
  then obtain m' where m': "store_bytes (m(p \<mapsto> b)) (p + 1) bs = Some m'" "frame (region (p + 1) (length bs)) (m(p \<mapsto> b)) m'"
    "load_bytes m' (p + 1) (length bs) = Some bs" using Cons by fastforce
  have "p \<notin> region (p + 1) (length bs)" using region_disjoint [of 1 "length bs" p] Cons.prems(2) by (auto simp: region_Suc)
  then have "m' p = Some b" using m'(2) by (simp add: frame_def)
  moreover have "frame (region p (length (b # bs))) m m'" using m'(2) by (auto simp: frame_def region_Suc)
  ultimately show ?case using m' Cons.prems(1) by (auto simp: allocated_def region_Suc)
qed simp

lemma store_le_load:
  assumes "be_nat (rev bs) = unat v mod 256 ^ length bs"
  shows "store_le (length bs) p v m = store_bytes m p bs"
proof -
  have "be_bytes (length bs) (unat v) = rev bs" using be_bytes_eq_iff [of "rev bs" "length bs" "unat v"] assms by simp
  then show ?thesis by (simp add: store_le_def)
qed

section \<open>Decoders that fill a field\<close>

text \<open>\<open>f\<close> takes \<open>bs\<close> from any input and leaves \<open>v\<close> at \<open>dest\<close>, where enough memory is allocated.\<close>

definition fills :: "('s \<Rightarrow> u8 list) \<Rightarrow> 's pb_decoder \<Rightarrow> u8 list \<Rightarrow> u64 \<Rightarrow> u8 list \<Rightarrow> bool" where
  "fills pending f bs dest v \<longleftrightarrow> (\<forall>s rest m. istream_ok pending s \<longrightarrow> stream_input pending s = bs @ rest \<longrightarrow>
     allocated (region dest (length v)) m \<longrightarrow>
     (\<exists>s' m'. f s m = Some (True, s', m') \<and> passed pending (length bs) s s' \<and> frame (region dest (length v)) m m' \<and>
        load_bytes m' dest (length v) = Some v))"

lemma fillsI:
  assumes "\<And>s rest m. istream_ok pending s \<Longrightarrow> stream_input pending s = bs @ rest \<Longrightarrow> allocated (region dest (length v)) m \<Longrightarrow>
    \<exists>s' m'. f s m = Some (True, s', m') \<and> passed pending (length bs) s s' \<and> frame (region dest (length v)) m m' \<and>
      load_bytes m' dest (length v) = Some v"
  shows "fills pending f bs dest v"
  using assms by (auto simp: fills_def)

lemma fillsE:
  assumes "fills pending f bs dest v" and "istream_ok pending s" and "stream_input pending s = bs @ rest"
    and "allocated (region dest (length v)) m"
  obtains s' m' where "f s m = Some (True, s', m')" "passed pending (length bs) s s'" "frame (region dest (length v)) m m'"
    "load_bytes m' dest (length v) = Some v"
  using assms unfolding fills_def by blast

lemma fills_read:
  assumes g: "reads pending g bs P" and k: "\<And>x. P x \<Longrightarrow> fills pending (k x) cs dest v"
  shows "fills pending (dec_read g k) (bs @ cs) dest v"
proof (rule fillsI)
  fix s rest m assume s: "istream_ok pending s" "stream_input pending s = (bs @ cs) @ rest" and m: "allocated (region dest (length v)) m"
  from g s(1) obtain x s1 where 1: "g s = Some (Some x, s1)" "P x" "passed pending (length bs) s s1"
    using s(2) by (auto elim!: readsE)
  have "stream_input pending s1 = cs @ rest" "istream_ok pending s1" using passed_ok [OF 1(3) s(1)] s(2) by simp_all
  then obtain s2 m2 where 2: "k x s1 m = Some (True, s2, m2)" "passed pending (length cs) s1 s2" "frame (region dest (length v)) m m2"
    "load_bytes m2 dest (length v) = Some v" using fillsE [OF k [OF 1(2)] _ _ m] by blast
  show "\<exists>s' m'. dec_read g k s m = Some (True, s', m') \<and> passed pending (length (bs @ cs)) s s' \<and> frame (region dest (length v)) m m' \<and>
      load_bytes m' dest (length v) = Some v"
    using 1(1) 2 passed_trans [OF 1(3) 2(2)] by (simp add: dec_read_def)
qed

lemma fills_read_last: "reads pending g bs P \<Longrightarrow> (\<And>x. P x \<Longrightarrow> fills pending (k x) [] dest v) \<Longrightarrow> fills pending (dec_read g k) bs dest v"
  using fills_read [of pending g bs P k "[]"] by simp

lemma fills_store: "length v \<le> 2 ^ 64 \<Longrightarrow> fills pending (dec_update (\<lambda>m. store_bytes m dest v)) [] dest v"
  by (rule fillsI) (use store_bytes_load in \<open>fastforce simp: dec_update_def\<close>)

lemma fills_store_le:
  assumes "be_nat (rev v) = unat x mod 256 ^ length v" and "n = length v" and "n \<le> 8"
  shows "fills pending (dec_update (store_le n dest x)) [] dest v"
  using fills_store [of v pending dest] store_le_load [OF assms(1)] assms(2,3) by (simp add: dec_update_def [abs_def])

text \<open>Two parts of a field.\<close>

lemma fills_then:
  assumes f: "fills pending f bs dest v" and g: "fills pending g cs (dest + of_nat (length v)) w"
    and size: "length v + length w \<le> 2 ^ 64"
  shows "fills pending (dec_then f g) (bs @ cs) dest (v @ w)"
proof (rule fillsI)
  fix s rest m assume s: "istream_ok pending s" "stream_input pending s = (bs @ cs) @ rest" and m: "allocated (region dest (length (v @ w))) m"
  let ?rest = "region (dest + of_nat (length v)) (length w)"
  have split: "region dest (length (v @ w)) = region dest (length v) \<union> ?rest" using region_split [of dest "length v"] by simp
  then have m12: "allocated (region dest (length v)) m" "allocated ?rest m" using m by (auto simp: allocated_def)
  obtain s1 m1 where 1: "f s m = Some (True, s1, m1)" "passed pending (length bs) s s1" "frame (region dest (length v)) m m1"
    "load_bytes m1 dest (length v) = Some v" using fillsE [OF f s(1) _ m12(1)] s(2) by auto
  have "stream_input pending s1 = cs @ rest" "istream_ok pending s1" using passed_ok [OF 1(2) s(1)] s(2) by simp_all
  then obtain s2 m2 where 2: "g s1 m1 = Some (True, s2, m2)" "passed pending (length cs) s1 s2" "frame ?rest m1 m2"
    "load_bytes m2 (dest + of_nat (length v)) (length w) = Some w" using fillsE [OF g _ _ frame_allocated [OF 1(3) m12(2)]] by blast
  have "load_bytes m2 dest (length v) = Some v" using load_frame [OF 2(3) region_disjoint [OF size]] 1(4) by simp
  then have "load_bytes m2 dest (length (v @ w)) = Some (v @ w)" using 2(4) by (simp add: load_bytes_add)
  moreover have "frame (region dest (length (v @ w))) m m2" using 1(3) 2(3) unfolding split by (auto simp: frame_def)
  ultimately show "\<exists>s' m'. dec_then f g s m = Some (True, s', m') \<and> passed pending (length (bs @ cs)) s s' \<and>
      frame (region dest (length (v @ w))) m m' \<and> load_bytes m' dest (length (v @ w)) = Some (v @ w)"
    using 1(1) 2(1) passed_trans [OF 1(2) 2(2)] by (simp add: dec_then_def)
qed

section \<open>Integers\<close>

lemma ucast_scast_small: "LENGTH('a) \<le> 64 \<Longrightarrow> ucast (scast w :: u64) = (w :: 'a::len word)"
proof (rule bit_word_eqI)
  fix n assume "LENGTH('a) \<le> 64" and "n < LENGTH('a)"
  then show "bit (ucast (scast w :: u64) :: 'a word) n = bit w n"
    by (cases "n = LENGTH('a) - 1") (auto simp: bit_unsigned_iff bit_signed_iff min_def)
qed

lemma ucast_ucast_small: "LENGTH('a) \<le> 64 \<Longrightarrow> ucast (ucast w :: u64) = (w :: 'a::len word)"
  by (rule bit_word_eqI) (auto simp: bit_unsigned_iff)

lemma scast_32: "LENGTH('a) \<le> 32 \<Longrightarrow> scast (ucast (scast (w :: 'a::len word) :: u64) :: 32 word) = (scast w :: u64)"
  by (rule bit_word_eqI) (auto simp: bit_unsigned_iff bit_signed_iff min_def)

lemma unat_low: "unat (ucast x :: 'a::len word) = unat (x :: u64) mod 2 ^ LENGTH('a)"
  by (simp add: unsigned_ucast_eq take_bit_eq_mod)

lemma int_bytes:
  assumes "load_bytes m src (unat n) = Some v" and "load_int m n src = Some (Some x)"
  shows "length v = unat n" and "unat n \<le> 8" and "be_nat (rev v) = unat x mod 256 ^ length v" and "clamp_signed n x = Some x"
    and "(if n = 8 then x else scast (ucast x :: 32 word)) = x"
proof -
  show len: "length v = unat n" using assms(1) by (rule length_load_bytes)
  have less: "be_nat (rev v) < 256 ^ length v" using be_nat_less [of "rev v"] by simp
  have one: "load_u8 m src = Some (of_nat (be_nat (rev v)))" if "n = 1"
    using assms(1) that by (auto simp: load_u8_def split: option.splits)
  consider (b1) "n = 1" "x = scast (of_nat (be_nat (rev v)) :: u8)" | (b2) "n = 2" "x = scast (of_nat (be_nat (rev v)) :: 16 word)"
    | (b4) "n = 4" "x = scast (of_nat (be_nat (rev v)) :: u32)" | (b8) "n = 8" "x = of_nat (be_nat (rev v))"
    using assms one by (auto simp: load_int_def load_u16_def load_u32_def load_u64_def load_nat_def split: if_splits)
  then have "unat n \<le> 8 \<and> be_nat (rev v) = unat x mod 256 ^ length v \<and> clamp_signed n x = Some x \<and>
      (if n = 8 then x else scast (ucast x :: 32 word)) = x"
  proof cases
    case b1
    then show ?thesis using len less unat_low [where 'a = 8, of x] ucast_scast_small [where 'a = 8]
      by (simp add: clamp_signed_def scast_32 unat_of_nat take_bit_nat_eq_self)
  next
    case b2
    then show ?thesis using len less unat_low [where 'a = 16, of x] ucast_scast_small [where 'a = 16]
      by (simp add: clamp_signed_def scast_32 unat_of_nat take_bit_nat_eq_self)
  next
    case b4
    then show ?thesis using len less unat_low [where 'a = 32, of x] ucast_scast_small [where 'a = 32]
      by (simp add: clamp_signed_def scast_32 unat_of_nat take_bit_nat_eq_self)
  next
    case b8
    then show ?thesis using len less by (simp add: clamp_signed_def unat_of_nat take_bit_nat_eq_self)
  qed
  then show "unat n \<le> 8" "be_nat (rev v) = unat x mod 256 ^ length v" "clamp_signed n x = Some x"
    "(if n = 8 then x else scast (ucast x :: 32 word)) = x" by blast+
qed

lemma uint_bytes:
  assumes "load_bytes m src (unat n) = Some v" and "load_uint m n src = Some (Some x)"
  shows "length v = unat n" and "unat n \<le> 8" and "be_nat (rev v) = unat x mod 256 ^ length v" and "clamp_unsigned n x = Some x"
proof -
  show len: "length v = unat n" using assms(1) by (rule length_load_bytes)
  have less: "be_nat (rev v) < 256 ^ length v" using be_nat_less [of "rev v"] by simp
  have one: "load_u8 m src = Some (of_nat (be_nat (rev v)))" if "n = 1"
    using assms(1) that by (auto simp: load_u8_def split: option.splits)
  consider (b1) "n = 1" "x = ucast (of_nat (be_nat (rev v)) :: u8)" | (b2) "n = 2" "x = ucast (of_nat (be_nat (rev v)) :: 16 word)"
    | (b4) "n = 4" "x = ucast (of_nat (be_nat (rev v)) :: u32)" | (b8) "n = 8" "x = of_nat (be_nat (rev v))"
    using assms one by (auto simp: load_uint_def load_u16_def load_u32_def load_u64_def load_nat_def split: if_splits)
  then have "unat n \<le> 8 \<and> be_nat (rev v) = unat x mod 256 ^ length v \<and> clamp_unsigned n x = Some x"
  proof cases
    case b1
    then show ?thesis using len less unat_low [where 'a = 8, of x] ucast_ucast_small [where 'a = 8]
      by (simp add: clamp_unsigned_def unat_of_nat take_bit_nat_eq_self)
  next
    case b2
    then show ?thesis using len less unat_low [where 'a = 16, of x] ucast_ucast_small [where 'a = 16]
      by (simp add: clamp_unsigned_def unat_of_nat take_bit_nat_eq_self)
  next
    case b4
    then show ?thesis using len less unat_low [where 'a = 32, of x] ucast_ucast_small [where 'a = 32]
      by (simp add: clamp_unsigned_def unat_of_nat take_bit_nat_eq_self)
  next
    case b8
    then show ?thesis using len less by (simp add: clamp_unsigned_def unat_of_nat take_bit_nat_eq_self)
  qed
  then show "unat n \<le> 8" "be_nat (rev v) = unat x mod 256 ^ length v" "clamp_unsigned n x = Some x" by blast+
qed

lemma fills_checked:
  assumes "length v = unat n" and "unat n \<le> 8" and "be_nat (rev v) = unat x mod 256 ^ length v"
  shows "fills pending (store_checked n (Some x) x dest) [] dest v"
proof -
  have "fills pending (dec_update (store_le (unat n) dest x)) [] dest v" using assms by (intro fills_store_le) simp_all
  moreover have "fills pending dec_ok [] (dest + of_nat (length v)) []" by (simp add: fills_def dec_ok_def)
  ultimately have "fills pending (dec_then (dec_update (store_le (unat n) dest x)) dec_ok) ([] @ []) dest (v @ [])"
    by (rule fills_then) (use assms in simp)
  then show ?thesis by (simp add: store_checked_def)
qed

section \<open>Values\<close>

text \<open>
  How many bytes of a static field its value takes: a boolean is 0 or 1, a byte array has its size in
  front and fits the field, and so does a string with its end.
\<close>

definition value_size :: "pb_mem \<Rightarrow> pb_field \<Rightarrow> u64 \<Rightarrow> nat option" where
  "value_size m f src =
     (let ltype = PB_LTYPE (pf_type f); n = unat (pf_data_size f)
      in if ltype = PB_LTYPE_BOOL then (case m src of Some b \<Rightarrow> if b \<le> 1 then Some 1 else None | None \<Rightarrow> None)
         else if ltype \<in> {PB_LTYPE_VARINT, PB_LTYPE_UVARINT, PB_LTYPE_SVARINT} then Some n
         else if ltype = PB_LTYPE_FIXED32 then Some 4
         else if ltype = PB_LTYPE_FIXED64 then Some 8
         else if ltype = PB_LTYPE_BYTES then
           (case load_u32 m src of Some k \<Rightarrow> if 4 + unat k \<le> n then Some (4 + unat k) else None | None \<Rightarrow> None)
         else if ltype = PB_LTYPE_STRING then
           (case str_scan m src n of Some k \<Rightarrow> if k < n then Some (Suc k) else None | None \<Rightarrow> None)
         else if ltype = PB_LTYPE_FIXED_LENGTH_BYTES then Some n
         else None)"

lemma value_size_cases:
  assumes "value_size m f src = Some n"
  obtains (bool) "PB_LTYPE (pf_type f) = PB_LTYPE_BOOL" | (int) "PB_LTYPE (pf_type f) = PB_LTYPE_VARINT"
    | (uint) "PB_LTYPE (pf_type f) = PB_LTYPE_UVARINT" | (sint) "PB_LTYPE (pf_type f) = PB_LTYPE_SVARINT"
    | (fixed32) "PB_LTYPE (pf_type f) = PB_LTYPE_FIXED32" | (fixed64) "PB_LTYPE (pf_type f) = PB_LTYPE_FIXED64"
    | (bytes) "PB_LTYPE (pf_type f) = PB_LTYPE_BYTES" | (str) "PB_LTYPE (pf_type f) = PB_LTYPE_STRING"
    | (fixed) "PB_LTYPE (pf_type f) = PB_LTYPE_FIXED_LENGTH_BYTES"
  using assms by (auto simp: value_size_def Let_def split: if_splits)

lemma not_max: "\<not> PB_SIZE_MAX < n"
  by (simp add: PB_SIZE_MAX_def)

lemma str_scan_end: "str_scan m p n = Some k \<Longrightarrow> k < n \<Longrightarrow> m (p + of_nat k) = Some 0"
proof (induction m p n arbitrary: k rule: str_scan.induct)
  case (1 m p n)
  then show ?case by (subst (asm) str_scan.simps) (auto simp: add.assoc split: if_splits option.splits)
qed

lemma string_out_Emits:
  "string_out bytes = Emits bs \<Longrightarrow> \<exists>data. bytes = Some data \<and> bs = varint_bytes (of_nat (length data)) @ data"
  by (auto simp: string_out_def out_load_def delimited_out_def delimited_bytes_def emit_def split: option.splits if_splits)

context pb_source
begin

lemma fills_read_into:
  assumes "pd_in denv = inp" and "length data = unat n"
  shows "fills pending (read_into denv p n) data p data"
proof -
  have "unat n < 2 ^ 64" by simp
  then have "length data \<le> 2 ^ 64" using assms(2) by linarith
  then show ?thesis unfolding read_into_def assms(1)
    by (intro fills_read_last [OF reads_read [OF assms(2)]]) (auto intro: fills_store)
qed

lemma fills_string:
  assumes "pd_in denv = inp" and len: "length data = unat n" "unat n < 2 ^ 32"
  shows "fills pending (read_string denv dest n) data dest (data @ [0])"
proof -
  have n: "of_nat (length data) = n" using len by simp
  have "fills pending (dec_update (\<lambda>m. store_bytes m (dest + of_nat (length data)) [0])) [] (dest + of_nat (length data)) [0]"
    by (rule fills_store) simp
  then have "fills pending (dec_then (read_into denv dest n) (dec_update (\<lambda>m. store_bytes m (dest + n) [0]))) (data @ []) dest (data @ [0])"
    using fills_then [OF fills_read_into [OF assms(1) len(1)]] len unfolding n by fastforce
  moreover have "read_string denv dest n s m = Some (True, s', m')"
    if "dec_then (read_into denv dest n) (dec_update (\<lambda>m. store_bytes m (dest + n) [0])) s m = Some (True, s', m')" for s m s' m'
    using that by (auto simp: dec_then_def read_string_def dec_update_def split: option.splits if_splits)
  ultimately show ?thesis unfolding fills_def append_Nil2 by meson
qed

lemma fills_bytes:
  fixes k :: u32
  assumes "pd_in denv = inp" and "PB_ATYPE (pf_type f) = PB_ATYPE_STATIC" and fits: "4 + unat k \<le> unat (pf_data_size f)"
    and v: "length v = 4" "be_nat (rev v) = unat k" and data: "length data = unat k"
  shows "fills pending (pb_dec_bytes denv f dest) (varint_bytes (ucast k) @ data) dest (v @ data)"
proof -
  have "fills pending (dec_then (dec_update (store_le 4 dest (ucast k))) (read_into denv (dest + 4) (ucast k))) ([] @ data) dest (v @ data)"
  proof (rule fills_then)
    have "unat k < 2 ^ 32" using unat_u32_less [of k] by simp
    then show "fills pending (dec_update (store_le 4 dest (ucast k))) [] dest v" "length v + length data \<le> 2 ^ 64"
      using v data by (auto intro!: fills_store_le)
    show "fills pending (read_into denv (dest + 4) (ucast k)) data (dest + of_nat (length v)) data"
      using fills_read_into [OF assms(1), of data "ucast k" "dest + 4"] data v(1) by simp
  qed
  moreover have "unat (ucast k + 4 :: u64) = unat k + 4"
    using unat_u32_less [of k] by (simp add: unat_word_ariths)
  ultimately show ?thesis using fits assms(2) unfolding pb_dec_bytes_def assms(1)
    by (intro fills_read [OF reads_varint32])
      (auto simp: Let_def PB_BYTES_ARRAY_T_ALLOCSIZE_def word_less_nat_alt not_max [unfolded word_less_nat_alt] PB_ATYPE_STATIC_def PB_ATYPE_POINTER_def)
qed

lemma fills_text:
  assumes "pd_in denv = inp" and "PB_ATYPE (pf_type f) = PB_ATYPE_STATIC" and fits: "k < unat (pf_data_size f)" and data: "length data = k"
  shows "fills pending (pb_dec_string denv f dest) (varint_bytes (of_nat k) @ data) dest (data @ [0])"
proof -
  have k: "k + 1 < 2 ^ 32" using fits unat_u32_less [of "pf_data_size f"] by simp
  define n :: u32 where "n = of_nat k"
  have n: "unat n = k" "unat (n + 1) = k + 1" "ucast n = (of_nat k :: u64)"
    using k by (simp_all add: n_def unat_of_nat take_bit_nat_eq_self unat_word_ariths word_unat_eq_iff)
  have "fills pending (read_string denv dest (ucast n)) data dest (data @ [0])"
    using fills_string [OF assms(1), of data "ucast n"] data n(1) k by simp
  then show ?thesis using fits assms(2) n k unfolding pb_dec_string_def assms(1) n(3) [symmetric]
    by (intro fills_read [OF reads_varint32])
      (auto simp: Let_def word_less_nat_alt PB_ATYPE_STATIC_def PB_ATYPE_POINTER_def)
qed

lemma fills_fixed_length:
  assumes "pd_in denv = inp" and data: "length data = unat (pf_data_size f)"
  shows "fills pending (pb_dec_fixed_length_bytes denv f dest) (varint_bytes (of_nat (length data)) @ data) dest data"
proof -
  have n: "(of_nat (length data) :: u64) = ucast (pf_data_size f)" using data by (simp add: word_unat_eq_iff)
  have "fills pending (read_into denv dest (ucast (pf_data_size f))) data dest data"
    by (rule fills_read_into [OF assms(1)]) (use data in simp)
  moreover have "fills pending (dec_update (\<lambda>m. store_bytes m dest (replicate (unat (pf_data_size f)) 0))) data dest data" if "pf_data_size f = 0"
    using fills_store [of "[]" pending dest] data that by simp
  ultimately show ?thesis unfolding pb_dec_fixed_length_bytes_def assms(1) n
    by (intro fills_read [OF reads_varint32]) (auto simp: not_max)
qed

lemma fills_scalars:
  assumes env: "pd_in denv = inp"
  shows "load_int m (pf_data_size f) src = Some (Some x) \<Longrightarrow> load_bytes m src (unat (pf_data_size f)) = Some v \<Longrightarrow>
      fills pending (pb_dec_varint denv f dest) (varint_bytes x) dest v"
    and "load_int m (pf_data_size f) src = Some (Some x) \<Longrightarrow> load_bytes m src (unat (pf_data_size f)) = Some v \<Longrightarrow>
      fills pending (pb_dec_svarint denv f dest) (varint_bytes (zigzag x)) dest v"
    and "load_uint m (pf_data_size f) src = Some (Some x) \<Longrightarrow> load_bytes m src (unat (pf_data_size f)) = Some v \<Longrightarrow>
      fills pending (pb_dec_uvarint denv f dest) (varint_bytes x) dest v"
    and "b \<le> 1 \<Longrightarrow> fills pending (pb_dec_bool denv f dest) (varint_bytes (if b \<noteq> 0 then 1 else 0)) dest [b]"
proof -
  assume x: "load_int m (pf_data_size f) src = Some (Some x)" and v: "load_bytes m src (unat (pf_data_size f)) = Some v"
  note bytes = int_bytes [OF v x]
  show "fills pending (pb_dec_varint denv f dest) (varint_bytes x) dest v"
    unfolding pb_dec_varint_def env by (rule fills_read_last [OF reads_varint])
      (use bytes in \<open>auto simp: Let_def intro!: fills_checked split: if_splits\<close>)
  show "fills pending (pb_dec_svarint denv f dest) (varint_bytes (zigzag x)) dest v"
    unfolding pb_dec_svarint_def env by (rule fills_read_last [OF reads_svarint]) (use bytes in \<open>auto intro!: fills_checked\<close>)
next
  assume x: "load_uint m (pf_data_size f) src = Some (Some x)" and v: "load_bytes m src (unat (pf_data_size f)) = Some v"
  note bytes = uint_bytes [OF v x]
  show "fills pending (pb_dec_uvarint denv f dest) (varint_bytes x) dest v"
    unfolding pb_dec_uvarint_def env by (rule fills_read_last [OF reads_varint]) (use bytes in \<open>auto intro!: fills_checked\<close>)
next
  assume "b \<le> 1"
  then have b: "(if b \<noteq> 0 then 1 else 0) = b" by (auto simp: word_le_nat_alt word_unat_eq_iff)
  have "fills pending (dec_read (pb_decode_varint32 inp) (\<lambda>value. dec_update (\<lambda>m. store_bytes m dest [if value \<noteq> 0 then 1 else 0])))
      (varint_bytes (ucast (if b \<noteq> 0 then 1 else 0 :: u32))) dest [b]"
    by (rule fills_read_last [OF reads_varint32]) (use fills_store [of "[b]" pending dest] b in auto)
  then show "fills pending (pb_dec_bool denv f dest) (varint_bytes (if b \<noteq> 0 then 1 else 0)) dest [b]"
    by (auto simp: pb_dec_bool_def env split: if_splits)
qed

text \<open>The decoder of a type undoes its encoder.\<close>

lemma fills_value:
  assumes env: "pd_in denv = inp" and static: "PB_ATYPE (pf_type f) = PB_ATYPE_STATIC" and "src \<noteq> NULL"
    and size: "value_size (pe_mem env) f src = Some n" and v: "load_bytes (pe_mem env) src n = Some v"
    and out: "value_out env sub f src = Emits bs"
  shows "fills pending (PB_DECODERS denv decode f dest) bs dest v"
proof -
  let ?m = "pe_mem env" and ?ltype = "PB_LTYPE (pf_type f)"
  from size show ?thesis
  proof (cases rule: value_size_cases)
    case bool
    then obtain b where b: "?m src = Some b" "b \<le> 1" "v = [b]"
      using size v by (auto simp: value_size_def split: option.splits if_splits)
    then show ?thesis using fills_scalars(4) [OF env b(2), of f dest] bool out
      by (simp add: value_out_def PB_DECODERS_def safe_read_bool_def load_u8_def out_load_def int_out_def split: if_splits)
  next
    case int
    then obtain x where "load_int ?m (pf_data_size f) src = Some (Some x)" "bs = varint_bytes x"
      using out by (auto simp: value_out_def pb_ltypes out_load_def int_out_def split: option.splits)
    then show ?thesis using fills_scalars(1) [OF env] int size v by (simp add: PB_DECODERS_def value_size_def pb_ltypes)
  next
    case uint
    then obtain x where "load_uint ?m (pf_data_size f) src = Some (Some x)" "bs = varint_bytes x"
      using out by (auto simp: value_out_def pb_ltypes out_load_def int_out_def split: option.splits)
    then show ?thesis using fills_scalars(3) [OF env] uint size v by (simp add: PB_DECODERS_def value_size_def pb_ltypes)
  next
    case sint
    then obtain x where "load_int ?m (pf_data_size f) src = Some (Some x)" "bs = varint_bytes (zigzag x)"
      using out by (auto simp: value_out_def pb_ltypes out_load_def int_out_def split: option.splits)
    then show ?thesis using fills_scalars(2) [OF env] sint size v by (simp add: PB_DECODERS_def value_size_def pb_ltypes)
  next
    case fixed32
    then have n: "n = 4" "length v = 4" using size length_load_bytes [OF v] by (auto simp: value_size_def pb_ltypes)
    have "be_nat (rev v) < 256 ^ 4" using be_nat_less [of "rev v"] n(2) by simp
    then have "fills pending (dec_update (store_le 4 dest (ucast (of_nat (be_nat (rev v)) :: u32)))) [] dest v"
      using n by (intro fills_store_le) (simp_all add: unat_of_nat take_bit_nat_eq_self)
    then have "fills pending (pb_dec_fixed32 denv f dest) (fixed_bytes 4 (of_nat (be_nat (rev v)) :: u32)) dest v"
      unfolding pb_dec_fixed32_def env by (intro fills_read_last [OF reads_fixed32]) auto
    then show ?thesis using fixed32 out v n(1)
      by (simp add: PB_DECODERS_def value_out_def pb_ltypes out_load_def load_u32_def load_nat_def)
  next
    case fixed64
    then have n: "n = 8" "length v = 8" using size length_load_bytes [OF v] by (auto simp: value_size_def pb_ltypes)
    have "be_nat (rev v) < 256 ^ 8" using be_nat_less [of "rev v"] n(2) by simp
    then have "fills pending (dec_update (store_le 8 dest (of_nat (be_nat (rev v)) :: u64))) [] dest v"
      using n by (intro fills_store_le) (simp_all add: unat_of_nat take_bit_nat_eq_self)
    then have "fills pending (pb_dec_fixed64 denv f dest) (fixed_bytes 8 (of_nat (be_nat (rev v)) :: u64)) dest v"
      unfolding pb_dec_fixed64_def env by (intro fills_read_last [OF reads_fixed64]) auto
    then show ?thesis using fixed64 out v n(1)
      by (simp add: PB_DECODERS_def value_out_def pb_ltypes out_load_def load_u64_def load_nat_def)
  next
    case bytes
    then obtain k where k: "load_u32 ?m src = Some k" "4 + unat k \<le> unat (pf_data_size f)" "n = 4 + unat k"
      using size by (auto simp: value_size_def pb_ltypes Let_def split: option.splits if_splits)
    then have "string_out (load_bytes ?m (src + 4) (unat k)) = Emits bs"
      using out bytes assms(3) by (auto simp: value_out_def pb_ltypes bytes_out_def out_load_def split: if_splits)
    then obtain data where data: "load_bytes ?m (src + 4) (unat k) = Some data" "bs = varint_bytes (of_nat (length data)) @ data"
      using string_out_Emits by blast
    obtain v4 where v4: "load_bytes ?m src 4 = Some v4" "v = v4 @ data"
      using v data(1) unfolding k(3) load_bytes_add by (auto split: option.splits)
    have "length v4 = 4" using length_load_bytes [OF v4(1)] .
    moreover have "be_nat (rev v4) = unat k"
      using k(1) v4(1) be_nat_less [of "rev v4"] \<open>length v4 = 4\<close> by (auto simp: load_u32_def load_nat_def unat_of_nat take_bit_nat_eq_self)
    moreover have len: "length data = unat k" using length_load_bytes [OF data(1)] .
    ultimately have "fills pending (pb_dec_bytes denv f dest) (varint_bytes (ucast k) @ data) dest (v4 @ data)"
      by (intro fills_bytes [OF env static k(2)])
    moreover have "(of_nat (length data) :: u64) = ucast k" using len by (simp add: word_unat_eq_iff)
    ultimately show ?thesis using bytes data(2) v4(2) by (simp add: PB_DECODERS_def pb_ltypes)
  next
    case str
    then obtain k where k: "str_scan ?m src (unat (pf_data_size f)) = Some k" "k < unat (pf_data_size f)" "n = k + 1"
      using size by (auto simp: value_size_def pb_ltypes Let_def split: option.splits if_splits)
    then have "string_out (load_bytes ?m src k) = Emits bs"
      using out str assms(3) static
      by (auto simp: value_out_def pb_ltypes text_out_def out_load_def PB_ATYPE_STATIC_def PB_ATYPE_POINTER_def)
    then obtain data where data: "load_bytes ?m src k = Some data" "bs = varint_bytes (of_nat (length data)) @ data"
      using string_out_Emits by blast
    then have "v = data @ [0]" using v str_scan_end [OF k(1,2)] unfolding k(3) load_bytes_add by simp
    then show ?thesis using fills_text [OF env static k(2) length_load_bytes [OF data(1)], of dest] str data
      by (simp add: PB_DECODERS_def pb_ltypes length_load_bytes)
  next
    case fixed
    then have n: "n = unat (pf_data_size f)" using size by (simp add: value_size_def pb_ltypes)
    have "string_out (Some v) = Emits bs" using out fixed v n by (simp add: value_out_def pb_ltypes)
    then have "bs = varint_bytes (of_nat (length v)) @ v" using string_out_Emits by blast
    then show ?thesis using fills_fixed_length [OF env, of v f dest] fixed length_load_bytes [OF v] n
      by (simp add: PB_DECODERS_def pb_ltypes)
  qed
qed

end

section \<open>Buffers\<close>

lemma varint_small [simp]: "length (varint_bytes v) < 4611686018427387904"
  using length_varint_bytes [of v] by linarith

lemma value_out_small: "value_out env (\<lambda>_ _. Unknown) f src = Emits bs \<Longrightarrow> length bs < 2 ^ 62"
  by (auto simp: value_out_def Let_def out_load_def int_out_def bytes_out_def text_out_def string_out_def submessage_out_def
      length_fixed_bytes dest!: delimited_out_small split: if_splits option.splits pb_ptr.splits)

lemma string_out_known: "length bs < 2 ^ 32 \<Longrightarrow> string_out (Some bs) \<noteq> Unknown"
  using length_varint_bytes [of "of_nat (length bs)"]
  by (simp add: string_out_def out_load_def delimited_out_def delimited_bytes_def emit_def)

lemma load_ints_known:
  assumes "load_bytes m src (unat n) = Some v"
  shows "load_int m n src \<noteq> None" and "load_uint m n src \<noteq> None"
proof -
  have "load_u8 m src \<noteq> None" if "n = 1" using assms that by (auto simp: load_u8_def split: option.splits)
  then show "load_int m n src \<noteq> None" "load_uint m n src \<noteq> None"
    using assms by (auto simp: load_int_def load_uint_def load_u16_def load_u32_def load_u64_def load_nat_def)
qed

lemma value_out_known:
  assumes "value_size (pe_mem env) f src = Some n" and "load_bytes (pe_mem env) src n = Some v"
    and "PB_ATYPE (pf_type f) = PB_ATYPE_STATIC" and "src \<noteq> NULL"
  shows "value_out env sub f src \<noteq> Unknown"
proof -
  let ?m = "pe_mem env"
  note ints = load_ints_known [of ?m src "pf_data_size f" v]
  have part: "\<exists>data. load_bytes ?m (src + of_nat k) j = Some data" if "n = k + j" for k j
    using assms(2) unfolding that load_bytes_add by (auto split: option.splits)
  from assms(1) show ?thesis
  proof (cases rule: value_size_cases)
    case bool
    then show ?thesis using assms(1) by (auto simp: value_size_def value_out_def safe_read_bool_def load_u8_def out_load_def int_out_def
        split: option.splits)
  next
    case fixed32
    then show ?thesis using assms(1,2) by (auto simp: value_size_def value_out_def pb_ltypes out_load_def load_u32_def load_nat_def)
  next
    case fixed64
    then show ?thesis using assms(1,2) by (auto simp: value_size_def value_out_def pb_ltypes out_load_def load_u64_def load_nat_def)
  next
    case bytes
    then obtain k where k: "load_u32 ?m src = Some k" "n = 4 + unat k"
      using assms(1) by (auto simp: value_size_def pb_ltypes Let_def split: option.splits if_splits)
    then obtain data where data: "load_bytes ?m (src + 4) (unat k) = Some data" using part [of 4] by auto
    then have "string_out (Some data) \<noteq> Unknown" using length_load_bytes [OF data] unat_u32_less [of k] by (intro string_out_known) simp
    then show ?thesis using bytes k(1) data assms(4) by (auto simp: value_out_def pb_ltypes bytes_out_def out_load_def)
  next
    case str
    then obtain k where k: "str_scan ?m src (unat (pf_data_size f)) = Some k" "k < unat (pf_data_size f)" "n = k + 1"
      using assms(1) by (auto simp: value_size_def pb_ltypes Let_def split: option.splits if_splits)
    then obtain data where data: "load_bytes ?m src k = Some data" using assms(2) unfolding k(3) load_bytes_add by (auto split: option.splits)
    then have "string_out (Some data) \<noteq> Unknown"
      using length_load_bytes [OF data] unat_u32_less [of "pf_data_size f"] k(2) by (intro string_out_known) simp
    then show ?thesis using str k(1) data assms(3,4)
      by (auto simp: value_out_def pb_ltypes text_out_def out_load_def PB_ATYPE_STATIC_def PB_ATYPE_POINTER_def)
  next
    case fixed
    then have "n = unat (pf_data_size f)" using assms(1) by (simp add: value_size_def pb_ltypes)
    moreover from this have "string_out (Some v) \<noteq> Unknown"
      using length_load_bytes [OF assms(2)] unat_u32_less [of "pf_data_size f"] by (intro string_out_known) simp
    ultimately show ?thesis using fixed assms(2) by (simp add: value_out_def pb_ltypes)
  qed (use assms(1,2) ints in \<open>auto simp: value_size_def value_out_def pb_ltypes out_load_def int_out_def split: option.splits\<close>)
qed

text \<open>A buffer after a writer that succeeded.\<close>

lemma buffer_after:
  assumes enc: "pb_buffer.emits g (Emits bs)" and small: "length bs < 2 ^ 62" and "length buf < 2 ^ 62"
    and run: "g (Some buf_write) (pb_ostream_from_buffer buf) = Some (True, os)"
  shows "length (fst (os_state os)) = length buf \<and> take (length bs) (fst (os_state os)) = bs \<and> unat (os_bytes_written os) = length bs"
proof -
  note ok = stream_ok_buffer [OF assms(3)]
  have "length bs \<le> length buf"
    using pb_buffer.emits_refuses [OF enc small, of "pb_ostream_from_buffer buf"] ok run by (fastforce simp: refuses_def not_less)
  then have "accepts (\<lambda>(buf, pos). take pos buf) (\<lambda>(buf, pos). length buf - pos) (g (Some buf_write)) bs (pb_ostream_from_buffer buf)"
    using pb_buffer.emits_accepts [OF enc small] ok by simp
  then obtain b p e where os: "os = (counted (pb_ostream_from_buffer buf) (length bs))\<lparr>os_state := (b, p), os_errmsg := e\<rparr>"
    and got: "take p b = bs" "length b - p + length bs = length buf"
    using run by (auto simp: accepts_def received_def pb_ostream_from_buffer_def)
  have "length b = length buf \<and> take (length bs) b = bs"
  proof (cases "p \<le> length b")
    case True
    then have "length bs = p" using arg_cong [OF got(1), of length] by simp
    then show ?thesis using True got by simp
  next
    case False
    then have "bs = b" using got(1) by simp
    then show ?thesis using False got(2) by simp
  qed
  then show ?thesis using os small by (simp add: counted_def pb_ostream_from_buffer_def unat_of_nat take_bit_nat_eq_self)
qed

text \<open>
  C5: for a static field of a boolean, integer, fixed-size, byte array, string or fixed-length byte type
  (not a submessage), the decoder undoes the encoder on every value that has a size (\<open>value_size\<close>): a boolean
  stored as 0 or 1, a number of any width, a byte array whose count fits the field, a string that ends within
  the field. When the encoder of the field writes such a value at \<open>src\<close> into a buffer, the decoder reads it back
  from this buffer into any memory that has room for it: it succeeds, the bytes of the value (the count of a
  byte array and the end of a string included) are at \<open>dest\<close> as they were at \<open>src\<close>, memory outside these
  bytes is as it was, and exactly the bytes that the encoder wrote are taken from the stream. The other values do
  not all come back: a boolean byte above 1 is decoded to 1, and a string without an end is encoded and
  then refused (\<open>unterminated_string_refused\<close>).
\<close>

theorem pb_value_round_trip:
  assumes "PB_ENCODERS env encode (Some buf_write) f src (pb_ostream_from_buffer buf) = Some (True, os)" and "length buf < 2 ^ 62"
    and "PB_ATYPE (pf_type f) = PB_ATYPE_STATIC" and "src \<noteq> NULL"
    and "value_size (pe_mem env) f src = Some n" and "load_bytes (pe_mem env) src n = Some v"
    and "pd_in denv = buf_input" and "allocated (region dest n) m"
  shows "\<exists>is m'. PB_DECODERS denv decode f dest (pb_istream_from_buffer (fst (os_state os))) m = Some (True, is, m') \<and>
    load_bytes m' dest n = Some v \<and> (\<forall>a. a \<notin> region dest n \<longrightarrow> m' a = m a) \<and>
    unat (is_bytes_left is) + unat (os_bytes_written os) = length buf"
proof -
  have enc: "pb_buffer.emits (\<lambda>sk. PB_ENCODERS env encode sk f src) (value_out env (\<lambda>_ _. Unknown) f src)"
    by (rule pb_buffer.emits_value) simp
  note ok = stream_ok_buffer [OF assms(2)]
  obtain bs where bs: "value_out env (\<lambda>_ _. Unknown) f src = Emits bs"
  proof (cases "value_out env (\<lambda>_ _. Unknown) f src")
    case Fails
    then have "refuses (PB_ENCODERS env encode (Some buf_write) f src) (pb_ostream_from_buffer buf)" using enc ok by (simp add: pb_buffer.emits_Fails)
    then show thesis using assms(1) by (simp add: refuses_def)
  qed (use value_out_known [OF assms(5,6,3,4)] in auto)
  obtain b where b: "fst (os_state os) = b" "length b = length buf" "take (length bs) b = bs" "unat (os_bytes_written os) = length bs"
    using buffer_after [OF enc [unfolded bs] value_out_small [OF bs] assms(2,1)] by blast
  define is0 where "is0 = pb_istream_from_buffer b"
  have is0: "istream_ok buf_pending is0" "stream_input buf_pending is0 = bs @ drop (length bs) b"
    using buffer_ok [of b] b assms(2) append_take_drop_id [of "length bs" b]
    by (simp_all add: is0_def stream_input_def buf_pending_def pb_istream_from_buffer_def unat_of_nat take_bit_nat_eq_self)
  have left: "unat (is_bytes_left is0) = length buf"
    using b(2) assms(2) by (simp add: is0_def pb_istream_from_buffer_def unat_of_nat take_bit_nat_eq_self)
  have v: "length v = n" using length_load_bytes [OF assms(6)] .
  obtain s' m' where "PB_DECODERS denv decode f dest is0 m = Some (True, s', m')" "passed buf_pending (length bs) is0 s'"
    "frame (region dest n) m m'" "load_bytes m' dest n = Some v"
    using fillsE [OF buf_source.fills_value [OF assms(7,3,4,5,6) bs] is0] assms(8) unfolding v by blast
  then show ?thesis using b(1,4) left by (auto simp: is0_def frame_def passed_def)
qed

text \<open>
  A string that fills its field without an end: the encoder of a field of three bytes writes the three
  characters, and the decoder of the same field refuses them.
\<close>

definition sample_text_field :: pb_field where
  "sample_text_field = \<lparr>pf_tag = 1, pf_type = 0x07, pf_data_offset = 0, pf_size_offset = 0, pf_data_size = 3, pf_array_size = 0, pf_ptr = Null_ptr\<rparr>"

definition sample_text_env :: "'s pb_env" where
  "sample_text_env = sample_env\<lparr>pe_mem := (\<lambda>_. Some 0x61)\<rparr>"

lemma unterminated_string_refused:
  "map_option (\<lambda>(ok, os). (ok, take 4 (fst (os_state os))))
      (PB_ENCODERS sample_text_env (\<lambda>_ _ _. pb_ok) (Some buf_write) sample_text_field 16 (pb_ostream_from_buffer [0, 0, 0, 0])) =
     Some (True, [3, 0x61, 0x61, 0x61])"
  "map_option fst
      (PB_DECODERS sample_denv (\<lambda>_ _ _. dec_ok) sample_text_field 4096 (pb_istream_from_buffer [3, 0x61, 0x61, 0x61]) (\<lambda>_. Some 0)) =
     Some False"
  by code_simp+

lemma sample_encodes:
  "\<exists>os. PB_ENCODERS sample_env (\<lambda>_ _ _. pb_ok) (Some buf_write) (sample_fields ! 0) 16 (pb_ostream_from_buffer [0, 0, 0]) = Some (True, os)"
  by (simp add: PB_ENCODERS_def pb_enc_uvarint_def pb_load_def load_uint_def sample_defs sample_fields_def pb_types Let_def
      pb_encode_varint_def write_bytes_def sample_varints pb_write_def pb_ostream_from_buffer_def buf_write_def write_at_def)

theorem pb_value_round_trip_witness:
  "\<exists>os is m'. PB_ENCODERS sample_env (\<lambda>_ _ _. pb_ok) (Some buf_write) (sample_fields ! 0) 16 (pb_ostream_from_buffer [0, 0, 0]) = Some (True, os) \<and>
     PB_DECODERS sample_denv (\<lambda>_ _ _. dec_ok) (sample_fields ! 0) 4096 (pb_istream_from_buffer (fst (os_state os))) sample_space_mem = Some (True, is, m') \<and>
     load_bytes m' 4096 4 = Some [0x96, 0, 0, 0]"
proof -
  obtain os where os: "PB_ENCODERS sample_env (\<lambda>_ _ _. pb_ok) (Some buf_write) (sample_fields ! 0) 16 (pb_ostream_from_buffer [0, 0, 0]) = Some (True, os)"
    using sample_encodes by blast
  have f: "PB_ATYPE (pf_type (sample_fields ! 0)) = PB_ATYPE_STATIC" "value_size m (sample_fields ! 0) 16 = Some 4" for m
    by (simp_all add: value_size_def sample_fields_def pb_types)
  have v: "load_bytes (pe_mem sample_env) 16 4 = Some [0x96, 0, 0, 0]"
    by (simp add: load_bytes_step sample_env_def sample_bytes_def)
  have m: "allocated (region 4096 4) sample_space_mem" "pd_in sample_denv = buf_input"
    using sample_regions(1) by (auto simp: allocated_def sample_space_mem_def sample_denv_def)
  from pb_value_round_trip [OF os _ f(1) _ f(2) v m(2,1), of "\<lambda>_ _ _. dec_ok"] show ?thesis
    using os by (auto simp: NULL_def)
qed

end
