(* ===== verification/Spec2Isabelle.thy ===== *)
theory Spec2Isabelle
  imports Cbb_Lock Int_Spec Unicode Ber Oid Set_Of Stack Pool Base64 Err Bio_Run Bio_Mem_Spec Pb_Round_Trip
begin

text \<open>
  The repository is an iOS application whose C code is what its pods vendor. Of that code the
  development models two libraries: the foundation layer of BoringSSL-GRPC (directory
  src/DuplicatedApps/Pods/BoringSSL-GRPC/src; paths below are relative to its crypto/), the parts on
  which its ASN.1, X.509 and TLS code is built, and which own their data structures; and the whole of
  nanopb (directory src/DuplicatedApps/Pods/nanopb), the protocol buffers codec under Firestore and the
  Google data transport, which decodes what servers send.

  Parts, theories and sources.

  \<^item> \<open>Prelude\<close>: the integer types of an LP64 build as words, big-endian byte strings, and the
    interfaces of parsers (\<open>suffix_reader\<close>, \<open>atomic_reader\<close>: the rest is a suffix, and the whole
    input after a failure) and of encodings (\<open>codec\<close>: the decoder undoes the encoder whatever
    follows), with their consequences.
  \<^item> \<open>Mem\<close>: mem.c. A block is the list of its bytes; the system allocator is a parameter, a
    function from the request size, so a theorem holds for allocators that serve, refuse or serve
    some sizes only. C strings are byte lists up to the end of their object.
  \<^item> \<open>Cbs\<close>, \<open>Der\<close>: bytestring/cbs.c. A \<open>CBS\<close> is the list of the bytes it covers, a reader a
    function from it to a result and the bytes left. \<open>Der\<close> states the encodings (base-128, identifier
    and length octets, elements, integers) and shows that the readers accept these and nothing else.
  \<^item> \<open>Cbb\<close>, \<open>Cbb_Spec\<close>, \<open>Cbb_Ops\<close>, \<open>Cbb_Asn1\<close>, \<open>Cbb_Run\<close>, \<open>Cbb_Lock\<close>: bytestring/cbb.c. The
    state is the shared buffer and the chain of open children; a \<open>CBB *\<close> is its depth in the chain.
    Abstractly the chain is a list of frames; \<open>cbb_repr\<close> relates the two, \<open>implements\<close> is the
    simulation each operation is shown to satisfy, \<open>locks\<close> the discipline of the error flag.
  \<^item> \<open>Int_Spec\<close>: uniqueness of INTEGER contents.
  \<^item> \<open>Unicode\<close>: bytestring/unicode.c, the four character encodings as codecs.
  \<^item> \<open>Ber\<close>: bytestring/ber.c, the walk that looks for BER and the converter, which writes through
    the builder.
  \<^item> \<open>Oid\<close>: object identifiers as dotted decimal text, from cbb.c and cbs.c.
  \<^item> \<open>Qsort\<close>: the contract of a C comparison function (\<open>comparison\<close>) with \<open>qsort\<close> and the binary
    search; used by \<open>Set_Of\<close>, the ordering of a SET OF in cbb.c, and by \<open>Stack\<close>, stack/stack.c. The
    contract is discharged for the order of encodings and for \<open>by_dir_hash_cmp\<close> of x509/by_dir.c.
  \<^item> \<open>Lhash\<close>: lhash/lhash.c, with the contract of a hash and its equality (\<open>hashing\<close>); \<open>Pool\<close>:
    pool/pool.c and refcount_lock.c, which keep their buffers in such a table and discharge it.
  \<^item> \<open>Constant_Time\<close>: the masks of internal.h; \<open>Base64\<close>: base64/base64.c, whose tables are
    replaced by arithmetic on them.
  \<^item> \<open>Err\<close>: err/err.c, the error queue of a thread.
  \<^item> \<open>Refcount\<close>: refcount_lock.c, used by \<open>Pool\<close> and \<open>Bio\<close>.
  \<^item> \<open>Bio_State\<close>: the objects of bio/ and the state its calls share, a store of \<open>BIO\<close>s with the error
    queue; a call that would fail an assertion has no result. \<open>Bio_Pair\<close>: bio/pair.c, with the
    interface of a byte queue (\<open>byte_fifo\<close>) discharged for its ring; \<open>Buf\<close>: buf/buf.c; \<open>Bio_Mem\<close>:
    bio/bio_mem.c; \<open>Bio\<close>, \<open>Bio_Asn1\<close>: bio/bio.c, whose virtual calls are a case distinction on the
    two method tables that live in memory. \<open>Bio_Run\<close> relates a pair to two bounded queues,
    \<open>Bio_Mem_Spec\<close> a memory \<open>BIO\<close> to its contents.
  \<^item> \<open>Pb_State\<close>: pb.h, the field descriptors of nanopb and the memory its messages live in, bytes at
    64-bit addresses, some allocated; an access to any other byte has no result. \<open>Pb_Common\<close>:
    pb_common.c, the iterator over the fields of a message, and where it is after any search.
  \<^item> \<open>Pb_Encode\<close>: pb_encode.c. \<open>Pb_Output\<close> is the interface of an output stream (\<open>pb_output\<close>): a function
    that writes denotes bytes, a stream with room receives them, a smaller one refuses, a sizing stream
    counts them. \<open>Pb_Encode_Spec\<close> gives the bytes of a message and discharges the interface for buffers.
  \<^item> \<open>Pb_Istream\<close>: the streams and the readers of wire values of pb_decode.c. \<open>Pb_Input\<close> is the interface
    of an input stream (\<open>pb_source\<close>): the callback hands out the pending bytes in order; every reader
    then returns and stays in the stream. \<open>Pb_Decode\<close>: the rest of pb_decode.c; \<open>Pb_Decode_Safe\<close> extends
    the interface by a writable and a readable region of memory (\<open>pb_space\<close>), with rules for decoders
    that stay in them, \<open>Pb_Message_Safe\<close> applies them to the loop over a message and its nesting, and
    \<open>Pb_Decode_Spec\<close> discharges both interfaces for buffers. \<open>Pb_Wire\<close> and \<open>Pb_Round_Trip\<close> compose the
    encoder with the decoder: wire values, and the values of fields.

  What the theorems show. Readers accept exactly the canonical encodings (C-numbered statements on
  DER elements, base-128, INTEGER and UTF-8). The builder computes the message its calls denote, fails
  only where there is none or memory is short, and a failed call locks it. The converter of BER returns DER
  and always returns. Stacks, hash tables, the buffer pool and the error queue refine a list with a
  sorted flag, a partial map, a reference count for each holder, and a bounded queue; a BIO pair refines two
  bounded byte queues, a memory BIO is one, and its element reader agrees with the one of cbs.c. Base64,
  identifiers and characters round trip. The encoder of nanopb writes the bytes a message denotes and
  predicts their number; its decoder, on a message of static fields, always returns and touches no
  memory outside the structure, whatever the input; static fields of
  every type but submessages round trip where the value has a size. One theorem records an input that the
  BER converter misses. Lemmas evaluate other cases where the code does not do what it means to or what
  its documentation says: \<open>sk_set_hides_element\<close> (\<open>Stack\<close>), \<open>decode_block_keeps_minus\<close> (\<open>Base64\<close>),
  \<open>bio_read_asn1_minus_two\<close> (\<open>Bio_Mem_Spec\<close>), \<open>varint32_wraps\<close>, \<open>fixed_count_overrun\<close> and
  \<open>empty_message_written\<close> (\<open>Pb_Decode_Spec\<close>); \<open>unterminated_string_refused\<close> (\<open>Pb_Round_Trip\<close>) is a value
  that nanopb encodes and does not decode.

  Bounds and fuel. \<open>max_message\<close> is the length up to which the builder is shown to succeed, chosen so
  that doubling the capacity cannot overflow; \<open>kMaxDepth\<close> is the code's limit. Every recursion of the
  model terminates by a measure except \<open>cbs_convert_ber\<close> and \<open>implicit_string_loop\<close>, which count
  fuel, and \<open>pop_to_mark_loop\<close>, which has 16; one unit for each input byte and one more is enough for
  the first (\<open>convert_ber_terminates\<close>), 16 for the last because the ring has 16 slots. The loops over
  streams and iterators that need not end are \<open>partial_function\<close>s, whose missing result stands for
  no return as well as for an access outside the allocated memory; that they return is part of what
  is shown. The coders of nanopb count the nesting of messages, which the descriptors bound: \<open>d\<close> is
  enough for descriptors nested less than \<open>d\<close> deep (\<open>static_message\<close>). This predicate asks for at least one
  field in every message and for writable memory in the four bytes at \<open>pSize\<close> of every array, also of one of
  fixed count, which has no count there: without them the decoder does write elsewhere
  (\<open>empty_message_written\<close>, \<open>fixed_count_overrun\<close>). Bytes of an encoded message are
  counted below \<open>2 ^ 62\<close>.

  Not modelled. \<open>free\<close>, cleansing and sanitizer hooks have no functional effect on these states.
  A fresh block's contents and an allocator's refusals depend on the request size only. Locks are
  represented by making each critical section of pool.c one step; there is one pool, and an address
  is not reused. A callback that changes a hash table during its own iteration is not represented.
  Of \<open>BIO\<close>s, files, sockets, formatted output, method tables made at run time and the sharing of a
  \<open>BUF_MEM\<close> with the caller are left out. The text of error messages (\<open>ERR_error_string_n\<close> and the table search behind it) and \<open>BIO_snprintf\<close>
  are formatting. The Swift application has no C code. The other pods (abseil, gRPC, Firestore,
  LevelDB, the Google and Firebase utilities) and the rest of BoringSSL (numbers, curves,
  ciphers, digests, X.509, TLS) are outside; the object table fits the present style next. Of nanopb the
  user's callbacks and the allocator are parameters: fields behind pointers, callbacks and extensions
  are modelled, but the safety of the decoder is shown for static fields only, as the other ones rest
  on what the heap and the user's functions promise.
\<close>

section \<open>DER readers and writers\<close>

lemma der_fits_contents: "der_fits t \<Longrightarrow> length (der_contents t) < 2 ^ 32 \<and> der_enc t = der_element (der_root_tag t) (der_contents t)"
  by (cases t) auto

text \<open>
  C6: Writing a list of nested DER structures through nested child builders and reading the result
  with \<open>CBS_get_any_asn1\<close> gives each structure's tag and contents in order, with nothing left over.
\<close>

theorem der_tree_roundtrip:
  assumes "\<forall>t \<in> set ts. der_fits t" and "length (concat (map der_enc ts)) \<le> max_message"
    and "serves al" and "OPENSSL_malloc al' 32 \<noteq> None" and "unat cap \<le> 2 ^ 62"
  shows "\<exists>out. cbb_message al al' cap (concat (map (der_cmds 0) ts)) = Some out \<and>
    read_list CBS_get_any_asn1 (length ts) out = (Some (map (\<lambda>t. (der_contents t, der_root_tag t)) ts), [])"
proof -
  let ?out = "concat (map der_enc ts)"
  have run: "spec_run (concat (map (der_cmds 0) ts)) [(Root, [])] = spec_append ?out [(Root, [])]"
    using assms(1) by (intro spec_run_concat [of ts 0]) (auto simp: spec_run_der depth_is_def)
  have msg: "spec_message (concat (map (der_cmds 0) ts)) = Some ?out"
    by (simp add: spec_message_def spec_then_def run) (simp add: spec_append_def spec_flush_def)
  have "\<forall>c \<in> set (concat (map (der_cmds 0) ts)). cmd_ok c" using assms(1) der_cmds_ok by auto
  from message_complete [OF this assms(3-5)] msg assms(2)
  have "cbb_message al al' cap (concat (map (der_cmds 0) ts)) = Some ?out" by simp
  moreover have "read_list CBS_get_any_asn1 (length ts) ?out =
      (Some (map (\<lambda>t. (der_contents t, der_root_tag t)) ts), [])"
    using der_element.roundtrip_list [of "map (\<lambda>t. (der_contents t, der_root_tag t)) ts" "[]"]
      assms(1) der_fits_contents by (simp add: comp_def cong: map_cong)
  ultimately show ?thesis by blast
qed

theorem der_tree_roundtrip_witness:
  "\<exists>out. cbb_message zero_alloc zero_alloc 0 (der_cmds 0 (Node 0x20000010 [Prim 0x2 [5]])) = Some out \<and>
     fst (CBS_get_any_asn1 out) = Some ([0x02, 0x01, 0x05], 0x20000010)"
proof -
  let ?ts = "[Node 0x20000010 [Prim 0x2 [5]]]"
  have enc: "der_enc (Prim 0x2 [5]) = [0x02, 0x01, 0x05]"
    by (simp add: der_element_def der_header_def der_len_def der_tag_def CBS_ASN1_TAG_SHIFT_def
        CBS_ASN1_TAG_NUMBER_MASK_def Let_def)
  have "\<forall>t \<in> set ?ts. der_fits t" using enc by simp
  moreover have "length (concat (map der_enc ?ts)) \<le> max_message"
    using enc by (simp add: der_element_def max_message_def le_trans [OF conjunct2 [OF length_der_header]])
  ultimately obtain out where "cbb_message zero_alloc zero_alloc 0 (concat (map (der_cmds 0) ?ts)) = Some out"
    "read_list CBS_get_any_asn1 (length ?ts) out = (Some (map (\<lambda>t. (der_contents t, der_root_tag t)) ?ts), [])"
    using der_tree_roundtrip [of ?ts zero_alloc zero_alloc 0] zero_alloc_serves zero_alloc_malloc [of 32] by auto
  then show ?thesis using enc by (auto split: prod.splits option.splits)
qed

text \<open>
  C7: \<open>CBS_get_any_asn1\<close> accepts an input exactly when it starts with the DER encoding of an
  element with contents below \<open>2 ^ 32\<close> bytes, and yields that element's contents and tag: minimal
  identifier and length octets are enforced and nothing else is refused.
\<close>

theorem get_any_asn1_exact:
  "CBS_get_any_asn1 s = (Some (c, tag), t) \<longleftrightarrow> s = der_element tag c @ t \<and> length c < 2 ^ 32"
proof
  assume r: "CBS_get_any_asn1 s = (Some (c, tag), t)"
  then obtain e t' where e: "CBS_get_any_asn1_element s = (Some e, t')"
    by (auto simp: CBS_get_any_asn1_def elim: rbind_SomeE)
  obtain tag' c' where s: "s = der_element tag' c' @ t'" "length c' < 2 ^ 32"
    using e by (rule get_element_canonical)
  with r show "s = der_element tag c @ t \<and> length c < 2 ^ 32" by (simp add: get_any_asn1_der)
qed (simp add: get_any_asn1_der)

text \<open>
  C8: The base-128 reader accepts exactly the encodings the writer produces, one for each 64-bit value.
\<close>

theorem parse_base128_exact:
  "parse_base128_integer s = (Some v, t) \<longleftrightarrow> s = base128_enc v @ t"
  using parse_base128_SomeE [of s v t] parse_base128_enc [of v t] by auto

text \<open>
  C9: \<open>CBS_get_asn1_uint64\<close> reads exactly the INTEGERs \<open>CBB_add_asn1_uint64\<close> writes: one encoding
  for each 64-bit value.
\<close>

theorem get_asn1_uint64_exact:
  "CBS_get_asn1_uint64 s = (Some v, t) \<longleftrightarrow>
     s = der_element CBS_ASN1_INTEGER (uint64_content v 8 False) @ t"
proof
  assume r: "CBS_get_asn1_uint64 s = (Some v, t)"
  then obtain c where c: "CBS_get_asn1 CBS_ASN1_INTEGER s = (Some c, t)"
    by (auto simp: CBS_get_asn1_uint64_def elim!: rbind_SomeE split: if_splits option.splits)
  then have s: "s = der_element CBS_ASN1_INTEGER c @ t" "length c < 2 ^ 32" using get_asn1_SomeE by auto
  with r have "CBS_is_unsigned_asn1_integer c" "be_nat c = unat v"
    by (auto simp: get_asn1_uint64_der unat_of_nat_u64_small split: if_splits)
  with s(1) show "s = der_element CBS_ASN1_INTEGER (uint64_content v 8 False) @ t"
    by (metis uint64_content_unique)
qed (simp add: get_asn1_uint64_content)

section \<open>Strings and secrets\<close>

text \<open>
  C26: \<open>OPENSSL_strlcpy\<close> with a buffer of at least one byte never writes past the size it is given,
  always leaves a terminated string there, the longest prefix of the source that fits, and returns
  the length that tells whether it was cut.
\<close>

theorem strlcpy_bounded:
  assumes "OPENSSL_strlcpy dst src n = (dst', r)" and "0 < n" and "n \<le> length dst"
  shows "cstr (take n dst') = take (n - 1) (cstr src) \<and> 0 \<in> set (take n dst') \<and> drop n dst' = drop n dst \<and>
    length dst' = length dst \<and> (r < n \<longleftrightarrow> cstr (take n dst') = cstr src)"
proof -
  let ?c = "take (n - 1) (cstr src)"
  have eq: "dst' = write_at 0 (?c @ [0]) dst" "r = strlen src" using assms OPENSSL_strlcpy_eq by auto
  have len: "length (?c @ [0]) \<le> n" using assms(2) by simp
  have "take n dst' = ?c @ [0] @ take (n - length (?c @ [0])) (drop (length (?c @ [0])) dst)"
    using len assms(2,3) by (simp add: eq(1) write_at_def take_Cons' Suc_le_eq) (use assms(2) in arith)
  moreover have "cstr (xs @ 0 # ys) = xs" if "0 \<notin> set xs" for xs ys
    using that by (induction xs) auto
  moreover have "0 \<notin> set (cstr src)" by (auto simp: cstr_def dest: set_takeWhileD)
  then have "0 \<notin> set ?c" by (auto dest: in_set_takeD)
  ultimately have c: "cstr (take n dst') = ?c" "0 \<in> set (take n dst')" by simp_all
  have "r < n \<longleftrightarrow> ?c = cstr src"
    using assms(2) by (auto simp: eq(2) strlen_def take_all_iff)
  moreover have "drop n dst' = drop n dst" "length dst' = length dst"
    using len assms(2,3) by (simp_all add: eq(1) write_at_def drop_Cons') (use assms(2) in arith)
  ultimately show ?thesis using c by simp
qed

theorem strlcpy_witness:
  "cstr (take 3 (fst (OPENSSL_strlcpy [9, 9, 9, 9] [1, 2, 3, 0] 3))) = [1, 2]"
  using strlcpy_bounded [of "[9, 9, 9, 9]" "[1, 2, 3, 0]" 3] by (cases "OPENSSL_strlcpy [9, 9, 9, 9] [1, 2, 3, 0] 3") simp

text \<open>
  C28: The branch-free comparisons give all ones exactly when the comparison holds on the unsigned
  values, and selecting by such a mask is the conditional; two buffers compare equal without
  branching exactly when their bytes are equal.
\<close>

theorem constant_time_compares:
  "constant_time_lt_w a b = (if a < b then -1 else 0) \<and> constant_time_ge_w a b = (if a \<ge> b then -1 else 0) \<and>
   constant_time_eq_w a b = (if a = b then -1 else 0) \<and> constant_time_is_zero_w a = (if a = 0 then -1 else 0) \<and>
   constant_time_select_w (constant_time_lt_w a b) x y = (if a < b then x else y) \<and>
   constant_time_select_int (constant_time_eq_w a b) i j = (if a = b then i else j) \<and>
   (CRYPTO_memcmp (map fst ps) (map snd ps) (length ps) = 0 \<longleftrightarrow> map fst ps = map snd ps)"
  unfolding lt_w_eq ge_w_eq eq_w_eq is_zero_w_eq select_w_eq select_int_eq
  by (simp add: mask_w_def CRYPTO_memcmp_eq_0)

section \<open>Characters\<close>

text \<open>
  C21: The UTF-8 reader accepts exactly the shortest encodings of the code points that are valid and
  no noncharacters, and leaves what follows; the length function gives the encoding's length.
\<close>

theorem get_utf8_exact:
  "(cbs_get_utf8 s = (Some u, t) \<longleftrightarrow> is_valid_code_point u \<and> s = utf8_enc u @ t) \<and>
   length (utf8_enc u) = cbb_get_utf8_len u"
  by (simp add: utf8_exact length_utf8_enc)

text \<open>
  C22: A character written to an open builder in UTF-8 is read back by the UTF-8 reader from the
  bytes that were added, and nothing else was added or changed.
\<close>

theorem add_utf8_roundtrip:
  assumes "cbb_repr S F" and "depth_is d F" and "cbb_add_utf8 al d u S = (True, S')"
  shows "\<exists>bs. CBB_data d S' = CBB_data d S @ bs \<and> cbs_get_utf8 bs = (Some u, [])"
proof -
  obtain F' where F': "spec_char is_valid_code_point utf8_enc u F = Some F'" "cbb_repr S' F'"
    by (rule implements_sound [OF implements_utf8 assms(1,3,2)])
  have "F \<noteq> []" using assms(2) by (auto simp: depth_is_def)
  then have u: "is_valid_code_point u" and F'_eq: "F' = butlast F @ [(fst (last F), snd (last F) @ utf8_enc u)]"
    using F'(1) by (auto simp: spec_char_def spec_append_def split: if_splits)
  then have "depth_is d F'" using assms(2) by (simp add: depth_is_def)
  from CBB_data_repr [OF F'(2) this] CBB_data_repr [OF assms(1,2)] u show ?thesis
    by (simp add: F'_eq utf8_exact)
qed

theorem add_utf8_witness:
  "\<exists>S' bs. cbb_add_utf8 zero_alloc 0 0xe9 (root_builder [1] 1) = (True, S') \<and> CBB_data 0 S' = [1] @ bs \<and>
     cbs_get_utf8 bs = (Some 0xe9, [])"
proof -
  have "cbb_repr (root_builder [1] 1) [(Root, [1])]"
    by (simp add: cbb_repr_def root_builder_def buf_ok_def valid_bytes_def lay_def)
  moreover have "depth_is 0 [(Root, [1])]" by (simp add: depth_is_def)
  moreover have "fst (cbb_add_utf8 zero_alloc 0 0xe9 (root_builder [1] 1))" by code_simp
  then obtain S' where "cbb_add_utf8 zero_alloc 0 0xe9 (root_builder [1] 1) = (True, S')"
    by (cases "cbb_add_utf8 zero_alloc 0 0xe9 (root_builder [1] 1)") auto
  moreover have "CBB_data 0 (root_builder [1] 1) = [1]" by (simp add: root_builder_data)
  ultimately show ?thesis using add_utf8_roundtrip by metis
qed

end
